(* ===== verification/Prelude.thy ===== *)
theory Prelude
  imports Main "HOL-Library.Word" "HOL-Library.Monad_Syntax"
begin

text \<open>
  Vocabulary shared by every component: the machine integer types of \<^verbatim>\<open>sqliteInt.h\<close>,
  bounds-checked access to a byte buffer, and the generic facts about words, lists and
  options that the component proofs use.

  C objects are rendered as follows. A pointer into a buffer is the list of the bytes
  from that pointer to the end of the buffer; a read past the end is undefined behaviour
  in C and is \<^const>\<open>None\<close> here. An unsigned integer is a word of its width and wraps; a
  signed 64-bit integer is a word of that width read with \<^const>\<open>sint\<close>; an \<^verbatim>\<open>int\<close> that
  never comes near its bounds is a \<^typ>\<open>nat\<close> or an \<^typ>\<open>int\<close>.
\<close>

unbundle bit_operations_syntax

type_synonym u8 = "8 word"
type_synonym u16 = "16 word"
type_synonym u32 = "32 word"
type_synonym u64 = "64 word"
type_synonym i64 = "64 word"
type_synonym bytes = "u8 list"

named_theorems code_defs \<open>definitions of the model that a proof unfolds\<close>

section \<open>Reading a buffer\<close>

definition rd :: "bytes \<Rightarrow> nat \<Rightarrow> u8 option" where
  "rd p i = (if i < length p then Some (p ! i) else None)"

lemma rd_Nil [simp]: "rd [] i = None"
  by (simp add: rd_def)

lemma rd_Cons_0 [simp]: "rd (b # p) 0 = Some b"
  by (simp add: rd_def)

lemma rd_Cons_Suc [simp]: "rd (b # p) (Suc i) = rd p i"
  by (simp add: rd_def)

lemma rd_Cons_numeral [simp]: "rd (b # p) (numeral k) = rd p (pred_numeral k)"
  by (simp add: rd_def numeral_eq_Suc)

lemma rd_append_left: "i < length p \<Longrightarrow> rd (p @ q) i = rd p i"
  by (simp add: rd_def nth_append)

lemma rd_None_iff: "rd p i = None \<longleftrightarrow> length p \<le> i"
  by (auto simp: rd_def)

lemma rd_Some_iff: "rd p i = Some b \<longleftrightarrow> i < length p \<and> b = p ! i"
  by (auto simp: rd_def)

section \<open>Bits of words\<close>

lemma and_128_eq_0_iff8: "(w :: u8) AND 128 = 0 \<longleftrightarrow> \<not> bit w 7"
proof -
  have "(w AND 128 = 0) = (\<not> bit w 7)"
    using and_exp_eq_0_iff_not_bit [of w 7] by simp
  then show ?thesis .
qed

lemma and_128_eq_0_iff32: "(w :: u32) AND 128 = 0 \<longleftrightarrow> \<not> bit w 7"
  using and_exp_eq_0_iff_not_bit [of w 7] by simp

lemma bit8_high: "7 < n \<Longrightarrow> \<not> bit (w :: u8) n"
  by (auto dest: bit_imp_le_length)

lemma bit64_high: "63 < n \<Longrightarrow> \<not> bit (w :: u64) n"
  by (auto dest: bit_imp_le_length)

text \<open>Two words are equal when they agree at every bit position below their width; the
  positions are written out so that the simplifier decides each one.\<close>

lemma word64_eqI:
  fixes x y :: u64
  assumes "\<forall>n \<in> set [0..<64]. bit x n = bit y n"
  shows "x = y"
  using assms by (intro bit_word_eqI) auto

lemma word8_eqI:
  fixes x y :: u8
  assumes "\<forall>n \<in> set [0..<8]. bit x n = bit y n"
  shows "x = y"
  using assms by (intro bit_word_eqI) auto

section \<open>Allocation\<close>

text \<open>Where the failure of an allocation matters, the allocator is the list of its next answers.
  It is asked in the order of the code, and it has memory once the list is used up.\<close>

type_synonym allocator = "bool list"

definition sqlite3_malloc :: "allocator \<Rightarrow> bool \<times> allocator" where
  "sqlite3_malloc m = (case m of [] \<Rightarrow> (True, []) | b # m \<Rightarrow> (b, m))"

lemma malloc_never_fails: "sqlite3_malloc m = (ok, m') \<Longrightarrow> False \<notin> set m \<Longrightarrow> ok \<and> False \<notin> set m'"
  by (auto simp: sqlite3_malloc_def split: list.splits)

end
