(* ===== verification/Varint.thy ===== *)
theory Varint
  imports Prelude
begin

text \<open>
  The variable-length integer codec of \<^verbatim>\<open>src/sqlite/src/util.c\<close>: \<^verbatim>\<open>sqlite3PutVarint\<close>,
  \<^verbatim>\<open>sqlite3GetVarint\<close>, \<^verbatim>\<open>sqlite3GetVarint32\<close> and \<^verbatim>\<open>sqlite3VarintLen\<close>, with the
  big-endian four-byte accessors beside them. The writers return the bytes they store at
  \<^verbatim>\<open>p\<close> (the C return value is their number); the readers return the decoded value and the
  number of bytes consumed, or \<^const>\<open>None\<close> where the C code would read past the buffer.
  The unrolled reader is kept register by register (\<^verbatim>\<open>a\<close>, \<^verbatim>\<open>b\<close> and \<^verbatim>\<open>s\<close> are 32-bit)
  and is proved equal to a byte-at-a-time reference decoder.
\<close>

section \<open>Writing\<close>

text \<open>The nine-byte case of \<^verbatim>\<open>putVarint64\<close> fills \<^verbatim>\<open>p[7]\<close> down to \<^verbatim>\<open>p[0]\<close>: the loop below
  returns the bytes \<^verbatim>\<open>p[0..k-1]\<close> written by \<^verbatim>\<open>k\<close> iterations.\<close>

fun putVarint64_fill :: "nat \<Rightarrow> u64 \<Rightarrow> bytes" where
  "putVarint64_fill 0 v = []"
| "putVarint64_fill (Suc k) v =
     putVarint64_fill k (drop_bit 7 v) @ [ucast ((v AND 0x7f) OR 0x80)]"

text \<open>The \<^verbatim>\<open>do\<close> loop of the general case fills \<^verbatim>\<open>buf\<close> with the least significant group
  first.\<close>

function putVarint64_buf :: "u64 \<Rightarrow> bytes" where
  "putVarint64_buf v =
     (let b = ucast ((v AND 0x7f) OR 0x80); v' = drop_bit 7 v
      in b # (if v' \<noteq> 0 then putVarint64_buf v' else []))"
  by pat_completeness auto

lemma drop_bit7_less: "drop_bit 7 (v :: u64) \<noteq> 0 \<Longrightarrow> unat (drop_bit 7 v) < unat v"
proof -
  assume "drop_bit 7 v \<noteq> 0"
  then have "unat (drop_bit 7 v) \<noteq> 0" by (simp only: unat_eq_0 not_False_eq_True)
  then have "unat v div 128 \<noteq> 0" by (simp only: unat_drop_bit_eq) (simp add: drop_bit_eq_div)
  then have "unat v div 128 < unat v" by (intro div_less_dividend) (auto intro: gr0I)
  then show ?thesis by (simp only: unat_drop_bit_eq) (simp add: drop_bit_eq_div)
qed

termination putVarint64_buf
  by (relation "measure unat") (simp_all only: wf_measure in_measure drop_bit7_less simp_thms)

declare putVarint64_buf.simps [simp del]

definition putVarint64 :: "u64 \<Rightarrow> bytes" where
  "putVarint64 v =
     (if v AND push_bit 32 0xff000000 \<noteq> 0 then
        putVarint64_fill 8 (drop_bit 8 v) @ [ucast v]
      else
        let buf = putVarint64_buf v;
            buf = buf[0 := (buf ! 0) AND 0x7f]
        in rev buf)"

definition putVarint :: "u64 \<Rightarrow> bytes" where
  "putVarint v =
     (if v \<le> 0x7f then [ucast (v AND 0x7f)]
      else if v \<le> 0x3fff then
        [ucast ((drop_bit 7 v AND 0x7f) OR 0x80), ucast (v AND 0x7f)]
      else putVarint64 v)"

text \<open>The \<^verbatim>\<open>putVarint32\<close> macro stores a small value inline and calls the function for the
  rest.\<close>

definition putVarint32 :: "u32 \<Rightarrow> bytes" where
  "putVarint32 B = (if B < 0x80 then [ucast B] else putVarint (ucast B))"

text \<open>The \<^verbatim>\<open>i<9\<close> conjunct of the length loop is the \<^verbatim>\<open>ALWAYS\<close> macro's argument and is
  evaluated in a release build.\<close>

fun varintLen_loop :: "nat \<Rightarrow> u64 \<Rightarrow> nat \<Rightarrow> nat" where
  "varintLen_loop 0 v i = i"
| "varintLen_loop (Suc k) v i =
     (let i = i + 1; v = drop_bit 7 v
      in if v \<noteq> 0 \<and> i < 9 then varintLen_loop k v i else i)"

definition varintLen :: "u64 \<Rightarrow> nat" where
  "varintLen v = varintLen_loop 9 v 0"

section \<open>Reading\<close>

abbreviation SLOT_2_0 :: u32 where
  "SLOT_2_0 \<equiv> 0x001fc07f"

abbreviation SLOT_4_2_0 :: u32 where
  "SLOT_4_2_0 \<equiv> 0xf01fc07f"

abbreviation rd32 :: "bytes \<Rightarrow> nat \<Rightarrow> u32 option" where
  "rd32 p i \<equiv> map_option ucast (rd p i)"

abbreviation hi_lo :: "u32 \<Rightarrow> u32 \<Rightarrow> u64" where
  "hi_lo s a \<equiv> push_bit 32 (ucast s) OR ucast a"

definition getVarint :: "bytes \<Rightarrow> (u64 \<times> nat) option" where
  "getVarint p = do {
     a \<leftarrow> rd32 p 0;
     if a AND 0x80 = 0 then Some (ucast a, 1) else do {
     b \<leftarrow> rd32 p 1;
     if b AND 0x80 = 0 then
       let a = a AND 0x7f; a = push_bit 7 a; a = a OR b in Some (ucast a, 2)
     else do {
     x \<leftarrow> rd32 p 2;
     let a = push_bit 14 a; a = a OR x in
     if a AND 0x80 = 0 then
       let a = a AND SLOT_2_0; b = b AND 0x7f; b = push_bit 7 b; a = a OR b
       in Some (ucast a, 3)
     else do {
     let a = a AND SLOT_2_0;
     x \<leftarrow> rd32 p 3;
     let b = push_bit 14 b; b = b OR x in
     if b AND 0x80 = 0 then
       let b = b AND SLOT_2_0; a = push_bit 7 a; a = a OR b in Some (ucast a, 4)
     else do {
     let b = b AND SLOT_2_0;
     let s = a;
     x \<leftarrow> rd32 p 4;
     let a = push_bit 14 a; a = a OR x in
     if a AND 0x80 = 0 then
       let b = push_bit 7 b; a = a OR b; s = drop_bit 18 s in Some (hi_lo s a, 5)
     else do {
     let s = push_bit 7 s;
     let s = s OR b;
     x \<leftarrow> rd32 p 5;
     let b = push_bit 14 b; b = b OR x in
     if b AND 0x80 = 0 then
       let a = a AND SLOT_2_0; a = push_bit 7 a; a = a OR b; s = drop_bit 18 s
       in Some (hi_lo s a, 6)
     else do {
     x \<leftarrow> rd32 p 6;
     let a = push_bit 14 a; a = a OR x in
     if a AND 0x80 = 0 then
       let a = a AND SLOT_4_2_0; b = b AND SLOT_2_0; b = push_bit 7 b; a = a OR b;
           s = drop_bit 11 s
       in Some (hi_lo s a, 7)
     else do {
     let a = a AND SLOT_2_0;
     x \<leftarrow> rd32 p 7;
     let b = push_bit 14 b; b = b OR x in
     if b AND 0x80 = 0 then
       let b = b AND SLOT_4_2_0; a = push_bit 7 a; a = a OR b; s = drop_bit 4 s
       in Some (hi_lo s a, 8)
     else do {
     x \<leftarrow> rd32 p 8;
     let a = push_bit 15 a;
     let a = a OR x;
     let b = b AND SLOT_2_0;
     let b = push_bit 8 b;
     let a = a OR b;
     let s = push_bit 4 s;
     y \<leftarrow> rd32 p 4;
     let b = y AND 0x7f;
     let b = drop_bit 3 b;
     let s = s OR b;
     Some (hi_lo s a, 9)
     }}}}}}}}}"

text \<open>\<^verbatim>\<open>SQLITE_MAX_U32\<close> is the mask of 32 ones. The \<^verbatim>\<open>getVarint32\<close> macro handles the
  one-byte case itself; the function it calls repeats it only when the macro is absent.\<close>

definition sqlite3GetVarint32 :: "bytes \<Rightarrow> (u32 \<times> nat) option" where
  "sqlite3GetVarint32 p = do {
     a \<leftarrow> rd32 p 0;
     b \<leftarrow> rd32 p 1;
     if b AND 0x80 = 0 then
       let a = a AND 0x7f; a = push_bit 7 a in Some (a OR b, 2)
     else do {
     x \<leftarrow> rd32 p 2;
     let a = push_bit 14 a; a = a OR x in
     if a AND 0x80 = 0 then
       let a = a AND (push_bit 14 0x7f OR 0x7f); b = b AND 0x7f; b = push_bit 7 b
       in Some (a OR b, 3)
     else do {
     (v64, n) \<leftarrow> getVarint p;
     if v64 AND 0xffffffff \<noteq> v64 then Some (0xffffffff, n) else Some (ucast v64, n)
     }}}"

definition getVarint32 :: "bytes \<Rightarrow> (u32 \<times> nat) option" where
  "getVarint32 A = do {
     x \<leftarrow> rd A 0;
     if x < 0x80 then Some (ucast x, 1) else sqlite3GetVarint32 A
   }"


text \<open>The big-endian four-byte accessors.\<close>

definition get4byte :: "bytes \<Rightarrow> u32 option" where
  "get4byte p = do {
     a \<leftarrow> rd32 p 0; b \<leftarrow> rd32 p 1; c \<leftarrow> rd32 p 2; d \<leftarrow> rd32 p 3;
     Some (push_bit 24 a OR push_bit 16 b OR push_bit 8 c OR d)
   }"

definition put4byte :: "u32 \<Rightarrow> bytes" where
  "put4byte v = [ucast (drop_bit 24 v), ucast (drop_bit 16 v), ucast (drop_bit 8 v), ucast v]"

section \<open>The reference decoder\<close>

fun varint_ref :: "nat \<Rightarrow> u64 \<Rightarrow> bytes \<Rightarrow> (u64 \<times> nat) option" where
  "varint_ref i acc [] = None"
| "varint_ref i acc (b # bs) =
     (if i = 8 then Some (push_bit 8 acc OR ucast b, 9)
      else if bit b 7 then varint_ref (i + 1) (push_bit 7 acc OR ucast (b AND 0x7f)) bs
      else Some (push_bit 7 acc OR ucast b, i + 1))"


text \<open>Every buffer is a run of continuation bytes that ends with the buffer, with a byte
  whose top bit is clear, or with a ninth byte.\<close>

lemma varint_cases [case_names short stop nine]:
  assumes "\<And>bs. length bs \<le> 8 \<Longrightarrow> list_all (\<lambda>b. bit b 7) bs \<Longrightarrow> P bs"
    and "\<And>bs b r. length bs \<le> 7 \<Longrightarrow> list_all (\<lambda>b. bit b 7) bs \<Longrightarrow> \<not> bit b 7 \<Longrightarrow> P (bs @ b # r)"
    and "\<And>bs b r. length bs = 8 \<Longrightarrow> list_all (\<lambda>b. bit b 7) bs \<Longrightarrow> P (bs @ b # r)"
  shows "P (p :: bytes)"
proof -
  define bs where "bs = takeWhile (\<lambda>b. bit b 7) p"
  define r where "r = dropWhile (\<lambda>b. bit b 7) p"
  have p: "p = bs @ r" by (simp add: bs_def r_def)
  have bs: "list_all (\<lambda>b. bit b 7) bs"
    by (auto simp: bs_def list_all_iff dest: set_takeWhileD)
  show ?thesis
  proof (cases "length bs \<le> 8")
    case True
    show ?thesis
    proof (cases r)
      case Nil
      with p bs True assms(1) show ?thesis by simp
    next
      case (Cons b r')
      then have "\<not> bit b 7"
        using hd_dropWhile [of "\<lambda>b. bit b 7" p] by (simp add: r_def)
      with p bs True Cons assms(2,3) show ?thesis by (cases "length bs = 8") auto
    qed
  next
    case False
    then have "p = take 8 p @ p ! 8 # drop 9 p"
      using p Cons_nth_drop_Suc [of 8 p] by simp
    moreover have "length (take 8 p) = 8" using False p by simp
    moreover have "list_all (\<lambda>b. bit b 7) (take 8 p)"
      using False p bs by (auto simp: list_all_iff dest: in_set_takeD)
    ultimately show ?thesis using assms(3) by metis
  qed
qed

lemma length_cases8:
  "length xs \<le> 8 \<Longrightarrow> length xs = 0 \<or> length xs = 1 \<or> length xs = 2 \<or> length xs = 3
     \<or> length xs = 4 \<or> length xs = 5 \<or> length xs = 6 \<or> length xs = 7 \<or> length xs = 8"
  by linarith

lemmas reader_simps = getVarint_def Let_def and_128_eq_0_iff32 bit_simps

lemmas position_simps = upt_conv_Cons bit_simps bit8_high

lemma length_numeral_conv:
  "length xs = numeral k \<longleftrightarrow> (\<exists>y ys. xs = y # ys \<and> length ys = pred_numeral k)"
  by (simp add: numeral_eq_Suc length_Suc_conv)


lemma getVarint_stop_0123:
  assumes "length bs \<in> {0, 1, 2, 3}" "list_all (\<lambda>b. bit b 7) bs" "\<not> bit b 7"
  shows "getVarint (bs @ b # r) = varint_ref 0 0 (bs @ b # r)"
  by (insert assms, simp only: insert_iff empty_iff simp_thms, elim disjE;
      clarsimp simp: length_numeral_conv length_Suc_conv; simp add: reader_simps;
      rule word64_eqI; simp add: position_simps del: upt_Suc; auto simp: numeral_eq_Suc)

lemma getVarint_stop_45:
  assumes "length bs \<in> {4, 5}" "list_all (\<lambda>b. bit b 7) bs" "\<not> bit b 7"
  shows "getVarint (bs @ b # r) = varint_ref 0 0 (bs @ b # r)"
  by (insert assms, simp only: insert_iff empty_iff simp_thms, elim disjE;
      clarsimp simp: length_numeral_conv length_Suc_conv; simp add: reader_simps;
      rule word64_eqI; simp add: position_simps del: upt_Suc; auto simp: numeral_eq_Suc)

lemma getVarint_stop_67:
  assumes "length bs \<in> {6, 7}" "list_all (\<lambda>b. bit b 7) bs" "\<not> bit b 7"
  shows "getVarint (bs @ b # r) = varint_ref 0 0 (bs @ b # r)"
  by (insert assms, simp only: insert_iff empty_iff simp_thms, elim disjE;
      clarsimp simp: length_numeral_conv length_Suc_conv; simp add: reader_simps;
      rule word64_eqI; simp add: position_simps del: upt_Suc; auto simp: numeral_eq_Suc)

lemma getVarint_nine:
  assumes "length bs = 8" "list_all (\<lambda>b. bit b 7) bs"
  shows "getVarint (bs @ b # r) = varint_ref 0 0 (bs @ b # r)"
  by (insert assms, clarsimp simp: length_numeral_conv length_Suc_conv; simp add: reader_simps;
      rule word64_eqI; simp add: position_simps del: upt_Suc; auto simp: numeral_eq_Suc)

lemma getVarint_stop:
  assumes "length bs \<le> 7" "list_all (\<lambda>b. bit b 7) bs" "\<not> bit b 7"
  shows "getVarint (bs @ b # r) = varint_ref 0 0 (bs @ b # r)"
proof -
  consider "length bs \<in> {0, 1, 2, 3}" | "length bs \<in> {4, 5}" | "length bs \<in> {6, 7}"
    using length_cases8 [of bs] assms(1) by auto
  then show ?thesis
    by cases (simp_all only: getVarint_stop_0123 getVarint_stop_45 getVarint_stop_67 assms simp_thms)
qed

lemma getVarint_short:
  assumes "length bs \<le> 8" "list_all (\<lambda>b. bit b 7) bs"
  shows "getVarint bs = varint_ref 0 0 bs"
  by (insert length_cases8 [OF assms(1)] assms, elim disjE;
      clarsimp simp: length_numeral_conv length_Suc_conv; simp add: reader_simps)

text \<open>The register-level reader computes what the byte-at-a-time decoder computes, on every
  buffer.\<close>

lemma getVarint_ref: "getVarint p = varint_ref 0 0 p"
  by (induction p rule: varint_cases)
    (simp_all add: getVarint_short getVarint_stop getVarint_nine)

section \<open>Round trips\<close>

lemma and_7f: "w AND 0x7f = take_bit 7 (w :: 'a::len word)"
  by (simp add: take_bit_eq_mask mask_eq_exp_minus_1)

lemma or_80: "w OR 0x80 = set_bit 7 (w :: 'a::len word)"
  by (simp add: set_bit_eq_or push_bit_eq_mult)

lemma shift7_or: "push_bit 7 (drop_bit 7 v) OR take_bit 7 v = (v :: u64)"
  by (rule bit_word_eqI) (auto simp: bit_simps)

lemma cont_byte:
  fixes v :: u64
  defines "b \<equiv> ucast (set_bit 7 (take_bit 7 v)) :: u8"
  shows "bit b 7" "ucast (take_bit 7 b) = take_bit 7 v"
proof -
  show "bit b 7" by (simp add: b_def bit_simps)
  show "ucast (take_bit 7 b) = take_bit 7 v"
    by (rule bit_word_eqI) (auto simp: b_def bit_simps)
qed

lemma last_byte: "\<not> bit (ucast (take_bit 7 v) :: u8) 7" "ucast (ucast (take_bit 7 v) :: u8) = take_bit 7 (v :: u64)"
  by (auto simp: bit_simps intro!: bit_word_eqI)

lemma last_byte_and: "ucast (set_bit 7 (take_bit 7 v)) AND 0x7f = (ucast (take_bit 7 v) :: u8)" for v :: u64
  by (simp add: and_7f) (auto simp: bit_simps intro!: bit_word_eqI)

lemmas byte_simps = and_7f or_80

lemma take_bit7_8: "take_bit 7 w = w AND 0x7f" for w :: u8
  by (simp add: and_7f)

lemma putVarint64_buf_step:
  "putVarint64_buf v = ucast (set_bit 7 (take_bit 7 v))
     # (if drop_bit 7 v \<noteq> 0 then putVarint64_buf (drop_bit 7 v) else [])"
  by (subst putVarint64_buf.simps) (simp add: byte_simps Let_def)

text \<open>Reading the continuation bytes of the general loop accumulates the value.\<close>

lemma varint_ref_buf:
  "i + length (putVarint64_buf v) \<le> 8 \<Longrightarrow>
   varint_ref i 0 (rev (putVarint64_buf v) @ r) = varint_ref (i + length (putVarint64_buf v)) v r"
proof (induction v arbitrary: r rule: putVarint64_buf.induct)
  case (1 v)
  show ?case
  proof (cases "drop_bit 7 v = 0")
    case True
    then have "take_bit 7 v = v" using shift7_or [of v] by simp
    with True 1 cont_byte [of v] show ?thesis
      by (simp add: putVarint64_buf_step [of v] byte_simps)
  next
    case False
    with 1 show ?thesis
      by (simp add: putVarint64_buf_step [of v] byte_simps cont_byte shift7_or)
  qed
qed

lemma length_putVarint64_fill [simp]: "length (putVarint64_fill k v) = k"
  by (induction k v rule: putVarint64_fill.induct) auto

lemma varint_ref_fill:
  "i + k \<le> 8 \<Longrightarrow>
   varint_ref i acc (putVarint64_fill k w @ r) =
   varint_ref (i + k) (push_bit (7 * k) acc OR take_bit (7 * k) w) r"
proof (induction k arbitrary: w r)
  case 0
  then show ?case by simp
next
  case (Suc k)
  have eq: "push_bit 7 (push_bit (7 * k) acc OR take_bit (7 * k) (drop_bit 7 w)) OR take_bit 7 w
      = push_bit (7 * Suc k) acc OR take_bit (7 * Suc k) w"
    by (rule bit_word_eqI) (auto simp: bit_simps)
  have "varint_ref i acc (putVarint64_fill (Suc k) w @ r) =
     varint_ref (i + Suc k)
       (push_bit 7 (push_bit (7 * k) acc OR take_bit (7 * k) (drop_bit 7 w)) OR take_bit 7 w) r"
    using Suc by (simp add: byte_simps cont_byte)
  then show ?case by (simp only: eq)
qed

lemma unat_drop_bit7: "unat (drop_bit 7 (v :: u64)) = unat v div 128"
  by (simp only: unat_drop_bit_eq) (simp add: drop_bit_eq_div)

lemma drop_bit7_eq_0: "drop_bit 7 (v :: u64) = 0 \<longleftrightarrow> unat v < 128"
  by (simp only: unat_eq_0 [symmetric] unat_drop_bit7) (simp add: div_eq_0_iff)

lemma length_putVarint64_buf: "unat v < 128 ^ Suc k \<Longrightarrow> length (putVarint64_buf v) \<le> Suc k"
proof (induction k arbitrary: v)
  case 0
  then have "drop_bit 7 v = 0" by (simp add: drop_bit7_eq_0)
  then show ?case by (simp add: putVarint64_buf_step [of v])
next
  case (Suc k)
  have "unat (drop_bit 7 v) < 128 ^ Suc k"
    using Suc.prems by (simp only: unat_drop_bit7) (simp add: div_less_iff_less_mult)
  then show ?case using Suc.IH by (simp add: putVarint64_buf_step [of v])
qed

lemma top_byte_clear: "v AND 0xff00000000000000 = 0 \<longleftrightarrow> unat (v :: u64) < 2 ^ 56"
proof -
  have "v AND 0xff00000000000000 = push_bit 56 (drop_bit 56 v)"
    by (rule word64_eqI) (simp add: upt_conv_Cons bit_simps del: upt_Suc; simp add: numeral_eq_Suc)
  also have "\<dots> = 0 \<longleftrightarrow> drop_bit 56 v = 0"
  proof -
    have "drop_bit 56 (push_bit 56 (drop_bit 56 v)) = drop_bit 56 v"
      by (rule bit_word_eqI) (auto simp: bit_simps dest: bit_imp_le_length)
    then show ?thesis by (metis drop_bit_of_0 push_bit_of_0)
  qed
  also have "\<dots> \<longleftrightarrow> unat v < 2 ^ 56"
    by (simp only: unat_eq_0 [symmetric] unat_drop_bit_eq) (simp add: drop_bit_eq_div div_eq_0_iff)
  finally show ?thesis .
qed

lemma putVarint64_buf_ne [simp]: "putVarint64_buf v \<noteq> []"
  by (simp add: putVarint64_buf_step [of v])

lemma getVarint_putVarint64: "getVarint (putVarint64 v @ r) = Some (v, length (putVarint64 v))"
proof (cases "unat v < 2 ^ 56")
  case True
  let ?w = "drop_bit 7 v"
  let ?hi = "if ?w \<noteq> 0 then rev (putVarint64_buf ?w) else []"
  have p: "putVarint64 v = ?hi @ [ucast (take_bit 7 v)]"
    using True by (simp add: putVarint64_def top_byte_clear putVarint64_buf_step [of v] last_byte_and)
  have "unat ?w < 128 ^ Suc 6"
    using True by (simp only: unat_drop_bit7) (simp add: div_less_iff_less_mult)
  then have "length (putVarint64_buf ?w) \<le> 7"
    using length_putVarint64_buf [of ?w 6] by simp
  then have "varint_ref 0 0 (?hi @ ucast (take_bit 7 v) # r) =
      varint_ref (length ?hi) ?w (ucast (take_bit 7 v) # r) \<and> length ?hi \<le> 7"
    using varint_ref_buf [of 0 ?w] by auto
  then show ?thesis
    by (simp add: getVarint_ref p last_byte shift7_or)
next
  case False
  have eq: "push_bit 8 (take_bit 56 (drop_bit 8 v)) OR ucast (ucast v :: u8) = v"
    by (rule bit_word_eqI) (auto simp: bit_simps)
  from False show ?thesis
    using varint_ref_fill [of 0 8 0 "drop_bit 8 v" "ucast v # r"] length_putVarint64_fill [of 8 "drop_bit 8 v"]
    by (simp add: getVarint_ref putVarint64_def top_byte_clear eq)
qed


lemma getVarint_putVarint: "getVarint (putVarint v @ r) = Some (v, length (putVarint v))"
proof -
  consider "v \<le> 0x7f" | "\<not> v \<le> 0x7f" "v \<le> 0x3fff" | "\<not> v \<le> 0x3fff" "\<not> v \<le> 0x7f" by blast
  then show ?thesis
  proof cases
    case 1
    then have "drop_bit 7 v = 0" by (simp add: drop_bit7_eq_0 word_le_nat_alt)
    then have "take_bit 7 v = v" using shift7_or [of v] by simp
    with 1 last_byte [of v] show ?thesis by (simp add: putVarint_def getVarint_ref byte_simps)
  next
    case 2
    let ?w = "drop_bit 7 v"
    have "unat ?w < 128"
      using 2 by (simp only: unat_drop_bit7) (simp add: word_le_nat_alt div_less_iff_less_mult)
    then have "drop_bit 7 ?w = 0" by (simp only: drop_bit7_eq_0)
    then have "take_bit 7 ?w = ?w" using shift7_or [of ?w] by simp
    with 2 last_byte [of v] cont_byte [of ?w] show ?thesis
      by (simp add: putVarint_def getVarint_ref byte_simps shift7_or)
  next
    case 3
    then show ?thesis by (simp add: putVarint_def getVarint_putVarint64)
  qed
qed

lemma getVarint_ref_length:
  "varint_ref i acc p = Some (v, n) \<Longrightarrow> i \<le> 8 \<Longrightarrow> i < n \<and> n \<le> 9 \<and> n \<le> i + length p"
proof (induction i acc p arbitrary: v n rule: varint_ref.induct)
  case (2 i acc b bs)
  then show ?case by (fastforce split: if_splits)
qed simp

lemma varintLen_loop_buf:
  "i + length (putVarint64_buf v) \<le> 9 \<Longrightarrow> length (putVarint64_buf v) \<le> k \<Longrightarrow>
   varintLen_loop k v i = i + length (putVarint64_buf v)"
proof (induction k arbitrary: v i)
  case 0
  then show ?case by simp
next
  case (Suc k)
  then show ?case
    by (cases "drop_bit 7 v = 0"; cases "putVarint64_buf (drop_bit 7 v)")
       (auto simp: putVarint64_buf_step [of v] Let_def)
qed

lemma varintLen_loop_big:
  "128 ^ k \<le> unat v \<Longrightarrow> i + k = 8 \<Longrightarrow> varintLen_loop (Suc k) v i = 9"
proof (induction k arbitrary: v i)
  case 0
  then show ?case by (simp add: Let_def)
next
  case (Suc k)
  then have "128 ^ k \<le> unat (drop_bit 7 v)"
    by (simp only: unat_drop_bit7) (simp add: less_eq_div_iff_mult_less_eq mult.commute)
  moreover from this have "drop_bit 7 v \<noteq> 0"
    by (metis le_zero_eq power_not_zero unat_0 zero_neq_numeral)
  ultimately show ?case using Suc.IH [of "drop_bit 7 v" "i + 1"] Suc.prems
    by (subst varintLen_loop.simps) (simp add: Let_def del: varintLen_loop.simps)
qed

lemma varintLen_loop_big': "n = Suc k \<Longrightarrow> 128 ^ k \<le> unat v \<Longrightarrow> i + k = 8 \<Longrightarrow> varintLen_loop n v i = 9"
  using varintLen_loop_big by simp

lemma varintLen_small: "unat v < 2 ^ 56 \<Longrightarrow> varintLen v = length (putVarint64_buf v)"
  using length_putVarint64_buf [of v 7] by (simp add: varintLen_def varintLen_loop_buf)

lemma varintLen_eq: "varintLen v = length (putVarint v)"
proof -
  consider "unat v < 128" | "\<not> unat v < 128" "unat v < 16384"
    | "\<not> unat v < 16384" "unat v < 2 ^ 56" | "\<not> unat v < 2 ^ 56" by linarith
  then show ?thesis
  proof cases
    case 1
    then have "length (putVarint64_buf v) = 1"
      by (subst putVarint64_buf_step) (simp add: drop_bit7_eq_0)
    with 1 show ?thesis by (simp add: varintLen_small putVarint_def word_le_nat_alt)
  next
    case 2
    then have "unat (drop_bit 7 v) < 128"
      by (simp add: unat_drop_bit7 div_less_iff_less_mult)
    then have "drop_bit 7 (drop_bit 7 v) = 0" by (simp only: drop_bit7_eq_0)
    with 2 have "length (putVarint64_buf v) = 2"
      by (subst putVarint64_buf_step, subst putVarint64_buf_step) (simp add: drop_bit7_eq_0)
    with 2 show ?thesis by (simp add: varintLen_small putVarint_def word_le_nat_alt)
  next
    case 3
    then show ?thesis
      by (simp add: varintLen_small putVarint_def putVarint64_def top_byte_clear Let_def word_le_nat_alt)
  next
    case 4
    have "varintLen v = 9"
      unfolding varintLen_def by (rule varintLen_loop_big' [where k = 8]) (use 4 in simp_all)
    with 4 show ?thesis
      using length_putVarint64_fill [of 8 "drop_bit 8 v"]
      by (simp add: putVarint_def putVarint64_def top_byte_clear word_le_nat_alt)
  qed
qed

lemma getVarint_first:
  assumes "rd p 0 = Some a"
  shows getVarint_first1: "\<not> bit a 7 \<Longrightarrow> getVarint p = Some (ucast (ucast a :: u32), 1)"
    and getVarint_first2: "bit a 7 \<Longrightarrow> rd p 1 = Some b \<Longrightarrow> \<not> bit b 7 \<Longrightarrow>
      getVarint p = Some (ucast (push_bit 7 (ucast a AND 0x7f) OR ucast b :: u32), 2)"
    and getVarint_first3: "bit a 7 \<Longrightarrow> rd p 1 = Some b \<Longrightarrow> bit b 7 \<Longrightarrow> rd p 2 = Some x \<Longrightarrow> \<not> bit x 7 \<Longrightarrow>
      getVarint p = Some (ucast (((push_bit 14 (ucast a) OR ucast x) AND SLOT_2_0) OR push_bit 7 (ucast b AND 0x7f) :: u32), 3)"
    and getVarint_end1: "bit a 7 \<Longrightarrow> rd p 1 = None \<Longrightarrow> getVarint p = None"
    and getVarint_end2: "bit a 7 \<Longrightarrow> rd p 1 = Some b \<Longrightarrow> bit b 7 \<Longrightarrow> rd p 2 = None \<Longrightarrow> getVarint p = None"
  using assms by (simp_all add: getVarint_def Let_def and_128_eq_0_iff32 bit_simps)

text \<open>What the 32-bit reader makes of a 64-bit value: everything above \<^verbatim>\<open>SQLITE_MAX_U32\<close>
  becomes that constant.\<close>

definition sat32 :: "u64 \<Rightarrow> u32" where
  "sat32 v = (if v > 0xffffffff then 0xffffffff else ucast v)"

lemma and_ffffffff: "v AND 0xffffffff \<noteq> v \<longleftrightarrow> (v :: u64) > 0xffffffff"
proof -
  have "v AND 0xffffffff = take_bit 32 v"
    by (simp add: take_bit_eq_mask mask_eq_exp_minus_1)
  then have "v AND 0xffffffff = v \<longleftrightarrow> unat v < 2 ^ 32"
    by (metis take_bit_nat_eq_self_iff unsigned_take_bit_eq word_unat_eq_iff)
  then show ?thesis by (auto simp: word_less_nat_alt)
qed

lemma sat32_ucast [simp]: "sat32 (ucast (a :: u32)) = a"
proof -
  have "unat (ucast a :: u64) = unat a"
    by (simp add: unsigned_ucast_eq take_bit_nat_eq_self_iff order_less_trans [OF unsigned_less])
  then have "\<not> ucast a > (0xffffffff :: u64)"
    using unsigned_less [of a, where ?'a = nat] by (simp add: word_less_nat_alt)
  moreover have "ucast (ucast a :: u64) = a"
    by (rule bit_word_eqI) (simp add: bit_simps)
  ultimately show ?thesis by (simp add: sat32_def)
qed

lemma less_80: "(a :: u8) < 0x80 \<longleftrightarrow> \<not> bit a 7"
proof -
  have half: "odd (k div 128) \<longleftrightarrow> 128 \<le> k" if "k < 256" for k :: nat
  proof (cases "k < 128")
    case False
    with that have "k div 128 = 1" by (intro div_nat_eqI) auto
    with False show ?thesis by simp
  qed simp
  have "bit a 7 \<longleftrightarrow> bit (unat a) 7" by (simp add: bit_unsigned_iff)
  then have "bit a 7 \<longleftrightarrow> odd (unat a div 128)" by (simp add: bit_iff_odd)
  also have "\<dots> \<longleftrightarrow> 128 \<le> unat a"
    using unsigned_less [of a, where ?'a = nat] by (intro half) simp
  finally show ?thesis by (auto simp: word_less_nat_alt)
qed

lemma getVarint32_getVarint:
  "getVarint32 p = map_option (\<lambda>(v, n). (sat32 v, n)) (getVarint p)"
proof (cases "rd p 0")
  case None
  then show ?thesis by (simp add: getVarint32_def getVarint_def)
next
  case (Some a)
  have sat: "(if v AND 0xffffffff \<noteq> v then Some (0xffffffff, n) else Some (ucast v, n)) = Some (sat32 v, n)"
    for v and n :: nat
    by (simp only: and_ffffffff sat32_def if_distrib [of Some] split: if_split) auto
  show ?thesis
  proof (cases "bit a 7")
    case False
    then show ?thesis using Some getVarint_first1 [of p a]
      by (simp add: getVarint32_def less_80)
  next
    case True
    note first = getVarint_first2 [OF Some True] getVarint_first3 [OF Some True]
      getVarint_end1 [OF Some True] getVarint_end2 [OF Some True]
    note defs = getVarint32_def sqlite3GetVarint32_def less_80 and_128_eq_0_iff32 bit_simps Let_def
    show ?thesis
    proof (cases "rd p 1")
      case None
      with first Some True show ?thesis by (simp add: defs)
    next
      case (Some b)
      show ?thesis
      proof (cases "bit b 7")
        case False
        with first(1) [OF Some] \<open>rd p 0 = Some a\<close> True Some show ?thesis by (simp add: defs)
      next
        case b: True
        show ?thesis
        proof (cases "rd p 2")
          case None
          with first(4) [OF Some b] \<open>rd p 0 = Some a\<close> True Some b show ?thesis by (simp add: defs)
        next
          case x: (Some x)
          with first(2) [OF Some b x] \<open>rd p 0 = Some a\<close> True Some b sat show ?thesis
            by (cases "bit x 7"; cases "getVarint p") (auto simp add: defs)
        qed
      qed
    qed
  qed
qed


lemma get4byte_put4byte: "get4byte (put4byte v @ r) = Some v"
proof -
  have "push_bit 24 (ucast (ucast (drop_bit 24 v) :: u8)) OR push_bit 16 (ucast (ucast (drop_bit 16 v) :: u8))
      OR push_bit 8 (ucast (ucast (drop_bit 8 v) :: u8)) OR ucast (ucast v :: u8) = v" (is "?l = v")
  proof (rule bit_word_eqI)
    fix n assume "n < LENGTH(32)"
    then have "n < 8 \<or> (8 \<le> n \<and> n < 16) \<or> (16 \<le> n \<and> n < 24) \<or> (24 \<le> n \<and> n < 32)" by auto
    then show "bit ?l n = bit v n" by (elim disjE) (auto simp: bit_simps)
  qed
  then show ?thesis by (simp add: get4byte_def put4byte_def)
qed

lemma length_put4byte [simp]: "length (put4byte v) = 4"
  by (simp add: put4byte_def)

lemma length_putVarint: "1 \<le> length (putVarint v) \<and> length (putVarint v) \<le> 9"
proof -
  have "varint_ref 0 0 (putVarint v @ []) = Some (v, length (putVarint v))"
    using getVarint_putVarint [of v "[]"] by (simp only: getVarint_ref)
  then show ?thesis using getVarint_ref_length [of 0 0 "putVarint v @ []"] by (auto simp: Suc_le_eq)
qed

lemma getVarint_bounds: "getVarint p = Some (v, n) \<Longrightarrow> 1 \<le> n \<and> n \<le> 9 \<and> n \<le> length p"
  using getVarint_ref_length [of 0 0 p] by (auto simp: getVarint_ref)

section \<open>Properties\<close>

text \<open>C14. Every 64-bit value survives the varint encoding: decoding what
  \<^verbatim>\<open>sqlite3PutVarint\<close> wrote, whatever follows it in the buffer, returns the value and
  consumes exactly the bytes written, of which there are between one and nine.\<close>

theorem varint_roundtrip:
  "getVarint (putVarint v @ rest) = Some (v, length (putVarint v))
   \<and> 1 \<le> length (putVarint v) \<and> length (putVarint v) \<le> 9"
  by (simp only: getVarint_putVarint length_putVarint simp_thms)

text \<open>C24. The unrolled, register-level \<^verbatim>\<open>sqlite3GetVarint\<close> computes on every buffer what a
  decoder that takes one byte at a time computes: the same value, the same length, and a
  read past the end in exactly the same cases.\<close>

theorem getVarint_equals_reference: "getVarint p = varint_ref 0 0 p"
  by (rule getVarint_ref)

text \<open>C33. The 32-bit reader consumes what the 64-bit reader consumes and returns its value
  saturated at \<^verbatim>\<open>0xffffffff\<close>.\<close>

theorem getVarint32_saturates:
  "getVarint32 p = map_option (\<lambda>(v, n). (if v > 0xffffffff then 0xffffffff else ucast v, n)) (getVarint p)"
  by (simp only: getVarint32_getVarint sat32_def)

text \<open>C34. \<^verbatim>\<open>sqlite3VarintLen\<close> is the number of bytes \<^verbatim>\<open>sqlite3PutVarint\<close> writes.\<close>

theorem varintLen_correct: "varintLen v = length (putVarint v)"
  by (rule varintLen_eq)

end
