(* ===== verification/Ctype.thy ===== *)
theory Ctype
  imports Prelude
begin

text \<open>
  Character classes and the string helpers built on them: the two 256-entry tables of
  \<^verbatim>\<open>src/sqlite/src/global.c\<close>, the classification macros of \<^verbatim>\<open>sqliteInt.h\<close>, and
  \<^verbatim>\<open>sqlite3_stricmp\<close>, \<^verbatim>\<open>sqlite3_strnicmp\<close>, \<^verbatim>\<open>sqlite3Strlen30\<close>, \<^verbatim>\<open>sqlite3Dequote\<close> and
  \<^verbatim>\<open>sqlite3HexToInt\<close> of \<^verbatim>\<open>util.c\<close>. The build is the ASCII one (\<^verbatim>\<open>SQLITE_ASCII\<close>).

  A C string is the list of its characters before the terminating NUL; \<open>zat z i\<close> is
  \<^verbatim>\<open>z[i]\<close> and reads the terminator at the end of the list.
\<close>

abbreviation code :: "char \<Rightarrow> nat" where
  "code c \<equiv> of_char c"

abbreviation NUL :: char where
  "NUL \<equiv> CHR 0x00"

definition zat :: "string \<Rightarrow> nat \<Rightarrow> char" where
  "zat z i = (if i < length z then z ! i else NUL)"

lemma zat_simps [simp]:
  "zat [] i = NUL"
  "zat (c # z) 0 = c"
  "zat (c # z) (Suc i) = zat z i"
  "zat (c # z) (numeral k) = zat z (pred_numeral k)"
  by (simp_all add: zat_def numeral_eq_Suc)

lemma zat_drop: "n \<le> length z \<Longrightarrow> zat (drop n z) i = zat z (n + i)"
  by (auto simp: zat_def)

lemma zat_nth [simp]: "i < length z \<Longrightarrow> zat z i = z ! i"
  by (simp add: zat_def)

lemma zat_beyond [simp]: "length z \<le> i \<Longrightarrow> zat z i = NUL"
  by (simp add: zat_def)

section \<open>Tables and macros\<close>

definition sqlite3UpperToLower :: "nat list" where
  "sqlite3UpperToLower = [
     0, 1, 2, 3, 4, 5, 6, 7, 8, 9, 10, 11, 12, 13, 14, 15, 16, 17,
     18, 19, 20, 21, 22, 23, 24, 25, 26, 27, 28, 29, 30, 31, 32, 33, 34, 35,
     36, 37, 38, 39, 40, 41, 42, 43, 44, 45, 46, 47, 48, 49, 50, 51, 52, 53,
     54, 55, 56, 57, 58, 59, 60, 61, 62, 63, 64, 97, 98, 99, 100, 101, 102, 103,
     104, 105, 106, 107, 108, 109, 110, 111, 112, 113, 114, 115, 116, 117, 118, 119, 120, 121,
     122, 91, 92, 93, 94, 95, 96, 97, 98, 99, 100, 101, 102, 103, 104, 105, 106, 107,
     108, 109, 110, 111, 112, 113, 114, 115, 116, 117, 118, 119, 120, 121, 122, 123, 124, 125,
     126, 127, 128, 129, 130, 131, 132, 133, 134, 135, 136, 137, 138, 139, 140, 141, 142, 143,
     144, 145, 146, 147, 148, 149, 150, 151, 152, 153, 154, 155, 156, 157, 158, 159, 160, 161,
     162, 163, 164, 165, 166, 167, 168, 169, 170, 171, 172, 173, 174, 175, 176, 177, 178, 179,
     180, 181, 182, 183, 184, 185, 186, 187, 188, 189, 190, 191, 192, 193, 194, 195, 196, 197,
     198, 199, 200, 201, 202, 203, 204, 205, 206, 207, 208, 209, 210, 211, 212, 213, 214, 215,
     216, 217, 218, 219, 220, 221, 222, 223, 224, 225, 226, 227, 228, 229, 230, 231, 232, 233,
     234, 235, 236, 237, 238, 239, 240, 241, 242, 243, 244, 245, 246, 247, 248, 249, 250, 251,
     252, 253, 254, 255]"

definition sqlite3CtypeMap :: "nat list" where
  "sqlite3CtypeMap = [
     0x00, 0x00, 0x00, 0x00, 0x00, 0x00, 0x00, 0x00, 0x00, 0x01, 0x01, 0x01, 0x01, 0x01, 0x00, 0x00,
     0x00, 0x00, 0x00, 0x00, 0x00, 0x00, 0x00, 0x00, 0x00, 0x00, 0x00, 0x00, 0x00, 0x00, 0x00, 0x00,
     0x01, 0x00, 0x00, 0x00, 0x40, 0x00, 0x00, 0x00, 0x00, 0x00, 0x00, 0x00, 0x00, 0x00, 0x00, 0x00,
     0x0c, 0x0c, 0x0c, 0x0c, 0x0c, 0x0c, 0x0c, 0x0c, 0x0c, 0x0c, 0x00, 0x00, 0x00, 0x00, 0x00, 0x00,
     0x00, 0x0a, 0x0a, 0x0a, 0x0a, 0x0a, 0x0a, 0x02, 0x02, 0x02, 0x02, 0x02, 0x02, 0x02, 0x02, 0x02,
     0x02, 0x02, 0x02, 0x02, 0x02, 0x02, 0x02, 0x02, 0x02, 0x02, 0x02, 0x00, 0x00, 0x00, 0x00, 0x40,
     0x00, 0x2a, 0x2a, 0x2a, 0x2a, 0x2a, 0x2a, 0x22, 0x22, 0x22, 0x22, 0x22, 0x22, 0x22, 0x22, 0x22,
     0x22, 0x22, 0x22, 0x22, 0x22, 0x22, 0x22, 0x22, 0x22, 0x22, 0x22, 0x00, 0x00, 0x00, 0x00, 0x00,
     0x40, 0x40, 0x40, 0x40, 0x40, 0x40, 0x40, 0x40, 0x40, 0x40, 0x40, 0x40, 0x40, 0x40, 0x40, 0x40,
     0x40, 0x40, 0x40, 0x40, 0x40, 0x40, 0x40, 0x40, 0x40, 0x40, 0x40, 0x40, 0x40, 0x40, 0x40, 0x40,
     0x40, 0x40, 0x40, 0x40, 0x40, 0x40, 0x40, 0x40, 0x40, 0x40, 0x40, 0x40, 0x40, 0x40, 0x40, 0x40,
     0x40, 0x40, 0x40, 0x40, 0x40, 0x40, 0x40, 0x40, 0x40, 0x40, 0x40, 0x40, 0x40, 0x40, 0x40, 0x40,
     0x40, 0x40, 0x40, 0x40, 0x40, 0x40, 0x40, 0x40, 0x40, 0x40, 0x40, 0x40, 0x40, 0x40, 0x40, 0x40,
     0x40, 0x40, 0x40, 0x40, 0x40, 0x40, 0x40, 0x40, 0x40, 0x40, 0x40, 0x40, 0x40, 0x40, 0x40, 0x40,
     0x40, 0x40, 0x40, 0x40, 0x40, 0x40, 0x40, 0x40, 0x40, 0x40, 0x40, 0x40, 0x40, 0x40, 0x40, 0x40,
     0x40, 0x40, 0x40, 0x40, 0x40, 0x40, 0x40, 0x40, 0x40, 0x40, 0x40, 0x40, 0x40, 0x40, 0x40, 0x40]"

definition sqlite3Isspace :: "char \<Rightarrow> bool" where
  "sqlite3Isspace x \<longleftrightarrow> sqlite3CtypeMap ! code x AND 0x01 \<noteq> 0"

definition sqlite3Isalnum :: "char \<Rightarrow> bool" where
  "sqlite3Isalnum x \<longleftrightarrow> sqlite3CtypeMap ! code x AND 0x06 \<noteq> 0"

definition sqlite3Isalpha :: "char \<Rightarrow> bool" where
  "sqlite3Isalpha x \<longleftrightarrow> sqlite3CtypeMap ! code x AND 0x02 \<noteq> 0"

definition sqlite3Isdigit :: "char \<Rightarrow> bool" where
  "sqlite3Isdigit x \<longleftrightarrow> sqlite3CtypeMap ! code x AND 0x04 \<noteq> 0"

definition sqlite3Isxdigit :: "char \<Rightarrow> bool" where
  "sqlite3Isxdigit x \<longleftrightarrow> sqlite3CtypeMap ! code x AND 0x08 \<noteq> 0"

definition IdChar :: "char \<Rightarrow> bool" where
  "IdChar C \<longleftrightarrow> sqlite3CtypeMap ! code C AND 0x46 \<noteq> 0"

definition sqlite3Tolower :: "char \<Rightarrow> char" where
  "sqlite3Tolower x = char_of (sqlite3UpperToLower ! code x)"

definition sqlite3Toupper :: "char \<Rightarrow> char" where
  "sqlite3Toupper x = char_of (code x - (code x AND (sqlite3CtypeMap ! code x AND 0x20)))"

text \<open>The tables in closed form: which class a code belongs to is a matter of ranges.\<close>

definition lower_of :: "nat \<Rightarrow> nat" where
  "lower_of n = (if 65 \<le> n \<and> n \<le> 90 then n + 32 else n)"

definition ctype_of :: "nat \<Rightarrow> nat" where
  "ctype_of n =
     (if n = 32 \<or> 9 \<le> n \<and> n \<le> 13 then 0x01
      else if 48 \<le> n \<and> n \<le> 57 then 0x0c
      else if 65 \<le> n \<and> n \<le> 70 then 0x0a
      else if 71 \<le> n \<and> n \<le> 90 then 0x02
      else if 97 \<le> n \<and> n \<le> 102 then 0x2a
      else if 103 \<le> n \<and> n \<le> 122 then 0x22
      else if n = 36 \<or> n = 95 \<or> 128 \<le> n then 0x40
      else 0)"

lemma UpperToLower_eq: "sqlite3UpperToLower = map lower_of [0..<256]"
  by (simp add: sqlite3UpperToLower_def lower_of_def upt_conv_Cons)

lemma CtypeMap_eq: "sqlite3CtypeMap = map ctype_of [0..<256]"
  by (simp add: sqlite3CtypeMap_def ctype_of_def upt_conv_Cons)

lemma code_less [simp]: "code c < 256"
  using of_char_mod_256 [of c, where ?'a = nat] mod_less_divisor [of 256 "code c"] by simp

lemma UpperToLower_nth: "sqlite3UpperToLower ! code c = lower_of (code c)"
  by (simp add: UpperToLower_eq)

lemma UpperToLower_0 [simp]: "sqlite3UpperToLower ! 0 = 0"
  by (simp add: UpperToLower_eq lower_of_def)

lemma CtypeMap_nth: "sqlite3CtypeMap ! code c = ctype_of (code c)"
  by (simp add: CtypeMap_eq)

lemma Isspace_iff: "sqlite3Isspace c \<longleftrightarrow> code c = 32 \<or> 9 \<le> code c \<and> code c \<le> 13"
  by (auto simp: sqlite3Isspace_def CtypeMap_nth ctype_of_def)

lemma Isdigit_iff: "sqlite3Isdigit c \<longleftrightarrow> 48 \<le> code c \<and> code c \<le> 57"
  by (auto simp: sqlite3Isdigit_def CtypeMap_nth ctype_of_def)

lemma Isalpha_iff: "sqlite3Isalpha c \<longleftrightarrow> 65 \<le> code c \<and> code c \<le> 90 \<or> 97 \<le> code c \<and> code c \<le> 122"
  by (auto simp: sqlite3Isalpha_def CtypeMap_nth ctype_of_def)

lemma Isalnum_iff: "sqlite3Isalnum c \<longleftrightarrow> sqlite3Isalpha c \<or> sqlite3Isdigit c"
  by (auto simp: Isalpha_iff Isdigit_iff sqlite3Isalnum_def CtypeMap_nth ctype_of_def)

lemma Isxdigit_iff: "sqlite3Isxdigit c \<longleftrightarrow>
    48 \<le> code c \<and> code c \<le> 57 \<or> 65 \<le> code c \<and> code c \<le> 70 \<or> 97 \<le> code c \<and> code c \<le> 102"
  by (auto simp: sqlite3Isxdigit_def CtypeMap_nth ctype_of_def)

lemma IdChar_iff: "IdChar c \<longleftrightarrow> sqlite3Isalnum c \<or> code c = 36 \<or> code c = 95 \<or> 128 \<le> code c"
  by (auto simp: Isalnum_iff Isalpha_iff Isdigit_iff IdChar_def CtypeMap_nth ctype_of_def)

lemmas ctype_iffs = Isspace_iff Isdigit_iff Isalpha_iff Isalnum_iff Isxdigit_iff IdChar_iff

lemma code_Tolower: "code (sqlite3Tolower c) = lower_of (code c)"
proof -
  have "lower_of (code c) < 256" using code_less [of c] by (auto simp: lower_of_def)
  then show ?thesis by (simp add: sqlite3Tolower_def UpperToLower_nth)
qed

section \<open>Case-insensitive comparison\<close>

text \<open>A null pointer is \<^const>\<open>None\<close>. The result is the difference of the two folded bytes
  at which the loop stops.\<close>

abbreviation folded_diff :: "char \<Rightarrow> char \<Rightarrow> int" where
  "folded_diff a b \<equiv> int (sqlite3UpperToLower ! code a) - int (sqlite3UpperToLower ! code b)"

fun stricmp_loop :: "string \<Rightarrow> string \<Rightarrow> int" where
  "stricmp_loop (a # as) (b # bs) =
     (if a \<noteq> NUL \<and> sqlite3UpperToLower ! code a = sqlite3UpperToLower ! code b
      then stricmp_loop as bs
      else folded_diff a b)"
| "stricmp_loop (a # as) [] = folded_diff a NUL"
| "stricmp_loop [] (b # bs) = folded_diff NUL b"
| "stricmp_loop [] [] = folded_diff NUL NUL"

definition sqlite3_stricmp :: "string option \<Rightarrow> string option \<Rightarrow> int" where
  "sqlite3_stricmp zLeft zRight =
     (case zLeft of
        None \<Rightarrow> (case zRight of None \<Rightarrow> 0 | Some _ \<Rightarrow> -1)
      | Some a \<Rightarrow> (case zRight of None \<Rightarrow> 1 | Some b \<Rightarrow> stricmp_loop a b))"

text \<open>\<^verbatim>\<open>N-- > 0\<close> is evaluated first, so \<^verbatim>\<open>N\<close> is negative after the loop exactly when the loop
  stopped because the count ran out.\<close>

fun strnicmp_loop :: "string \<Rightarrow> string \<Rightarrow> nat \<Rightarrow> int" where
  "strnicmp_loop a b 0 = 0"
| "strnicmp_loop a b (Suc N) =
     (if zat a 0 \<noteq> NUL \<and> sqlite3UpperToLower ! code (zat a 0) = sqlite3UpperToLower ! code (zat b 0)
      then strnicmp_loop (tl a) (tl b) N
      else folded_diff (zat a 0) (zat b 0))"

definition sqlite3_strnicmp :: "string option \<Rightarrow> string option \<Rightarrow> int \<Rightarrow> int" where
  "sqlite3_strnicmp zLeft zRight N =
     (case zLeft of
        None \<Rightarrow> (case zRight of None \<Rightarrow> 0 | Some _ \<Rightarrow> -1)
      | Some a \<Rightarrow> (case zRight of None \<Rightarrow> 1 | Some b \<Rightarrow> strnicmp_loop a b (nat N)))"

definition sqlite3Strlen30 :: "string option \<Rightarrow> nat" where
  "sqlite3Strlen30 z =
     (case z of None \<Rightarrow> 0 | Some z \<Rightarrow> 0x3fffffff AND length (takeWhile (\<lambda>c. c \<noteq> NUL) z))"

definition no_nul :: "string \<Rightarrow> bool" where
  "no_nul z \<longleftrightarrow> NUL \<notin> set z"

lemma lower_of_0 [simp]: "lower_of 0 = 0" "lower_of n = 0 \<longleftrightarrow> n = 0"
  by (auto simp: lower_of_def)

lemma lower_of_pos [simp]: "0 < lower_of n \<longleftrightarrow> 0 < n"
  by (auto simp: lower_of_def)

lemma code_eq_0 [simp]: "code c = 0 \<longleftrightarrow> c = NUL"
proof
  assume "code c = 0"
  then have "code c = code NUL" by simp
  then show "c = NUL" by (simp only: of_char_eq_iff)
qed simp

lemma code_pos [simp]: "0 < code c \<longleftrightarrow> c \<noteq> NUL"
  using code_eq_0 [of c] by linarith

lemma Tolower_eq_iff: "sqlite3Tolower a = sqlite3Tolower b \<longleftrightarrow> lower_of (code a) = lower_of (code b)"
  by (metis code_Tolower of_char_eq_iff)

lemma stricmp_loop_0: "no_nul a \<Longrightarrow> no_nul b \<Longrightarrow>
   stricmp_loop a b = 0 \<longleftrightarrow> map sqlite3Tolower a = map sqlite3Tolower b"
  by (induction a b rule: stricmp_loop.induct)
     (auto simp: no_nul_def UpperToLower_nth Tolower_eq_iff)

lemma stricmp_loop_antisym: "stricmp_loop b a = - stricmp_loop a b"
  by (induction a b rule: stricmp_loop.induct) (auto simp: UpperToLower_nth)

text \<open>The sign of the result is the lexicographic order of the folded strings.\<close>

definition folded :: "string \<Rightarrow> nat list" where
  "folded z = map (\<lambda>c. lower_of (code c)) z"

lemma folded_simps [simp]: "folded [] = []" "folded (c # z) = lower_of (code c) # folded z"
  by (simp_all add: folded_def)

lemma stricmp_loop_less: "no_nul a \<Longrightarrow> no_nul b \<Longrightarrow>
   stricmp_loop a b < 0 \<longleftrightarrow> ord_class.lexordp (folded a) (folded b)"
  by (induction a b rule: stricmp_loop.induct)
     (auto simp: no_nul_def UpperToLower_nth)

lemma strnicmp_loop_take: "no_nul a \<Longrightarrow> no_nul b \<Longrightarrow>
   strnicmp_loop a b n = stricmp_loop (take n a) (take n b)"
proof (induction n arbitrary: a b)
  case 0
  then show ?case by simp
next
  case (Suc n)
  then show ?case
    by (cases a; cases b) (auto simp: no_nul_def UpperToLower_nth)
qed

section \<open>Removing quotes\<close>

text \<open>The loop from \<^verbatim>\<open>i = 1\<close>: \<^const>\<open>None\<close> when the closing quote is missing, which the
  \<^verbatim>\<open>assert\<close> of the loop excludes.\<close>

fun dequote_loop :: "char \<Rightarrow> string \<Rightarrow> string option" where
  "dequote_loop quote [] = None"
| "dequote_loop quote (c # z) =
     (if c = quote then
        (case z of
           [] \<Rightarrow> Some []
         | d # z' \<Rightarrow> if d = quote then map_option ((#) quote) (dequote_loop quote z') else Some [])
      else map_option ((#) c) (dequote_loop quote z))"

text \<open>The return code and the string left in the buffer.\<close>

definition sqlite3Dequote :: "string option \<Rightarrow> (int \<times> string option) option" where
  "sqlite3Dequote z =
     (case z of
        None \<Rightarrow> Some (-1, None)
      | Some z \<Rightarrow>
          let quote = zat z 0 in
          if quote = CHR 0x27 \<or> quote = CHR 0x22 \<or> quote = CHR 0x60 \<or> quote = CHR ''['' then
            let quote = (if quote = CHR ''['' then CHR '']'' else quote)
            in map_option (\<lambda>s. (int (length s), Some s)) (dequote_loop quote (tl z))
          else Some (-1, Some z))"

text \<open>The quoting that the parser accepts: a closing quote inside the text is doubled.\<close>

fun double_quote :: "char \<Rightarrow> string \<Rightarrow> string" where
  "double_quote q [] = []"
| "double_quote q (c # s) = (if c = q then [q, q] else [c]) @ double_quote q s"

lemma dequote_loop_double:
  "t = [] \<or> hd t \<noteq> q \<Longrightarrow> dequote_loop q (double_quote q s @ q # t) = Some s"
  by (induction s) (auto split: list.splits)

section \<open>Hexadecimal digits\<close>

text \<open>\<^verbatim>\<open>h += 9*(1&(h>>6)); return h & 0xf\<close>\<close>

definition sqlite3HexToInt :: "nat \<Rightarrow> nat" where
  "sqlite3HexToInt h = (h + 9 * (1 AND drop_bit 6 h)) AND 0xf"

definition hex_value :: "char \<Rightarrow> nat" where
  "hex_value c =
     (if code c \<le> 57 then code c - 48 else if code c \<le> 70 then code c - 55 else code c - 87)"

lemma HexToInt_value: "sqlite3Isxdigit c \<Longrightarrow> sqlite3HexToInt (code c) = hex_value c"
proof -
  have all: "list_all (\<lambda>n. sqlite3HexToInt n = (if n \<le> 57 then n - 48 else if n \<le> 70 then n - 55 else n - 87))
      ([48..<58] @ [65..<71] @ [97..<103])"
    by (simp add: sqlite3HexToInt_def upt_conv_Cons)
  assume "sqlite3Isxdigit c"
  then have "code c \<in> set ([48..<58] @ [65..<71] @ [97..<103])"
    by (simp only: set_append set_upt Un_iff atLeastLessThan_iff Isxdigit_iff) linarith
  with all show ?thesis by (simp only: list_all_iff hex_value_def)
qed

lemma hex_value_less: "sqlite3Isxdigit c \<Longrightarrow> hex_value c < 16"
  by (auto simp: Isxdigit_iff hex_value_def)

section \<open>Properties\<close>

text \<open>C35. On NUL-free strings \<^verbatim>\<open>sqlite3_stricmp\<close> is a comparison of case-folded byte strings:
  zero exactly for strings equal after folding ASCII case, negative exactly when the
  folded left string is lexicographically smaller, and antisymmetric.\<close>

theorem stricmp_order:
  assumes "no_nul a" and "no_nul b"
  shows "(sqlite3_stricmp (Some a) (Some b) = 0 \<longleftrightarrow> map sqlite3Tolower a = map sqlite3Tolower b)
    \<and> (sqlite3_stricmp (Some a) (Some b) < 0 \<longleftrightarrow> ord_class.lexordp (folded a) (folded b))
    \<and> sqlite3_stricmp (Some b) (Some a) = - sqlite3_stricmp (Some a) (Some b)"
  using assms stricmp_loop_antisym [of b a]
  by (simp add: sqlite3_stricmp_def stricmp_loop_0 stricmp_loop_less)

theorem stricmp_order_witness:
  "sqlite3_stricmp (Some ''Main'') (Some ''mAIN'') = 0
   \<and> sqlite3_stricmp (Some ''Alpha'') (Some ''beta'') < 0"
proof -
  have n: "no_nul ''Main''" "no_nul ''mAIN''" "no_nul ''Alpha''" "no_nul ''beta''"
    by (simp_all add: no_nul_def)
  show ?thesis
    using stricmp_order [OF n(1,2)] stricmp_order [OF n(3,4)]
    by (simp add: Tolower_eq_iff lower_of_def)
qed

text \<open>C36. \<^verbatim>\<open>sqlite3Dequote\<close> inverts quoting for all four quote styles: whatever the text, when
  it is quoted with any inner closing quote doubled, dequoting in place gives back the
  text and its length. A string that does not begin with a quote is left alone.\<close>

theorem dequote_inverts_quoting:
  "(\<forall>(q, c) \<in> {(CHR 0x27, CHR 0x27), (CHR 0x22, CHR 0x22), (CHR 0x60, CHR 0x60), (CHR ''['', CHR '']'')}.
      sqlite3Dequote (Some (q # double_quote c s @ [c])) = Some (int (length s), Some s))
   \<and> (zat z 0 \<notin> {CHR 0x27, CHR 0x22, CHR 0x60, CHR ''[''} \<longrightarrow>
      sqlite3Dequote (Some z) = Some (-1, Some z))"
  by (simp add: sqlite3Dequote_def dequote_loop_double)

theorem dequote_inverts_quoting_witness:
  "sqlite3Dequote (Some ''[a]]b]'') = Some (3, Some ''a]b'')
   \<and> sqlite3Dequote (Some ''abc'') = Some (-1, Some ''abc'')"
  using dequote_inverts_quoting [of "''a]b''" "''abc''"] by simp

end
