(* ===== verification/HashTable.thy ===== *)
theory HashTable
  imports Ctype
begin

text \<open>
  The string-keyed hash table of \<^verbatim>\<open>src/sqlite/src/hash.c\<close>, which the library uses for
  table, index, trigger, function, collation and module names.

  All elements are on one doubly linked list, kept here as the list of elements in link
  order (\<^verbatim>\<open>first\<close> is its head, \<^verbatim>\<open>next\<close> and \<^verbatim>\<open>prev\<close> are the neighbours). A bucket records a
  count and a pointer to the first of its elements, which are adjacent on that list. An
  element's address is its \<open>ident\<close>. The two allocations can fail: the address of a new
  element and the number of buckets the allocator really provided are parameters, and
  \<^const>\<open>None\<close> stands for a failed allocation.
\<close>

record 'a helem =
  ident :: nat
  pKey :: string
  hdata :: 'a

record 'a hash =
  htsize :: nat
  hcount :: nat
  elems :: "'a helem list"
  ht :: "(nat \<times> nat option) list option"

record hash_alloc =
  new_elem_addr :: "nat option"
  new_ht_size :: "nat \<Rightarrow> nat option"

definition sqlite3HashInit :: "'a hash" where
  "sqlite3HashInit = \<lparr>htsize = 0, hcount = 0, elems = [], ht = None\<rparr>"

definition sqlite3HashClear :: "'a hash \<Rightarrow> 'a hash" where
  "sqlite3HashClear pH = pH\<lparr>elems := [], ht := None, htsize := 0, hcount := 0\<rparr>"

fun strHash_loop :: "u32 \<Rightarrow> string \<Rightarrow> u32" where
  "strHash_loop h [] = h"
| "strHash_loop h (c # z) =
     (if c \<noteq> NUL
      then strHash_loop ((push_bit 3 h XOR h) XOR of_nat (sqlite3UpperToLower ! code c)) z
      else h)"

definition strHash :: "string \<Rightarrow> u32" where
  "strHash z = strHash_loop 0 z"

abbreviation bucket_of :: "nat \<Rightarrow> string \<Rightarrow> nat" where
  "bucket_of n key \<equiv> unat (strHash key) mod n"

definition link_before :: "nat \<Rightarrow> 'a helem \<Rightarrow> 'a helem list \<Rightarrow> 'a helem list" where
  "link_before p x xs =
     takeWhile (\<lambda>e. ident e \<noteq> p) xs @ x # dropWhile (\<lambda>e. ident e \<noteq> p) xs"

definition insertElement :: "'a hash \<Rightarrow> nat option \<Rightarrow> 'a helem \<Rightarrow> 'a hash" where
  "insertElement pH pEntry pNew =
     (case (pEntry, ht pH) of
        (Some h, Some b) \<Rightarrow>
          let (count, chain) = b ! h;
              pHead = (if count \<noteq> 0 then chain else None);
              pH = pH\<lparr>ht := Some (b[h := (count + 1, Some (ident pNew))])\<rparr>
          in (case pHead of
                Some p \<Rightarrow> pH\<lparr>elems := link_before p pNew (elems pH)\<rparr>
              | None \<Rightarrow> pH\<lparr>elems := pNew # elems pH\<rparr>)
      | _ \<Rightarrow> pH\<lparr>elems := pNew # elems pH\<rparr>)"

text \<open>\<^verbatim>\<open>SQLITE_MALLOC_SOFT_LIMIT\<close> is 1024 by default and a bucket takes 16 bytes on a
  64-bit machine. The return flag says whether the resize took place.\<close>

abbreviation SQLITE_MALLOC_SOFT_LIMIT :: nat where
  "SQLITE_MALLOC_SOFT_LIMIT \<equiv> 1024"

abbreviation sizeof_ht :: nat where
  "sizeof_ht \<equiv> 16"

definition rehash :: "hash_alloc \<Rightarrow> 'a hash \<Rightarrow> nat \<Rightarrow> 'a hash \<times> bool" where
  "rehash al pH new_size =
     (let new_size = (if new_size * sizeof_ht > SQLITE_MALLOC_SOFT_LIMIT
                      then SQLITE_MALLOC_SOFT_LIMIT div sizeof_ht else new_size) in
      if new_size = htsize pH then (pH, False)
      else case new_ht_size al new_size of
             None \<Rightarrow> (pH, False)
           | Some nb \<Rightarrow>
               let old = elems pH;
                   pH = pH\<lparr>ht := Some (replicate nb (0, None)), htsize := nb, elems := []\<rparr>
               in (foldl (\<lambda>pH elem. insertElement pH (Some (bucket_of nb (pKey elem))) elem) pH old,
                   True))"

text \<open>The walk follows \<^verbatim>\<open>next\<close> from \<^verbatim>\<open>elem\<close> for at most \<^verbatim>\<open>count\<close> elements.\<close>

definition hash_chain :: "'a helem list \<Rightarrow> nat \<Rightarrow> nat option \<Rightarrow> 'a helem list" where
  "hash_chain xs count elem =
     (case elem of None \<Rightarrow> [] | Some p \<Rightarrow> take count (dropWhile (\<lambda>e. ident e \<noteq> p) xs))"

definition findElementWithHash :: "'a hash \<Rightarrow> string \<Rightarrow> 'a helem option \<times> nat" where
  "findElementWithHash pH key =
     (let (walk, h) =
        (case ht pH of
           Some b \<Rightarrow>
             let h = bucket_of (htsize pH) key; (count, chain) = b ! h
             in (hash_chain (elems pH) count chain, h)
         | None \<Rightarrow> (take (hcount pH) (elems pH), 0))
      in (find (\<lambda>e. sqlite3_stricmp (Some (pKey e)) (Some key) = 0) walk, h))"

definition removeElementGivenHash :: "'a hash \<Rightarrow> 'a helem \<Rightarrow> nat \<Rightarrow> 'a hash" where
  "removeElementGivenHash pH elem h =
     (let after = tl (dropWhile (\<lambda>e. ident e \<noteq> ident elem) (elems pH));
          next_elem = (case after of [] \<Rightarrow> None | e # _ \<Rightarrow> Some (ident e));
          pH = pH\<lparr>elems := takeWhile (\<lambda>e. ident e \<noteq> ident elem) (elems pH) @ after\<rparr>;
          pH = (case ht pH of
                  Some b \<Rightarrow>
                    let (count, chain) = b ! h;
                        chain = (if chain = Some (ident elem) then next_elem else chain)
                    in pH\<lparr>ht := Some (b[h := (count - 1, chain)])\<rparr>
                | None \<Rightarrow> pH);
          pH = pH\<lparr>hcount := hcount pH - 1\<rparr>
      in if hcount pH = 0 then sqlite3HashClear pH else pH)"

definition sqlite3HashFind :: "'a hash \<Rightarrow> string \<Rightarrow> 'a option" where
  "sqlite3HashFind pH key = map_option hdata (fst (findElementWithHash pH key))"

text \<open>The null data pointer is \<^const>\<open>None\<close>; the second component is the pointer returned.\<close>

definition sqlite3HashInsert ::
  "hash_alloc \<Rightarrow> 'a hash \<Rightarrow> string \<Rightarrow> 'a option \<Rightarrow> 'a hash \<times> 'a option" where
  "sqlite3HashInsert al pH key dat =
     (let (found, h) = findElementWithHash pH key in
      case found of
        Some elem \<Rightarrow>
          (case dat of
             None \<Rightarrow> (removeElementGivenHash pH elem h, Some (hdata elem))
           | Some d \<Rightarrow>
               (pH\<lparr>elems := map (\<lambda>e. if ident e = ident elem
                                      then e\<lparr>hdata := d, pKey := key\<rparr> else e) (elems pH)\<rparr>,
                Some (hdata elem)))
      | None \<Rightarrow>
          (case dat of
             None \<Rightarrow> (pH, None)
           | Some d \<Rightarrow>
               (case new_elem_addr al of
                  None \<Rightarrow> (pH, dat)
                | Some addr \<Rightarrow>
                    let new_elem = \<lparr>ident = addr, pKey = key, hdata = d\<rparr>;
                        pH = pH\<lparr>hcount := hcount pH + 1\<rparr>;
                        (pH, h) =
                          (if hcount pH \<ge> 10 \<and> hcount pH > 2 * htsize pH then
                             let (pH, resized) = rehash al pH (hcount pH * 2)
                             in (pH, if resized then bucket_of (htsize pH) key else h)
                           else (pH, h))
                    in (insertElement pH (if ht pH \<noteq> None then Some h else None) new_elem, None))))"


section \<open>Contiguous runs of the element list\<close>

text \<open>The elements that satisfy \<open>P\<close> are adjacent.\<close>

fun contig :: "('b \<Rightarrow> bool) \<Rightarrow> 'b list \<Rightarrow> bool" where
  "contig P [] = True"
| "contig P (x # xs) = (if P x then filter P (dropWhile P xs) = [] else contig P xs)"

lemma contig_none: "filter P xs = [] \<Longrightarrow> contig P xs"
  by (induction xs) (simp_all split: if_splits)

lemma dropWhile_none: "filter P xs = [] \<Longrightarrow> dropWhile P xs = xs"
  by (cases xs) (simp_all split: if_splits)

lemma filter_eq_takeWhile:
  "filter P (dropWhile P xs) = [] \<Longrightarrow> filter P xs = takeWhile P xs"
  by (induction xs) (simp_all split: if_splits)

lemma hd_filter_in: "filter P xs \<noteq> [] \<Longrightarrow> hd (filter P xs) \<in> set xs \<and> P (hd (filter P xs))"
  by (induction xs) auto

lemma ident_hd_neq:
  "distinct (map ident (x # xs)) \<Longrightarrow> filter P xs \<noteq> [] \<Longrightarrow> ident x \<noteq> ident (hd (filter P xs))"
  using hd_filter_in [of P xs] by auto

lemma hash_chain_contig:
  assumes "contig P xs" "distinct (map ident xs)" "filter P xs \<noteq> []"
  shows "hash_chain xs (length (filter P xs)) (Some (ident (hd (filter P xs)))) = filter P xs"
  using assms
proof (induction xs)
  case (Cons x xs)
  show ?case
  proof (cases "P x")
    case True
    then have "filter P xs = takeWhile P xs"
      using Cons.prems(1) by (simp add: filter_eq_takeWhile)
    moreover have "take (length (takeWhile P xs)) xs = takeWhile P xs"
      by (simp flip: takeWhile_eq_take)
    ultimately show ?thesis using True by (simp add: hash_chain_def)
  next
    case False
    with Cons ident_hd_neq [of x xs P] show ?thesis by (simp add: hash_chain_def)
  qed
qed simp

lemma link_before_simps [simp]:
  "link_before p x [] = [x]"
  "link_before p x (y # ys) = (if ident y = p then x # y # ys else y # link_before p x ys)"
  by (simp_all add: link_before_def)

lemma set_link_before [simp]: "set (link_before p x xs) = insert x (set xs)"
  by (induction xs) auto

lemma length_link_before [simp]: "length (link_before p x xs) = Suc (length xs)"
  by (induction xs) auto

lemma distinct_link_before:
  "distinct (map f (link_before p x xs)) \<longleftrightarrow> f x \<notin> f ` set xs \<and> distinct (map f xs)"
  by (induction xs) auto

lemma filter_link_before_other: "\<not> P x \<Longrightarrow> filter P (link_before p x xs) = filter P xs"
  by (induction xs) auto

lemma filter_link_before_same:
  "P x \<Longrightarrow> filter P xs \<noteq> [] \<Longrightarrow> distinct (map ident xs) \<Longrightarrow>
   filter P (link_before (ident (hd (filter P xs))) x xs) = x # filter P xs"
proof (induction xs)
  case (Cons y ys)
  then show ?case using ident_hd_neq [of y ys P] by (cases "P y") simp_all
qed simp

lemma dropWhile_link_before:
  "\<not> P x \<Longrightarrow> \<forall>y \<in> set ys. ident y = p \<longrightarrow> \<not> P y \<Longrightarrow> filter P (dropWhile P ys) = [] \<Longrightarrow>
   filter P (dropWhile P (link_before p x ys)) = []"
proof (induction ys)
  case (Cons y ys)
  then show ?case by (cases "P y") (simp_all add: filter_link_before_other)
qed simp

lemma contig_link_before_other:
  "\<not> P x \<Longrightarrow> \<forall>y \<in> set xs. ident y = p \<longrightarrow> \<not> P y \<Longrightarrow> contig P xs \<Longrightarrow> contig P (link_before p x xs)"
proof (induction xs)
  case (Cons y ys)
  then show ?case by (cases "P y") (simp_all add: dropWhile_link_before)
qed simp

lemma contig_link_before_same:
  "P x \<Longrightarrow> filter P xs \<noteq> [] \<Longrightarrow> distinct (map ident xs) \<Longrightarrow> contig P xs \<Longrightarrow>
   contig P (link_before (ident (hd (filter P xs))) x xs)"
proof (induction xs)
  case (Cons y ys)
  then show ?case using ident_hd_neq [of y ys P] by (cases "P y") simp_all
qed simp

text \<open>Unlinking an element.\<close>

definition unlink :: "nat \<Rightarrow> 'a helem list \<Rightarrow> 'a helem list" where
  "unlink p xs = takeWhile (\<lambda>e. ident e \<noteq> p) xs @ tl (dropWhile (\<lambda>e. ident e \<noteq> p) xs)"

lemma unlink_simps [simp]:
  "unlink p [] = []"
  "unlink p (y # ys) = (if ident y = p then ys else y # unlink p ys)"
  by (simp_all add: unlink_def)

lemma unlink_filter: "distinct (map ident xs) \<Longrightarrow> unlink p xs = filter (\<lambda>e. ident e \<noteq> p) xs"
proof (induction xs)
  case (Cons x xs)
  have "filter (\<lambda>e. ident e \<noteq> ident x) xs = xs" using Cons.prems by (auto simp: filter_id_conv) (metis imageI)
  with Cons show ?case by (cases "ident x = p") simp_all
qed simp

lemma filter_dropWhile_filter:
  "filter P (dropWhile P xs) = [] \<Longrightarrow> filter P (dropWhile P (filter Q xs)) = []"
proof (induction xs)
  case (Cons x xs)
  have "filter P xs = [] \<Longrightarrow> filter P (filter Q xs) = []"
    by (induction xs) (simp_all split: if_splits)
  with Cons show ?case by (cases "P x"; cases "Q x") (simp_all add: dropWhile_none)
qed simp

lemma contig_of_run: "filter P (dropWhile P xs) = [] \<Longrightarrow> contig P xs"
  by (induction xs) (simp_all add: contig_none split: if_splits)

lemma contig_filter: "contig P xs \<Longrightarrow> contig P (filter Q xs)"
proof (induction xs)
  case (Cons x xs)
  then show ?case
    by (cases "P x"; cases "Q x") (simp_all add: filter_dropWhile_filter contig_of_run)
qed simp

lemma next_in_run:
  "contig P xs \<Longrightarrow> distinct (map ident xs) \<Longrightarrow> filter P xs = e # r \<Longrightarrow> r \<noteq> [] \<Longrightarrow>
   (case tl (dropWhile (\<lambda>x. ident x \<noteq> ident e) xs) of [] \<Rightarrow> None | x # _ \<Rightarrow> Some (ident x)) = Some (ident (hd r))"
proof (induction xs)
  case (Cons x xs)
  show ?case
  proof (cases "P x")
    case True
    with Cons.prems(3) have "x = e" "filter P xs = r" by auto
    moreover have "filter P xs = takeWhile P xs"
      using Cons.prems(1) True by (simp add: filter_eq_takeWhile)
    ultimately show ?thesis using Cons.prems(4) by (cases xs) (auto split: if_splits)
  next
    case False
    with Cons.prems(3) have f: "filter P xs = e # r" by simp
    then have "ident x \<noteq> ident e" using ident_hd_neq [of x xs P] Cons.prems(2) by simp
    with False f Cons show ?thesis by simp
  qed
qed simp


section \<open>The invariant\<close>

abbreviation in_bucket :: "nat \<Rightarrow> nat \<Rightarrow> 'a helem \<Rightarrow> bool" where
  "in_bucket n h \<equiv> \<lambda>e. bucket_of n (pKey e) = h"

definition bucket_ok :: "nat \<Rightarrow> 'a helem list \<Rightarrow> nat \<times> nat option \<Rightarrow> nat \<Rightarrow> bool" where
  "bucket_ok n xs b h \<longleftrightarrow>
     contig (in_bucket n h) xs
     \<and> fst b = length (filter (in_bucket n h) xs)
     \<and> (filter (in_bucket n h) xs \<noteq> [] \<longrightarrow> snd b = Some (ident (hd (filter (in_bucket n h) xs))))"

definition chain_inv :: "'a hash \<Rightarrow> bool" where
  "chain_inv pH \<longleftrightarrow>
     distinct (map ident (elems pH))
     \<and> (case ht pH of
          None \<Rightarrow> htsize pH = 0
        | Some b \<Rightarrow> length b = htsize pH \<and> 0 < htsize pH
            \<and> (\<forall>h < htsize pH. bucket_ok (htsize pH) (elems pH) (b ! h) h))"

definition hash_inv :: "'a hash \<Rightarrow> bool" where
  "hash_inv pH \<longleftrightarrow>
     chain_inv pH \<and> hcount pH = length (elems pH)
     \<and> distinct (map (\<lambda>e. folded (pKey e)) (elems pH))
     \<and> (\<forall>e \<in> set (elems pH). no_nul (pKey e))"

text \<open>What the table means: a finite map on case-folded names.\<close>

definition hash_map :: "'a hash \<Rightarrow> (nat list \<rightharpoonup> 'a)" where
  "hash_map pH = map_of (map (\<lambda>e. (folded (pKey e), hdata e)) (elems pH))"

lemma chain_inv_hcount [simp]: "chain_inv (pH\<lparr>hcount := c\<rparr>) = chain_inv pH"
  by (simp add: chain_inv_def split: option.split)

lemma chain_inv_init: "chain_inv sqlite3HashInit"
  by (simp add: chain_inv_def sqlite3HashInit_def)

lemma hash_inv_init: "hash_inv sqlite3HashInit"
  by (simp add: hash_inv_def chain_inv_init) (simp add: sqlite3HashInit_def)

lemma HashClear_Init: "sqlite3HashClear pH = sqlite3HashInit"
  by (cases pH) (simp add: sqlite3HashClear_def sqlite3HashInit_def)

section \<open>Linking\<close>

lemma insertElement_fields [simp]:
  "htsize (insertElement pH b x) = htsize pH"
  "hcount (insertElement pH b x) = hcount pH"
  "ht (insertElement pH b x) = None \<longleftrightarrow> ht pH = None"
  by (auto simp: insertElement_def Let_def split: option.splits prod.splits)

lemma insertElement_elems:
  "set (elems (insertElement pH b x)) = insert x (set (elems pH))"
  "length (elems (insertElement pH b x)) = Suc (length (elems pH))"
  "distinct (map f (elems (insertElement pH b x))) \<longleftrightarrow> f x \<notin> f ` set (elems pH) \<and> distinct (map f (elems pH))"
  by (auto simp: insertElement_def Let_def distinct_link_before split: option.splits prod.splits)

lemma bucket_ok_front_other:
  "\<not> in_bucket n h x \<Longrightarrow> bucket_ok n xs b h \<Longrightarrow> bucket_ok n (x # xs) b h"
  by (simp add: bucket_ok_def)

lemma bucket_ok_front_new:
  "in_bucket n h x \<Longrightarrow> filter (in_bucket n h) xs = [] \<Longrightarrow>
   bucket_ok n (x # xs) (Suc 0, Some (ident x)) h"
  by (simp add: bucket_ok_def dropWhile_none)

lemma bucket_ok_before_same:
  "in_bucket n h x \<Longrightarrow> distinct (map ident xs) \<Longrightarrow> bucket_ok n xs b h \<Longrightarrow> fst b \<noteq> 0 \<Longrightarrow>
   bucket_ok n (link_before (the (snd b)) x xs) (fst b + 1, Some (ident x)) h"
  by (auto simp: bucket_ok_def contig_link_before_same filter_link_before_same)

lemma bucket_ok_before_other:
  assumes "\<not> in_bucket n h x" "bucket_ok n xs b h" "\<forall>y \<in> set xs. ident y = p \<longrightarrow> \<not> in_bucket n h y"
  shows "bucket_ok n (link_before p x xs) b h"
  using assms unfolding bucket_ok_def
  by (simp add: contig_link_before_other filter_link_before_other)

lemma distinct_ident_eq:
  "distinct (map ident xs) \<Longrightarrow> x \<in> set xs \<Longrightarrow> y \<in> set xs \<Longrightarrow> ident x = ident y \<Longrightarrow> x = y"
  by (auto simp: distinct_map dest: inj_onD)

lemma chain_inv_insertElement:
  assumes inv: "chain_inv pH" and fresh: "ident x \<notin> ident ` set (elems pH)"
    and k: "b = (if ht pH = None then None else Some (bucket_of (htsize pH) (pKey x)))"
  shows "chain_inv (insertElement pH b x)"
proof (cases "ht pH")
  case None
  with assms show ?thesis by (simp add: chain_inv_def insertElement_def)
next
  case (Some t)
  let ?n = "htsize pH" and ?xs = "elems pH"
  let ?k = "bucket_of ?n (pKey x)"
  from inv Some have t: "length t = ?n" "0 < ?n" "distinct (map ident ?xs)"
    and ok: "\<And>h. h < ?n \<Longrightarrow> bucket_ok ?n ?xs (t ! h) h"
    by (auto simp: chain_inv_def)
  have kn: "?k < ?n" using t by simp
  obtain c ch where cc: "t ! ?k = (c, ch)" by force
  note okk = ok [OF kn, unfolded cc]
  have dist: "distinct (map ident (elems (insertElement pH b x)))"
    using t(3) fresh by (simp add: insertElement_elems)
  show ?thesis
  proof (cases "c = 0")
    case True
    then have "filter (in_bucket ?n ?k) ?xs = []" using okk by (simp add: bucket_ok_def)
    then have "bucket_ok ?n (x # ?xs) (t[?k := (Suc 0, Some (ident x))] ! h) h" if "h < ?n" for h
      using ok [OF that] that kn t(1)
      by (cases "h = ?k") (simp_all add: bucket_ok_front_new bucket_ok_front_other)
    then show ?thesis using True Some cc k dist t by (simp add: chain_inv_def insertElement_def)
  next
    case False
    then have run: "filter (in_bucket ?n ?k) ?xs \<noteq> []" using okk by (auto simp: bucket_ok_def)
    then have ch: "ch = Some (ident (hd (filter (in_bucket ?n ?k) ?xs)))"
      using okk by (simp add: bucket_ok_def)
    note hd_in = hd_filter_in [OF run]
    have "bucket_ok ?n (link_before (the ch) x ?xs) (t[?k := (c + 1, Some (ident x))] ! h) h" if "h < ?n" for h
    proof (cases "h = ?k")
      case True
      then show ?thesis using bucket_ok_before_same [OF _ t(3) okk] False kn t(1) by simp
    next
      case other: False
      have "\<forall>y \<in> set ?xs. ident y = the ch \<longrightarrow> \<not> in_bucket ?n h y"
        using hd_in distinct_ident_eq [OF t(3)] ch other by (metis option.sel)
      then show ?thesis using other ok [OF that] by (auto intro: bucket_ok_before_other)
    qed
    then show ?thesis using False Some cc k dist t ch by (simp add: chain_inv_def insertElement_def)
  qed
qed


section \<open>Rehashing\<close>

lemma rehash_loop:
  assumes "chain_inv pH" "ht pH \<noteq> None" "htsize pH = n" "distinct (map ident xs)"
    "ident ` set xs \<inter> ident ` set (elems pH) = {}"
  shows "let r = foldl (\<lambda>pH elem. insertElement pH (Some (bucket_of n (pKey elem))) elem) pH xs
    in chain_inv r \<and> set (elems r) = set xs \<union> set (elems pH) \<and> length (elems r) = length xs + length (elems pH)
       \<and> hcount r = hcount pH \<and> htsize r = n \<and> ht r \<noteq> None
       \<and> (distinct (map f xs) \<and> distinct (map f (elems pH)) \<and> f ` set xs \<inter> f ` set (elems pH) = {}
          \<longrightarrow> distinct (map f (elems r)))"
  using assms
proof (induction xs arbitrary: pH)
  case Nil
  then show ?case by (simp add: Let_def)
next
  case (Cons x xs)
  let ?pH = "insertElement pH (Some (bucket_of n (pKey x))) x"
  have "chain_inv ?pH"
    by (rule chain_inv_insertElement) (use Cons.prems in auto)
  moreover have "ident ` set xs \<inter> ident ` set (elems ?pH) = {}"
    using Cons.prems by (auto simp: insertElement_elems)
  ultimately show ?case
    using Cons.IH [of ?pH] Cons.prems by (auto simp: Let_def insertElement_elems)
qed

text \<open>The allocator grants at least the bucket it was asked for.\<close>

definition alloc_ok :: "hash_alloc \<Rightarrow> bool" where
  "alloc_ok al \<longleftrightarrow> (\<forall>n m. new_ht_size al n = Some m \<and> 0 < n \<longrightarrow> n \<le> m)"

lemma rehash_inv:
  assumes inv: "chain_inv pH" and al: "alloc_ok al" and n: "0 < n" and eq: "rehash al pH n = (pH', ok)"
  shows "chain_inv pH' \<and> set (elems pH') = set (elems pH) \<and> length (elems pH') = length (elems pH)
    \<and> hcount pH' = hcount pH \<and> (\<not> ok \<longrightarrow> pH' = pH) \<and> (ok \<longrightarrow> ht pH' \<noteq> None)
    \<and> (distinct (map f (elems pH)) \<longrightarrow> distinct (map f (elems pH')))"
proof (cases ok)
  case False
  then have "pH' = pH" using eq by (auto simp: rehash_def Let_def split: if_splits option.splits)
  with inv False show ?thesis by simp
next
  case True
  define m where "m = (if n * sizeof_ht > SQLITE_MALLOC_SOFT_LIMIT then SQLITE_MALLOC_SOFT_LIMIT div sizeof_ht else n)"
  have m: "0 < m" using n by (simp add: m_def)
  from eq True obtain nb where nb: "new_ht_size al m = Some nb"
    and pH': "pH' = foldl (\<lambda>pH elem. insertElement pH (Some (bucket_of nb (pKey elem))) elem)
        (pH\<lparr>ht := Some (replicate nb (0, None)), htsize := nb, elems := []\<rparr>) (elems pH)"
    by (auto simp: rehash_def Let_def m_def split: if_splits option.splits)
  have "0 < nb" using al nb m by (auto simp: alloc_ok_def dest: order_less_le_trans)
  then have "chain_inv (pH\<lparr>ht := Some (replicate nb (0, None)), htsize := nb, elems := []\<rparr>)"
    by (simp add: chain_inv_def bucket_ok_def)
  moreover have "distinct (map ident (elems pH))" using inv by (simp add: chain_inv_def)
  ultimately show ?thesis
    using rehash_loop [of "pH\<lparr>ht := Some (replicate nb (0, None)), htsize := nb, elems := []\<rparr>" nb "elems pH" f] True
    by (simp add: Let_def pH')
qed

section \<open>Lookup\<close>

lemma map_Tolower_folded: "map sqlite3Tolower a = map sqlite3Tolower b \<longleftrightarrow> folded a = folded b"
proof (induction a arbitrary: b)
  case (Cons x a)
  then show ?case by (cases b) (simp_all add: Tolower_eq_iff)
qed (simp add: folded_def)

lemma stricmp_folded:
  "no_nul a \<Longrightarrow> no_nul b \<Longrightarrow> sqlite3_stricmp (Some a) (Some b) = 0 \<longleftrightarrow> folded a = folded b"
  by (simp add: sqlite3_stricmp_def stricmp_loop_0 map_Tolower_folded)

lemma strHash_loop_folded: "no_nul z \<Longrightarrow>
   strHash_loop h z = foldl (\<lambda>h l. (push_bit 3 h XOR h) XOR of_nat l) h (folded z)"
  by (induction z arbitrary: h) (auto simp: no_nul_def UpperToLower_nth)

text \<open>Names that differ in case only fall into the same bucket.\<close>

lemma strHash_folded: "no_nul a \<Longrightarrow> no_nul b \<Longrightarrow> folded a = folded b \<Longrightarrow> strHash a = strHash b"
  by (simp add: strHash_def strHash_loop_folded)

lemma find_filter: "(\<And>x. x \<in> set xs \<Longrightarrow> Q x \<Longrightarrow> P x) \<Longrightarrow> find Q (filter P xs) = find Q xs"
  by (induction xs) auto

lemma find_cong': "(\<And>x. x \<in> set xs \<Longrightarrow> P x = Q x) \<Longrightarrow> find P xs = find Q xs"
  by (induction xs) auto

definition find_folded :: "'a helem list \<Rightarrow> string \<Rightarrow> 'a helem option" where
  "find_folded xs key = find (\<lambda>e. folded (pKey e) = folded key) xs"

lemma findElement_eq:
  assumes inv: "hash_inv pH" and key: "no_nul key"
  shows "findElementWithHash pH key =
    (find_folded (elems pH) key, if ht pH = None then 0 else bucket_of (htsize pH) key)"
proof -
  let ?Q = "\<lambda>e. sqlite3_stricmp (Some (pKey e)) (Some key) = 0"
  have Q: "find ?Q (elems pH) = find_folded (elems pH) key"
    unfolding find_folded_def
    by (rule find_cong') (use inv key stricmp_folded in \<open>auto simp: hash_inv_def\<close>)
  show ?thesis
  proof (cases "ht pH")
    case None
    then show ?thesis using inv Q by (simp add: findElementWithHash_def hash_inv_def)
  next
    case (Some t)
    let ?n = "htsize pH" and ?h = "bucket_of (htsize pH) key"
    obtain c ch where cc: "t ! ?h = (c, ch)" by force
    have ok: "bucket_ok ?n (elems pH) (c, ch) ?h" and d: "distinct (map ident (elems pH))"
      using inv Some cc by (simp_all add: hash_inv_def chain_inv_def) (metis mod_less_divisor)
    have walk: "hash_chain (elems pH) c ch = filter (in_bucket ?n ?h) (elems pH)"
    proof (cases "filter (in_bucket ?n ?h) (elems pH) = []")
      case True
      then show ?thesis using ok by (auto simp: bucket_ok_def hash_chain_def split: option.splits)
    next
      case False
      then show ?thesis using ok hash_chain_contig [OF _ d False] by (simp add: bucket_ok_def)
    qed
    have "find ?Q (filter (in_bucket ?n ?h) (elems pH)) = find ?Q (elems pH)"
    proof (rule find_filter)
      fix e assume e: "e \<in> set (elems pH)" and eq: "?Q e"
      from e inv have "no_nul (pKey e)" by (simp add: hash_inv_def)
      moreover from this eq key have "folded (pKey e) = folded key" by (simp only: stricmp_folded)
      ultimately show "in_bucket ?n ?h e" using key by (simp only: strHash_folded [of "pKey e" key])
    qed
    then show ?thesis using Some cc walk Q by (simp add: findElementWithHash_def Let_def)
  qed
qed

lemma hash_map_find: "hash_map pH (folded key) = map_option hdata (find_folded (elems pH) key)"
proof -
  have "map_of (map (\<lambda>e. (folded (pKey e), hdata e)) xs) (folded key) = map_option hdata (find_folded xs key)"
    for xs :: "'a helem list"
    by (induction xs) (auto simp: find_folded_def)
  then show ?thesis by (simp add: hash_map_def)
qed


section \<open>Removal\<close>

lemma find_folded_Some:
  "find_folded xs key = Some e \<Longrightarrow> e \<in> set xs \<and> folded (pKey e) = folded key"
  by (auto simp: find_folded_def find_Some_iff)

lemma find_folded_None:
  "find_folded xs key = None \<longleftrightarrow> (\<forall>e \<in> set xs. folded (pKey e) \<noteq> folded key)"
  by (auto simp: find_folded_def find_None_iff)

lemma length_filter_neq:
  "distinct xs \<Longrightarrow> e \<in> set xs \<Longrightarrow> length (filter (\<lambda>y. y \<noteq> e) xs) = length xs - 1"
proof (induction xs)
  case (Cons x xs)
  have "filter (\<lambda>y. y \<noteq> x) xs = xs" using Cons.prems(1) by (auto simp: filter_id_conv)
  with Cons show ?case by (cases "x = e"; cases xs) auto
qed simp

lemma filter_ident_run:
  assumes d: "distinct (map ident xs)" and run: "filter P xs = r" and e: "e \<in> set xs"
  shows "filter P (filter (\<lambda>x. ident x \<noteq> ident e) xs) = filter (\<lambda>x. x \<noteq> e) r"
proof -
  have "filter (\<lambda>x. ident x \<noteq> ident e \<and> P x) xs = filter (\<lambda>x. x \<noteq> e \<and> P x) xs"
    using distinct_ident_eq [OF d] e by (intro filter_cong) auto
  then show ?thesis using run by (auto simp: conj_commute)
qed

lemma bucket_ok_unlink_other:
  assumes "distinct (map ident xs)" "e \<in> set xs" "\<not> in_bucket n h e" "bucket_ok n xs b h"
  shows "bucket_ok n (unlink (ident e) xs) b h"
proof -
  have "filter (in_bucket n h) (filter (\<lambda>x. ident x \<noteq> ident e) xs) = filter (in_bucket n h) xs"
    using filter_ident_run [OF assms(1) refl assms(2), of "in_bucket n h"] assms(3)
    by (auto intro!: filter_cong)
  then show ?thesis using assms by (simp add: bucket_ok_def unlink_filter contig_filter)
qed

lemma bucket_ok_unlink_same:
  assumes d: "distinct (map ident xs)" and e: "e \<in> set xs" "in_bucket n h e" and ok: "bucket_ok n xs (c, ch) h"
  shows "bucket_ok n (unlink (ident e) xs)
    (c - 1, if ch = Some (ident e)
            then (case tl (dropWhile (\<lambda>x. ident x \<noteq> ident e) xs) of [] \<Rightarrow> None | x # _ \<Rightarrow> Some (ident x))
            else ch) h"
proof -
  let ?P = "in_bucket n h"
  obtain x r where run: "filter ?P xs = x # r"
    using e by (cases "filter ?P xs") (auto simp: filter_empty_conv)
  have dr: "distinct (x # r)"
    using d run by (metis distinct_filter distinct_map)
  have f: "filter ?P (unlink (ident e) xs) = filter (\<lambda>y. y \<noteq> e) (x # r)"
    using filter_ident_run [OF d run e(1)] d by (simp only: unlink_filter)
  have er: "e \<in> set (x # r)" using e by (simp flip: run)
  have c: "contig ?P xs" "c = Suc (length r)" "ch = Some (ident x)"
    using ok run by (auto simp: bucket_ok_def)
  have len: "length (filter (\<lambda>y. y \<noteq> e) (x # r)) = length r"
    using length_filter_neq [OF dr er] by simp
  have x: "x \<in> set xs" using run by (metis filter_is_subset list.set_intros(1) subsetD)
  show ?thesis
  proof (cases "x = e")
    case True
    then have fr: "filter (\<lambda>y. y \<noteq> e) (x # r) = r" using dr by (auto simp: filter_id_conv)
    show ?thesis
      using c f fr True next_in_run [OF c(1) d] run
      by (auto simp: bucket_ok_def unlink_filter [OF d] contig_filter)
  next
    case False
    then have "ident x \<noteq> ident e" using distinct_ident_eq [OF d x e(1)] by blast
    then show ?thesis
      using c f len False by (simp add: bucket_ok_def unlink_filter [OF d] contig_filter)
  qed
qed

lemma removeElement_spec:
  assumes inv: "hash_inv pH" and e: "e \<in> set (elems pH)"
    and h: "h = (if ht pH = None then 0 else bucket_of (htsize pH) (pKey e))"
  shows "hash_inv (removeElementGivenHash pH e h)
    \<and> elems (removeElementGivenHash pH e h) = filter (\<lambda>x. ident x \<noteq> ident e) (elems pH)"
proof -
  let ?xs = "elems pH" and ?n = "htsize pH"
  let ?ys = "unlink (ident e) ?xs"
  have d: "distinct (map ident ?xs)" using inv by (simp add: hash_inv_def chain_inv_def)
  have ys: "?ys = filter (\<lambda>x. ident x \<noteq> ident e) ?xs" using d by (rule unlink_filter)
  have "filter (\<lambda>x. ident x \<noteq> ident e) ?xs = filter (\<lambda>x. x \<noteq> e) ?xs"
    using distinct_ident_eq [OF d] e by (intro filter_cong) auto
  then have len: "length ?ys = length ?xs - 1"
    using d e length_filter_neq [of ?xs e] by (simp add: ys distinct_map)
  have clear: "hcount pH - 1 = 0 \<Longrightarrow> ?ys = []"
    using len inv by (simp add: hash_inv_def)
  have frame: "distinct (map ident ?ys)" "distinct (map (\<lambda>e. folded (pKey e)) ?ys)"
      "\<forall>x \<in> set ?ys. no_nul (pKey x)" "hcount pH - 1 = length ?ys"
    using inv d len by (auto simp: ys hash_inv_def distinct_map intro: inj_on_subset)
  note def = removeElementGivenHash_def unlink_def [symmetric] Let_def
  show ?thesis
  proof (cases "hcount pH - 1 = 0")
    case True
    then have "removeElementGivenHash pH e h = sqlite3HashInit"
      by (auto simp: def HashClear_Init split: option.splits prod.splits)
    then show ?thesis using clear [OF True] ys hash_inv_init
      by (simp add: HashClear_Init) (simp add: sqlite3HashInit_def)
  next
    case False
    show ?thesis
    proof (cases "ht pH")
      case None
      then show ?thesis using False frame inv ys
        by (simp add: def hash_inv_def chain_inv_def)
    next
      case (Some t)
      let ?k = "bucket_of ?n (pKey e)"
      obtain c ch where cc: "t ! ?k = (c, ch)" by force
      have t: "length t = ?n" "?k < ?n" and ok: "\<And>k. k < ?n \<Longrightarrow> bucket_ok ?n ?xs (t ! k) k"
        using inv Some by (simp_all add: hash_inv_def chain_inv_def)
      define b where "b = (c - 1, if ch = Some (ident e)
            then (case tl (dropWhile (\<lambda>x. ident x \<noteq> ident e) ?xs) of [] \<Rightarrow> None | x # _ \<Rightarrow> Some (ident x))
            else ch)"
      have "bucket_ok ?n ?ys (t[?k := b] ! k) k" if "k < ?n" for k
        using ok [OF that] t bucket_ok_unlink_same [OF d e refl] bucket_ok_unlink_other [OF d e] cc
        by (cases "k = ?k") (auto simp: b_def)
      then show ?thesis using False frame inv ys Some cc h t
        by (simp add: def hash_inv_def chain_inv_def b_def)
    qed
  qed
qed


section \<open>Insertion\<close>

lemma hash_map_set:
  "distinct (map (\<lambda>e. folded (pKey e)) (elems pH)) \<Longrightarrow>
   hash_map pH k = Some d \<longleftrightarrow> (\<exists>e \<in> set (elems pH). folded (pKey e) = k \<and> hdata e = d)"
  by (force simp: hash_map_def map_of_eq_Some_iff o_def image_iff)

lemma hash_map_eqI:
  assumes "distinct (map (\<lambda>e. folded (pKey e)) (elems pH))"
    "\<And>k d. m k = Some d \<longleftrightarrow> (\<exists>e \<in> set (elems pH). folded (pKey e) = k \<and> hdata e = d)"
  shows "hash_map pH = m"
proof
  fix k show "hash_map pH k = m k"
    using hash_map_set [OF assms(1), of k] assms(2) [of k] by (metis option.exhaust)
qed

lemma distinct_folded_eq:
  "distinct (map (\<lambda>e. folded (pKey e)) xs) \<Longrightarrow> x \<in> set xs \<Longrightarrow> y \<in> set xs \<Longrightarrow>
   folded (pKey x) = folded (pKey y) \<Longrightarrow> x = y"
  by (auto simp: distinct_map dest: inj_onD)

lemma HashInsert_delete:
  assumes inv: "hash_inv pH" and key: "no_nul key"
    and eq: "sqlite3HashInsert al pH key None = (pH', r)"
  shows "hash_inv pH' \<and> hash_map pH' = (hash_map pH)(folded key := None) \<and> r = hash_map pH (folded key)"
proof (cases "find_folded (elems pH) key")
  case None
  then show ?thesis using assms findElement_eq [OF inv key] hash_map_find [of pH key]
    by (auto simp: sqlite3HashInsert_def)
next
  case (Some e)
  note e = find_folded_Some [OF Some]
  have nn: "no_nul (pKey e)" and d: "distinct (map (\<lambda>e. folded (pKey e)) (elems pH))"
      "distinct (map ident (elems pH))"
    using inv e by (simp_all add: hash_inv_def chain_inv_def)
  have pH': "pH' = removeElementGivenHash pH e (if ht pH = None then 0 else bucket_of (htsize pH) (pKey e))"
    using eq Some findElement_eq [OF inv key] strHash_folded [OF nn key] e
    by (cases "ht pH") (simp_all add: sqlite3HashInsert_def)
  have spec: "hash_inv pH'" "elems pH' = filter (\<lambda>x. ident x \<noteq> ident e) (elems pH)"
    using removeElement_spec [OF inv conjunct1 [OF e] refl] by (simp_all add: pH')
  have same: "ident y \<noteq> ident e \<longleftrightarrow> folded (pKey y) \<noteq> folded key" if "y \<in> set (elems pH)" for y
    using distinct_folded_eq [OF d(1) that conjunct1 [OF e]] distinct_ident_eq [OF d(2) that conjunct1 [OF e]] e
    by metis
  then have set': "set (elems pH') = {y \<in> set (elems pH). folded (pKey y) \<noteq> folded key}"
    by (auto simp: spec(2))
  have d': "distinct (map (\<lambda>e. folded (pKey e)) (elems pH'))" using spec(1) by (simp add: hash_inv_def)
  have "hash_map pH' = (hash_map pH)(folded key := None)"
    by (rule hash_map_eqI [OF d']) (auto simp: hash_map_set [OF d(1)] set')
  moreover have "r = hash_map pH (folded key)"
    using eq Some findElement_eq [OF inv key] hash_map_find [of pH key] by (simp add: sqlite3HashInsert_def)
  ultimately show ?thesis using spec by blast
qed


lemma filter_map_same: "\<forall>x \<in> set xs. P (f x) = P x \<Longrightarrow> filter P (map f xs) = map f (filter P xs)"
  by (induction xs) auto

lemma dropWhile_map_same: "\<forall>x \<in> set xs. P (f x) = P x \<Longrightarrow> dropWhile P (map f xs) = map f (dropWhile P xs)"
  by (induction xs) auto

lemma contig_map_same: "\<forall>x \<in> set xs. P (f x) = P x \<Longrightarrow> contig P (map f xs) = contig P xs"
proof (induction xs)
  case (Cons x xs)
  then have "filter P (map f (dropWhile P xs)) = map f (filter P (dropWhile P xs))"
    by (intro filter_map_same) (auto dest: set_dropWhileD)
  with Cons show ?case by (simp add: dropWhile_map_same)
qed simp

lemma bucket_ok_map:
  fixes f :: "'a helem \<Rightarrow> 'a helem"
  assumes "\<forall>e \<in> set xs. ident (f e) = ident e" "\<forall>e \<in> set xs. strHash (pKey (f e)) = strHash (pKey e)"
  shows "bucket_ok n (map f xs) b h = bucket_ok n xs b h"
proof -
  have P: "\<forall>e \<in> set xs. in_bucket n h (f e) = in_bucket n h e" using assms(2) by simp
  have "ident (hd (map f (filter (in_bucket n h) xs))) = ident (hd (filter (in_bucket n h) xs))"
    if "filter (in_bucket n h) xs \<noteq> []"
    using that assms(1) hd_filter_in [OF that] by (simp add: hd_map)
  then show ?thesis by (auto simp: bucket_ok_def contig_map_same [of xs "in_bucket n h" f] filter_map_same [of xs "in_bucket n h" f] P)
qed

lemma HashInsert_replace:
  assumes inv: "hash_inv pH" and key: "no_nul key" and found: "find_folded (elems pH) key = Some e0"
    and eq: "sqlite3HashInsert al pH key (Some d) = (pH', r)"
  shows "hash_inv pH' \<and> hash_map pH' = (hash_map pH)(folded key \<mapsto> d) \<and> r = hash_map pH (folded key)"
proof -
  note e0 = find_folded_Some [OF found]
  let ?f = "\<lambda>e. if ident e = ident e0 then e\<lparr>hdata := d, pKey := key\<rparr> else e"
  have pH': "pH' = pH\<lparr>elems := map ?f (elems pH)\<rparr>" and r: "r = Some (hdata e0)"
    using eq found findElement_eq [OF inv key] by (auto simp: sqlite3HashInsert_def)
  have dist: "distinct (map ident (elems pH))" "distinct (map (\<lambda>e. folded (pKey e)) (elems pH))"
      "\<forall>e \<in> set (elems pH). no_nul (pKey e)"
    using inv by (simp_all add: hash_inv_def chain_inv_def)
  have idf: "\<forall>e \<in> set (elems pH). ident (?f e) = ident e" by simp
  have only: "\<forall>e \<in> set (elems pH). ident e = ident e0 \<longrightarrow> e = e0"
    using distinct_ident_eq [OF dist(1)] e0 by blast
  have fol: "\<forall>e \<in> set (elems pH). folded (pKey (?f e)) = folded (pKey e)"
    using only e0 by auto
  have hsh: "\<forall>e \<in> set (elems pH). strHash (pKey (?f e)) = strHash (pKey e)"
  proof
    fix e assume e: "e \<in> set (elems pH)"
    show "strHash (pKey (?f e)) = strHash (pKey e)"
    proof (cases "ident e = ident e0")
      case True
      with only e have "e = e0" by blast
      with e dist(3) key e0 show ?thesis by (simp add: strHash_folded [of key "pKey e0"])
    qed simp
  qed
  have m: "map ident (elems pH') = map ident (elems pH)"
       "map (\<lambda>e. folded (pKey e)) (elems pH') = map (\<lambda>e. folded (pKey e)) (elems pH)"
    using idf fol by (simp_all add: pH' o_def del: if_split)
  have nn': "\<forall>e \<in> set (elems pH'). no_nul (pKey e)" using dist(3) key by (auto simp: pH')
  have b: "bucket_ok n (elems pH') b h = bucket_ok n (elems pH) b h" for n b h
    using bucket_ok_map [OF idf hsh] by (simp add: pH')
  have same: "ht pH' = ht pH" "htsize pH' = htsize pH" "hcount pH' = hcount pH" "length (elems pH') = length (elems pH)"
    by (simp_all add: pH')
  have inv': "hash_inv pH'"
    using inv by (simp add: hash_inv_def chain_inv_def m nn' b same cong: option.case_cong)
  moreover have "hash_map pH' = (hash_map pH)(folded key \<mapsto> d)"
  proof (rule hash_map_eqI)
    show "distinct (map (\<lambda>e. folded (pKey e)) (elems pH'))" using inv' by (simp add: hash_inv_def)
    fix k x
    have same: "ident e \<noteq> ident e0 \<longleftrightarrow> folded (pKey e) \<noteq> folded key" if "e \<in> set (elems pH)" for e
      using only that e0 distinct_folded_eq [OF dist(2) that conjunct1 [OF e0]] by metis
    have data: "hdata (?f e) = (if folded (pKey e) = folded key then d else hdata e)" if "e \<in> set (elems pH)" for e
      using same [OF that] by simp
    show "((hash_map pH)(folded key \<mapsto> d)) k = Some x \<longleftrightarrow>
        (\<exists>e \<in> set (elems pH'). folded (pKey e) = k \<and> hdata e = x)"
    proof -
      have "(\<exists>e \<in> set (elems pH'). folded (pKey e) = k \<and> hdata e = x)
          \<longleftrightarrow> (\<exists>e \<in> set (elems pH). folded (pKey (?f e)) = k \<and> hdata (?f e) = x)"
      proof -
        have "set (elems pH') = ?f ` set (elems pH)" by (simp add: pH' del: if_image_distrib)
        then show ?thesis by (simp only: bex_simps)
      qed
      also have "\<dots> \<longleftrightarrow> (\<exists>e \<in> set (elems pH). folded (pKey e) = k \<and>
          (if folded (pKey e) = folded key then d else hdata e) = x)"
        by (rule bex_cong [OF refl]) (metis data fol)
      also have "\<dots> \<longleftrightarrow> ((hash_map pH)(folded key \<mapsto> d)) k = Some x"
      proof (cases "k = folded key")
        case True
        then show ?thesis using e0 by auto
      next
        case False
        then show ?thesis by (auto simp: hash_map_set [OF dist(2)])
      qed
      finally show ?thesis by simp
    qed
  qed
  ultimately show ?thesis using r found hash_map_find [of pH key] by simp
qed

lemma HashInsert_new:
  assumes inv: "hash_inv pH" and key: "no_nul key" and al: "alloc_ok al"
    and absent: "find_folded (elems pH) key = None"
    and addr: "new_elem_addr al = Some a" and fresh: "a \<notin> ident ` set (elems pH)"
    and eq: "sqlite3HashInsert al pH key (Some d) = (pH', r)"
  shows "hash_inv pH' \<and> hash_map pH' = (hash_map pH)(folded key \<mapsto> d) \<and> r = None"
proof -
  let ?x = "\<lparr>ident = a, pKey = key, hdata = d\<rparr>"
  let ?p1 = "pH\<lparr>hcount := hcount pH + 1\<rparr>"
  let ?fk = "\<lambda>e. folded (pKey e)"
  have c1: "chain_inv ?p1" and d1: "distinct (map ?fk (elems pH))" and cnt: "hcount pH = length (elems pH)"
    and nn: "\<forall>e \<in> set (elems pH). no_nul (pKey e)"
    using inv by (simp_all add: hash_inv_def)
  obtain p2 h where p2: "chain_inv p2" "set (elems p2) = set (elems pH)" "length (elems p2) = length (elems pH)"
      "hcount p2 = hcount pH + 1" "distinct (map ?fk (elems p2))"
    and h: "h = (if ht p2 = None then 0 else bucket_of (htsize p2) key)"
    and pH': "pH' = insertElement p2 (if ht p2 \<noteq> None then Some h else None) ?x" and r: "r = None"
  proof (cases "hcount pH + 1 \<ge> 10 \<and> hcount pH + 1 > 2 * htsize pH")
    case False
    then have "pH' = insertElement ?p1 (if ht ?p1 \<noteq> None then Some (if ht pH = None then 0 else bucket_of (htsize pH) key) else None) ?x \<and> r = None"
      using eq addr absent findElement_eq [OF inv key] by (auto simp: sqlite3HashInsert_def Let_def)
    then show ?thesis using that [of ?p1] c1 d1 by simp
  next
    case True
    obtain p2 ok where rh: "rehash al ?p1 ((hcount pH + 1) * 2) = (p2, ok)" by force
    note spec = rehash_inv [OF c1 al _ rh, of ?fk]
    have "pH' = insertElement p2 (if ht p2 \<noteq> None then Some (if ok then bucket_of (htsize p2) key else if ht pH = None then 0 else bucket_of (htsize pH) key) else None) ?x \<and> r = None"
      using eq addr absent findElement_eq [OF inv key] True rh by (auto simp: sqlite3HashInsert_def Let_def)
    then show ?thesis using that [of p2 "if ok then bucket_of (htsize p2) key else if ht pH = None then 0 else bucket_of (htsize pH) key"] spec d1
      by (cases ok) auto
  qed
  have ch: "chain_inv pH'"
    unfolding pH' by (rule chain_inv_insertElement) (use p2 fresh h in auto)
  have set': "set (elems pH') = insert ?x (set (elems pH))" "length (elems pH') = Suc (length (elems pH))"
    using p2 by (simp_all add: pH' insertElement_elems)
  have new: "folded key \<notin> ?fk ` set (elems pH)" using absent by (auto simp: find_folded_None)
  have d': "distinct (map ?fk (elems pH'))"
    using p2 new by (simp add: pH' insertElement_elems(3) [where f = ?fk])
  have inv': "hash_inv pH'"
    using ch set' d' nn key cnt p2 by (simp add: hash_inv_def pH')
  have "hash_map pH' = (hash_map pH)(folded key \<mapsto> d)"
  proof (rule hash_map_eqI [OF d'])
    fix k y
    show "((hash_map pH)(folded key \<mapsto> d)) k = Some y \<longleftrightarrow>
        (\<exists>e \<in> set (elems pH'). folded (pKey e) = k \<and> hdata e = y)"
      using new by (cases "k = folded key") (force simp: hash_map_set [OF d1] set')+
  qed
  with inv' r show ?thesis by simp
qed

text \<open>An allocator is ready for a table when a fresh element address and large enough bucket
  arrays come out of it, whenever it succeeds.\<close>

definition alloc_ready :: "hash_alloc \<Rightarrow> 'a hash \<Rightarrow> bool" where
  "alloc_ready al pH \<longleftrightarrow> alloc_ok al
     \<and> (case new_elem_addr al of None \<Rightarrow> True | Some a \<Rightarrow> a \<notin> ident ` set (elems pH))"

lemma HashInsert_cases:
  assumes inv: "hash_inv pH" and key: "no_nul key" and al: "alloc_ready al pH"
    and eq: "sqlite3HashInsert al pH key dat = (pH', r)"
  shows "hash_inv pH' \<and>
    (if dat \<noteq> None \<and> hash_map pH (folded key) = None \<and> new_elem_addr al = None
     then pH' = pH \<and> r = dat
     else hash_map pH' = (hash_map pH)(folded key := dat) \<and> r = hash_map pH (folded key))"
proof (cases dat)
  case None
  then show ?thesis using HashInsert_delete [OF inv key] eq by auto
next
  case (Some d)
  note eq = eq [unfolded Some]
  show ?thesis
  proof (cases "find_folded (elems pH) key")
    case (Some e)
    then show ?thesis using HashInsert_replace [OF inv key Some eq] \<open>dat = Some d\<close> hash_map_find [of pH key] by simp
  next
    case None
    have m: "hash_map pH (folded key) = None" using None by (simp add: hash_map_find)
    show ?thesis
    proof (cases "new_elem_addr al")
      case (Some a)
      then show ?thesis using HashInsert_new [OF inv key _ None Some _ eq] al \<open>dat = Some d\<close> m
        by (simp add: alloc_ready_def)
    next
      case addr: None
      then show ?thesis using eq None inv findElement_eq [OF inv key] m \<open>dat = Some d\<close>
        by (auto simp: sqlite3HashInsert_def)
    qed
  qed
qed

lemma HashFind_map:
  "hash_inv pH \<Longrightarrow> no_nul key \<Longrightarrow> sqlite3HashFind pH key = hash_map pH (folded key)"
  by (simp add: sqlite3HashFind_def findElement_eq hash_map_find)


section \<open>The interface its clients use\<close>

text \<open>
  The schema code only looks names up and inserts or removes them. The laws below are what
  it relies on: a lookup sees the last update of an equivalent name. \<open>put\<close> takes an
  environment (the allocator) that may refuse; a refused update leaves the table alone.
\<close>

fun put_all :: "('e \<Rightarrow> 'h \<Rightarrow> 'k \<Rightarrow> 'v option \<Rightarrow> 'h \<times> 'v option) \<Rightarrow> ('e \<times> 'k \<times> 'v option) list \<Rightarrow> 'h \<Rightarrow> 'h" where
  "put_all put [] h = h"
| "put_all put ((e, k, v) # ops) h = put_all put ops (fst (put e h k v))"

fun all_served :: "('e \<Rightarrow> 'h \<Rightarrow> 'k \<Rightarrow> 'v option \<Rightarrow> 'h \<times> 'v option) \<Rightarrow> ('e \<Rightarrow> 'h \<Rightarrow> bool) \<Rightarrow>
    ('e \<times> 'k \<times> 'v option) list \<Rightarrow> 'h \<Rightarrow> bool" where
  "all_served put served [] h = True"
| "all_served put served ((e, k, v) # ops) h =
     (served e h \<and> all_served put served ops (fst (put e h k v)))"

definition last_write :: "('k \<Rightarrow> 'n) \<Rightarrow> ('e \<times> 'k \<times> 'v option) list \<Rightarrow> 'k \<Rightarrow> 'v option" where
  "last_write norm ops k =
     (case filter (\<lambda>(e, k', v). norm k' = norm k) (rev ops) of [] \<Rightarrow> None | (e, k', v) # _ \<Rightarrow> v)"

locale name_map =
  fixes inv :: "'h \<Rightarrow> bool" and start :: 'h and find :: "'h \<Rightarrow> 'k \<Rightarrow> 'v option"
    and put :: "'e \<Rightarrow> 'h \<Rightarrow> 'k \<Rightarrow> 'v option \<Rightarrow> 'h \<times> 'v option"
    and served :: "'e \<Rightarrow> 'h \<Rightarrow> bool" and norm :: "'k \<Rightarrow> 'n" and key_ok :: "'k \<Rightarrow> bool"
  assumes start_inv: "inv start"
    and find_start: "key_ok k \<Longrightarrow> find start k = None"
    and put_inv: "inv h \<Longrightarrow> key_ok k \<Longrightarrow> served e h \<Longrightarrow> inv (fst (put e h k v))"
    and find_put: "inv h \<Longrightarrow> key_ok k \<Longrightarrow> key_ok k' \<Longrightarrow> served e h \<Longrightarrow>
      find (fst (put e h k v)) k' = (if norm k' = norm k then v else find h k')"
    and put_old: "inv h \<Longrightarrow> key_ok k \<Longrightarrow> served e h \<Longrightarrow> snd (put e h k v) = find h k"
begin

lemma put_all_inv:
  assumes "inv h" "all_served put served ops h" "\<forall>(e, k, v) \<in> set ops. key_ok k"
  shows "inv (put_all put ops h)"
  using assms by (induction ops arbitrary: h) (auto simp: put_inv)

lemma find_put_all:
  assumes "inv h" "all_served put served ops h" "\<forall>(e, k, v) \<in> set ops. key_ok k" "key_ok k"
  shows "find (put_all put ops h) k =
    (if \<exists>(e, k', v) \<in> set ops. norm k' = norm k then last_write norm ops k else find h k)"
  using assms
proof (induction ops arbitrary: h)
  case (Cons op ops)
  obtain e k' v where op: "op = (e, k', v)" by (cases op)
  have lw: "last_write norm (op # ops) k =
      (if \<exists>(e, k', v) \<in> set ops. norm k' = norm k then last_write norm ops k
       else if norm k' = norm k then v else None)"
    by (auto simp: last_write_def op filter_empty_conv split: list.split)
  show ?case
    using Cons.IH [of "fst (put e h k' v)"] Cons.prems find_put [of h k' k e v]
    by (auto simp: lw [unfolded op] op put_inv)
qed simp

theorem find_after:
  assumes "all_served put served ops start" "\<forall>(e, k, v) \<in> set ops. key_ok k" "key_ok k"
  shows "find (put_all put ops start) k = last_write norm ops k"
proof (cases "\<exists>(e, k', v) \<in> set ops. norm k' = norm k")
  case False
  then have "filter (\<lambda>(e, k', v). norm k' = norm k) (rev ops) = []"
    by (auto simp: filter_empty_conv)
  then have "last_write norm ops k = None" by (simp add: last_write_def)
  then show ?thesis using False find_put_all [OF start_inv assms] assms(3) by (simp add: find_start)
qed (use find_put_all [OF start_inv assms] in simp)

end

definition hash_served :: "hash_alloc \<Rightarrow> 'a hash \<Rightarrow> bool" where
  "hash_served al pH \<longleftrightarrow> alloc_ready al pH \<and> new_elem_addr al \<noteq> None"

interpretation hash_names: name_map hash_inv sqlite3HashInit sqlite3HashFind sqlite3HashInsert
    hash_served folded no_nul
proof
  show "hash_inv sqlite3HashInit" by (rule hash_inv_init)
next
  fix k show "no_nul k \<Longrightarrow> sqlite3HashFind sqlite3HashInit k = None"
    by (simp add: HashFind_map hash_inv_init) (simp add: hash_map_def sqlite3HashInit_def)
next
  fix h :: "'a hash" and k k' e v
  assume a: "hash_inv h" "no_nul k" "hash_served e h"
  obtain h' r where eq: "sqlite3HashInsert e h k v = (h', r)" by force
  note c = HashInsert_cases [OF a(1,2) _ eq]
  show "hash_inv (fst (sqlite3HashInsert e h k v))"
    using c a(3) by (simp add: eq hash_served_def)
  show "snd (sqlite3HashInsert e h k v) = sqlite3HashFind h k"
    using c a by (auto simp: eq hash_served_def HashFind_map)
  assume "no_nul k'"
  then show "sqlite3HashFind (fst (sqlite3HashInsert e h k v)) k' =
      (if folded k' = folded k then v else sqlite3HashFind h k')"
    using c a by (auto simp: eq hash_served_def HashFind_map)
qed

section \<open>Properties\<close>

text \<open>C28. \<^verbatim>\<open>sqlite3HashInsert\<close> refines a finite map on case-folded names: it keeps the table's
  structure (bucket counts and head pointers agree with the element list, also across
  a rehash), replaces, adds or removes exactly the binding of the name, and returns
  the previous data pointer; when no memory is left for a new element the table is
  unchanged and the new pointer comes back.\<close>

theorem hash_insert_refines_map:
  assumes "hash_inv pH" and "no_nul key" and "alloc_ready al pH"
    and "sqlite3HashInsert al pH key dat = (pH', r)"
  shows "hash_inv pH' \<and>
    (if dat \<noteq> None \<and> hash_map pH (folded key) = None \<and> new_elem_addr al = None
     then pH' = pH \<and> r = dat
     else hash_map pH' = (hash_map pH)(folded key := dat) \<and> r = hash_map pH (folded key))"
  by (rule HashInsert_cases [OF assms])

theorem hash_insert_refines_map_witness:
  "hash_map (fst (sqlite3HashInsert \<lparr>new_elem_addr = Some 7, new_ht_size = Some\<rparr> sqlite3HashInit ''t1'' (Some (5 :: nat))))
     = [folded ''t1'' \<mapsto> 5]"
proof -
  obtain h r where eq: "sqlite3HashInsert \<lparr>new_elem_addr = Some 7, new_ht_size = Some\<rparr> sqlite3HashInit ''t1'' (Some (5 :: nat)) = (h, r)"
    by force
  have "no_nul ''t1''" by (simp add: no_nul_def)
  moreover have "alloc_ready \<lparr>new_elem_addr = Some 7, new_ht_size = Some\<rparr> (sqlite3HashInit :: nat hash)"
    by (simp add: alloc_ready_def alloc_ok_def sqlite3HashInit_def)
  moreover have "hash_map (sqlite3HashInit :: nat hash) = Map.empty" by (simp add: hash_map_def sqlite3HashInit_def)
  ultimately show ?thesis
    using hash_insert_refines_map [OF hash_inv_init _ _ eq] by (simp add: eq)
qed

text \<open>C29. After any sequence of insertions, replacements and deletions on an empty table (with
  any growth of the bucket array in between), \<^verbatim>\<open>sqlite3HashFind\<close> returns what the last
  operation on a name equal up to case stored, and NULL when there is none.\<close>

theorem hash_find_last_write:
  assumes "all_served sqlite3HashInsert hash_served ops sqlite3HashInit"
    and "\<forall>(al, k, d) \<in> set ops. no_nul k" and "no_nul key"
  shows "sqlite3HashFind (put_all sqlite3HashInsert ops sqlite3HashInit) key = last_write folded ops key"
  by (rule hash_names.find_after [OF assms])

theorem hash_find_last_write_witness:
  "\<exists>ops :: (hash_alloc \<times> string \<times> nat option) list. length ops = 3
    \<and> sqlite3HashFind (put_all sqlite3HashInsert ops sqlite3HashInit) ''IDX'' = Some 2
    \<and> sqlite3HashFind (put_all sqlite3HashInsert ops sqlite3HashInit) ''t1'' = None"
proof -
  let ?al = "\<lambda>n. \<lparr>new_elem_addr = Some n, new_ht_size = Some\<rparr>"
  let ?ops = "[(?al 1, ''T1'', Some 1), (?al 2, ''idx'', Some 2), (?al 3, ''t1'', None)] :: (hash_alloc \<times> string \<times> nat option) list"
  have n: "no_nul ''T1''" "no_nul ''idx''" "no_nul ''t1''" "no_nul ''IDX''" by (simp_all add: no_nul_def)
  have s: "all_served sqlite3HashInsert hash_served ?ops sqlite3HashInit"
    by (simp add: hash_served_def alloc_ready_def alloc_ok_def sqlite3HashInit_def sqlite3HashInsert_def
        findElementWithHash_def insertElement_def Let_def sqlite3_stricmp_def)
  show ?thesis
    by (rule exI [of _ ?ops])
      (use hash_find_last_write [OF s _ n(4)] hash_find_last_write [OF s _ n(3)] n in
        \<open>simp add: last_write_def lower_of_def\<close>)
qed

end
