(* ===== verification/IntUtil.thy ===== *)
theory IntUtil
  imports Ctype "HOL-Library.Signed_Division" "HOL-Library.While_Combinator"
begin

text \<open>
  The integer helpers of \<^verbatim>\<open>src/sqlite/src/util.c\<close>: overflow-checked 64-bit arithmetic, the
  conversions from decimal and hexadecimal text, blob literals and the logarithmic
  estimates of the query planner.

  A signed 64-bit value is an \<^typ>\<open>int\<close> and \<open>wrap64\<close> is applied to the result of every C
  operation on it, as two's complement hardware does. An output parameter and the return
  code are the two components of the result.
\<close>

section \<open>Overflow-checked arithmetic\<close>

abbreviation LARGEST_INT64 :: int where "LARGEST_INT64 \<equiv> 9223372036854775807"
abbreviation SMALLEST_INT64 :: int where "SMALLEST_INT64 \<equiv> -9223372036854775808"
abbreviation TWOPOWER32 :: int where "TWOPOWER32 \<equiv> 4294967296"
abbreviation TWOPOWER31 :: int where "TWOPOWER31 \<equiv> 2147483648"

definition wrap64 :: "int \<Rightarrow> int" where
  "wrap64 x = signed_take_bit 63 x"

definition in_i64 :: "int \<Rightarrow> bool" where
  "in_i64 x \<longleftrightarrow> SMALLEST_INT64 \<le> x \<and> x \<le> LARGEST_INT64"

definition sqlite3AddInt64 :: "int \<Rightarrow> int \<Rightarrow> int \<times> int" where
  "sqlite3AddInt64 iA iB =
     (if iB \<ge> 0 then
        if iA > 0 \<and> wrap64 (LARGEST_INT64 - iA) < iB then (iA, 1) else (wrap64 (iA + iB), 0)
      else
        if iA < 0 \<and> wrap64 (- wrap64 (iA + LARGEST_INT64)) > wrap64 (iB + 1) then (iA, 1)
        else (wrap64 (iA + iB), 0))"

definition sqlite3SubInt64 :: "int \<Rightarrow> int \<Rightarrow> int \<times> int" where
  "sqlite3SubInt64 pA iB =
     (if iB = SMALLEST_INT64 then
        if pA \<ge> 0 then (pA, 1) else (wrap64 (pA - iB), 0)
      else sqlite3AddInt64 pA (wrap64 (- iB)))"

definition sqlite3MulInt64 :: "int \<Rightarrow> int \<Rightarrow> int \<times> int" where
  "sqlite3MulInt64 iA iB =
     (let iA1 = iA sdiv TWOPOWER32; iA0 = iA smod TWOPOWER32;
          iB1 = iB sdiv TWOPOWER32; iB0 = iB smod TWOPOWER32;
          finish = (\<lambda>r.
            if r < - TWOPOWER31 \<or> r \<ge> TWOPOWER31 then (iA, 1)
            else
              let r = wrap64 (r * TWOPOWER32);
                  (r, rc) = sqlite3AddInt64 r (wrap64 (iA0 * iB0))
              in if rc \<noteq> 0 then (iA, 1) else (r, 0))
      in if iA1 = 0 then
           if iB1 = 0 then (wrap64 (iA * iB), 0) else finish (wrap64 (iA0 * iB1))
         else if iB1 = 0 then finish (wrap64 (iA1 * iB0))
         else (iA, 1))"

definition sqlite3AbsInt32 :: "int \<Rightarrow> int" where
  "sqlite3AbsInt32 x =
     (if x \<ge> 0 then x else if x = - TWOPOWER31 then 0x7fffffff else - x)"

lemma wrap64_id [simp]: "SMALLEST_INT64 \<le> x \<Longrightarrow> x \<le> LARGEST_INT64 \<Longrightarrow> wrap64 x = x"
  by (simp add: wrap64_def signed_take_bit_int_eq_self)

lemma AddInt64_spec:
  "in_i64 a \<Longrightarrow> in_i64 b \<Longrightarrow> sqlite3AddInt64 a b = (if in_i64 (a + b) then (a + b, 0) else (a, 1))"
  by (auto simp: sqlite3AddInt64_def in_i64_def)

lemma SubInt64_spec:
  "in_i64 a \<Longrightarrow> in_i64 b \<Longrightarrow> sqlite3SubInt64 a b = (if in_i64 (a - b) then (a - b, 0) else (a, 1))"
  by (auto simp: sqlite3SubInt64_def AddInt64_spec in_i64_def)

text \<open>Truncating division: the high part and the low part have the sign of the number.\<close>

lemma split32:
  assumes "in_i64 a"
  obtains h l where "a sdiv TWOPOWER32 = h" "a smod TWOPOWER32 = l" "a = h * TWOPOWER32 + l"
    "\<bar>l\<bar> < TWOPOWER32" "\<bar>h\<bar> \<le> TWOPOWER31" "0 \<le> a \<Longrightarrow> 0 \<le> h \<and> 0 \<le> l" "a \<le> 0 \<Longrightarrow> h \<le> 0 \<and> l \<le> 0"
    "h = 0 \<longleftrightarrow> \<bar>a\<bar> < TWOPOWER32"
proof (rule that [OF refl refl])
  have d: "a sdiv TWOPOWER32 = sgn a * (\<bar>a\<bar> div TWOPOWER32)"
    and m: "a smod TWOPOWER32 = sgn a * (\<bar>a\<bar> mod TWOPOWER32)"
    by (simp_all add: signed_divide_int_def signed_modulo_int_def minus_div_mult_eq_mod [symmetric]
        algebra_simps abs_sgn sgn_if)
  show "a = a sdiv TWOPOWER32 * TWOPOWER32 + a smod TWOPOWER32"
    by (simp only: sdiv_mult_smod_eq)
  have r: "\<bar>a\<bar> \<le> 9223372036854775808" using assms by (auto simp: in_i64_def)
  show "\<bar>a smod TWOPOWER32\<bar> < TWOPOWER32" by (simp add: m abs_mult sgn_if)
  show "\<bar>a sdiv TWOPOWER32\<bar> \<le> TWOPOWER31" using r zdiv_mono1 [OF r, of TWOPOWER32] by (auto simp: d abs_mult sgn_if)
  show "0 \<le> a \<Longrightarrow> 0 \<le> a sdiv TWOPOWER32 \<and> 0 \<le> a smod TWOPOWER32" by (simp add: d m sgn_if)
  show "a \<le> 0 \<Longrightarrow> a sdiv TWOPOWER32 \<le> 0 \<and> a smod TWOPOWER32 \<le> 0"
    by (auto simp: d m sgn_if pos_imp_zdiv_nonneg_iff)
  show "a sdiv TWOPOWER32 = 0 \<longleftrightarrow> \<bar>a\<bar> < TWOPOWER32"
    by (simp add: d sgn_if zdiv_eq_0_iff)
qed

text \<open>One factor \<open>x\<close> is below 2^32 in magnitude, the other is \<open>h * 2^32 + l\<close>.\<close>

lemma mul_halves:
  fixes x h l :: int
  assumes x: "\<bar>x\<bar> < TWOPOWER32" and h: "\<bar>h\<bar> \<le> TWOPOWER31" "h \<noteq> 0" and l: "\<bar>l\<bar> < TWOPOWER32"
    and sgn: "0 < h \<and> 0 \<le> l \<or> h < 0 \<and> l \<le> 0"
  defines "p \<equiv> x * h * TWOPOWER32 + x * l"
  shows "wrap64 (x * h) = x * h"
    "x * h < - TWOPOWER31 \<or> x * h \<ge> TWOPOWER31 \<Longrightarrow> \<not> in_i64 p"
    "\<not> (x * h < - TWOPOWER31 \<or> x * h \<ge> TWOPOWER31) \<Longrightarrow> wrap64 (x * l) = x * l \<and> in_i64 (x * l)"
proof -
  have "\<bar>x * h\<bar> \<le> (TWOPOWER32 - 1) * TWOPOWER31"
    unfolding abs_mult using x h by (intro mult_mono) auto
  then show "wrap64 (x * h) = x * h" by simp
  have pos: "x * h > 0 \<Longrightarrow> x * l \<ge> 0" and neg: "x * h < 0 \<Longrightarrow> x * l \<le> 0"
    using sgn by (auto simp: zero_less_mult_iff mult_less_0_iff zero_le_mult_iff mult_le_0_iff)
  show "\<not> in_i64 p" if "x * h < - TWOPOWER31 \<or> x * h \<ge> TWOPOWER31"
    using that pos neg unfolding p_def in_i64_def by linarith
  assume r: "\<not> (x * h < - TWOPOWER31 \<or> x * h \<ge> TWOPOWER31)"
  have "\<bar>x\<bar> * 1 \<le> \<bar>x\<bar> * \<bar>h\<bar>" using h(2) by (intro mult_left_mono) auto
  then have "\<bar>x\<bar> \<le> TWOPOWER31" using r unfolding abs_mult [symmetric] by linarith
  then have "\<bar>x * l\<bar> \<le> TWOPOWER31 * (TWOPOWER32 - 1)"
    unfolding abs_mult using l by (intro mult_mono) auto
  then show "wrap64 (x * l) = x * l \<and> in_i64 (x * l)" unfolding in_i64_def abs_le_iff by (intro conjI wrap64_id) simp_all
qed

lemma big_product:
  fixes a b :: int
  assumes "TWOPOWER32 \<le> \<bar>a\<bar>" "TWOPOWER32 \<le> \<bar>b\<bar>"
  shows "\<not> in_i64 (a * b)"
proof -
  have "TWOPOWER32 * TWOPOWER32 \<le> \<bar>a\<bar> * \<bar>b\<bar>" using assms by (intro mult_mono) auto
  then show ?thesis by (auto simp: abs_mult [symmetric] in_i64_def)
qed

lemma MulInt64_spec:
  assumes a: "in_i64 a" and b: "in_i64 b"
  shows "sqlite3MulInt64 a b =
    (if \<bar>a\<bar> < TWOPOWER32 \<and> \<bar>b\<bar> < TWOPOWER32 then (wrap64 (a * b), 0)
     else if in_i64 (a * b) then (a * b, 0) else (a, 1))"
proof -
  obtain h1 l1 where A: "a sdiv TWOPOWER32 = h1" "a smod TWOPOWER32 = l1" "a = h1 * TWOPOWER32 + l1"
    "\<bar>l1\<bar> < TWOPOWER32" "\<bar>h1\<bar> \<le> TWOPOWER31" "0 \<le> a \<Longrightarrow> 0 \<le> h1 \<and> 0 \<le> l1" "a \<le> 0 \<Longrightarrow> h1 \<le> 0 \<and> l1 \<le> 0"
    "h1 = 0 \<longleftrightarrow> \<bar>a\<bar> < TWOPOWER32" using split32 [OF a] by metis
  obtain h2 l2 where B: "b sdiv TWOPOWER32 = h2" "b smod TWOPOWER32 = l2" "b = h2 * TWOPOWER32 + l2"
    "\<bar>l2\<bar> < TWOPOWER32" "\<bar>h2\<bar> \<le> TWOPOWER31" "0 \<le> b \<Longrightarrow> 0 \<le> h2 \<and> 0 \<le> l2" "b \<le> 0 \<Longrightarrow> h2 \<le> 0 \<and> l2 \<le> 0"
    "h2 = 0 \<longleftrightarrow> \<bar>b\<bar> < TWOPOWER32" using split32 [OF b] by metis
  have sA: "h1 \<noteq> 0 \<Longrightarrow> 0 < h1 \<and> 0 \<le> l1 \<or> h1 < 0 \<and> l1 \<le> 0" using A(6,7) by linarith
  have sB: "h2 \<noteq> 0 \<Longrightarrow> 0 < h2 \<and> 0 \<le> l2 \<or> h2 < 0 \<and> l2 \<le> 0" using B(6,7) by linarith
  define fin where "fin r = (if r < - TWOPOWER31 \<or> r \<ge> TWOPOWER31 then (a, 1 :: int)
      else let r = wrap64 (r * TWOPOWER32); (r, rc) = sqlite3AddInt64 r (wrap64 (l1 * l2))
           in if rc \<noteq> 0 then (a, 1) else (r, 0))" for r
  have unfold: "sqlite3MulInt64 a b =
      (if h1 = 0 then if h2 = 0 then (wrap64 (a * b), 0) else fin (wrap64 (l1 * h2))
       else if h2 = 0 then fin (wrap64 (h1 * l2)) else (a, 1))"
    by (simp add: sqlite3MulInt64_def A(1,2) B(1,2) Let_def fin_def)
  have fin: "fin r = (if in_i64 (r * TWOPOWER32 + l1 * l2) then (r * TWOPOWER32 + l1 * l2, 0) else (a, 1))"
    if "r < - TWOPOWER31 \<or> r \<ge> TWOPOWER31 \<Longrightarrow> \<not> in_i64 (r * TWOPOWER32 + l1 * l2)"
      "\<not> (r < - TWOPOWER31 \<or> r \<ge> TWOPOWER31) \<Longrightarrow> wrap64 (l1 * l2) = l1 * l2 \<and> in_i64 (l1 * l2)" for r
  proof (cases "r < - TWOPOWER31 \<or> r \<ge> TWOPOWER31")
    case False
    then have "in_i64 (r * TWOPOWER32)" by (auto simp: in_i64_def)
    then show ?thesis using False that(2) by (auto simp: fin_def AddInt64_spec in_i64_def)
  qed (use that(1) in \<open>simp add: fin_def\<close>)
  show ?thesis
  proof (cases "h1 = 0")
    case True
    then have a0: "a = l1" "\<bar>a\<bar> < TWOPOWER32" using A(3) A(8) by simp_all
    show ?thesis
    proof (cases "h2 = 0")
      case True
      then show ?thesis unfolding unfold using a0 \<open>h1 = 0\<close> B(8) by simp
    next
      case False
      note m = mul_halves [OF A(4) B(5) False B(4) sB [OF False]]
      have "l1 * h2 * TWOPOWER32 + l1 * l2 = a * b" by (simp add: a0(1) B(3) algebra_simps)
      with fin [OF m(2,3)] have f: "fin (l1 * h2) = (if in_i64 (a * b) then (a * b, 0) else (a, 1))"
        by simp
      then show ?thesis unfolding unfold m(1) using False \<open>h1 = 0\<close> B(8) f by simp
    qed
  next
    case False
    show ?thesis
    proof (cases "h2 = 0")
      case True
      then have b0: "b = l2" using B(3) by simp
      note m = mul_halves [OF B(4) A(5) False A(4) sA [OF False], unfolded mult.commute [of l2]]
      have "h1 * l2 * TWOPOWER32 + l1 * l2 = a * b" by (simp add: b0 A(3) algebra_simps)
      with fin [OF m(2,3)] have f: "fin (h1 * l2) = (if in_i64 (a * b) then (a * b, 0) else (a, 1))"
        by simp
      then show ?thesis unfolding unfold m(1) using True False A(8) f by simp
    next
      case h2: False
      then show ?thesis using False A(8) B(8) big_product [of a b] by (simp add: unfold)
    qed
  qed
qed

text \<open>The routine promises to report every overflow and does not for two factors below 2^32.\<close>

lemma MulInt64_missed_overflow:
  "sqlite3MulInt64 4294967295 4294967295 = (-8589934591, 0) \<and> \<not> in_i64 (4294967295 * 4294967295)"
  by (simp add: MulInt64_spec in_i64_def wrap64_def signed_take_bit_eq_if_positive)

section \<open>Decimal text\<close>

text \<open>A pointer is the list of characters from it up to \<^verbatim>\<open>zEnd\<close>; \<^verbatim>\<open>incr\<close> is 1 for UTF-8 and 2
  for UTF-16, where the bytes between are skipped.\<close>

fun cmp_pow63_loop :: "string \<Rightarrow> nat \<Rightarrow> string \<Rightarrow> int" where
  "cmp_pow63_loop zNum incr [] = 0"
| "cmp_pow63_loop zNum incr (p # pow63) =
     (let c = (int (code (zat zNum 0)) - int (code p)) * 10
      in if c = 0 then cmp_pow63_loop (drop incr zNum) incr pow63 else c)"

definition compare2pow63 :: "string \<Rightarrow> nat \<Rightarrow> int" where
  "compare2pow63 zNum incr =
     (let c = cmp_pow63_loop zNum incr ''922337203685477580''
      in if c = 0 then int (code (zat zNum (18 * incr))) - 56 else c)"

function skip_space :: "nat \<Rightarrow> string \<Rightarrow> string" where
  "skip_space incr [] = []"
| "skip_space incr (c # z) =
     (if sqlite3Isspace c then skip_space incr (drop (incr - 1) z) else c # z)"
  by pat_completeness auto

termination skip_space by (relation "measure (\<lambda>(_, z). length z)") auto

function skip_zeros :: "nat \<Rightarrow> string \<Rightarrow> string" where
  "skip_zeros incr [] = []"
| "skip_zeros incr (c # z) =
     (if c = CHR ''0'' then skip_zeros incr (drop (incr - 1) z) else c # z)"
  by pat_completeness auto

termination skip_zeros by (relation "measure (\<lambda>(_, z). length z)") auto

text \<open>The digit loop returns \<^verbatim>\<open>u\<close>, \<^verbatim>\<open>i\<close>, \<^verbatim>\<open>c\<close> and whether \<^verbatim>\<open>&zNum[i] < zEnd\<close>.\<close>

function scan_digits :: "nat \<Rightarrow> u64 \<Rightarrow> nat \<Rightarrow> nat \<Rightarrow> string \<Rightarrow> u64 \<times> nat \<times> nat \<times> bool" where
  "scan_digits incr u i c [] = (u, i, c, False)"
| "scan_digits incr u i c (d # z) =
     (if 48 \<le> code d \<and> code d \<le> 57
      then scan_digits incr (u * 10 + of_nat (code d) - 48) (i + incr) (code d) (drop (incr - 1) z)
      else (u, i, code d, True))"
  by pat_completeness auto

termination scan_digits by (relation "measure (\<lambda>(_, _, _, _, z). length z)") auto

abbreviation (input) SQLITE_UTF8 :: nat where "SQLITE_UTF8 \<equiv> 1"
abbreviation (input) SQLITE_UTF16LE :: nat where "SQLITE_UTF16LE \<equiv> 2"
abbreviation (input) SQLITE_UTF16BE :: nat where "SQLITE_UTF16BE \<equiv> 3"

text \<open>The loop that looks for a nonzero high byte of a UTF-16 string.\<close>

function utf16_ascii_end :: "string \<Rightarrow> nat \<Rightarrow> nat" where
  "utf16_ascii_end z i =
     (if i < length z \<and> z ! i = NUL then utf16_ascii_end z (i + 2) else i)"
  by pat_completeness auto

termination utf16_ascii_end by (relation "measure (\<lambda>(z, i). length z - i)") auto

declare utf16_ascii_end.simps [simp del]

definition sqlite3Atoi64 :: "string \<Rightarrow> nat \<Rightarrow> int \<times> int" where
  "sqlite3Atoi64 zNum enc =
     (let (incr, nonNum, zNum) =
        (if enc = SQLITE_UTF8 then (1, False, zNum)
         else
           let i = utf16_ascii_end zNum (3 - enc)
           in (2, i < length zNum, drop (enc mod 2) (take (i + enc - 3) zNum)));
          zNum = skip_space incr zNum;
          (neg, zNum) =
            (case zNum of
               c # z \<Rightarrow>
                 if c = CHR ''-'' then (True, drop incr zNum)
                 else if c = CHR ''+'' then (False, drop incr zNum) else (False, zNum)
             | [] \<Rightarrow> (False, zNum));
          zStart = zNum;
          zNum = skip_zeros incr zNum;
          (u, i, c, more) = scan_digits incr 0 0 0 zNum;
          pNum = (if u > 0x7fffffffffffffff then (if neg then SMALLEST_INT64 else LARGEST_INT64)
                  else if neg then - uint u else uint u)
      in if c \<noteq> 0 \<and> more \<or> i = 0 \<and> length zStart = length zNum \<or> i > 19 * incr \<or> nonNum then (pNum, 1)
         else if i < 19 * incr then (pNum, 0)
         else
           let c = compare2pow63 zNum incr
           in if c < 0 then (pNum, 0) else if c > 0 then (pNum, 1)
              else (pNum, if neg then 0 else 2))"

function hex_loop :: "string \<Rightarrow> u64 \<Rightarrow> nat \<Rightarrow> u64 \<times> nat" where
  "hex_loop z u k =
     (if sqlite3Isxdigit (zat z k)
      then hex_loop z (u * 16 + of_nat (sqlite3HexToInt (code (zat z k)))) (k + 1) else (u, k))"
  by pat_completeness auto

lemma not_Isxdigit_NUL [simp]: "\<not> sqlite3Isxdigit NUL"
  by (simp add: Isxdigit_iff)

lemma Isxdigit_in: "sqlite3Isxdigit (zat z k) \<Longrightarrow> k < length z"
  by (rule ccontr) (simp add: not_less)

termination hex_loop
  by (relation "measure (\<lambda>(z, u, k). length z - k)") (auto dest: Isxdigit_in)

declare hex_loop.simps [simp del]

definition sqlite3DecOrHexToI64 :: "string \<Rightarrow> int \<times> int" where
  "sqlite3DecOrHexToI64 z =
     (if zat z 0 = CHR ''0'' \<and> (zat z 1 = CHR ''x'' \<or> zat z 1 = CHR ''X'') \<and> sqlite3Isxdigit (zat z 2) then
        let i = length z - length (skip_zeros 1 (drop 2 z));
            (u, k) = hex_loop z 0 i
        in (sint u, if zat z k = NUL \<and> k - i \<le> 16 then 0 else 1)
      else sqlite3Atoi64 (take (sqlite3Strlen30 (Some z)) z) SQLITE_UTF8)"

fun hex32_loop :: "nat \<Rightarrow> u32 \<Rightarrow> string \<Rightarrow> u32 \<times> string" where
  "hex32_loop 0 u z = (u, z)"
| "hex32_loop (Suc n) u z =
     (if sqlite3Isxdigit (zat z 0)
      then hex32_loop n (u * 16 + of_nat (sqlite3HexToInt (code (zat z 0)))) (tl z) else (u, z))"

fun dec32_loop :: "nat \<Rightarrow> nat \<Rightarrow> int \<Rightarrow> string \<Rightarrow> nat \<times> int" where
  "dec32_loop 0 i v z = (i, v)"
| "dec32_loop (Suc n) i v z =
     (if sqlite3Isdigit (zat z 0)
      then dec32_loop n (i + 1) (v * 10 + (int (code (zat z 0)) - 48)) (tl z) else (i, v))"

text \<open>\<^const>\<open>None\<close> for the return value 0, which leaves \<^verbatim>\<open>*pValue\<close> alone.\<close>

definition sqlite3GetInt32 :: "string \<Rightarrow> int option" where
  "sqlite3GetInt32 zNum =
     (let decimal = (\<lambda>neg zNum.
        let (i, v) = dec32_loop 11 0 0 zNum
        in if i > 10 then None
           else if v - (if neg then 1 else 0) > 2147483647 then None
           else Some (if neg then - v else v))
      in if zat zNum 0 = CHR ''-'' then decimal True (tl zNum)
         else if zat zNum 0 = CHR ''+'' then decimal False (tl zNum)
         else if zat zNum 0 = CHR ''0'' \<and> (zat zNum 1 = CHR ''x'' \<or> zat zNum 1 = CHR ''X'')
                 \<and> sqlite3Isxdigit (zat zNum 2) then
           let (u, z) = hex32_loop 8 0 (skip_zeros 1 (drop 2 zNum))
           in if u AND 0x80000000 = 0 \<and> \<not> sqlite3Isxdigit (zat z 0) then Some (uint u) else None
         else decimal False zNum)"

definition sqlite3Atoi :: "string option \<Rightarrow> int" where
  "sqlite3Atoi z =
     (case z of None \<Rightarrow> 0 | Some z \<Rightarrow> (case sqlite3GetInt32 z of None \<Rightarrow> 0 | Some x \<Rightarrow> x))"

text \<open>\<^verbatim>\<open>n\<close> counts the closing quote; the result is the buffer up to its terminator.\<close>

definition sqlite3HexToBlob :: "string \<Rightarrow> nat \<Rightarrow> bytes" where
  "sqlite3HexToBlob z n =
     map (\<lambda>j. of_nat ((sqlite3HexToInt (code (zat z (2 * j))) * 16)
                 OR sqlite3HexToInt (code (zat z (2 * j + 1))))) [0..<n div 2]"

section \<open>What the conversions compute\<close>

fun dec_value :: "string \<Rightarrow> nat" where
  "dec_value [] = 0"
| "dec_value (c # z) = (code c - 48) * 10 ^ length z + dec_value z"

definition digits :: "string \<Rightarrow> bool" where
  "digits z \<longleftrightarrow> (\<forall>c \<in> set z. sqlite3Isdigit c)"

lemma digits_simps [simp]: "digits []" "digits (c # z) \<longleftrightarrow> sqlite3Isdigit c \<and> digits z"
  "digits (a @ b) \<longleftrightarrow> digits a \<and> digits b"
  by (auto simp: digits_def)

lemma dec_value_less: "digits z \<Longrightarrow> dec_value z < 10 ^ length z"
proof (induction z)
  case (Cons c z)
  then have "code c - 48 \<le> 9" "dec_value z < 10 ^ length z" by (auto simp: Isdigit_iff)
  then have "(code c - 48) * 10 ^ length z + dec_value z < 9 * 10 ^ length z + 10 ^ length z"
    by (intro add_le_less_mono mult_right_mono) auto
  then show ?case by simp
qed simp

lemma dec_value_ge: "sqlite3Isdigit c \<Longrightarrow> c \<noteq> CHR ''0'' \<Longrightarrow> 10 ^ length z \<le> dec_value (c # z)"
proof -
  assume c: "sqlite3Isdigit c" "c \<noteq> CHR ''0''"
  then have "code c \<noteq> code CHR ''0''" by (metis char_of_char)
  then have "1 \<le> code c - 48" using c by (auto simp: Isdigit_iff)
  then have "1 * 10 ^ length z \<le> (code c - 48) * 10 ^ length z" by (rule mult_right_mono) simp
  then show ?thesis unfolding dec_value.simps by linarith
qed

lemma scan_digits_eq:
  assumes "digits ds" "r = [] \<or> \<not> sqlite3Isdigit (hd r)"
  shows "scan_digits 1 u i c (ds @ r) =
    (u * 10 ^ length ds + of_nat (dec_value ds), i + length ds,
     if r \<noteq> [] then code (hd r) else if ds = [] then c else code (last ds), r \<noteq> [])"
  using assms
proof (induction ds arbitrary: u i c)
  case Nil
  then show ?case by (cases r) (auto simp: Isdigit_iff)
next
  case (Cons d ds)
  have d: "48 \<le> code d" "code d \<le> 57" "sqlite3Isdigit d" using Cons.prems by (simp_all add: Isdigit_iff)
  define x where "x = code d - 48"
  have x: "code d = x + 48" using d by (simp add: x_def)
  have "(u * 10 + of_nat (code d) - 48) * 10 ^ length ds + of_nat (dec_value ds)
      = u * 10 ^ length (d # ds) + of_nat (dec_value (d # ds))"
    by (simp add: x algebra_simps)
  then show ?case using d Cons by simp
qed

lemma cmp_pow63_loop_value:
  assumes "digits ds" "digits ps" "length ds = length ps"
  shows "(cmp_pow63_loop (ds @ r) 1 ps = 0 \<longleftrightarrow> dec_value ds = dec_value ps)
    \<and> (cmp_pow63_loop (ds @ r) 1 ps < 0 \<longleftrightarrow> dec_value ds < dec_value ps)"
  using assms
proof (induction ps arbitrary: ds)
  case (Cons p ps)
  then obtain d ds' where ds: "ds = d # ds'" "length ds' = length ps" by (cases ds) auto
  have less: "dec_value ds' < 10 ^ length ps" "dec_value ps < 10 ^ length ps"
    using dec_value_less [of ds'] dec_value_less [of ps] Cons.prems ds by simp_all
  have rng: "48 \<le> code d" "48 \<le> code p" using Cons.prems ds by (auto simp: Isdigit_iff)
  consider "code d = code p" | "code d < code p" | "code p < code d" by linarith
  then show ?case
  proof cases
    case 1
    then show ?thesis using Cons ds by simp
  next
    case 2
    then have "(code d - 48 + 1) * 10 ^ length ps \<le> (code p - 48) * 10 ^ length ps"
      using rng by (intro mult_right_mono) auto
    then show ?thesis using 2 less ds by (auto simp: algebra_simps)
  next
    case 3
    then have "(code p - 48 + 1) * 10 ^ length ps \<le> (code d - 48) * 10 ^ length ps"
      using rng by (intro mult_right_mono) auto
    then show ?thesis using 3 less ds by (auto simp: algebra_simps)
  qed
qed simp


lemma compare2pow63_value:
  assumes "digits ds" "length ds = 19"
  shows "compare2pow63 (ds @ r) 1 = 0 \<longleftrightarrow> dec_value ds = 9223372036854775808"
    "compare2pow63 (ds @ r) 1 < 0 \<longleftrightarrow> dec_value ds < 9223372036854775808"
proof -
  define hi d where "hi = take 18 ds" and "d = ds ! 18"
  have ds: "ds = hi @ [d]" and len: "length hi = 18"
    using assms(2) by (simp_all add: hi_def d_def take_Suc_conv_app_nth [symmetric])
  have dig: "digits hi" "sqlite3Isdigit d" using assms(1) ds by simp_all
  then have d: "48 \<le> code d" "code d \<le> 57" by (simp_all add: Isdigit_iff)
  have val: "dec_value ds = dec_value hi * 10 + (code d - 48)"
    unfolding ds by (induction hi) (simp_all add: algebra_simps)
  have pw: "digits ''922337203685477580''" "dec_value ''922337203685477580'' = 922337203685477580"
    by (simp_all add: Isdigit_iff)
  have l: "cmp_pow63_loop (ds @ r) 1 ''922337203685477580'' = 0 \<longleftrightarrow> dec_value hi = 922337203685477580"
      "cmp_pow63_loop (ds @ r) 1 ''922337203685477580'' < 0 \<longleftrightarrow> dec_value hi < 922337203685477580"
    using cmp_pow63_loop_value [OF dig(1) pw(1), of "d # r"] len by (simp_all add: ds pw(2))
  have z: "zat (ds @ r) 18 = d" by (simp add: ds len nth_append)
  have c: "compare2pow63 (ds @ r) 1 = (if dec_value hi = 922337203685477580 then int (code d) - 56
      else cmp_pow63_loop (ds @ r) 1 ''922337203685477580'')"
    using l(1) by (simp add: compare2pow63_def z Let_def)
  show "compare2pow63 (ds @ r) 1 = 0 \<longleftrightarrow> dec_value ds = 9223372036854775808"
    "compare2pow63 (ds @ r) 1 < 0 \<longleftrightarrow> dec_value ds < 9223372036854775808"
    using l d unfolding c val by auto
qed

lemma skip_zeros_digits:
  assumes "digits ds"
  shows "\<exists>k. ds = replicate k CHR ''0'' @ skip_zeros 1 ds" "digits (skip_zeros 1 ds)"
    "dec_value (skip_zeros 1 ds) = dec_value ds" "skip_zeros 1 ds = [] \<or> hd (skip_zeros 1 ds) \<noteq> CHR ''0''"
    "length (skip_zeros 1 ds) \<le> length ds"
  using assms
proof (induction ds)
  case (Cons c ds)
  { case 1 with Cons show ?case by (cases "c = CHR ''0''") (auto intro: exI [of _ "Suc k" for k] exI [of _ 0]) }
  { case 2 with Cons show ?case by simp }
  { case 3 with Cons show ?case by simp }
  { case 4 with Cons show ?case by simp }
  { case 5 with Cons show ?case by simp }
qed simp_all

lemma skip_zeros_append:
  "r = [] \<or> hd r \<noteq> CHR ''0'' \<Longrightarrow> skip_zeros 1 (ds @ r) = skip_zeros 1 ds @ r"
  by (induction ds) (auto, cases r, auto)

lemma skip_space_append:
  "list_all sqlite3Isspace ws \<Longrightarrow> t = [] \<or> \<not> sqlite3Isspace (hd t) \<Longrightarrow> skip_space 1 (ws @ t) = t"
  by (induction ws) (auto, cases t, auto)

lemma uint_of_dec: "n \<le> 18446744073709551615 \<Longrightarrow> uint (of_nat n :: u64) = int n"
  by (simp add: uint_nat unat_of_nat)

text \<open>The classification of a digit string without leading zeros by its length.\<close>

lemma dec_value_length:
  assumes "digits ds" "ds = [] \<or> hd ds \<noteq> CHR ''0''"
  shows "length ds < 19 \<Longrightarrow> dec_value ds < 1000000000000000000"
    "19 < length ds \<Longrightarrow> 10000000000000000000 \<le> dec_value ds"
    "length ds \<le> 19 \<Longrightarrow> dec_value ds < 10000000000000000000"
proof -
  have p: "(10 :: nat) ^ 18 = 1000000000000000000" "(10 :: nat) ^ 19 = 10000000000000000000" by simp_all
  show "length ds < 19 \<Longrightarrow> dec_value ds < 1000000000000000000"
    using dec_value_less [OF assms(1)] power_increasing [of "length ds" 18 "10 :: nat"] unfolding p by linarith
  show "length ds \<le> 19 \<Longrightarrow> dec_value ds < 10000000000000000000"
    using dec_value_less [OF assms(1)] power_increasing [of "length ds" 19 "10 :: nat"] unfolding p by linarith
  assume l: "19 < length ds"
  then obtain c z where ds: "ds = c # z" "19 \<le> length z" by (cases ds) auto
  then have "10 ^ length z \<le> dec_value ds" using assms dec_value_ge [of c z] by simp
  then show "10000000000000000000 \<le> dec_value ds"
    using power_increasing [OF ds(2), of "10 :: nat"] unfolding p by linarith
qed

lemma Atoi64_digits:
  assumes ws: "list_all sqlite3Isspace ws" and sg: "sg \<in> {[], ''-'', ''+''}"
    and ds: "digits ds" "ds \<noteq> []" and r: "r = [] \<or> \<not> sqlite3Isdigit (hd r)"
  defines "v \<equiv> (if sg = ''-'' then - int (dec_value ds) else int (dec_value ds))"
    and "bad \<equiv> r \<noteq> [] \<and> hd r \<noteq> NUL"
  shows "snd (sqlite3Atoi64 (ws @ sg @ ds @ r) SQLITE_UTF8) =
      (if bad then 1 else if in_i64 v then 0 else if v = 9223372036854775808 then 2 else 1)"
    and "dec_value ds < 18446744073709551616 \<Longrightarrow> fst (sqlite3Atoi64 (ws @ sg @ ds @ r) SQLITE_UTF8) =
      max SMALLEST_INT64 (min LARGEST_INT64 v)"
proof -
  define z where "z = skip_zeros 1 ds"
  note z = skip_zeros_digits(2-5) [OF ds(1), folded z_def]
  have zv: "dec_value z = dec_value ds" using z by simp
  let ?u = "of_nat (dec_value ds) :: u64"
  let ?p = "if ?u > 0x7fffffffffffffff then (if sg = ''-'' then SMALLEST_INT64 else LARGEST_INT64)
                  else if sg = ''-'' then - uint ?u else uint ?u"
  have sp: "skip_space 1 (ws @ sg @ ds @ r) = sg @ ds @ r"
    using ds sg by (intro skip_space_append [OF ws]) (cases ds; auto simp: Isspace_iff Isdigit_iff)
  have sign: "(case sg @ ds @ r of
               c # z \<Rightarrow>
                 if c = CHR ''-'' then (True, drop 1 (sg @ ds @ r))
                 else if c = CHR ''+'' then (False, drop 1 (sg @ ds @ r)) else (False, sg @ ds @ r)
             | [] \<Rightarrow> (False, sg @ ds @ r)) = (sg = ''-'', ds @ r)"
    using ds sg by (cases ds) (auto simp: Isdigit_iff)
  have sz: "skip_zeros 1 (ds @ r) = z @ r"
    using r by (intro skip_zeros_append [of r ds, folded z_def]) (auto simp: Isdigit_iff)
  have sc: "scan_digits 1 0 0 0 (z @ r) = (?u, length z,
      if r \<noteq> [] then code (hd r) else if z = [] then 0 else code (last z), r \<noteq> [])"
    using scan_digits_eq [OF z(1) r] by (simp add: zv)
  have res: "sqlite3Atoi64 (ws @ sg @ ds @ r) SQLITE_UTF8 =
    (?p, if bad \<or> length z > 19 then 1 else if length z < 19 then 0
         else if compare2pow63 (z @ r) 1 < 0 then 0 else if compare2pow63 (z @ r) 1 > 0 then 1
         else if sg = ''-'' then 0 else 2)"
    using ds(2) z(4) unfolding sqlite3Atoi64_def Let_def
    apply (simp only: refl if_True prod.case sp sign sz sc bad_def)
    by (simp)
  show "dec_value ds < 18446744073709551616 \<Longrightarrow> fst (sqlite3Atoi64 (ws @ sg @ ds @ r) SQLITE_UTF8) =
      max SMALLEST_INT64 (min LARGEST_INT64 v)"
    unfolding res fst_conv v_def by (simp add: word_less_def uint_of_dec)
  show "snd (sqlite3Atoi64 (ws @ sg @ ds @ r) SQLITE_UTF8) =
      (if bad then 1 else if in_i64 v then 0 else if v = 9223372036854775808 then 2 else 1)"
  proof (cases "length z = 19")
    case True
    then show ?thesis
      using compare2pow63_value [OF z(1) True, of r]
      unfolding res snd_conv by (auto simp: zv v_def in_i64_def)
  next
    case False
    then show ?thesis
      using dec_value_length [OF z(1,3)] unfolding res snd_conv by (auto simp: zv v_def in_i64_def)
  qed
qed

text \<open>Beyond 2^64 the accumulator has wrapped and the value stored is arbitrary.\<close>

lemma Atoi64_wrapped_value: "sqlite3Atoi64 ''18446744073709551617'' SQLITE_UTF8 = (1, 1)"
  by (simp add: sqlite3Atoi64_def Isspace_iff)

lemma dec32_loop_eq:
  assumes "digits ds" "r = [] \<or> \<not> sqlite3Isdigit (hd r)"
  shows "dec32_loop n i v (ds @ r) =
    (i + min n (length ds), v * 10 ^ min n (length ds) + int (dec_value (take n ds)))"
  using assms
proof (induction n arbitrary: i v ds)
  case (Suc n)
  show ?case
  proof (cases ds)
    case Nil
    have "\<not> sqlite3Isdigit NUL" by (simp add: Isdigit_iff)
    then show ?thesis using Nil Suc.prems by (cases r) (auto simp: Isdigit_iff)
  next
    case (Cons d ds')
    have d: "48 \<le> code d" using Suc.prems Cons by (simp add: Isdigit_iff)
    define x where "x = code d - 48"
    have x: "code d = x + 48" using d by (simp add: x_def)
    have "dec32_loop (Suc n) i v (ds @ r) = dec32_loop n (i + 1) (v * 10 + int x) (ds' @ r)"
      using Suc.prems Cons by (simp add: x)
    also have "\<dots> = (i + 1 + min n (length ds'), (v * 10 + int x) * 10 ^ min n (length ds') + int (dec_value (take n ds')))"
      using Suc.prems Cons by (intro Suc.IH) auto
    finally show ?thesis by (simp add: Cons x algebra_simps min.commute)
  qed
qed simp

lemma GetInt32_digits:
  assumes sg: "sg \<in> {[], ''-'', ''+''}" and ds: "digits ds" "ds \<noteq> []"
    and r: "r = [] \<or> \<not> sqlite3Isdigit (hd r)"
    and dec: "sg = [] \<longrightarrow> ds = ''0'' \<longrightarrow> \<not> (zat r 0 \<in> {CHR ''x'', CHR ''X''} \<and> sqlite3Isxdigit (zat r 1))"
  defines "v \<equiv> (if sg = ''-'' then - int (dec_value ds) else int (dec_value ds))"
  shows "sqlite3GetInt32 (sg @ ds @ r) =
    (if length ds \<le> 10 \<and> -2147483648 \<le> v \<and> v \<le> 2147483647 then Some v else None)"
proof -
  obtain d ds' where d: "ds = d # ds'" "sqlite3Isdigit d" using ds by (cases ds) auto
  have nox: "\<not> (d = CHR ''0'' \<and> (zat (ds' @ r) 0 = CHR ''x'' \<or> zat (ds' @ r) 0 = CHR ''X'') \<and> sqlite3Isxdigit (zat (ds' @ r) 1))"
    if "sg = []"
  proof (cases ds')
    case Nil
    then show ?thesis using dec that d by auto
  next
    case (Cons c ds'')
    then have "sqlite3Isdigit c" using ds d by simp
    then show ?thesis using Cons by (auto simp: Isdigit_iff)
  qed
  have loop: "dec32_loop 11 0 0 (ds @ r) = (min 11 (length ds), int (dec_value (take 11 ds)))"
    using dec32_loop_eq [OF ds(1) r, of 11 0 0] by simp
  have body: "(let (i, w) = dec32_loop 11 0 0 (ds @ r)
        in if i > 10 then None
           else if w - (if neg then 1 else 0) > 2147483647 then None
           else Some (if neg then - w else w)) =
      (let v = (if neg then - int (dec_value ds) else int (dec_value ds)) in
       if length ds \<le> 10 \<and> -2147483648 \<le> v \<and> v \<le> 2147483647 then Some v else None)" for neg
    unfolding loop by (auto simp: Let_def)
  have sgn: "d \<noteq> CHR ''-''" "d \<noteq> CHR ''+''" using d(2) by (auto simp: Isdigit_iff)
  show ?thesis
    using sg
  proof (elim insertE emptyE)
    assume s: "sg = []"
    have hd0: "zat (ds @ r) 0 = d" "zat (ds @ r) 1 = zat (ds' @ r) 0" "zat (ds @ r) 2 = zat (ds' @ r) 1"
      using d by (simp_all add: zat_def numeral_2_eq_2)
    show ?thesis
      unfolding sqlite3GetInt32_def s append_Nil hd0 using nox [OF s] sgn body [of False]
      by (auto simp: v_def s Let_def)
  next
    assume s: "sg = ''-''"
    show ?thesis unfolding sqlite3GetInt32_def s using body [of True] by (simp add: v_def s Let_def)
  next
    assume s: "sg = ''+''"
    show ?thesis unfolding sqlite3GetInt32_def s using body [of False] by (simp add: v_def s Let_def)
  qed
qed

text \<open>The comment promises false for text that is no integer, and for no digits at all the
  code stores 0 and returns true.\<close>

lemma GetInt32_no_digits: "sqlite3GetInt32 ''abc'' = Some 0"
  by (simp add: sqlite3GetInt32_def Isdigit_iff eval_nat_numeral)

section \<open>Blob literals\<close>

definition hex_digit :: "nat \<Rightarrow> char" where
  "hex_digit n = ''0123456789ABCDEF'' ! n"

definition hex_text :: "bytes \<Rightarrow> string" where
  "hex_text bs = concat (map (\<lambda>b. [hex_digit (unat b div 16), hex_digit (unat b mod 16)]) bs)"

lemma hex_text_simps [simp]: "hex_text [] = []"
  "hex_text (b # bs) = hex_digit (unat b div 16) # hex_digit (unat b mod 16) # hex_text bs"
  by (simp_all add: hex_text_def)

lemma HexToInt_digit: "n < 16 \<Longrightarrow> sqlite3HexToInt (code (hex_digit n)) = n"
proof -
  have "list_all (\<lambda>n. sqlite3HexToInt (code (hex_digit n)) = n) [0..<16]"
    by (simp add: upt_conv_Cons hex_digit_def sqlite3HexToInt_def)
  then show "n < 16 \<Longrightarrow> sqlite3HexToInt (code (hex_digit n)) = n" by (simp add: list_all_iff)
qed

lemma length_hex_text [simp]: "length (hex_text bs) = 2 * length bs"
  by (induction bs) auto

lemma hex_text_nth:
  "j < length bs \<Longrightarrow> hex_text bs ! (2 * j) = hex_digit (unat (bs ! j) div 16)
     \<and> hex_text bs ! Suc (2 * j) = hex_digit (unat (bs ! j) mod 16)"
  by (induction bs arbitrary: j) (auto simp: less_Suc_eq_0_disj nth_Cons split: nat.splits)

lemma nibbles: "n < 256 \<Longrightarrow> (n div 16 * 16) OR (n mod 16) = (n :: nat)"
proof -
  have "(n div 16 * 16) OR (n mod 16) = push_bit 4 (drop_bit 4 n) OR take_bit 4 n"
    by (simp add: push_bit_eq_mult drop_bit_eq_div take_bit_eq_mod)
  then show "(n div 16 * 16) OR (n mod 16) = n"
    using bits_ident [of 4 n] by (simp add: disjunctive_add bit_simps)
qed

section \<open>Logarithmic estimates\<close>

definition LogEstAdd_x :: "nat list" where
  "LogEstAdd_x = [10, 10, 9, 9, 8, 8, 7, 7, 7, 6, 6, 6, 5, 5, 5, 4, 4, 4, 4,
     3, 3, 3, 3, 3, 3, 2, 2, 2, 2, 2, 2, 2]"

text \<open>An estimate is a signed 16-bit number, and what is stored in one or returned as one wraps.\<close>

definition wrap16 :: "int \<Rightarrow> int" where
  "wrap16 x = signed_take_bit 15 x"

definition in_i16 :: "int \<Rightarrow> bool" where
  "in_i16 x \<longleftrightarrow> - 32768 \<le> x \<and> x \<le> 32767"

definition sqlite3LogEstAdd :: "int \<Rightarrow> int \<Rightarrow> int" where
  "sqlite3LogEstAdd a b =
     (if a \<ge> b then
        if a > b + 49 then a else if a > b + 31 then wrap16 (a + 1)
        else wrap16 (a + int (LogEstAdd_x ! nat (a - b)))
      else
        if b > a + 49 then b else if b > a + 31 then wrap16 (b + 1)
        else wrap16 (b + int (LogEstAdd_x ! nat (b - a))))"

function logest_shr :: "nat \<Rightarrow> nat \<Rightarrow> nat \<times> int \<Rightarrow> nat \<times> int" where
  "logest_shr k m (x, y) =
     (if x > m \<and> 0 < k then logest_shr k m (drop_bit k x, wrap16 (y + 10 * int k)) else (x, y))"
  by pat_completeness auto

termination logest_shr
proof (relation "measure (\<lambda>(k, m, x, y). x)", goal_cases)
  case (2 k m x y)
  then have "x div 2 ^ k < x" by (intro div_less_dividend one_less_power) auto
  then show ?case by (simp add: drop_bit_eq_div)
qed simp

declare logest_shr.simps [simp del]

definition sqlite3LogEst :: "nat \<Rightarrow> int" where
  "sqlite3LogEst x =
     (let a = [0, 2, 3, 5, 6, 7, 8, 9] :: int list; y = 40
      in if x < 2 then 0
         else
           let (x, y) =
             (if x < 8 then while (\<lambda>(x, y). x < 8) (\<lambda>(x, y). (push_bit 1 x, wrap16 (y - 10))) (x, y)
              else logest_shr 1 15 (logest_shr 4 255 (x, y)))
           in wrap16 (a ! (x AND 7) + y - 10))"

definition sqlite3LogEstToInt :: "int \<Rightarrow> u64" where
  "sqlite3LogEstToInt x =
     (if x < 10 then 1
      else
        let n = nat (x mod 10); x = x div 10;
            n = (if n \<ge> 5 then n - 2 else if n \<ge> 1 then n - 1 else n)
        in if x \<ge> 3 then
             (if x > 60 then 0x7fffffffffffffff else push_bit (nat (x - 3)) (of_nat (n + 8)))
           else drop_bit (nat (3 - x)) (of_nat (n + 8)))"

text \<open>Four single shifts are one shift by four, so one loop remains.\<close>

function logest_half :: "nat \<Rightarrow> int" where
  "logest_half x = (if x > 15 then logest_half (x div 2) + 10 else [0, 2, 3, 5, 6, 7, 8, 9] ! (x AND 7) + 30)"
  by pat_completeness auto

termination by (relation "measure id") auto

declare logest_half.simps [simp del]

lemma wrap16_add [simp]: "wrap16 (a + wrap16 b) = wrap16 (a + b)" "wrap16 (wrap16 a + b) = wrap16 (a + b)"
  using signed_take_bit_add [of 15 a "signed_take_bit 15 b"] signed_take_bit_add [of 15 "signed_take_bit 15 a" b]
  by (simp_all add: wrap16_def signed_take_bit_add)

lemma wrap16_id: "in_i16 x \<Longrightarrow> wrap16 x = x"
  by (simp add: wrap16_def in_i16_def signed_take_bit_int_eq_self)

lemma in_i16_wrap16: "in_i16 (wrap16 x)"
  using signed_take_bit_int_greater_eq_minus_exp [of 15 x] signed_take_bit_int_less_exp [of 15 x] by (simp add: wrap16_def in_i16_def)

lemma wrap16_shift: "wrap16 (a + (wrap16 b - c)) = wrap16 (a + b - c)" "wrap16 (a + wrap16 b - c) = wrap16 (a + b - c)"
  using wrap16_add(1) [of "a - c" b] by (simp_all add: algebra_simps)

lemma logest_shr1:
  "(let (x, y) = logest_shr 1 15 (x, y) in wrap16 ([0, 2, 3, 5, 6, 7, 8, 9] ! (x AND 7) + y - 10)) = wrap16 (logest_half x + (y - 40))"
proof (induction x arbitrary: y rule: logest_half.induct)
  case (1 x)
  show ?case
  proof (cases "15 < x")
    case True
    have "(let (x, y) = logest_shr 1 15 (x div 2, wrap16 (y + 10)) in wrap16 ([0, 2, 3, 5, 6, 7, 8, 9] ! (x AND 7) + y - 10)) =
        wrap16 (logest_half (x div 2) + (y + 10) - 40)" using 1 [OF True, of "wrap16 (y + 10)"] unfolding wrap16_shift .
    then show ?thesis using True
      by (subst logest_shr.simps, subst logest_half.simps) (simp add: drop_bit_eq_div algebra_simps flip: numeral_2_eq_2)
  next
    case False
    then show ?thesis by (subst logest_shr.simps, subst logest_half.simps) (simp add: algebra_simps)
  qed
qed

lemma logest_half_16: "255 < x \<Longrightarrow> logest_half x = logest_half (x div 16) + 40"
proof -
  assume "255 < x"
  then have "15 < x" "15 < x div 2" "15 < x div 2 div 2" "15 < x div 2 div 2 div 2" by presburger+
  then have "logest_half x = logest_half (x div 2 div 2 div 2 div 2) + 40"
    by (simp add: logest_half.simps [of x] logest_half.simps [of "x div 2"]
        logest_half.simps [of "x div 2 div 2"] logest_half.simps [of "x div 2 div 2 div 2"])
  then show ?thesis by (simp add: div_mult2_eq [symmetric])
qed

lemma logest_shr4: "(let (x, y) = logest_shr 4 255 (x, y) in wrap16 (logest_half x + y - 40)) = wrap16 (logest_half x + y - 40)"
proof (induction x arbitrary: y rule: less_induct)
  case (less x)
  show ?case
  proof (cases "255 < x")
    case True
    have "(let (x, y) = logest_shr 4 255 (x div 16, wrap16 (y + 40)) in wrap16 (logest_half x + y - 40)) =
        wrap16 (logest_half (x div 16) + (y + 40) - 40)"
      using less [of "x div 16" "wrap16 (y + 40)"] True unfolding wrap16_shift by simp
    then show ?thesis using logest_half_16 [OF True] True
      by (subst logest_shr.simps) (simp add: drop_bit_eq_div algebra_simps)
  qed (subst logest_shr.simps, simp)
qed

lemma logest_ge_8_wrap: "8 \<le> x \<Longrightarrow> sqlite3LogEst x = wrap16 (logest_half x)"
proof -
  assume "8 \<le> x"
  obtain x1 y1 where 1: "logest_shr 4 255 (x, 40) = (x1, y1)" by force
  then have "sqlite3LogEst x = wrap16 (logest_half x1 + y1 - 40)"
    using \<open>8 \<le> x\<close> logest_shr1 [of x1 y1] by (simp add: sqlite3LogEst_def Let_def case_prod_beta algebra_simps)
  then show ?thesis using 1 logest_shr4 [of x 40] by simp
qed

lemma logest_small:
  "sqlite3LogEst 0 = 0" "sqlite3LogEst 1 = 0" "sqlite3LogEst 2 = 10" "sqlite3LogEst 3 = 16"
  "sqlite3LogEst 4 = 20" "sqlite3LogEst 5 = 23" "sqlite3LogEst 6 = 26" "sqlite3LogEst 7 = 28"
  by (simp_all add: sqlite3LogEst_def while_unfold wrap16_def)

lemma range_8_15: "8 \<le> x \<Longrightarrow> x \<le> 15 \<Longrightarrow> x \<in> {8, 9, 10, 11, 12, 13, 14, 15 :: nat}"
  by (simp add: numeral_eq_Suc le_Suc_eq)

lemma logest_half_range: "8 \<le> x \<Longrightarrow> 30 \<le> logest_half x"
proof (induction x rule: logest_half.induct)
  case (1 x)
  show ?case
  proof (cases "15 < x")
    case True
    moreover have "8 \<le> x div 2" using True by simp
    ultimately show ?thesis using 1 by (subst logest_half.simps) simp
  next
    case False
    then have "x \<in> {8, 9, 10, 11, 12, 13, 14, 15}" using range_8_15 [of x] 1 by simp
    then show ?thesis by (elim insertE emptyE; simp add: logest_half.simps)
  qed
qed

lemma logest_half_mono: "8 \<le> x \<Longrightarrow> x \<le> y \<Longrightarrow> logest_half x \<le> logest_half y"
proof (induction y arbitrary: x rule: less_induct)
  case (less y)
  consider "15 < x" | "x \<le> 15" "15 < y" | "y \<le> 15" using less.prems by linarith
  then show ?case
  proof cases
    case 1
    then have "logest_half (x div 2) \<le> logest_half (y div 2)"
      using less.prems by (intro less.IH) (auto simp: div_le_mono)
    then show ?thesis using 1 less.prems by (simp add: logest_half.simps [of x] logest_half.simps [of y])
  next
    case 2
    then have "x \<in> {8, 9, 10, 11, 12, 13, 14, 15}" using less.prems range_8_15 by blast
    then have "logest_half x \<le> 39" by (elim insertE emptyE; simp add: logest_half.simps)
    moreover have "40 \<le> logest_half y"
      using 2 logest_half_range [of "y div 2"] by (simp add: logest_half.simps [of y])
    ultimately show ?thesis by simp
  next
    case 3
    then have "x \<in> {8, 9, 10, 11, 12, 13, 14, 15}" "y \<in> {8, 9, 10, 11, 12, 13, 14, 15}"
      using less.prems range_8_15 by auto
    then show ?thesis using less.prems
      by (elim insertE emptyE; simp add: logest_half.simps)
  qed
qed

lemma logest_half_pow: "logest_half (2 ^ (k + 3)) = 10 * int k + 30"
proof (induction k)
  case (Suc k)
  have "(15 :: nat) < 2 ^ (Suc k + 3)"
    using power_increasing [of 4 "Suc k + 3" "2 :: nat"] by simp
  moreover have "(2 :: nat) ^ (Suc k + 3) div 2 = 2 ^ (k + 3)" by (simp add: power_add)
  ultimately show ?case using Suc by (subst logest_half.simps) simp
qed (simp add: logest_half.simps)

text \<open>The largest number is estimated by 639, so nothing wraps.\<close>

lemma logest_half_max: "logest_half 18446744073709551615 = 639"
  by (simp add: logest_half.simps)

lemma logest_ge_8:
  assumes "8 \<le> x" "x < 2 ^ 64"
  shows "sqlite3LogEst x = logest_half x" "30 \<le> logest_half x" "logest_half x \<le> 639"
proof -
  show b: "30 \<le> logest_half x" "logest_half x \<le> 639"
    using logest_half_range [OF assms(1)] logest_half_mono [OF assms(1), of 18446744073709551615] assms(2) logest_half_max by simp_all
  show "sqlite3LogEst x = logest_half x" using logest_ge_8_wrap [OF assms(1)] b wrap16_id by (simp add: in_i16_def)
qed

lemma less_8: "n < 8 \<Longrightarrow> n \<in> {0, 1, 2, 3, 4, 5, 6, 7 :: nat}"
  by (simp add: numeral_eq_Suc less_Suc_eq)

lemma logest_less_8: "x < 8 \<Longrightarrow> 0 \<le> sqlite3LogEst x \<and> sqlite3LogEst x \<le> 28"
  using less_8 [of x] by (auto simp: logest_small logest_small(2) [unfolded One_nat_def])

lemma LogEst_range: "x < 2 ^ 64 \<Longrightarrow> 0 \<le> sqlite3LogEst x \<and> sqlite3LogEst x \<le> 639"
  using logest_less_8 [of x] logest_ge_8 [of x] by (cases "x < 8") auto

lemma LogEst_pow: "k < 64 \<Longrightarrow> sqlite3LogEst (2 ^ k) = 10 * int k"
proof (cases "k < 3")
  case True
  then have "k \<in> {0, 1, 2}" by auto
  then show ?thesis by (elim insertE emptyE; simp add: logest_small logest_small(2) [unfolded One_nat_def])
next
  case False
  assume "k < 64"
  then have "(2 :: nat) ^ k < 2 ^ 64" by (rule power_strict_increasing) simp
  moreover obtain j where k: "k = j + 3" using False by (metis add.commute le_Suc_ex not_less)
  moreover have "(8 :: nat) \<le> 2 ^ (j + 3)" by (simp add: power_add)
  ultimately show ?thesis unfolding k using logest_half_pow [of j] by (simp only: logest_ge_8(1)) simp
qed

lemma LogEst_mono:
  assumes "x \<le> y" "y < 2 ^ 64"
  shows "sqlite3LogEst x \<le> sqlite3LogEst y"
proof -
  consider "8 \<le> x" | "x < 8" "8 \<le> y" | "y < 8" using assms by linarith
  then show ?thesis
  proof cases
    case 1
    then show ?thesis using assms logest_half_mono by (simp add: logest_ge_8(1))
  next
    case 2
    then show ?thesis using logest_less_8 [of x] logest_ge_8 [of y] assms(2) by simp
  next
    case 3
    then have "x \<in> {0, 1, 2, 3, 4, 5, 6, 7}" "y \<in> {0, 1, 2, 3, 4, 5, 6, 7}" using assms less_8 by auto
    then show ?thesis using assms
      by (elim insertE emptyE; hypsubst; (simp only: logest_small)?; simp)
  qed
qed

lemma LogEstAdd_comm: "sqlite3LogEstAdd a b = sqlite3LogEstAdd b a"
  by (auto simp: sqlite3LogEstAdd_def)

lemma LogEstAdd_in_i16: "in_i16 a \<Longrightarrow> in_i16 b \<Longrightarrow> in_i16 (sqlite3LogEstAdd a b)"
  by (simp add: sqlite3LogEstAdd_def in_i16_wrap16)

lemma LogEstAdd_bounds:
  assumes "in_i16 a" "in_i16 b" "max a b \<le> 32757"
  shows "max a b \<le> sqlite3LogEstAdd a b \<and> sqlite3LogEstAdd a b \<le> max a b + 10"
proof -
  have x: "list_all (\<lambda>v. v \<le> 10) LogEstAdd_x" "length LogEstAdd_x = 32" by (simp_all add: LogEstAdd_x_def)
  then have x: "d < 32 \<Longrightarrow> LogEstAdd_x ! d \<le> 10" for d by (simp add: list_all_length)
  have w: "wrap16 (max a b + int d) = max a b + int d" if "d \<le> 10" for d
    using assms that by (intro wrap16_id) (auto simp: in_i16_def)
  have one: "wrap16 (max a b + 1) = max a b + 1" using w [of 1] by simp
  show ?thesis
    using x [of "nat (a - b)"] x [of "nat (b - a)"] w [of "LogEstAdd_x ! nat (a - b)"] w [of "LogEstAdd_x ! nat (b - a)"] one
    by (auto simp: sqlite3LogEstAdd_def max_def split: if_splits)
qed

text \<open>Beyond that it may wrap: the sum of the two largest numbers of 16 bits is negative.\<close>

lemma LogEstAdd_wraps: "sqlite3LogEstAdd 32767 32767 = - 32759"
  by (simp add: sqlite3LogEstAdd_def LogEstAdd_x_def wrap16_def)

section \<open>Properties\<close>

text \<open>C30. The overflow checks of 64-bit addition and subtraction are exact: the routine returns
  the mathematical result, or reports failure and leaves the operand alone precisely when
  the result does not fit. Multiplication does the same except when both factors are
  below 2^32 in magnitude, where it never reports failure and stores the product modulo
  2^64.\<close>

theorem safe_int_arithmetic:
  assumes "in_i64 a" and "in_i64 b"
  shows "sqlite3AddInt64 a b = (if in_i64 (a + b) then (a + b, 0) else (a, 1))
    \<and> sqlite3SubInt64 a b = (if in_i64 (a - b) then (a - b, 0) else (a, 1))
    \<and> sqlite3MulInt64 a b =
      (if \<bar>a\<bar> < TWOPOWER32 \<and> \<bar>b\<bar> < TWOPOWER32 then (wrap64 (a * b), 0)
       else if in_i64 (a * b) then (a * b, 0) else (a, 1))"
  using assms by (simp only: AddInt64_spec SubInt64_spec MulInt64_spec simp_thms)

theorem safe_int_arithmetic_witness:
  "sqlite3AddInt64 9223372036854775807 1 = (9223372036854775807, 1)
   \<and> sqlite3SubInt64 (-5) (-9223372036854775808) = (9223372036854775803, 0)
   \<and> sqlite3MulInt64 4294967296 (-2147483648) = (-9223372036854775808, 0)"
  using safe_int_arithmetic [of 9223372036854775807 1] safe_int_arithmetic [of "-5" "-9223372036854775808"]
    safe_int_arithmetic [of 4294967296 "-2147483648"]
  by (simp add: in_i64_def)

text \<open>C32. \<^verbatim>\<open>sqlite3Atoi64\<close> on white space, an optional sign, decimal digits and an arbitrary rest:
  the return code is 1 when text follows or the value does not fit, 2 exactly for
  +9223372036854775808, and 0 otherwise; below 2^64 the value stored is the number
  clamped to 64 bits, also when text follows.\<close>

theorem Atoi64_correct:
  assumes "list_all sqlite3Isspace ws" and "sg \<in> {[], ''-'', ''+''}" and "digits ds" and "ds \<noteq> []"
    and "r = [] \<or> \<not> sqlite3Isdigit (hd r)" and "v = (if sg = ''-'' then - int (dec_value ds) else int (dec_value ds))"
  shows "snd (sqlite3Atoi64 (ws @ sg @ ds @ r) SQLITE_UTF8) =
      (if r \<noteq> [] \<and> hd r \<noteq> NUL then 1 else if in_i64 v then 0 else if v = 9223372036854775808 then 2 else 1)
    \<and> (\<bar>v\<bar> < 18446744073709551616 \<longrightarrow>
      fst (sqlite3Atoi64 (ws @ sg @ ds @ r) SQLITE_UTF8) = max SMALLEST_INT64 (min LARGEST_INT64 v))"
proof -
  have "\<bar>v\<bar> = int (dec_value ds)" by (simp add: assms(6))
  then show ?thesis
    using Atoi64_digits [OF assms(1-5), folded assms(6)] by simp
qed

theorem Atoi64_correct_witness:
  "sqlite3Atoi64 ''  -9223372036854775808'' SQLITE_UTF8 = (-9223372036854775808, 0)
   \<and> sqlite3Atoi64 ''9223372036854775808'' SQLITE_UTF8 = (9223372036854775807, 2)"
proof -
  have d: "digits ''9223372036854775808''" by (simp add: Isdigit_iff)
  have w: "list_all sqlite3Isspace ''  ''" by (simp add: Isspace_iff)
  have v: "dec_value ''9223372036854775808'' = 9223372036854775808" by simp
  show ?thesis
    using Atoi64_correct [OF w, of "''-''" "''9223372036854775808''" "[]", OF _ d _ _ refl]
      Atoi64_correct [of "[]" "[]" "''9223372036854775808''" "[]", OF _ _ d _ _ refl] v
    by (simp add: in_i64_def prod_eq_iff del: dec_value.simps)
qed

text \<open>C37. \<^verbatim>\<open>sqlite3GetInt32\<close> on an optional sign, decimal digits and an arbitrary rest succeeds with
  the number exactly when there are at most ten digits and the number fits in 32 bits.\<close>

theorem GetInt32_correct:
  assumes "sg \<in> {[], ''-'', ''+''}" and "digits ds" and "ds \<noteq> []" and "r = [] \<or> \<not> sqlite3Isdigit (hd r)"
    and "sg = [] \<longrightarrow> ds = ''0'' \<longrightarrow> \<not> (zat r 0 \<in> {CHR ''x'', CHR ''X''} \<and> sqlite3Isxdigit (zat r 1))"
    and "v = (if sg = ''-'' then - int (dec_value ds) else int (dec_value ds))"
  shows "sqlite3GetInt32 (sg @ ds @ r) =
    (if length ds \<le> 10 \<and> -2147483648 \<le> v \<and> v \<le> 2147483647 then Some v else None)"
  using GetInt32_digits [OF assms(1-5)] unfolding assms(6) .

theorem GetInt32_correct_witness:
  "sqlite3GetInt32 ''-2147483648;'' = Some (-2147483648) \<and> sqlite3GetInt32 ''2147483648'' = None"
proof -
  have d: "digits ''2147483648''" by (simp add: Isdigit_iff)
  have v: "dec_value ''2147483648'' = 2147483648" by simp
  show ?thesis
    using GetInt32_correct [of "''-''" "''2147483648''" "'';''", OF _ d _ _ _ refl]
      GetInt32_correct [of "[]" "''2147483648''" "[]", OF _ d _ _ _ refl] v
    by (simp add: Isdigit_iff del: dec_value.simps)
qed

text \<open>C39. A blob literal denotes its bytes: decoding the hexadecimal text of any byte string,
  with the closing quote counted in the length, gives the byte string back.\<close>

theorem HexToBlob_roundtrip: "sqlite3HexToBlob (hex_text bs @ [q]) (length (hex_text bs @ [q])) = bs"
proof (rule nth_equalityI)
  fix j assume "j < length (sqlite3HexToBlob (hex_text bs @ [q]) (length (hex_text bs @ [q])))"
  then have j: "j < length bs" by (simp add: sqlite3HexToBlob_def)
  have lt: "unat (bs ! j) < 256" using unsigned_less [of "bs ! j"] by simp
  have "zat (hex_text bs @ [q]) (2 * j) = hex_digit (unat (bs ! j) div 16)"
    "zat (hex_text bs @ [q]) (2 * j + 1) = hex_digit (unat (bs ! j) mod 16)"
    using j hex_text_nth [OF j] by (simp_all add: nth_append)
  then show "sqlite3HexToBlob (hex_text bs @ [q]) (length (hex_text bs @ [q])) ! j = bs ! j"
    using j lt nibbles [OF lt] by (simp add: sqlite3HexToBlob_def HexToInt_digit less_mult_imp_div_less)
qed (simp add: sqlite3HexToBlob_def)

text \<open>C40. Planner estimates keep the order of the quantities they stand for: on 64-bit numbers
  \<^verbatim>\<open>sqlite3LogEst\<close> is monotone, between 0 and 639, so that nothing wraps at 16 bits, and exact (ten times
  the logarithm) on powers of two. \<^verbatim>\<open>sqlite3LogEstAdd\<close> is commutative, and for 16-bit arguments up to
  32757, far above all estimates of numbers, between the larger one and that plus ten; for greater
  ones it may wrap (\<^verbatim>\<open>LogEstAdd_wraps\<close>).\<close>

theorem LogEst_order:
  assumes "x \<le> y" and "y < 2 ^ 64" and "k < 64" and "in_i16 a" and "in_i16 b" and "max a b \<le> 32757"
  shows "sqlite3LogEst x \<le> sqlite3LogEst y \<and> 0 \<le> sqlite3LogEst x \<and> sqlite3LogEst y \<le> 639
   \<and> sqlite3LogEst (2 ^ k) = 10 * int k
   \<and> sqlite3LogEstAdd a b = sqlite3LogEstAdd b a
   \<and> max a b \<le> sqlite3LogEstAdd a b \<and> sqlite3LogEstAdd a b \<le> max a b + 10"
proof -
  have "x < 2 ^ 64" using assms(1,2) by simp
  then show ?thesis
    using LogEst_mono [OF assms(1,2)] LogEst_range assms(2) LogEst_pow [OF assms(3)] LogEstAdd_comm [of a b]
      LogEstAdd_bounds [OF assms(4-6)] by blast
qed

theorem LogEst_order_witness:
  "sqlite3LogEst 1000 \<le> sqlite3LogEst (2 ^ 20) \<and> sqlite3LogEst (2 ^ 20) = 200 \<and> 200 \<le> sqlite3LogEstAdd 200 190"
  using LogEst_order [of 1000 "2 ^ 20" 20 200 190] by (simp add: in_i16_def)

end
