(* ===== verification/Mem.thy ===== *)
theory Mem
  imports IntUtil
begin

text \<open>
  The memory cell (\<^verbatim>\<open>Mem\<close>) of \<^verbatim>\<open>src/sqlite/src/vdbeInt.h\<close>, in which the virtual machine and
  the record format keep every SQL value, and the order on cells of \<^verbatim>\<open>vdbeaux.c\<close>.

  The members of the union \<^verbatim>\<open>u\<close> are separate fields, read as the flags say. \<^verbatim>\<open>z\<close> and \<^verbatim>\<open>n\<close>
  together are the byte list \<open>zdata\<close>. A \<^verbatim>\<open>double\<close> is its 64-bit IEEE-754 pattern, and the
  comparison and the conversion from an integer are written out on patterns.
\<close>

section \<open>Doubles as bit patterns\<close>

definition dbl_is_nan :: "u64 \<Rightarrow> bool" where
  "dbl_is_nan x \<longleftrightarrow> x AND 0x7fffffffffffffff > 0x7ff0000000000000"

definition dbl_key :: "u64 \<Rightarrow> int" where
  "dbl_key x = (if bit x 63 then - uint (take_bit 63 x) else uint (take_bit 63 x))"

definition dbl_less :: "u64 \<Rightarrow> u64 \<Rightarrow> bool" where
  "dbl_less x y \<longleftrightarrow> \<not> dbl_is_nan x \<and> \<not> dbl_is_nan y \<and> dbl_key x < dbl_key y"

fun log2_floor :: "nat \<Rightarrow> nat" where
  "log2_floor n = (if n < 2 then 0 else Suc (log2_floor (n div 2)))"

declare log2_floor.simps [simp del]

text \<open>Conversion with rounding to nearest, ties to even.\<close>

definition dbl_of_nat :: "nat \<Rightarrow> nat" where
  "dbl_of_nat m =
     (if m = 0 then 0
      else
        let e = log2_floor m;
            q = (if e \<le> 52 then m * 2 ^ (52 - e)
                 else
                   let k = e - 52; q = m div 2 ^ k; r = m mod 2 ^ k; half = 2 ^ (k - 1)
                   in if r > half \<or> r = half \<and> odd q then q + 1 else q)
        in (e + 1023) * 2 ^ 52 + (q - 2 ^ 52))"

definition dbl_of_int :: "int \<Rightarrow> u64" where
  "dbl_of_int i =
     (if i < 0 then set_bit 63 (of_nat (dbl_of_nat (nat (- i)))) else of_nat (dbl_of_nat (nat i)))"

section \<open>The memory cell\<close>

record mem =
  flags :: u16
  u_i :: int
  u_r :: u64
  u_nZero :: nat
  zdata :: bytes
  enc :: u8

abbreviation (input) MEM_Null :: u16 where "MEM_Null \<equiv> 0x0001"
abbreviation (input) MEM_Str :: u16 where "MEM_Str \<equiv> 0x0002"
abbreviation (input) MEM_Int :: u16 where "MEM_Int \<equiv> 0x0004"
abbreviation (input) MEM_Real :: u16 where "MEM_Real \<equiv> 0x0008"
abbreviation (input) MEM_Blob :: u16 where "MEM_Blob \<equiv> 0x0010"
abbreviation (input) MEM_RowSet :: u16 where "MEM_RowSet \<equiv> 0x0020"
abbreviation (input) MEM_Frame :: u16 where "MEM_Frame \<equiv> 0x0040"
abbreviation (input) MEM_Undefined :: u16 where "MEM_Undefined \<equiv> 0x0080"
abbreviation (input) MEM_Cleared :: u16 where "MEM_Cleared \<equiv> 0x0100"
abbreviation (input) MEM_Term :: u16 where "MEM_Term \<equiv> 0x0200"
abbreviation (input) MEM_Dyn :: u16 where "MEM_Dyn \<equiv> 0x0400"
abbreviation (input) MEM_Static :: u16 where "MEM_Static \<equiv> 0x0800"
abbreviation (input) MEM_Ephem :: u16 where "MEM_Ephem \<equiv> 0x1000"
abbreviation (input) MEM_Agg :: u16 where "MEM_Agg \<equiv> 0x2000"
abbreviation (input) MEM_Zero :: u16 where "MEM_Zero \<equiv> 0x4000"

text \<open>\<open>has m f\<close> is the C test \<^verbatim>\<open>m->flags & f\<close>.\<close>

definition has :: "mem \<Rightarrow> u16 \<Rightarrow> bool" where
  "has m f \<longleftrightarrow> flags m AND f \<noteq> 0"

lemma has_flags [simp]: "has (m\<lparr>flags := f\<rparr>) g \<longleftrightarrow> f AND g \<noteq> 0"
  by (simp add: has_def)

lemma has_update [simp]:
  "has (m\<lparr>u_i := i\<rparr>) g = has m g" "has (m\<lparr>u_r := r\<rparr>) g = has m g"
  "has (m\<lparr>u_nZero := k\<rparr>) g = has m g" "has (m\<lparr>zdata := z\<rparr>) g = has m g" "has (m\<lparr>enc := e\<rparr>) g = has m g"
  by (simp_all add: has_def)

lemma has_make [simp]: "has \<lparr>flags = f, u_i = i, u_r = r, u_nZero = k, zdata = z, enc = e\<rparr> g \<longleftrightarrow> f AND g \<noteq> 0"
  by (simp add: has_def)

text \<open>What a cell means.\<close>

datatype sqlvalue = VNull | VInt int | VReal u64 | VText bytes | VBlob bytes | VOther

definition mem_bytes :: "mem \<Rightarrow> bytes" where
  "mem_bytes m = zdata m @ (if has m MEM_Zero then replicate (u_nZero m) 0 else [])"

definition mem_value :: "mem \<Rightarrow> sqlvalue" where
  "mem_value m =
     (if has m MEM_Null then VNull
      else if has m MEM_Int then VInt (u_i m)
      else if has m MEM_Real then VReal (u_r m)
      else if has m MEM_Str then VText (mem_bytes m)
      else if has m MEM_Blob then VBlob (mem_bytes m)
      else VOther)"

definition sqlite3VdbeMemSetNull :: "mem \<Rightarrow> mem" where
  "sqlite3VdbeMemSetNull pMem = pMem\<lparr>flags := MEM_Null\<rparr>"

definition sqlite3VdbeMemSetInt64 :: "mem \<Rightarrow> int \<Rightarrow> mem" where
  "sqlite3VdbeMemSetInt64 pMem val = pMem\<lparr>u_i := val, flags := MEM_Int\<rparr>"

definition sqlite3VdbeMemSetDouble :: "mem \<Rightarrow> u64 \<Rightarrow> mem" where
  "sqlite3VdbeMemSetDouble pMem val =
     (let pMem = sqlite3VdbeMemSetNull pMem
      in if \<not> dbl_is_nan val then pMem\<lparr>u_r := val, flags := MEM_Real\<rparr> else pMem)"

definition sqlite3VdbeMemSetZeroBlob :: "mem \<Rightarrow> int \<Rightarrow> mem" where
  "sqlite3VdbeMemSetZeroBlob pMem n =
     pMem\<lparr>flags := MEM_Blob OR MEM_Zero, zdata := [], u_nZero := nat n, enc := 1\<rparr>"

text \<open>Expanding the zero-filled tail of a blob (the allocation succeeds).\<close>

definition sqlite3VdbeMemExpandBlob :: "mem \<Rightarrow> mem" where
  "sqlite3VdbeMemExpandBlob pMem =
     (if has pMem MEM_Zero
      then pMem\<lparr>zdata := zdata pMem @ replicate (u_nZero pMem) 0,
                flags := flags pMem AND NOT (MEM_Zero OR MEM_Term)\<rparr>
      else pMem)"

section \<open>Comparing cells\<close>

text \<open>\<^verbatim>\<open>memcmp\<close> on buffers of equal length; only the sign of its result is specified.\<close>

fun memcmp :: "bytes \<Rightarrow> bytes \<Rightarrow> int" where
  "memcmp (a # x) (b # y) = (if a \<noteq> b then uint a - uint b else memcmp x y)"
| "memcmp _ _ = 0"

text \<open>A collating sequence: its encoding, its comparison function, and the conversion of a
  text to that encoding (\<^verbatim>\<open>sqlite3ValueText\<close>, not modelled), needed when they differ.\<close>

record collseq =
  cenc :: u8
  xCmp :: "bytes \<Rightarrow> bytes \<Rightarrow> int"
  recode :: "mem \<Rightarrow> bytes"

definition vdbeCompareMemString :: "mem \<Rightarrow> mem \<Rightarrow> collseq \<Rightarrow> int" where
  "vdbeCompareMemString pMem1 pMem2 pColl =
     (if enc pMem1 = cenc pColl then xCmp pColl (zdata pMem1) (zdata pMem2)
      else xCmp pColl (recode pColl pMem1) (recode pColl pMem2))"

definition sqlite3BlobCompare :: "mem \<Rightarrow> mem \<Rightarrow> int" where
  "sqlite3BlobCompare pB1 pB2 =
     (let n1 = length (zdata pB1); n2 = length (zdata pB2); n = (if n1 > n2 then n2 else n1);
          c = memcmp (take n (zdata pB1)) (take n (zdata pB2))
      in if c \<noteq> 0 then c else int n1 - int n2)"

definition sqlite3MemCompare :: "mem \<Rightarrow> mem \<Rightarrow> collseq option \<Rightarrow> int" where
  "sqlite3MemCompare pMem1 pMem2 pColl =
     (let f1 = flags pMem1; f2 = flags pMem2; combined_flags = f1 OR f2 in
      if combined_flags AND MEM_Null \<noteq> 0 then uint (f2 AND MEM_Null) - uint (f1 AND MEM_Null)
      else if combined_flags AND (MEM_Int OR MEM_Real) \<noteq> 0 then
        if (f1 AND f2) AND MEM_Int \<noteq> 0 then
          if u_i pMem1 < u_i pMem2 then -1 else if u_i pMem1 > u_i pMem2 then 1 else 0
        else if f1 AND MEM_Real = 0 \<and> f1 AND MEM_Int = 0 then 1
        else
          let r1 = (if f1 AND MEM_Real \<noteq> 0 then u_r pMem1 else dbl_of_int (u_i pMem1)) in
          if f2 AND MEM_Real = 0 \<and> f2 AND MEM_Int = 0 then -1
          else
            let r2 = (if f2 AND MEM_Real \<noteq> 0 then u_r pMem2 else dbl_of_int (u_i pMem2))
            in if dbl_less r1 r2 then -1 else if dbl_less r2 r1 then 1 else 0
      else if combined_flags AND MEM_Str \<noteq> 0 \<and> f1 AND MEM_Str = 0 then 1
      else if combined_flags AND MEM_Str \<noteq> 0 \<and> f2 AND MEM_Str = 0 then -1
      else
        (case pColl of
           Some c \<Rightarrow> if combined_flags AND MEM_Str \<noteq> 0 then vdbeCompareMemString pMem1 pMem2 c
                     else sqlite3BlobCompare pMem1 pMem2
         | None \<Rightarrow> sqlite3BlobCompare pMem1 pMem2))"

lemma memcmp_refl [simp]: "memcmp x x = 0"
  by (induction x) auto

lemma memcmp_0: "length x = length y \<Longrightarrow> memcmp x y = 0 \<longleftrightarrow> x = y"
  by (induction x y rule: memcmp.induct) (auto simp: word_uint_eq_iff)

lemma memcmp_antisym: "memcmp y x = - memcmp x y"
  by (induction x y rule: memcmp.induct) auto

lemma BlobCompare_0: "sqlite3BlobCompare a b = 0 \<longleftrightarrow> zdata a = zdata b"
  by (auto simp: sqlite3BlobCompare_def Let_def memcmp_0 min_def)

lemma BlobCompare_antisym: "sqlite3BlobCompare b a = - sqlite3BlobCompare a b"
  by (auto simp: sqlite3BlobCompare_def Let_def memcmp_antisym [of "zdata b"] memcmp_antisym [of "take n (zdata b)" for n])

section \<open>Flags as bits\<close>

lemma flag_bits:
  fixes f :: u16
  shows "f AND 1 = 0 \<longleftrightarrow> \<not> bit f 0" "f AND 2 = 0 \<longleftrightarrow> \<not> bit f 1" "f AND 4 = 0 \<longleftrightarrow> \<not> bit f 2"
    "f AND 8 = 0 \<longleftrightarrow> \<not> bit f 3" "f AND 16 = 0 \<longleftrightarrow> \<not> bit f 4" "f AND 0x4000 = 0 \<longleftrightarrow> \<not> bit f 14"
  using and_exp_eq_0_iff_not_bit [of f 0] and_exp_eq_0_iff_not_bit [of f 1] and_exp_eq_0_iff_not_bit [of f 2]
    and_exp_eq_0_iff_not_bit [of f 3] and_exp_eq_0_iff_not_bit [of f 4] and_exp_eq_0_iff_not_bit [of f 14]
  by simp_all

lemma and_or_eq_0: "f AND (a OR b) = 0 \<longleftrightarrow> f AND a = 0 \<and> f AND b = (0 :: 'a::len word)"
  by (auto simp: bit_eq_iff bit_simps)

lemma or_and_eq_0: "(a OR b) AND f = 0 \<longleftrightarrow> a AND f = 0 \<and> b AND f = (0 :: 'a::len word)"
  by (auto simp: bit_eq_iff bit_simps)

lemma flag_number: "f AND 12 = 0 \<longleftrightarrow> \<not> bit f 2 \<and> \<not> bit (f :: u16) 3"
  using and_or_eq_0 [of f 4 8] by (simp add: flag_bits)

lemma uint_and_1: "uint (f AND 1 :: u16) = of_bool (bit f 0)"
  by (cases "bit f 0") (simp_all add: and_one_eq bit_0 odd_iff_mod_2_eq_one)

lemmas flag_simps = flag_bits flag_number or_and_eq_0 uint_and_1 bit_simps

text \<open>The class of a cell, in the order in which the classes sort.\<close>

definition mem_class :: "mem \<Rightarrow> nat" where
  "mem_class m =
     (if has m MEM_Null then 0 else if has m MEM_Int \<or> has m MEM_Real then 1
      else if has m MEM_Str then 2 else 3)"

definition num_dbl :: "mem \<Rightarrow> u64" where
  "num_dbl m = (if has m MEM_Real then u_r m else dbl_of_int (u_i m))"

definition dbl_cmp :: "u64 \<Rightarrow> u64 \<Rightarrow> int" where
  "dbl_cmp x y = (if dbl_less x y then -1 else if dbl_less y x then 1 else 0)"

lemma dbl_cmp_antisym: "dbl_cmp y x = - dbl_cmp x y"
  by (simp add: dbl_cmp_def) (simp add: dbl_less_def)

lemma MemCompare_cases:
  "sqlite3MemCompare a b c =
     (if mem_class a \<noteq> mem_class b then (if mem_class a < mem_class b then -1 else 1)
      else if mem_class a = 0 then 0
      else if mem_class a = 1 then
        if has a MEM_Int \<and> has b MEM_Int then (if u_i a < u_i b then -1 else if u_i a > u_i b then 1 else 0)
        else dbl_cmp (num_dbl a) (num_dbl b)
      else case c of
             Some c \<Rightarrow> if mem_class a = 2 then vdbeCompareMemString a b c else sqlite3BlobCompare a b
           | None \<Rightarrow> sqlite3BlobCompare a b)"
  unfolding sqlite3MemCompare_def mem_class_def has_def Let_def dbl_cmp_def num_dbl_def
  by (simp add: flag_simps split: option.split)

text \<open>Integers are converted to doubles before they are compared with one, so the order is not
  transitive: two different integers are both equal to the same double.\<close>

definition int_mem :: "int \<Rightarrow> mem" where
  "int_mem i = \<lparr>flags = MEM_Int, u_i = i, u_r = 0, u_nZero = 0, zdata = [], enc = 1\<rparr>"

definition real_mem :: "u64 \<Rightarrow> mem" where
  "real_mem r = \<lparr>flags = MEM_Real, u_i = 0, u_r = r, u_nZero = 0, zdata = [], enc = 1\<rparr>"

lemma log2_floor_eq: "2 ^ e \<le> n \<Longrightarrow> n < 2 ^ Suc e \<Longrightarrow> log2_floor n = e"
proof (induction e arbitrary: n)
  case 0
  then show ?case by (simp add: log2_floor.simps)
next
  case (Suc e)
  then have "log2_floor (n div 2) = e" by (intro Suc.IH) auto
  moreover have "2 \<le> n" using Suc.prems(1) one_le_power [of "2::nat" e] unfolding power_Suc by linarith
  ultimately show ?case by (subst log2_floor.simps) simp
qed

lemma MemCompare_not_transitive:
  "sqlite3MemCompare (int_mem 9007199254740993) (real_mem 0x4340000000000000) None = 0
   \<and> sqlite3MemCompare (real_mem 0x4340000000000000) (int_mem 9007199254740992) None = 0
   \<and> sqlite3MemCompare (int_mem 9007199254740993) (int_mem 9007199254740992) None = 1"
proof -
  have "log2_floor 9007199254740993 = 53" "log2_floor 9007199254740992 = 53"
    by (simp_all add: log2_floor_eq)
  then have "dbl_of_int 9007199254740993 = 0x4340000000000000" "dbl_of_int 9007199254740992 = 0x4340000000000000"
    by (simp_all add: dbl_of_int_def dbl_of_nat_def Let_def)
  then show ?thesis
    by (simp add: MemCompare_cases mem_class_def int_mem_def real_mem_def num_dbl_def dbl_cmp_def dbl_less_def)
qed

section \<open>The order of bytes\<close>

text \<open>Byte strings are compared as words of a dictionary.\<close>

lemma memcmp_lex:
  "length x = length y \<Longrightarrow> memcmp x y < 0 \<longleftrightarrow> (x, y) \<in> lexord {(a, b). a < b}"
  by (induction x y rule: memcmp.induct) (auto simp: word_less_def word_uint_eq_iff)

lemma lexord_take:
  assumes "length x < length y"
  shows "(x, y) \<in> lexord r \<longleftrightarrow> x = take (length x) y \<or> (x, take (length x) y) \<in> lexord r"
  using assms
proof (induction x arbitrary: y)
  case Nil
  then show ?case by (cases y) auto
next
  case (Cons a x)
  then show ?case by (cases y) auto
qed

lemma lexord_take_right:
  assumes "length y < length x" "\<And>a. (a, a) \<notin> r"
  shows "(x, y) \<in> lexord r \<longleftrightarrow> (take (length y) x, y) \<in> lexord r"
  using assms(1)
proof (induction y arbitrary: x)
  case (Cons a y)
  then show ?case by (cases x) auto
qed simp

lemma BlobCompare_lex: "sqlite3BlobCompare a b < 0 \<longleftrightarrow> (zdata a, zdata b) \<in> lexord {(a, b). a < b}"
proof -
  let ?x = "zdata a" and ?y = "zdata b" and ?r = "{(a, b :: u8). a < b}"
  have irr: "(u, u) \<notin> lexord ?r" for u by (rule lexord_irreflexive) simp
  consider "length ?x < length ?y" | "length ?x = length ?y" | "length ?y < length ?x" by linarith
  then show ?thesis
  proof cases
    case 1
    then show ?thesis
      using memcmp_lex [of ?x "take (length ?x) ?y"] memcmp_0 [of ?x "take (length ?x) ?y"] lexord_take [OF 1, of ?r]
      by (auto simp: sqlite3BlobCompare_def Let_def irr)
  next
    case 2
    then show ?thesis using memcmp_lex [OF 2] memcmp_0 [OF 2] by (auto simp: sqlite3BlobCompare_def Let_def irr)
  next
    case 3
    then show ?thesis
      using memcmp_lex [of "take (length ?y) ?x" ?y] memcmp_0 [of "take (length ?y) ?x" ?y]
        lexord_take_right [OF 3, of ?r]
      by (auto simp: sqlite3BlobCompare_def Let_def irr)
  qed
qed

section \<open>Properties\<close>

text \<open>C38. \<^verbatim>\<open>sqlite3MemCompare\<close> orders cells by class (NULL, numbers, text, blobs) and is antisymmetric
  whenever the collating sequence is (for two cells of one encoding). Within a class, integers are compared as such, and numbers of
  which one is real as doubles; texts in the encoding of the collating sequence by it; blobs, and
  texts without a collating sequence, as words of a dictionary by the bytes that are stored. The
  tail of a zero-filled blob is not stored and not compared; without one the result is zero only
  for equal contents.\<close>

theorem MemCompare_order:
  assumes "\<forall>x y. case c of Some c \<Rightarrow> xCmp c y x = - xCmp c x y | None \<Rightarrow> True"
    and "enc a = enc b"
  shows "(mem_class a < mem_class b \<longrightarrow> sqlite3MemCompare a b c < 0)
    \<and> sqlite3MemCompare b a c = - sqlite3MemCompare a b c
    \<and> (mem_class a = 1 \<and> mem_class b = 1 \<longrightarrow>
        (sqlite3MemCompare a b c < 0 \<longleftrightarrow>
          (if has a MEM_Int \<and> has b MEM_Int then u_i a < u_i b else dbl_less (num_dbl a) (num_dbl b))))
    \<and> (mem_class a = 2 \<and> mem_class b = 2 \<longrightarrow>
        (\<forall>d. c = Some d \<and> enc a = cenc d \<longrightarrow> sqlite3MemCompare a b c = xCmp d (zdata a) (zdata b)))
    \<and> (mem_class a = mem_class b \<and> (mem_class a = 3 \<or> mem_class a = 2 \<and> c = None) \<longrightarrow>
        (sqlite3MemCompare a b c < 0 \<longleftrightarrow> (zdata a, zdata b) \<in> lexord {(x, y). x < y}) \<and>
        (sqlite3MemCompare a b c = 0 \<longleftrightarrow> zdata a = zdata b) \<and>
        (\<not> has a MEM_Zero \<and> \<not> has b MEM_Zero \<longrightarrow> (sqlite3MemCompare a b c = 0 \<longleftrightarrow> mem_bytes a = mem_bytes b)))"
proof (intro conjI)
  show "mem_class a < mem_class b \<longrightarrow> sqlite3MemCompare a b c < 0"
    by (simp add: MemCompare_cases)
  show "mem_class a = 1 \<and> mem_class b = 1 \<longrightarrow>
    (sqlite3MemCompare a b c < 0 \<longleftrightarrow>
      (if has a MEM_Int \<and> has b MEM_Int then u_i a < u_i b else dbl_less (num_dbl a) (num_dbl b)))"
    by (simp add: MemCompare_cases dbl_cmp_def)
  show "mem_class a = 2 \<and> mem_class b = 2 \<longrightarrow>
    (\<forall>d. c = Some d \<and> enc a = cenc d \<longrightarrow> sqlite3MemCompare a b c = xCmp d (zdata a) (zdata b))"
    by (simp add: MemCompare_cases vdbeCompareMemString_def)
  show "mem_class a = mem_class b \<and> (mem_class a = 3 \<or> mem_class a = 2 \<and> c = None) \<longrightarrow>
    (sqlite3MemCompare a b c < 0 \<longleftrightarrow> (zdata a, zdata b) \<in> lexord {(x, y). x < y}) \<and>
    (sqlite3MemCompare a b c = 0 \<longleftrightarrow> zdata a = zdata b) \<and>
    (\<not> has a MEM_Zero \<and> \<not> has b MEM_Zero \<longrightarrow> (sqlite3MemCompare a b c = 0 \<longleftrightarrow> mem_bytes a = mem_bytes b))"
  proof
    assume x: "mem_class a = mem_class b \<and> (mem_class a = 3 \<or> mem_class a = 2 \<and> c = None)"
    then have "sqlite3MemCompare a b c = sqlite3BlobCompare a b" by (auto simp: MemCompare_cases split: option.split)
    then show "(sqlite3MemCompare a b c < 0 \<longleftrightarrow> (zdata a, zdata b) \<in> lexord {(x, y). x < y}) \<and>
      (sqlite3MemCompare a b c = 0 \<longleftrightarrow> zdata a = zdata b) \<and>
      (\<not> has a MEM_Zero \<and> \<not> has b MEM_Zero \<longrightarrow> (sqlite3MemCompare a b c = 0 \<longleftrightarrow> mem_bytes a = mem_bytes b))"
      by (simp only: BlobCompare_lex BlobCompare_0 mem_bytes_def) simp
  qed
  have s: "vdbeCompareMemString b a d = - vdbeCompareMemString a b d" if "c = Some d" for d
  proof -
    note x = assms(1) [unfolded that option.case, rule_format]
    show ?thesis unfolding vdbeCompareMemString_def assms(2)
      by (cases "enc b = cenc d"; simp only: simp_thms if_True if_False; rule x)
  qed
  consider "mem_class a \<noteq> mem_class b" | "mem_class a = mem_class b" "mem_class a = 0"
    | "mem_class a = mem_class b" "mem_class a = 1" | "mem_class a = mem_class b" "1 < mem_class a" by linarith
  then show "sqlite3MemCompare b a c = - sqlite3MemCompare a b c"
  proof cases
    case 3
    then show ?thesis
      by (simp add: MemCompare_cases [of a b] MemCompare_cases [of b a] dbl_cmp_antisym [of "num_dbl a" "num_dbl b"])
  next
    case 4
    then show ?thesis using s unfolding MemCompare_cases [of a b] MemCompare_cases [of b a]
      by (cases c) (simp_all add: BlobCompare_antisym [of a b])
  qed (simp_all add: MemCompare_cases [of a b] MemCompare_cases [of b a])
qed

theorem MemCompare_order_witness:
  "sqlite3MemCompare (real_mem 0) (int_mem 5) None = - sqlite3MemCompare (int_mem 5) (real_mem 0) None
   \<and> sqlite3MemCompare (int_mem (- 7)) (int_mem 5) None < 0"
  using MemCompare_order [of None "int_mem 5" "real_mem 0"] MemCompare_order [of None "int_mem (- 7)" "int_mem 5"]
  by (simp add: int_mem_def real_mem_def mem_class_def)

end
