(* ===== verification/Serial.thy ===== *)
theory Serial
  imports Mem Varint
begin

text \<open>
  The serial types of the record format (\<^verbatim>\<open>src/sqlite/src/vdbeaux.c\<close>): how the type code of a
  value is chosen, and how a value is written to and read from a record body.

  A read past the end of the buffer is \<^const>\<open>None\<close>. The type code is an unsigned 32-bit
  number, kept as a \<^typ>\<open>nat\<close> with the reduction written out.
\<close>

section \<open>Choosing the type\<close>

abbreviation (input) MAX_6BYTE :: int where "MAX_6BYTE \<equiv> 0x800000000000 - 1"

definition sqlite3VdbeSerialType :: "mem \<Rightarrow> nat \<Rightarrow> nat" where
  "sqlite3VdbeSerialType pMem file_format =
     (if has pMem MEM_Null then 0
      else if has pMem MEM_Int then
        let i = u_i pMem; u = (if i < 0 then NOT i else i)
        in if u \<le> 127 then (if i AND 1 = i \<and> file_format \<ge> 4 then 8 + nat u else 1)
           else if u \<le> 32767 then 2
           else if u \<le> 8388607 then 3
           else if u \<le> 2147483647 then 4
           else if u \<le> MAX_6BYTE then 5
           else 6
      else if has pMem MEM_Real then 7
      else
        let n = length (zdata pMem) + (if has pMem MEM_Zero then u_nZero pMem else 0)
        in (n * 2 + 12 + (if has pMem MEM_Str then 1 else 0)) mod 2 ^ 32)"

definition sqlite3VdbeSerialTypeLen :: "nat \<Rightarrow> nat" where
  "sqlite3VdbeSerialTypeLen serial_type =
     (if serial_type \<ge> 12 then (serial_type - 12) div 2
      else [0, 1, 2, 3, 4, 6, 8, 8, 0, 0, 0, 0] ! serial_type)"

section \<open>Writing\<close>

text \<open>The \<^verbatim>\<open>do\<close> loop stores the low bytes from the end of the field backwards.\<close>

fun put_be :: "nat \<Rightarrow> u64 \<Rightarrow> bytes" where
  "put_be 0 v = []"
| "put_be (Suc i) v = put_be i (drop_bit 8 v) @ [ucast (v AND 0xff)]"

definition sqlite3VdbeSerialPut :: "mem \<Rightarrow> nat \<Rightarrow> bytes" where
  "sqlite3VdbeSerialPut pMem serial_type =
     (if serial_type \<le> 7 \<and> serial_type > 0 then
        let v = (if serial_type = 7 then u_r pMem else of_int (u_i pMem))
        in put_be (sqlite3VdbeSerialTypeLen serial_type) v
      else if serial_type \<ge> 12 then zdata pMem
      else [])"

section \<open>Reading\<close>

definition ONE_BYTE_INT :: "bytes \<Rightarrow> int option" where
  "ONE_BYTE_INT x = do { b0 \<leftarrow> rd x 0; Some (sint b0) }"

definition TWO_BYTE_INT :: "bytes \<Rightarrow> int option" where
  "TWO_BYTE_INT x = do { b0 \<leftarrow> rd x 0; b1 \<leftarrow> rd x 1; Some ((256 * sint b0) OR uint b1) }"

definition THREE_BYTE_INT :: "bytes \<Rightarrow> int option" where
  "THREE_BYTE_INT x = do { b0 \<leftarrow> rd x 0; b1 \<leftarrow> rd x 1; b2 \<leftarrow> rd x 2;
     Some ((65536 * sint b0) OR push_bit 8 (uint b1) OR uint b2) }"

definition FOUR_BYTE_UINT :: "bytes \<Rightarrow> u32 option" where
  "FOUR_BYTE_UINT x = do { b0 \<leftarrow> rd x 0; b1 \<leftarrow> rd x 1; b2 \<leftarrow> rd x 2; b3 \<leftarrow> rd x 3;
     Some (push_bit 24 (ucast b0) OR push_bit 16 (ucast b1) OR push_bit 8 (ucast b2) OR ucast b3) }"

definition FOUR_BYTE_INT :: "bytes \<Rightarrow> int option" where
  "FOUR_BYTE_INT x = do { b0 \<leftarrow> rd x 0; b1 \<leftarrow> rd x 1; b2 \<leftarrow> rd x 2; b3 \<leftarrow> rd x 3;
     Some ((16777216 * sint b0) OR push_bit 16 (uint b1) OR push_bit 8 (uint b2) OR uint b3) }"

definition serialGet :: "bytes \<Rightarrow> nat \<Rightarrow> mem \<Rightarrow> (mem \<times> nat) option" where
  "serialGet buf serial_type pMem = do {
     x \<leftarrow> FOUR_BYTE_UINT buf;
     y \<leftarrow> FOUR_BYTE_UINT (drop 4 buf);
     let x = (push_bit 32 (ucast x) + ucast y :: u64);
     Some (if serial_type = 6 then (pMem\<lparr>u_i := sint x, flags := MEM_Int\<rparr>, 8)
           else (pMem\<lparr>u_r := x, flags := (if dbl_is_nan x then MEM_Null else MEM_Real)\<rparr>, 8))
   }"

definition sqlite3VdbeSerialGet :: "bytes \<Rightarrow> nat \<Rightarrow> mem \<Rightarrow> (mem \<times> nat) option" where
  "sqlite3VdbeSerialGet buf serial_type pMem =
     (if serial_type \<in> {0, 10, 11} then Some (pMem\<lparr>flags := MEM_Null\<rparr>, 0)
      else if serial_type = 1 then do {
        i \<leftarrow> ONE_BYTE_INT buf; Some (pMem\<lparr>u_i := i, flags := MEM_Int\<rparr>, 1) }
      else if serial_type = 2 then do {
        i \<leftarrow> TWO_BYTE_INT buf; Some (pMem\<lparr>u_i := i, flags := MEM_Int\<rparr>, 2) }
      else if serial_type = 3 then do {
        i \<leftarrow> THREE_BYTE_INT buf; Some (pMem\<lparr>u_i := i, flags := MEM_Int\<rparr>, 3) }
      else if serial_type = 4 then do {
        i \<leftarrow> FOUR_BYTE_INT buf; Some (pMem\<lparr>u_i := i, flags := MEM_Int\<rparr>, 4) }
      else if serial_type = 5 then do {
        lo \<leftarrow> FOUR_BYTE_UINT (drop 2 buf); hi \<leftarrow> TWO_BYTE_INT buf;
        Some (pMem\<lparr>u_i := uint lo + TWOPOWER32 * hi, flags := MEM_Int\<rparr>, 6) }
      else if serial_type = 6 \<or> serial_type = 7 then serialGet buf serial_type pMem
      else if serial_type = 8 \<or> serial_type = 9 then
        Some (pMem\<lparr>u_i := int serial_type - 8, flags := MEM_Int\<rparr>, 0)
      else
        let n = (serial_type - 12) div 2
        in if n \<le> length buf then
             Some (pMem\<lparr>zdata := take n buf,
                        flags := (if odd serial_type then MEM_Str OR MEM_Ephem else MEM_Blob OR MEM_Ephem)\<rparr>, n)
           else None)"

definition vdbeRecordDecodeInt :: "nat \<Rightarrow> bytes \<Rightarrow> int option" where
  "vdbeRecordDecodeInt serial_type aKey =
     (if serial_type = 0 \<or> serial_type = 1 then ONE_BYTE_INT aKey
      else if serial_type = 2 then TWO_BYTE_INT aKey
      else if serial_type = 3 then THREE_BYTE_INT aKey
      else if serial_type = 4 then do { y \<leftarrow> FOUR_BYTE_UINT aKey; Some (sint y) }
      else if serial_type = 5 then do {
        lo \<leftarrow> FOUR_BYTE_UINT (drop 2 aKey); hi \<leftarrow> TWO_BYTE_INT aKey;
        Some (uint lo + TWOPOWER32 * hi) }
      else if serial_type = 6 then do {
        x \<leftarrow> FOUR_BYTE_UINT aKey; y \<leftarrow> FOUR_BYTE_UINT (drop 4 aKey);
        Some (sint (push_bit 32 (ucast x) OR ucast y :: u64)) }
      else Some (int serial_type - 8))"

section \<open>Big-endian integers\<close>

lemma length_put_be [simp]: "length (put_be n v) = n"
  by (induction n v rule: put_be.induct) auto

lemma and_ff: "ucast (v AND 0xff) = (ucast v :: u8)" for v :: u64
proof -
  have "v AND 0xff = take_bit 8 v" by (simp add: take_bit_eq_mask mask_eq_exp_minus_1)
  then show ?thesis by (auto intro!: bit_word_eqI simp: bit_simps)
qed

lemma put_be_nth: "k < n \<Longrightarrow> rd (put_be n v @ r) k = Some (ucast (drop_bit (8 * (n - 1 - k)) v))"
proof (induction n v arbitrary: r rule: put_be.induct)
  case (2 i v)
  show ?case
  proof (cases "k < i")
    case True
    then have "8 + 8 * (i - Suc k) = 8 * (i - k)" by linarith
    then show ?thesis using 2 True by (simp add: add.commute)
  next
    case False
    then show ?thesis using 2 by (simp add: rd_def nth_append and_ff)
  qed
qed simp

lemma bit_word_of_int64: "bit (word_of_int i :: u64) k \<longleftrightarrow> k < 64 \<and> bit i k"
  by (simp add: bit_word_of_int_iff)

lemma times_push_bit: "256 * (x :: int) = push_bit 8 x" "65536 * x = push_bit 16 x" "16777216 * x = push_bit 24 x"
  by (simp_all add: push_bit_eq_mult)

lemma byte_of_int:
  assumes "k + 8 \<le> 64"
  shows "sint (ucast (drop_bit k (word_of_int i :: u64)) :: u8) = signed_take_bit 7 (drop_bit k i)"
    and "uint (ucast (drop_bit k (word_of_int i :: u64)) :: u8) = take_bit 8 (drop_bit k i)"
    and "ucast (ucast (drop_bit k (word_of_int i :: u64)) :: u8) = (word_of_int (take_bit 8 (drop_bit k i)) :: u32)"
  using assms by (auto intro!: bit_eqI bit_word_eqI simp: bit_simps bit_word_of_int64 bit_word_of_int_iff min_def)

lemma stb_split: "push_bit k (signed_take_bit n (drop_bit k i)) OR take_bit k i = signed_take_bit (n + k) (i :: int)"
proof (rule bit_eqI)
  fix m
  show "bit (push_bit k (signed_take_bit n (drop_bit k i)) OR take_bit k i) m = bit (signed_take_bit (n + k) i) m"
    by (cases "m < k"; cases "m - k \<le> n") (auto simp: bit_simps min_def add.commute)
qed

lemma tb_split: "push_bit k (take_bit n (drop_bit k i)) OR take_bit k i = take_bit (n + k) (i :: int)"
  by (rule bit_eqI) (auto simp: bit_simps)

lemmas be_simps = put_be_nth byte_of_int [of 0, simplified] byte_of_int times_push_bit

lemma get_be_1: "ONE_BYTE_INT (put_be 1 (word_of_int i) @ r) = Some (signed_take_bit 7 i)"
  unfolding ONE_BYTE_INT_def by (simp add: be_simps del: put_be.simps)

lemma get_be_2: "TWO_BYTE_INT (put_be 2 (word_of_int i) @ r) = Some (signed_take_bit 15 i)"
  unfolding TWO_BYTE_INT_def using stb_split [of 8 7 i] by (simp add: be_simps del: put_be.simps)

lemma get_be_3: "THREE_BYTE_INT (put_be 3 (word_of_int i) @ r) = Some (signed_take_bit 23 i)"
  unfolding THREE_BYTE_INT_def using stb_split [of 16 7 i] tb_split [of 8 8 i]
  by (simp add: be_simps or.assoc del: put_be.simps)

lemma get_be_4: "FOUR_BYTE_INT (put_be 4 (word_of_int i) @ r) = Some (signed_take_bit 31 i)"
  unfolding FOUR_BYTE_INT_def using stb_split [of 24 7 i] tb_split [of 16 8 i] tb_split [of 8 8 i]
  by (simp add: be_simps or.assoc del: put_be.simps)

lemma get_be_4u:
  fixes w :: u64
  shows "FOUR_BYTE_UINT (put_be 4 w @ r) = Some (ucast w)"
proof -
  have "push_bit 24 (ucast (ucast (drop_bit 24 w) :: u8)) OR push_bit 16 (ucast (ucast (drop_bit 16 w) :: u8))
      OR push_bit 8 (ucast (ucast (drop_bit 8 w) :: u8)) OR ucast (ucast w :: u8) = (ucast w :: u32)"
  proof (rule bit_word_eqI)
    fix n assume "n < LENGTH(32)"
    then consider "n < 8" | "8 \<le> n" "n < 16" | "16 \<le> n" "n < 24" | "24 \<le> n" "n < 32" by fastforce
    then show "bit ((push_bit 24 (ucast (ucast (drop_bit 24 w) :: u8)) :: u32) OR push_bit 16 (ucast (ucast (drop_bit 16 w) :: u8))
      OR push_bit 8 (ucast (ucast (drop_bit 8 w) :: u8)) OR ucast (ucast w :: u8)) n = bit (ucast w :: u32) n"
      by cases (auto simp: bit_simps)
  qed
  then show ?thesis unfolding FOUR_BYTE_UINT_def by (simp add: put_be_nth or.assoc del: put_be.simps)
qed

lemma put_be_split: "put_be (m + n) v = put_be m (drop_bit (8 * n) v) @ put_be n v"
  by (induction n arbitrary: v) (simp_all add: add.commute)

lemma put_be_low:
  assumes "take_bit (8 * n) v = take_bit (8 * n) w"
  shows "put_be n v = put_be n w"
proof (rule nth_equalityI)
  fix k assume "k < length (put_be n v)"
  then have k: "k < n" by simp
  have "bit v j = bit w j" if "j < 8 * n" for j
    using assms that by (metis bit_take_bit_iff)
  then have "(ucast (drop_bit (8 * (n - 1 - k)) v) :: u8) = ucast (drop_bit (8 * (n - 1 - k)) w)"
    using k by (intro bit_word_eqI) (auto simp: bit_simps)
  then show "put_be n v ! k = put_be n w ! k"
    using put_be_nth [OF k, of v "[]"] put_be_nth [OF k, of w "[]"] k by (simp add: rd_def)
qed simp

lemma disjoint_low: "take_bit k i + push_bit k j = push_bit k j OR take_bit k (i :: int)"
  by (subst add.commute, rule disjunctive_add) (auto simp: bit_simps)

lemma get_be_6:
  "(do { lo \<leftarrow> FOUR_BYTE_UINT (drop 2 (put_be 6 (word_of_int i) @ r));
         hi \<leftarrow> TWO_BYTE_INT (put_be 6 (word_of_int i) @ r); Some (uint lo + TWOPOWER32 * hi) })
   = Some (signed_take_bit 47 i)"
proof -
  have hi: "put_be 2 (drop_bit 32 (word_of_int i)) = put_be 2 (word_of_int (drop_bit 32 i))"
    by (rule put_be_low) (auto intro!: bit_word_eqI simp: bit_simps bit_word_of_int64)
  have 6: "put_be 6 (word_of_int i) @ r = put_be 2 (word_of_int (drop_bit 32 i)) @ put_be 4 (word_of_int i) @ r"
    using put_be_split [of 2 4 "word_of_int i"] by (simp add: hi del: put_be.simps)
  have d: "drop 2 (put_be 2 v @ r) = r" for v r by (simp del: put_be.simps)
  have lo: "uint (ucast (word_of_int i :: u64) :: u32) = take_bit 32 i"
    by (auto intro!: bit_eqI simp: bit_simps bit_word_of_int64)
  show ?thesis
    unfolding 6 d get_be_4u get_be_2 using stb_split [of 32 15 i]
    by (simp add: lo disjoint_low push_bit_eq_mult [symmetric] mult.commute [of 4294967296 "signed_take_bit 15 (drop_bit 32 i)"]
      push_bit_eq_mult [of 32, simplified, symmetric] del: put_be.simps)
qed

lemma join32: "push_bit 32 (ucast (ucast (drop_bit 32 w) :: u32)) OR ucast (ucast w :: u32) = (w :: u64)"
  by (rule bit_word_eqI) (auto simp: bit_simps)

lemma join32_add: "push_bit 32 (ucast (ucast (drop_bit 32 w) :: u32)) + ucast (ucast w :: u32) = (w :: u64)"
  by (subst disjunctive_add) (auto simp: bit_simps join32)

lemma get_be_8:
  "FOUR_BYTE_UINT (put_be 8 w @ r) = Some (ucast (drop_bit 32 w))"
  "FOUR_BYTE_UINT (drop 4 (put_be 8 w @ r)) = Some (ucast w)"
proof -
  have 8: "put_be 8 w @ r = put_be 4 (drop_bit 32 w) @ put_be 4 w @ r"
    using put_be_split [of 4 4 w] by (simp del: put_be.simps)
  have d: "drop 4 (put_be 4 v @ r) = r" for v r by (simp del: put_be.simps)
  show "FOUR_BYTE_UINT (put_be 8 w @ r) = Some (ucast (drop_bit 32 w))"
    "FOUR_BYTE_UINT (drop 4 (put_be 8 w @ r)) = Some (ucast w)"
    unfolding 8 d get_be_4u by simp_all
qed

section \<open>A field round trip\<close>

lemma signed_take_bit_id:
  "- (2 ^ n) \<le> i \<Longrightarrow> i < 2 ^ n \<Longrightarrow> signed_take_bit n (i :: int) = i"
  by (simp add: signed_take_bit_int_eq_self_iff)

lemma int_type_range:
  assumes "has m MEM_Int" "\<not> has m MEM_Null" "in_i64 (u_i m)"
  shows "(sqlite3VdbeSerialType m ff = 1 \<and> -128 \<le> u_i m \<and> u_i m < 128)
    \<or> (sqlite3VdbeSerialType m ff = 2 \<and> -32768 \<le> u_i m \<and> u_i m < 32768)
    \<or> (sqlite3VdbeSerialType m ff = 3 \<and> -8388608 \<le> u_i m \<and> u_i m < 8388608)
    \<or> (sqlite3VdbeSerialType m ff = 4 \<and> -2147483648 \<le> u_i m \<and> u_i m < 2147483648)
    \<or> (sqlite3VdbeSerialType m ff = 5 \<and> -140737488355328 \<le> u_i m \<and> u_i m < 140737488355328)
    \<or> (sqlite3VdbeSerialType m ff = 6 \<and> -9223372036854775808 \<le> u_i m \<and> u_i m < 9223372036854775808)
    \<or> (sqlite3VdbeSerialType m ff = 8 \<and> u_i m = 0) \<or> (sqlite3VdbeSerialType m ff = 9 \<and> u_i m = 1)"
proof -
  have n: "NOT i = - i - 1" for i :: int by (simp add: not_int_def)
  have one: "i AND 1 = i \<longleftrightarrow> i = 0 \<or> i = 1" for i :: int
    by (auto simp: and_one_eq mod_2_eq_odd)
  show ?thesis
    using assms by (auto simp: sqlite3VdbeSerialType_def Let_def n one in_i64_def)
qed

text \<open>What a cell holds after a field is read back: a NaN is not representable and reads as
  NULL.\<close>

definition stored_value :: "mem \<Rightarrow> sqlvalue" where
  "stored_value m =
     (case mem_value m of VReal r \<Rightarrow> if dbl_is_nan r then VNull else VReal r | v \<Rightarrow> v)"

text \<open>The cells that can be written: integers are 64-bit and text and blobs respect the length
  limit, so that the type code does not wrap.\<close>

definition storable :: "mem \<Rightarrow> bool" where
  "storable m \<longleftrightarrow> mem_value m \<noteq> VOther \<and> in_i64 (u_i m) \<and> length (mem_bytes m) \<le> 1000000000
     \<and> (has m MEM_Zero \<longrightarrow> mem_value m = VBlob (mem_bytes m))"

lemma value_flags [simp]:
  "mem_value (m\<lparr>flags := MEM_Null\<rparr>) = VNull"
  "mem_value (m\<lparr>u_i := i, flags := MEM_Int\<rparr>) = VInt i"
  "mem_value (m\<lparr>u_r := r, flags := MEM_Real\<rparr>) = VReal r"
  "mem_value (m\<lparr>zdata := z, flags := 0x1002\<rparr>) = VText z"
  "mem_value (m\<lparr>zdata := z, flags := 0x1010\<rparr>) = VBlob z"
  by (simp_all add: mem_value_def mem_bytes_def)

lemma put_int: "0 < t \<Longrightarrow> t \<le> 6 \<Longrightarrow> sqlite3VdbeSerialPut m t = put_be (sqlite3VdbeSerialTypeLen t) (word_of_int (u_i m))"
  by (simp add: sqlite3VdbeSerialPut_def)

lemma get_int:
  "sqlite3VdbeSerialGet (put_be 1 (word_of_int i) @ r) 1 q = Some (q\<lparr>u_i := signed_take_bit 7 i, flags := MEM_Int\<rparr>, 1)"
  "sqlite3VdbeSerialGet (put_be 2 (word_of_int i) @ r) 2 q = Some (q\<lparr>u_i := signed_take_bit 15 i, flags := MEM_Int\<rparr>, 2)"
  "sqlite3VdbeSerialGet (put_be 3 (word_of_int i) @ r) 3 q = Some (q\<lparr>u_i := signed_take_bit 23 i, flags := MEM_Int\<rparr>, 3)"
  "sqlite3VdbeSerialGet (put_be 4 (word_of_int i) @ r) 4 q = Some (q\<lparr>u_i := signed_take_bit 31 i, flags := MEM_Int\<rparr>, 4)"
  "sqlite3VdbeSerialGet (put_be 6 (word_of_int i) @ r) 5 q = Some (q\<lparr>u_i := signed_take_bit 47 i, flags := MEM_Int\<rparr>, 6)"
  "sqlite3VdbeSerialGet (put_be 8 (word_of_int i) @ r) 6 q = Some (q\<lparr>u_i := signed_take_bit 63 i, flags := MEM_Int\<rparr>, 8)"
proof -
  show "sqlite3VdbeSerialGet (put_be 6 (word_of_int i) @ r) 5 q = Some (q\<lparr>u_i := signed_take_bit 47 i, flags := MEM_Int\<rparr>, 6)"
    using get_be_6 [of i r]
    by (auto simp: sqlite3VdbeSerialGet_def bind_eq_Some_conv simp del: put_be.simps drop_append)
  show "sqlite3VdbeSerialGet (put_be 8 (word_of_int i) @ r) 6 q = Some (q\<lparr>u_i := signed_take_bit 63 i, flags := MEM_Int\<rparr>, 8)"
    by (simp add: sqlite3VdbeSerialGet_def serialGet_def get_be_8 join32_add sint_sbintrunc' del: put_be.simps drop_append)
qed (simp_all add: sqlite3VdbeSerialGet_def get_be_1 [unfolded One_nat_def] get_be_2 get_be_3 get_be_4 del: put_be.simps)

lemmas get_int_simps = get_int get_int(1) [unfolded One_nat_def]

lemma get_real:
  "sqlite3VdbeSerialGet (put_be 8 x @ r) 7 q =
     Some (q\<lparr>u_r := x, flags := (if dbl_is_nan x then MEM_Null else MEM_Real)\<rparr>, 8)"
  by (simp add: sqlite3VdbeSerialGet_def serialGet_def get_be_8 join32_add del: put_be.simps drop_append)

lemma serial_roundtrip_int:
  fixes ff :: nat
  assumes "has m MEM_Int" "\<not> has m MEM_Null" "in_i64 (u_i m)"
  defines "t \<equiv> sqlite3VdbeSerialType m ff"
  shows "sqlite3VdbeSerialGet (sqlite3VdbeSerialPut m t @ r) t q =
    Some (q\<lparr>u_i := u_i m, flags := MEM_Int\<rparr>, sqlite3VdbeSerialTypeLen t)"
  using int_type_range [OF assms(1-3), of ff, folded t_def]
  by (elim disjE conjE; simp add: put_int get_int_simps signed_take_bit_id sqlite3VdbeSerialTypeLen_def del: put_be.simps;
      simp add: sqlite3VdbeSerialGet_def)

text \<open>The bytes of a field, its zero-filled tail included.\<close>

definition field_bytes :: "mem \<Rightarrow> nat \<Rightarrow> bytes" where
  "field_bytes m ff =
     (let t = sqlite3VdbeSerialType m ff
      in sqlite3VdbeSerialPut m t @ (if has m MEM_Zero then replicate (u_nZero m) 0 else []))"

lemma value_cases:
  assumes "storable m"
  obtains (Null) "has m MEM_Null" "\<not> has m MEM_Zero" "mem_value m = VNull"
  | (Int) "\<not> has m MEM_Null" "has m MEM_Int" "\<not> has m MEM_Zero" "mem_value m = VInt (u_i m)" "in_i64 (u_i m)"
  | (Real) "\<not> has m MEM_Null" "\<not> has m MEM_Int" "has m MEM_Real" "\<not> has m MEM_Zero" "mem_value m = VReal (u_r m)"
  | (Text) "\<not> has m MEM_Null" "\<not> has m MEM_Int" "\<not> has m MEM_Real" "has m MEM_Str" "\<not> has m MEM_Zero"
      "mem_value m = VText (zdata m)" "length (zdata m) \<le> 1000000000"
  | (Blob) "\<not> has m MEM_Null" "\<not> has m MEM_Int" "\<not> has m MEM_Real" "\<not> has m MEM_Str" "has m MEM_Blob"
      "mem_value m = VBlob (mem_bytes m)" "length (mem_bytes m) \<le> 1000000000"
  using assms unfolding storable_def mem_value_def mem_bytes_def by (auto split: if_splits)

lemma text_type: "k \<le> 1000000000 \<Longrightarrow> (k * 2 + 13) mod 4294967296 = k * 2 + (13 :: nat)"
  "k \<le> 1000000000 \<Longrightarrow> (13 + k * 2) mod 4294967296 = k * 2 + (13 :: nat)"
  "k \<le> 1000000000 \<Longrightarrow> (12 + k * 2) mod 4294967296 = k * 2 + (12 :: nat)"
  "k \<le> 1000000000 \<Longrightarrow> (k * 2 + 12) mod 4294967296 = k * 2 + (12 :: nat)"
  by simp_all

lemma serial_type_cases:
  assumes "storable m"
  shows "(mem_value m = VNull \<longrightarrow> sqlite3VdbeSerialType m ff = 0)
    \<and> (mem_value m = VReal r \<longrightarrow> sqlite3VdbeSerialType m ff = 7)
    \<and> (mem_value m = VText z \<longrightarrow> sqlite3VdbeSerialType m ff = length z * 2 + 13)
    \<and> (mem_value m = VBlob z \<longrightarrow> sqlite3VdbeSerialType m ff = length z * 2 + 12)
    \<and> (mem_value m = VInt i \<longrightarrow> sqlite3VdbeSerialType m ff \<in> {1, 2, 3, 4, 5, 6, 8, 9})"
  using assms
proof (cases rule: value_cases)
  case Int
  then show ?thesis using int_type_range [of m ff] by auto
next
  case Text
  then show ?thesis by (auto simp: sqlite3VdbeSerialType_def Let_def text_type)
next
  case Blob
  then show ?thesis by (auto simp: sqlite3VdbeSerialType_def Let_def mem_bytes_def text_type)
qed (simp_all add: sqlite3VdbeSerialType_def)

lemma serial_roundtrip:
  assumes "storable m"
  shows "\<exists>m'. sqlite3VdbeSerialGet (field_bytes m ff @ r) (sqlite3VdbeSerialType m ff) q
      = Some (m', length (field_bytes m ff)) \<and> mem_value m' = stored_value m
    \<and> (flags m' AND MEM_Zero = 0) \<and> enc m' = enc q"
  using assms
proof (cases rule: value_cases)
  case Null
  then show ?thesis
    by (simp add: field_bytes_def Let_def sqlite3VdbeSerialType_def sqlite3VdbeSerialPut_def sqlite3VdbeSerialGet_def stored_value_def)
next
  case Int
  have "field_bytes m ff = sqlite3VdbeSerialPut m (sqlite3VdbeSerialType m ff)"
    using Int by (simp add: field_bytes_def Let_def)
  moreover have "length (sqlite3VdbeSerialPut m (sqlite3VdbeSerialType m ff)) = sqlite3VdbeSerialTypeLen (sqlite3VdbeSerialType m ff)"
    using int_type_range [of m ff] Int by (auto simp: sqlite3VdbeSerialPut_def sqlite3VdbeSerialTypeLen_def)
  ultimately show ?thesis using serial_roundtrip_int [of m ff r q] Int by (simp add: stored_value_def)
next
  case Real
  then have "sqlite3VdbeSerialType m ff = 7" by (simp add: sqlite3VdbeSerialType_def)
  moreover have "field_bytes m ff = put_be 8 (u_r m)"
    using Real by (simp add: field_bytes_def sqlite3VdbeSerialPut_def sqlite3VdbeSerialTypeLen_def sqlite3VdbeSerialType_def del: put_be.simps)
  ultimately show ?thesis using get_real [of "u_r m" r q] Real by (simp add: stored_value_def del: put_be.simps)
next
  case Text
  then have "sqlite3VdbeSerialType m ff = length (zdata m) * 2 + 13"
    using serial_type_cases [OF assms, of ff] by blast
  then show ?thesis using Text
    by (simp add: field_bytes_def Let_def sqlite3VdbeSerialPut_def sqlite3VdbeSerialGet_def stored_value_def)
next
  case Blob
  then have t: "sqlite3VdbeSerialType m ff = length (mem_bytes m) * 2 + 12"
    using serial_type_cases [OF assms, of ff] by blast
  moreover have "field_bytes m ff = mem_bytes m"
    by (simp add: field_bytes_def t sqlite3VdbeSerialPut_def mem_bytes_def)
  ultimately show ?thesis using Blob
    by (simp add: sqlite3VdbeSerialGet_def stored_value_def)
qed

lemma serial_type_less: "storable m \<Longrightarrow> sqlite3VdbeSerialType m ff < 2 ^ 32"
  by (erule value_cases) (auto simp: sqlite3VdbeSerialType_def Let_def dest: int_type_range [of m ff])

lemma serial_type_len:
  assumes "storable m"
  shows "sqlite3VdbeSerialTypeLen (sqlite3VdbeSerialType m ff) = length (field_bytes m ff)"
  using assms
proof (cases rule: value_cases)
  case Int
  then show ?thesis
    using int_type_range [of m ff] by (auto simp: field_bytes_def sqlite3VdbeSerialPut_def sqlite3VdbeSerialTypeLen_def)
next
  case Text
  then have "sqlite3VdbeSerialType m ff = length (zdata m) * 2 + 13"
    using serial_type_cases [OF assms, of ff] by blast
  then show ?thesis using Text
    by (simp add: field_bytes_def Let_def sqlite3VdbeSerialPut_def sqlite3VdbeSerialTypeLen_def)
next
  case Blob
  then have "sqlite3VdbeSerialType m ff = length (mem_bytes m) * 2 + 12"
    using serial_type_cases [OF assms, of ff] by blast
  then show ?thesis
    by (simp add: field_bytes_def Let_def sqlite3VdbeSerialPut_def sqlite3VdbeSerialTypeLen_def mem_bytes_def)
qed (simp_all add: field_bytes_def sqlite3VdbeSerialType_def sqlite3VdbeSerialPut_def sqlite3VdbeSerialTypeLen_def del: put_be.simps)

text \<open>The decoder of the comparison routines reads the same integers.\<close>

lemma sint_u32: "sint (ucast (word_of_int i :: u64) :: u32) = signed_take_bit 31 i"
  by (auto intro!: bit_eqI simp: bit_simps bit_word_of_int64 min_def)

lemma DecodeInt_field:
  assumes "has m MEM_Int" "\<not> has m MEM_Null" "in_i64 (u_i m)"
  shows "vdbeRecordDecodeInt (sqlite3VdbeSerialType m ff)
      (sqlite3VdbeSerialPut m (sqlite3VdbeSerialType m ff) @ r) = Some (u_i m)"
  using int_type_range [OF assms, of ff]
  by (elim disjE conjE;
      simp add: put_int vdbeRecordDecodeInt_def sqlite3VdbeSerialTypeLen_def get_be_1 [unfolded One_nat_def] get_be_2 get_be_3 get_be_4u get_be_6
        get_be_8 join32 sint_u32 signed_take_bit_id sint_sbintrunc' del: put_be.simps drop_append)

section \<open>Properties\<close>

text \<open>C31. A field read back is the value written: for every storable cell, in either file format
  and whatever follows in the record, \<^verbatim>\<open>sqlite3VdbeSerialGet\<close> applied to the output of
  \<^verbatim>\<open>sqlite3VdbeSerialPut\<close> under the type code of \<^verbatim>\<open>sqlite3VdbeSerialType\<close> gives a cell with the
  same value (NULL for a NaN) and reports \<^verbatim>\<open>sqlite3VdbeSerialTypeLen\<close> bytes read.\<close>

theorem serial_value_roundtrip:
  assumes "storable m"
  shows "\<exists>m'. sqlite3VdbeSerialGet (field_bytes m ff @ r) (sqlite3VdbeSerialType m ff) q
      = Some (m', sqlite3VdbeSerialTypeLen (sqlite3VdbeSerialType m ff)) \<and> mem_value m' = stored_value m"
  using serial_roundtrip [OF assms, of ff r q] serial_type_len [OF assms, of ff] by auto

theorem serial_value_roundtrip_witness:
  "\<exists>m'. sqlite3VdbeSerialGet (sqlite3VdbeSerialPut (int_mem (-300)) 2 @ [7, 8]) 2 (int_mem 0) = Some (m', 2)
    \<and> mem_value m' = VInt (-300)"
proof -
  have s: "storable (int_mem (-300))" by (simp add: storable_def mem_value_def mem_bytes_def int_mem_def in_i64_def)
  have t: "sqlite3VdbeSerialType (int_mem (-300)) 4 = 2"
    by (simp add: sqlite3VdbeSerialType_def int_mem_def not_int_def)
  show ?thesis
    using serial_value_roundtrip [OF s, of 4 "[7, 8]" "int_mem 0"]
    by (simp add: t field_bytes_def stored_value_def sqlite3VdbeSerialTypeLen_def)
      (simp add: int_mem_def mem_value_def)
qed

end
