(* ===== verification/RecordFormat.thy ===== *)
theory RecordFormat
  imports Serial
begin

text \<open>
  The record format: \<^verbatim>\<open>impl_OP_MakeRecord\<close> of \<^verbatim>\<open>src/sqlite/src/sqpyte.c\<close>, which assembles a
  record from registers, and \<^verbatim>\<open>sqlite3VdbeRecordUnpack\<close> of \<^verbatim>\<open>vdbeaux.c\<close>, which takes one apart.

  The registers are the list from \<^verbatim>\<open>pData0\<close> to \<^verbatim>\<open>pLast\<close>, each paired with its \<^verbatim>\<open>uTemp\<close>. The
  conversion of \<^verbatim>\<open>applyAffinity\<close>, which parses and prints numbers, is a parameter; the length
  limit of the connection and the success of the buffer allocation are arguments.
\<close>

section \<open>Assembling a record\<close>

datatype record_error = TooBig | NoMem

text \<open>The sizing loop runs from the last register to the first.\<close>

fun record_sizes :: "nat \<Rightarrow> mem list \<Rightarrow> (mem \<times> nat) list \<times> nat \<times> nat \<times> nat" where
  "record_sizes file_format [] = ([], 0, 0, 0)"
| "record_sizes file_format (pRec # rest) =
     (let (out, nData, nHdr, nZero) = record_sizes file_format rest;
          serial_type = sqlite3VdbeSerialType pRec file_format;
          len = sqlite3VdbeSerialTypeLen serial_type;
          (pRec', len, nZero) =
            (if has pRec MEM_Zero then
               if nData \<noteq> 0 then (sqlite3VdbeMemExpandBlob pRec, len, nZero)
               else (pRec, len - u_nZero pRec, nZero + u_nZero pRec)
             else (pRec, len, nZero))
      in ((pRec', serial_type) # out, nData + len,
          nHdr + (if serial_type \<le> 127 then 1 else varintLen (of_nat serial_type)), nZero))"

definition header_size :: "nat \<Rightarrow> nat" where
  "header_size nHdr =
     (if nHdr \<le> 126 then nHdr + 1
      else
        let nVarint = varintLen (of_nat nHdr); nHdr = nHdr + nVarint
        in if nVarint < varintLen (of_nat nHdr) then nHdr + 1 else nHdr)"

definition poke :: "bytes \<Rightarrow> nat \<Rightarrow> bytes \<Rightarrow> bytes" where
  "poke buf i bs = take i buf @ bs @ drop (i + length bs) buf"

fun record_write :: "(mem \<times> nat) list \<Rightarrow> bytes \<Rightarrow> nat \<Rightarrow> nat \<Rightarrow> bytes \<times> nat \<times> nat" where
  "record_write [] zNewRecord i j = (zNewRecord, i, j)"
| "record_write ((pRec, serial_type) # rest) zNewRecord i j =
     (let t = putVarint32 (of_nat serial_type);
          zNewRecord = poke zNewRecord i t;
          d = sqlite3VdbeSerialPut pRec serial_type
      in record_write rest (poke zNewRecord j d) (i + length t) (j + length d))"

definition impl_OP_MakeRecord ::
  "(char \<Rightarrow> mem \<Rightarrow> mem) \<Rightarrow> string option \<Rightarrow> nat \<Rightarrow> nat \<Rightarrow> bool \<Rightarrow> mem list \<Rightarrow> mem \<Rightarrow>
   record_error + (mem list \<times> mem)" where
  "impl_OP_MakeRecord applyAffinity zAffinity file_format limit mem_ok regs pOut =
     (let regs = (case zAffinity of
                    None \<Rightarrow> regs
                  | Some aff \<Rightarrow> map2 applyAffinity aff regs @ drop (length aff) regs);
          (recs, nData, nHdr, nZero) = record_sizes file_format regs;
          nHdr = header_size nHdr;
          nByte = nHdr + nData
      in if nByte > limit then Inl TooBig
         else if \<not> mem_ok then Inl NoMem
         else
           let zNewRecord = replicate nByte 0;
               h = putVarint32 (of_nat nHdr);
               (zNewRecord, i, j) = record_write recs (poke zNewRecord 0 h) (length h) nHdr
           in Inr (map fst recs,
                   pOut\<lparr>zdata := zNewRecord,
                        u_nZero := (if nZero \<noteq> 0 then nZero else u_nZero pOut),
                        flags := (if nZero \<noteq> 0 then MEM_Blob OR MEM_Zero else MEM_Blob),
                        enc := 1\<rparr>))"

section \<open>Taking a record apart\<close>

text \<open>\<^verbatim>\<open>n\<close> is the number of cells still free, at least one.\<close>

fun unpack_loop :: "nat \<Rightarrow> bytes \<Rightarrow> nat \<Rightarrow> nat \<Rightarrow> nat \<Rightarrow> mem \<Rightarrow> mem list option" where
  "unpack_loop 0 aKey szHdr idx d pMem = Some []"
| "unpack_loop (Suc n) aKey szHdr idx d pMem =
     (if idx < szHdr \<and> d \<le> length aKey then do {
        (serial_type, k) \<leftarrow> getVarint32 (drop idx aKey);
        (m, len) \<leftarrow> sqlite3VdbeSerialGet (drop d aKey) (unat serial_type) pMem;
        ms \<leftarrow> unpack_loop n aKey szHdr (idx + k) (d + len) pMem;
        Some (m # ms)
      } else Some [])"

definition sqlite3VdbeRecordUnpack :: "u8 \<Rightarrow> nat \<Rightarrow> bytes \<Rightarrow> mem list option" where
  "sqlite3VdbeRecordUnpack key_enc nField pKey = do {
     (szHdr, idx) \<leftarrow> getVarint32 pKey;
     unpack_loop (max 1 nField) pKey (unat szHdr) idx (unat szHdr)
       \<lparr>flags = MEM_Undefined, u_i = 0, u_r = 0, u_nZero = 0, zdata = [], enc = key_enc\<rparr>
   }"

section \<open>The format\<close>

definition record_header :: "nat \<Rightarrow> mem list \<Rightarrow> bytes" where
  "record_header ff ms = concat (map (\<lambda>m. putVarint32 (of_nat (sqlite3VdbeSerialType m ff))) ms)"

definition record_body :: "nat \<Rightarrow> mem list \<Rightarrow> bytes" where
  "record_body ff ms = concat (map (\<lambda>m. field_bytes m ff) ms)"

definition record_of :: "nat \<Rightarrow> mem list \<Rightarrow> bytes" where
  "record_of ff ms =
     putVarint32 (of_nat (header_size (length (record_header ff ms)))) @ record_header ff ms @ record_body ff ms"

lemma record_header_simps [simp]: "record_header ff [] = []"
  "record_header ff (m # ms) = putVarint32 (of_nat (sqlite3VdbeSerialType m ff)) @ record_header ff ms"
  by (simp_all add: record_header_def)

lemma record_body_simps [simp]: "record_body ff [] = []"
  "record_body ff (m # ms) = field_bytes m ff @ record_body ff ms"
  by (simp_all add: record_body_def)

section \<open>Varint lengths\<close>

lemma buf_length_step:
  "length (putVarint64_buf v) = Suc (if drop_bit 7 v = 0 then 0 else length (putVarint64_buf (drop_bit 7 v)))"
  by (subst putVarint64_buf_step) simp

lemma varintLen_of_nat:
  assumes "n < 268435456"
  shows "varintLen (of_nat n) = (if n < 128 then 1 else if n < 16384 then 2 else if n < 2097152 then 3 else 4)"
proof -
  have u: "unat (of_nat n :: u64) = n" using assms by (simp add: unat_of_nat)
  have "varintLen (of_nat n) = length (putVarint64_buf (of_nat n))"
    using assms by (intro varintLen_small) (simp add: u)
  also have "\<dots> = (if n < 128 then 1 else if n < 16384 then 2 else if n < 2097152 then 3 else 4)"
    using assms
    by (simp add: buf_length_step [of "of_nat n"] buf_length_step [of "drop_bit 7 (of_nat n)"]
        buf_length_step [of "drop_bit 7 (drop_bit 7 (of_nat n))"]
        buf_length_step [of "drop_bit 7 (drop_bit 7 (drop_bit 7 (of_nat n)))"]
        drop_bit7_eq_0 unat_drop_bit7 u div_less_iff_less_mult del: drop_bit_drop_bit)
  finally show ?thesis .
qed

lemma length_putVarint32: "length (putVarint32 v) = varintLen (ucast v)"
proof -
  have "unat (ucast v :: u64) = unat v" by (simp add: unsigned_ucast_eq take_bit_nat_eq_self_iff order_less_trans [OF unsigned_less])
  then show ?thesis
    using varintLen_of_nat [of "unat v"]
    by (auto simp: putVarint32_def varintLen_eq word_less_nat_alt)
qed

lemma header_size_eq:
  assumes "n < 200000000"
  shows "header_size n = (if n \<le> 126 then n + 1 else if n < 16382 then n + 2 else if n < 2097149 then n + 3 else n + 4)"
proof -
  define L where "L k = (if k < 128 then 1 else if k < 16384 then 2 else if k < 2097152 then 3 else 4 :: nat)" for k :: nat
  have v: "varintLen (of_nat k) = L k" if "k < 268435456" for k
    using varintLen_of_nat [OF that] by (simp add: L_def)
  have "L n \<le> 4" by (simp add: L_def)
  then have h: "header_size n = (if n \<le> 126 then n + 1 else if L n < L (n + L n) then n + L n + 1 else n + L n)"
    using v [of n] v [of "n + L n"] assms by (simp only: header_size_def Let_def)
  consider "n \<le> 126" | "n = 127" | "128 \<le> n" "n < 16382" | "16382 \<le> n" "n < 16384" | "16384 \<le> n" "n < 2097149"
    | "2097149 \<le> n" "n < 2097152" | "2097152 \<le> n" by linarith
  then show ?thesis by cases (insert h, simp_all add: L_def)
qed

lemma ucast_of_nat32: "k < 2 ^ 32 \<Longrightarrow> ucast (of_nat k :: u32) = (of_nat k :: u64)"
  by (simp add: unsigned_of_nat take_bit_nat_eq_self)

lemma header_size_fixed:
  assumes "n < 200000000"
  shows "header_size n = length (putVarint32 (of_nat (header_size n))) + n"
proof -
  define h where "h = header_size n"
  have h: "h = (if n \<le> 126 then n + 1 else if n < 16382 then n + 2 else if n < 2097149 then n + 3 else n + 4)"
    using header_size_eq [OF assms] by (simp add: h_def)
  then have "h < 268435456" using assms by simp
  then have "length (putVarint32 (of_nat h)) = (if h < 128 then 1 else if h < 16384 then 2 else if h < 2097152 then 3 else 4)"
    by (simp add: length_putVarint32 ucast_of_nat32 varintLen_of_nat)
  then show ?thesis unfolding h_def [symmetric] using h by auto
qed

section \<open>\<^verbatim>\<open>OP_MakeRecord\<close> builds the format\<close>

definition field_len :: "nat \<Rightarrow> mem \<Rightarrow> nat" where
  "field_len ff m = length (putVarint32 (of_nat (sqlite3VdbeSerialType m ff)))"

lemma type_varint_len:
  assumes "storable m"
  shows "(if sqlite3VdbeSerialType m ff \<le> 127 then 1 else varintLen (of_nat (sqlite3VdbeSerialType m ff))) = field_len ff m"
proof -
  let ?t = "sqlite3VdbeSerialType m ff"
  have "?t < 2 ^ 32" using assms by (rule serial_type_less)
  then have "ucast (of_nat ?t :: u32) = (of_nat ?t :: u64)"
    by (simp add: unsigned_of_nat take_bit_nat_eq_self)
  then have "field_len ff m = varintLen (of_nat ?t)" by (simp add: field_len_def length_putVarint32)
  then show ?thesis using varintLen_of_nat [of ?t] by simp
qed

lemma SerialPut_expand:
  assumes "storable m" "has m MEM_Zero"
  shows "sqlite3VdbeSerialPut (sqlite3VdbeMemExpandBlob m) (sqlite3VdbeSerialType m ff) = field_bytes m ff"
    and "sqlite3VdbeSerialTypeLen (sqlite3VdbeSerialType m ff) = length (zdata m) + u_nZero m"
    and "field_bytes m ff = sqlite3VdbeSerialPut m (sqlite3VdbeSerialType m ff) @ replicate (u_nZero m) 0"
    and "sqlite3VdbeSerialPut m (sqlite3VdbeSerialType m ff) = zdata m"
proof -
  have "mem_value m = VBlob (mem_bytes m)" using assms by (simp add: storable_def)
  then have t: "sqlite3VdbeSerialType m ff = length (mem_bytes m) * 2 + 12"
    using serial_type_cases [OF assms(1), of ff] by blast
  have b: "mem_bytes m = zdata m @ replicate (u_nZero m) 0" using assms by (simp add: mem_bytes_def)
  show p: "sqlite3VdbeSerialPut m (sqlite3VdbeSerialType m ff) = zdata m"
    by (simp add: t sqlite3VdbeSerialPut_def)
  show f: "field_bytes m ff = sqlite3VdbeSerialPut m (sqlite3VdbeSerialType m ff) @ replicate (u_nZero m) 0"
    using assms by (simp add: field_bytes_def)
  show "sqlite3VdbeSerialPut (sqlite3VdbeMemExpandBlob m) (sqlite3VdbeSerialType m ff) = field_bytes m ff"
    using assms(2) unfolding f p by (simp add: t sqlite3VdbeSerialPut_def sqlite3VdbeMemExpandBlob_def)
  show "sqlite3VdbeSerialTypeLen (sqlite3VdbeSerialType m ff) = length (zdata m) + u_nZero m"
    using serial_type_len [OF assms(1), of ff] unfolding f p by simp
qed

definition put_rec :: "mem \<times> nat \<Rightarrow> bytes" where
  "put_rec r = sqlite3VdbeSerialPut (fst r) (snd r)"

lemma put_rec_pair [simp]: "put_rec (m, t) = sqlite3VdbeSerialPut m t"
  by (simp add: put_rec_def)

lemma record_sizes_spec:
  assumes "\<forall>m \<in> set ms. storable m"
  shows "record_sizes ff ms = (out, nData, nHdr, nZero) \<Longrightarrow>
    map snd out = map (\<lambda>m. sqlite3VdbeSerialType m ff) ms
    \<and> nHdr = length (record_header ff ms)
    \<and> length (concat (map put_rec out)) = nData
    \<and> concat (map put_rec out) @ replicate nZero 0 = record_body ff ms"
  using assms
proof (induction ms arbitrary: out nData nHdr nZero)
  case (Cons m ms)
  let ?t = "sqlite3VdbeSerialType m ff"
  obtain out' nData' nHdr' nZero' where rest: "record_sizes ff ms = (out', nData', nHdr', nZero')"
    by (metis prod_cases4)
  have m: "storable m" and ms: "\<forall>m \<in> set ms. storable m" using Cons.prems(2) by simp_all
  note IH = Cons.IH [OF rest ms]
  have vl: "length (putVarint32 (of_nat ?t)) = field_len ff m" by (simp add: field_len_def)
  note step = Cons.prems(1) [unfolded record_sizes.simps rest Let_def prod.case type_varint_len [OF m]]
  show ?case
  proof (cases "has m MEM_Zero")
    case False
    then have f: "field_bytes m ff = sqlite3VdbeSerialPut m ?t" by (simp add: field_bytes_def)
    then show ?thesis using step False IH serial_type_len [OF m, of ff]
      by (auto simp: vl)
  next
    case True
    note z = SerialPut_expand [OF m True, of ff]
    show ?thesis
    proof (cases "nData' = 0")
      case True
      then have "concat (map put_rec out') = []" using IH by (simp only: length_0_conv)
      then show ?thesis using True step \<open>has m MEM_Zero\<close> IH z
        by (auto simp: vl replicate_add add.commute [of nZero' "u_nZero m"] simp del: concat_eq_Nil_conv)
    next
      case False
      then show ?thesis using step \<open>has m MEM_Zero\<close> IH z serial_type_len [OF m, of ff]
        by (auto simp: vl)
    qed
  qed
qed simp

lemma poke_mid: "length a = i \<Longrightarrow> length b = length x \<Longrightarrow> poke (a @ b @ c) i x = a @ x @ c"
  by (simp add: poke_def)

lemma record_write_eq:
  "length A = i \<Longrightarrow> length H = length (concat (map (\<lambda>r. putVarint32 (of_nat (snd r))) recs)) \<Longrightarrow>
   length (A @ H @ M) = j \<Longrightarrow> length D = length (concat (map put_rec recs)) \<Longrightarrow>
   record_write recs (A @ H @ M @ D @ Z) i j =
     (A @ concat (map (\<lambda>r. putVarint32 (of_nat (snd r))) recs) @ M @ concat (map put_rec recs) @ Z,
      i + length H, j + length D)"
proof (induction recs arbitrary: A H M D i j)
  case (Cons r recs)
  obtain m t where r: "r = (m, t)" by (cases r)
  let ?h = "putVarint32 (of_nat t)" and ?d = "sqlite3VdbeSerialPut m t"
  define H1 H2 D1 D2 where "H1 = take (length ?h) H" and "H2 = drop (length ?h) H"
    and "D1 = take (length ?d) D" and "D2 = drop (length ?d) D"
  have H: "H = H1 @ H2" "length H1 = length ?h" and D: "D = D1 @ D2" "length D1 = length ?d"
    using Cons.prems by (simp_all add: H1_def H2_def D1_def D2_def r)
  have p1: "poke (A @ H @ M @ D @ Z) i ?h = A @ ?h @ H2 @ M @ D @ Z"
    using poke_mid [of A i H1 ?h "H2 @ M @ D @ Z"] Cons.prems(1) H by simp
  have p2: "poke (A @ ?h @ H2 @ M @ D @ Z) j ?d = A @ ?h @ H2 @ M @ ?d @ D2 @ Z"
    using poke_mid [of "A @ ?h @ H2 @ M" j D1 ?d "D2 @ Z"] Cons.prems(3) H D by simp
  have "record_write recs ((A @ ?h) @ H2 @ (M @ ?d) @ D2 @ Z) (i + length ?h) (j + length ?d) =
     ((A @ ?h) @ concat (map (\<lambda>r. putVarint32 (of_nat (snd r))) recs) @ (M @ ?d) @ concat (map put_rec recs) @ Z,
      i + length ?h + length H2, j + length ?d + length D2)"
    using Cons.prems H D by (intro Cons.IH) (auto simp: r)
  then show ?case unfolding r record_write.simps Let_def p1 p2 using H D by simp
qed simp

lemma MakeRecord_body:
  assumes st: "\<forall>m \<in> set ms. storable m" and small: "length (record_header ff ms) < 200000000"
    and eq: "impl_OP_MakeRecord aff None ff limit True ms pOut = Inr (regs, rec)"
  shows "mem_bytes rec = record_of ff ms \<and> mem_value rec = VBlob (record_of ff ms)"
proof -
  obtain recs nData nHdr nZero where sz: "record_sizes ff ms = (recs, nData, nHdr, nZero)"
    by (metis prod_cases4)
  note spec = record_sizes_spec [OF st sz]
  let ?n = "header_size nHdr"
  let ?h = "putVarint32 (of_nat ?n)" and ?hs = "concat (map (\<lambda>r. putVarint32 (of_nat (snd r))) recs)"
  have "map (\<lambda>r. putVarint32 (of_nat (snd r))) recs = map (\<lambda>t. putVarint32 (of_nat t)) (map snd recs)" by simp
  then have hs: "?hs = record_header ff ms" using spec by (simp add: record_header_def o_def)
  have n: "?n = length ?h + nHdr" using header_size_fixed [of nHdr] small spec by simp
  have buf: "poke (replicate (?n + nData) 0) 0 ?h = ?h @ replicate nHdr 0 @ [] @ replicate nData 0 @ []"
    using n by (simp add: poke_def replicate_add [symmetric])
  have w: "record_write recs (poke (replicate (?n + nData) 0) 0 ?h) (length ?h) ?n =
      (?h @ ?hs @ [] @ concat (map put_rec recs) @ [], length ?h + nHdr, ?n + nData)"
    unfolding buf by (subst record_write_eq) (use spec hs n in auto)
  have "rec = pOut\<lparr>zdata := ?h @ ?hs @ concat (map put_rec recs),
        u_nZero := (if nZero \<noteq> 0 then nZero else u_nZero pOut),
        flags := (if nZero \<noteq> 0 then MEM_Blob OR MEM_Zero else MEM_Blob), enc := 1\<rparr>"
    using eq by (simp add: impl_OP_MakeRecord_def sz w Let_def split: if_splits)
  then show ?thesis
    using spec hs by (cases "nZero = 0") (auto simp: mem_bytes_def mem_value_def record_of_def)
qed

section \<open>Taking it apart again\<close>

lemma getVarint32_putVarint32: "getVarint32 (putVarint32 v @ r) = Some (v, length (putVarint32 v))"
proof -
  have u: "unat (ucast v :: u64) = unat v"
    by (simp add: unsigned_ucast_eq take_bit_nat_eq_self_iff order_less_trans [OF unsigned_less])
  have small: "putVarint32 v = putVarint (ucast v)" if "v < 0x80"
  proof -
    have v: "unat v < 128" using that by (simp add: word_less_nat_alt)
    then have "unat (take_bit 7 (ucast v :: u64)) = unat (ucast v :: u64)"
      by (simp add: unsigned_take_bit_eq u take_bit_nat_eq_self)
    then have "take_bit 7 (ucast v :: u64) = ucast v" by (rule unsigned_word_eqI)
    moreover have "ucast (ucast v :: u64) = (ucast v :: u8)" by (rule bit_word_eqI) (auto simp: bit_simps)
    ultimately have "ucast (take_bit 7 (ucast v :: u64)) = (ucast v :: u8)" by simp
    then show ?thesis using that v by (simp add: putVarint32_def putVarint_def word_le_nat_alt u and_7f)
  qed
  have "putVarint32 v = putVarint (ucast v)"
    using small by (cases "v < 0x80") (simp_all add: putVarint32_def)
  then show ?thesis by (simp add: getVarint32_getVarint getVarint_putVarint)
qed

lemma putVarint32_ne [simp]: "putVarint32 v \<noteq> []"
  using length_putVarint [of "ucast v"] by (auto simp: putVarint32_def)

lemma drop_add: "drop (i + k) xs = drop k (drop i xs)"
  by (simp add: add.commute)

lemma unpack_loop_eq:
  assumes "\<forall>m \<in> set ms. storable m" and "drop idx aKey = record_header ff ms @ r1"
    and "drop d aKey = record_body ff ms @ r2" and "idx + length (record_header ff ms) = szHdr" and "d \<le> length aKey"
  shows "\<exists>out. unpack_loop n aKey szHdr idx d q = Some out \<and> map mem_value out = map stored_value (take n ms)"
  using assms
proof (induction ms arbitrary: n idx d)
  case Nil
  then show ?case by (cases n) auto
next
  case (Cons m ms)
  show ?case
  proof (cases n)
    case (Suc k)
    let ?t = "sqlite3VdbeSerialType m ff"
    have m: "storable m" using Cons.prems by simp
    have t: "unat (of_nat ?t :: u32) = ?t" using serial_type_less [OF m, of ff] by (simp add: unat_of_nat)
    have gv: "getVarint32 (drop idx aKey) = Some (of_nat ?t, length (putVarint32 (of_nat ?t)))"
      using Cons.prems(2) getVarint32_putVarint32 [of "of_nat ?t" "record_header ff ms @ r1"] by simp
    obtain m' where sg: "sqlite3VdbeSerialGet (drop d aKey) ?t q = Some (m', length (field_bytes m ff))"
        and v: "mem_value m' = stored_value m"
      using serial_roundtrip [OF m, of ff "record_body ff ms @ r2" q] Cons.prems(3) by auto
    have "\<exists>out. unpack_loop k aKey szHdr (idx + length (putVarint32 (of_nat ?t))) (d + length (field_bytes m ff)) q = Some out
        \<and> map mem_value out = map stored_value (take k ms)"
    proof (rule Cons.IH)
      show "drop (idx + length (putVarint32 (of_nat ?t))) aKey = record_header ff ms @ r1"
        unfolding drop_add Cons.prems(2) by simp
      show "drop (d + length (field_bytes m ff)) aKey = record_body ff ms @ r2"
        unfolding drop_add Cons.prems(3) by simp
      have "length (field_bytes m ff) \<le> length (drop d aKey)" unfolding Cons.prems(3) by simp
      then show "d + length (field_bytes m ff) \<le> length aKey" using Cons.prems(5) by simp
    qed (use Cons.prems in auto)
    moreover have "idx < szHdr"
    proof -
      have "0 < length (record_header ff (m # ms))" by simp
      then show ?thesis using Cons.prems(4) by linarith
    qed
    ultimately show ?thesis using Cons.prems(5) gv sg t v by (auto simp: Suc)
  qed simp
qed

lemma Unpack_record_of:
  assumes st: "\<forall>m \<in> set ms. storable m" and small: "length (record_header ff ms) < 200000000"
  shows "\<exists>out. sqlite3VdbeRecordUnpack e nField (record_of ff ms) = Some out
    \<and> map mem_value out = map stored_value (take (max 1 nField) ms)"
proof -
  let ?h = "header_size (length (record_header ff ms))"
  have h: "?h = length (putVarint32 (of_nat ?h)) + length (record_header ff ms)" using small by (rule header_size_fixed)
  have "?h < 268435456" using small by (simp add: header_size_eq)
  then have u: "unat (of_nat ?h :: u32) = ?h" by (simp add: unat_of_nat)
  have gv: "getVarint32 (record_of ff ms) = Some (of_nat ?h, length (putVarint32 (of_nat ?h)))"
    by (simp add: record_of_def getVarint32_putVarint32)
  let ?q = "\<lparr>flags = MEM_Undefined, u_i = 0, u_r = 0, u_nZero = 0, zdata = [], enc = e\<rparr>"
  have "\<exists>out. unpack_loop (max 1 nField) (record_of ff ms) ?h (length (putVarint32 (of_nat ?h))) ?h ?q = Some out
      \<and> map mem_value out = map stored_value (take (max 1 nField) ms)"
  proof (rule unpack_loop_eq [OF st])
    show "drop (length (putVarint32 (of_nat ?h))) (record_of ff ms) = record_header ff ms @ record_body ff ms"
      by (simp add: record_of_def)
    have "drop ?h (record_of ff ms) = drop (length (putVarint32 (of_nat ?h)) + length (record_header ff ms)) (record_of ff ms)"
      using h by simp
    then show "drop ?h (record_of ff ms) = record_body ff ms @ []" by (simp add: record_of_def)
    show "?h \<le> length (record_of ff ms)" using h by (simp add: record_of_def)
  qed (use h in simp)
  then show ?thesis by (simp add: sqlite3VdbeRecordUnpack_def gv u)
qed

section \<open>Properties\<close>

text \<open>C1. A record decodes to the row it was made from: whenever \<^verbatim>\<open>OP_MakeRecord\<close> succeeds on
  storable registers (with or without zero-filled blobs, whose tails it may keep as a
  count), the record is header size, type codes and field contents in order, and
  \<^verbatim>\<open>sqlite3VdbeRecordUnpack\<close> returns the values of the first \<^verbatim>\<open>nField\<close> registers.\<close>

theorem record_roundtrip:
  assumes "\<forall>m \<in> set ms. storable m" and "length (record_header ff ms) < 200000000"
    and "impl_OP_MakeRecord aff None ff limit True ms pOut = Inr (regs, r)"
  shows "mem_value r = VBlob (record_of ff ms)
    \<and> (\<exists>out. sqlite3VdbeRecordUnpack e nField (mem_bytes r) = Some out
         \<and> map mem_value out = map stored_value (take (max 1 nField) ms))"
  using MakeRecord_body [OF assms] Unpack_record_of [OF assms(1,2), of e nField] by simp

theorem record_roundtrip_witness:
  "\<exists>r out. sqlite3VdbeRecordUnpack 1 3 (mem_bytes r) = Some out \<and> map mem_value out = [VInt 300, VBlob [0, 0]]"
proof -
  let ?z = "\<lparr>flags = 0x4010, u_i = 0, u_r = 0, u_nZero = 2, zdata = [], enc = 1\<rparr>"
  let ?ms = "[int_mem 300, ?z]"
  have t: "sqlite3VdbeSerialType (int_mem 300) 4 = 2" "sqlite3VdbeSerialType ?z 4 = 16"
    by (simp_all add: sqlite3VdbeSerialType_def int_mem_def)
  have nz: "\<not> has (int_mem 300) 0x4000" "sqlite3VdbeSerialTypeLen 2 = 2" "sqlite3VdbeSerialTypeLen 16 = 2"
    by (simp_all add: int_mem_def sqlite3VdbeSerialTypeLen_def)
  have st: "\<forall>m \<in> set ?ms. storable m"
    by (simp add: storable_def mem_value_def mem_bytes_def int_mem_def in_i64_def)
  have len: "length (record_header 4 ?ms) < 200000000"
    by (simp add: t putVarint32_def)
  obtain regs r where eq: "impl_OP_MakeRecord (\<lambda>_ m. m) None 4 1000 True ?ms (int_mem 0) = Inr (regs, r)"
    by (simp add: impl_OP_MakeRecord_def t nz header_size_def Let_def case_prod_beta)
  have replicate_2: "replicate 2 (0 :: u8) = [0, 0]" by (simp add: numeral_2_eq_2)
  have "map stored_value ?ms = [VInt 300, VBlob [0, 0]]"
    using replicate_2 by (simp add: stored_value_def mem_value_def mem_bytes_def int_mem_def)
  moreover obtain out where "sqlite3VdbeRecordUnpack 1 3 (mem_bytes r) = Some out"
      "map mem_value out = map stored_value (take (max 1 3) ?ms)"
    using record_roundtrip [OF st len eq, of 1 3] by blast
  moreover have "take (max 1 3) ?ms = ?ms" by simp
  ultimately show ?thesis by metis
qed

end
