(* ===== verification/Column.thy ===== *)
theory Column
  imports RecordFormat
begin

text \<open>
  Reading a column: \<^verbatim>\<open>impl_OP_Column\<close> of \<^verbatim>\<open>src/sqlite/src/sqpyte.c\<close> with its cache of the parsed
  header in the \<^verbatim>\<open>VdbeCursor\<close>, and \<^verbatim>\<open>sqlite3VdbeMemFromBtree\<close> of \<^verbatim>\<open>vdbemem.c\<close>.

  The B-tree is seen through its documented interface: the payload of the current entry,
  of which the first \<open>avail\<close> bytes are on the page and can be fetched without copying.
  \<^const>\<open>None\<close> is a read past the end of a buffer. The cursor has no deferred seek, and reads
  and allocations succeed.
\<close>

section \<open>Fetching payload\<close>

definition sqlite3VdbeMemFromBtree :: "bytes \<Rightarrow> nat \<Rightarrow> nat \<Rightarrow> nat \<Rightarrow> mem \<Rightarrow> mem option" where
  "sqlite3VdbeMemFromBtree payload available offset amt pMem =
     (if offset + amt \<le> available then
        Some (pMem\<lparr>zdata := take amt (drop offset payload), flags := MEM_Blob OR MEM_Ephem\<rparr>)
      else if offset + amt \<le> length payload then
        Some (pMem\<lparr>zdata := take amt (drop offset payload), flags := MEM_Blob OR MEM_Term\<rparr>)
      else None)"

section \<open>The cursor's header cache\<close>

record vdbe_cursor =
  payload :: bytes
  avail :: nat
  nullRow :: bool
  pseudoReg :: "mem option"
  cacheStatus :: nat
  payloadSize :: nat
  szRow :: nat
  aRow :: "bytes option"
  iHdrOffset :: nat
  nHdrParsed :: nat
  aOffset :: "nat list"
  aType :: "nat list"

datatype column_error = ColCorrupt | ColTooBig

text \<open>Bringing a stale cache up to date; \<^const>\<open>None\<close> in the second component means that the
  cursor is on a null row and the column is NULL.\<close>

definition column_refresh :: "nat \<Rightarrow> nat \<Rightarrow> vdbe_cursor \<Rightarrow> (column_error + vdbe_cursor option) option" where
  "column_refresh limit cacheCtr pC =
     (let load = (\<lambda>row available size pC. do {
        (offset, k) \<leftarrow> getVarint32 row;
        let pC = pC\<lparr>cacheStatus := cacheCtr, iHdrOffset := k, nHdrParsed := 0,
                   aOffset := (aOffset pC)[0 := unat offset]\<rparr>;
        Some (if unat offset > 98307 \<or> unat offset > size then Inl ColCorrupt
              else if available < unat offset then Inr (Some (pC\<lparr>aRow := None, szRow := 0\<rparr>))
              else Inr (Some pC))
      })
      in if nullRow pC then
           (case pseudoReg pC of
              None \<Rightarrow> Some (Inr None)
            | Some pReg \<Rightarrow>
                let n = length (zdata pReg)
                in load (zdata pReg) n n (pC\<lparr>payloadSize := n, szRow := n, aRow := Some (zdata pReg)\<rparr>))
         else
           let size = length (payload pC); row = take (avail pC) (payload pC);
               pC = pC\<lparr>payloadSize := size, aRow := Some row,
                      szRow := (if size \<le> avail pC then size else avail pC)\<rparr>
           in if size > limit then Some (Inl ColTooBig)
              else load row (avail pC) size pC)"

function column_parse :: "nat \<Rightarrow> bytes \<Rightarrow> nat \<Rightarrow> nat \<Rightarrow> nat \<Rightarrow> nat \<Rightarrow> nat list \<Rightarrow> nat list \<Rightarrow>
    (nat \<times> nat \<times> nat \<times> nat list \<times> nat list) option" where
  "column_parse p2 zData zEndHdr zHdr i offset types offsets = do {
     (t, k) \<leftarrow> getVarint32 (drop zHdr zData);
     let zHdr = zHdr + k;
     let types = types[i := unat t];
     let szField = sqlite3VdbeSerialTypeLen (unat t);
     let offset = (offset + szField) mod 2 ^ 32;
     if offset < szField then Some (i, zEndHdr + 1, offset, types, offsets)
     else
       let offsets = offsets[i + 1 := offset]
       in if i + 1 \<le> p2 \<and> zHdr < zEndHdr
          then column_parse p2 zData zEndHdr zHdr (i + 1) offset types offsets
          else Some (i + 1, zHdr, offset, types, offsets)
   }"
  by pat_completeness auto

termination column_parse
  by (relation "measure (\<lambda>(p2, _, _, _, i, _). p2 + 1 - i)") auto

declare column_parse.simps [simp del]

text \<open>Parsing the header up to column \<^verbatim>\<open>p2\<close>, when there is more of it.\<close>

definition column_header :: "nat \<Rightarrow> vdbe_cursor \<Rightarrow> (column_error + vdbe_cursor) option" where
  "column_header p2 pC =
     (if nHdrParsed pC \<le> p2 \<and> iHdrOffset pC < aOffset pC ! 0 then do {
        let zData = (case aRow pC of Some r \<Rightarrow> r | None \<Rightarrow> take (aOffset pC ! 0) (payload pC));
        let zEndHdr = aOffset pC ! 0;
        let i = nHdrParsed pC;
        (i, zHdr, offset, types, offsets) \<leftarrow>
          column_parse p2 zData zEndHdr (iHdrOffset pC) i (aOffset pC ! i) (aType pC) (aOffset pC);
        let pC = pC\<lparr>nHdrParsed := i, iHdrOffset := zHdr, aType := types, aOffset := offsets\<rparr>;
        Some (if zHdr \<ge> zEndHdr \<and> (zHdr > zEndHdr \<or> offset \<noteq> payloadSize pC) \<or> offset > payloadSize pC
              then Inl ColCorrupt else Inr pC)
      } else Some (Inr pC))"

text \<open>The content of column \<^verbatim>\<open>p2\<close>, once its type and offset are known. For \<^verbatim>\<open>typeof()\<close> and
  \<^verbatim>\<open>length()\<close> the content of a value on overflow pages is not read; the pointer that stands
  for it is null and is never followed, so the bytes are arbitrary. The flag with the value tells
  whether its pointer is not null.\<close>

definition column_content :: "bool \<Rightarrow> bool \<Rightarrow> bytes \<Rightarrow> u8 \<Rightarrow> nat \<Rightarrow> vdbe_cursor \<Rightarrow> mem \<Rightarrow> (column_error + bool \<times> mem) option" where
  "column_content lengthArg typeofArg payloadSize64 encoding p2 pC pDest =
     (let t = aType pC ! p2; at = aOffset pC ! p2 in
      if szRow pC \<ge> aOffset pC ! (p2 + 1) then do {
        (m, _) \<leftarrow> sqlite3VdbeSerialGet (drop at (case aRow pC of Some r \<Rightarrow> r | None \<Rightarrow> [])) t pDest;
        Some (Inr (True, m\<lparr>enc := encoding\<rparr>))
      }
      else if (lengthArg \<or> typeofArg) \<and> (t \<ge> 12 \<and> even t \<or> typeofArg) \<or> sqlite3VdbeSerialTypeLen t = 0 then do {
        (m, _) \<leftarrow> sqlite3VdbeSerialGet (if t \<le> 13 then payloadSize64 else replicate (sqlite3VdbeSerialTypeLen t) 0) t pDest;
        Some (Inr (t \<le> 13, m\<lparr>enc := encoding\<rparr>))
      }
      else
        case sqlite3VdbeMemFromBtree (payload pC) (avail pC) at (sqlite3VdbeSerialTypeLen t) pDest of
          None \<Rightarrow> Some (Inl ColCorrupt)
        | Some m \<Rightarrow> do {
            (m', _) \<leftarrow> sqlite3VdbeSerialGet (zdata m) t m;
            Some (Inr (True, m'\<lparr>flags := flags m' AND NOT MEM_Ephem, enc := encoding\<rparr>))
          })"

text \<open>An ephemeral value is copied so that it outlives the cursor's position.\<close>

definition column_out :: "bool \<times> mem \<Rightarrow> mem" where
  "column_out = (\<lambda>(z, pDest).
     if has pDest MEM_Ephem \<and> z
      then pDest\<lparr>flags := (flags pDest AND (MEM_Str OR MEM_Blob)) OR MEM_Term\<rparr> else pDest)"

definition impl_OP_Column ::
  "nat \<Rightarrow> nat \<Rightarrow> bool \<Rightarrow> bool \<Rightarrow> bytes \<Rightarrow> u8 \<Rightarrow> nat \<Rightarrow> mem option \<Rightarrow> vdbe_cursor \<Rightarrow> mem \<Rightarrow>
   (column_error + vdbe_cursor \<times> mem) option" where
  "impl_OP_Column limit cacheCtr lengthArg typeofArg payloadSize64 encoding p2 p4 pC pDest = do {
     r \<leftarrow> (if cacheStatus pC \<noteq> cacheCtr then column_refresh limit cacheCtr pC else Some (Inr (Some pC)));
     case r of
       Inl e \<Rightarrow> Some (Inl e)
     | Inr None \<Rightarrow> Some (Inr (pC, column_out (True, sqlite3VdbeMemSetNull pDest)))
     | Inr (Some pC) \<Rightarrow> do {
         h \<leftarrow> column_header p2 pC;
         case h of
           Inl e \<Rightarrow> Some (Inl e)
         | Inr pC \<Rightarrow>
             if nHdrParsed pC \<le> p2 then
               Some (Inr (pC, column_out (True, case p4 of
                 Some d \<Rightarrow> (if has d MEM_Static then d
                            else d\<lparr>flags := (flags d AND NOT (MEM_Dyn OR MEM_Static OR MEM_Ephem)) OR MEM_Static\<rparr>)
               | None \<Rightarrow> sqlite3VdbeMemSetNull pDest)))
             else do {
               v \<leftarrow> column_content lengthArg typeofArg payloadSize64 encoding p2 pC pDest;
               Some (map_sum id (\<lambda>m. (pC, column_out m)) v)
             }
       }
   }"

section \<open>The cache describes a prefix of the record\<close>

definition hdr_len :: "nat \<Rightarrow> mem list \<Rightarrow> nat" where
  "hdr_len ff ms = header_size (length (record_header ff ms))"

definition dpos :: "nat \<Rightarrow> mem list \<Rightarrow> nat \<Rightarrow> nat" where
  "dpos ff ms i = hdr_len ff ms + length (record_body ff (take i ms))"

definition hpos :: "nat \<Rightarrow> mem list \<Rightarrow> nat \<Rightarrow> nat" where
  "hpos ff ms i = length (putVarint32 (of_nat (hdr_len ff ms))) + length (record_header ff (take i ms))"

definition row_ok :: "nat \<Rightarrow> mem list \<Rightarrow> bool" where
  "row_ok ff ms \<longleftrightarrow> (\<forall>m \<in> set ms. storable m) \<and> hdr_len ff ms \<le> 98307 \<and> length (record_of ff ms) < 2 ^ 32"

definition parsed :: "nat \<Rightarrow> mem list \<Rightarrow> nat \<Rightarrow> nat list \<Rightarrow> nat list \<Rightarrow> bool" where
  "parsed ff ms n types offsets \<longleftrightarrow> n \<le> length ms
     \<and> (\<forall>j < n. types ! j = sqlite3VdbeSerialType (ms ! j) ff) \<and> (\<forall>j \<le> n. offsets ! j = dpos ff ms j)"

lemma record_header_append [simp]: "record_header ff (a @ b) = record_header ff a @ record_header ff b"
  by (simp add: record_header_def)

lemma record_body_append [simp]: "record_body ff (a @ b) = record_body ff a @ record_body ff b"
  by (simp add: record_body_def)

lemma take_Suc_snoc: "i < length ms \<Longrightarrow> take (Suc i) ms = take i ms @ [ms ! i]"
  by (rule take_Suc_conv_app_nth)

lemma dpos_Suc: "i < length ms \<Longrightarrow> dpos ff ms (Suc i) = dpos ff ms i + length (field_bytes (ms ! i) ff)"
  by (simp add: dpos_def take_Suc_snoc)

lemma hpos_Suc: "i < length ms \<Longrightarrow>
    hpos ff ms (Suc i) = hpos ff ms i + length (putVarint32 (of_nat (sqlite3VdbeSerialType (ms ! i) ff)))"
  by (simp add: hpos_def take_Suc_snoc)

lemma header_small: "row_ok ff ms \<Longrightarrow> length (record_header ff ms) < 200000000"
  by (simp add: row_ok_def hdr_len_def header_size_def Let_def split: if_splits)

lemma hdr_len_pos: "row_ok ff ms \<Longrightarrow> 0 < hdr_len ff ms"
proof -
  assume "row_ok ff ms"
  then have "hdr_len ff ms = length (putVarint32 (of_nat (hdr_len ff ms))) + length (record_header ff ms)"
    unfolding hdr_len_def by (intro header_size_fixed header_small)
  moreover have "0 < length (putVarint32 (of_nat (hdr_len ff ms)))" by simp
  ultimately show ?thesis by linarith
qed

lemma hpos_end: "row_ok ff ms \<Longrightarrow> hpos ff ms (length ms) = hdr_len ff ms"
  using header_size_fixed [OF header_small] by (simp add: hpos_def hdr_len_def)

lemma dpos_mono: "i \<le> j \<Longrightarrow> dpos ff ms i \<le> dpos ff ms j"
  by (metis add_left_mono append_take_drop_id dpos_def le_add1 length_append min.absorb1 record_body_append take_take)

lemma dpos_end: "row_ok ff ms \<Longrightarrow> dpos ff ms (length ms) = length (record_of ff ms)"
  using header_size_fixed [OF header_small] by (simp add: dpos_def hdr_len_def record_of_def)

lemma dpos_le: "row_ok ff ms \<Longrightarrow> i \<le> length ms \<Longrightarrow> dpos ff ms i \<le> length (record_of ff ms)"
  using dpos_mono [of i "length ms" ff ms] by (simp add: dpos_end)

lemma hpos_less: "row_ok ff ms \<Longrightarrow> i < length ms \<Longrightarrow> hpos ff ms i < hdr_len ff ms"
proof -
  assume ok: "row_ok ff ms" and i: "i < length ms"
  have "record_header ff ms = record_header ff (take i ms) @ record_header ff (drop i ms)"
    by (metis append_take_drop_id record_header_append)
  moreover have "0 < length (record_header ff (drop i ms))" using i by (simp add: Cons_nth_drop_Suc [symmetric])
  moreover have "hpos ff ms i + length (record_header ff (drop i ms)) = hdr_len ff ms"
    using hpos_end [OF ok] calculation(1) by (simp add: hpos_def)
  ultimately show ?thesis by linarith
qed

lemma hpos_mono: "row_ok ff ms \<Longrightarrow> i \<le> length ms \<Longrightarrow> hpos ff ms i \<le> hdr_len ff ms"
  using hpos_less [of ff ms i] hpos_end [of ff ms] by (cases "i = length ms") auto

text \<open>The header bytes, wherever they are read from.\<close>

definition has_header :: "nat \<Rightarrow> mem list \<Rightarrow> bytes \<Rightarrow> bool" where
  "has_header ff ms zData \<longleftrightarrow> take (hdr_len ff ms) zData = take (hdr_len ff ms) (record_of ff ms)
     \<and> hdr_len ff ms \<le> length zData"

lemma drop_hpos:
  assumes ok: "row_ok ff ms" and h: "has_header ff ms zData" and i: "i \<le> length ms"
  shows "\<exists>r. drop (hpos ff ms i) zData = record_header ff (drop i ms) @ r"
proof -
  let ?v = "putVarint32 (of_nat (hdr_len ff ms))"
  have split: "record_header ff ms = record_header ff (take i ms) @ record_header ff (drop i ms)"
    by (metis append_take_drop_id record_header_append)
  have "take (hdr_len ff ms) (record_of ff ms) = ?v @ record_header ff ms"
    using header_size_fixed [OF header_small [OF ok]] by (simp add: record_of_def hdr_len_def)
  then have "zData = (?v @ record_header ff (take i ms)) @ record_header ff (drop i ms) @ drop (hdr_len ff ms) zData"
    using h split by (metis append_assoc append_take_drop_id has_header_def)
  then show ?thesis unfolding hpos_def length_append [symmetric] by (metis append_eq_conv_conj)
qed

lemma column_parse_eq:
  assumes ok: "row_ok ff ms" and h: "has_header ff ms zData" and p2: "p2 < length types" "length offsets = Suc (length types)"
    and i: "i < length ms" "i \<le> p2" and pa: "parsed ff ms i types offsets"
  shows "\<exists>types' offsets'. column_parse p2 zData (hdr_len ff ms) (hpos ff ms i) i (dpos ff ms i) types offsets
      = Some (min (p2 + 1) (length ms), hpos ff ms (min (p2 + 1) (length ms)), dpos ff ms (min (p2 + 1) (length ms)), types', offsets')
    \<and> parsed ff ms (min (p2 + 1) (length ms)) types' offsets' \<and> length types' = length types \<and> length offsets' = length offsets"
  using p2 i pa
proof (induction "p2 - i" arbitrary: i types offsets rule: less_induct)
  case less
  let ?m = "ms ! i" let ?t = "sqlite3VdbeSerialType ?m ff"
  have m: "storable ?m" using ok less.prems(3) by (simp add: row_ok_def)
  have t: "unat (of_nat ?t :: u32) = ?t" using serial_type_less [OF m, of ff] by (simp add: unat_of_nat)
  obtain r where r: "drop (hpos ff ms i) zData = record_header ff (drop i ms) @ r"
    using drop_hpos [OF ok h] less.prems(3) by (metis less_imp_le)
  then have "drop (hpos ff ms i) zData = putVarint32 (of_nat ?t) @ record_header ff (drop (Suc i) ms) @ r"
    using less.prems(3) by (simp add: Cons_nth_drop_Suc [symmetric])
  then have gv: "getVarint32 (drop (hpos ff ms i) zData) = Some (of_nat ?t, length (putVarint32 (of_nat ?t)))"
    by (simp add: getVarint32_putVarint32)
  define types1 where "types1 = types[i := ?t]"
  define offsets1 where "offsets1 = offsets[Suc i := dpos ff ms (Suc i)]"
  have len: "sqlite3VdbeSerialTypeLen ?t = length (field_bytes ?m ff)" using m by (rule serial_type_len)
  have d: "dpos ff ms (Suc i) < 4294967296"
    using dpos_le [OF ok, of "Suc i"] less.prems(3) ok by (simp add: row_ok_def)
  then have off: "(dpos ff ms i + sqlite3VdbeSerialTypeLen ?t) mod 2 ^ 32 = dpos ff ms (Suc i)"
    using dpos_Suc [OF less.prems(3), of ff] by (simp add: len)
  have nov: "\<not> dpos ff ms (Suc i) < sqlite3VdbeSerialTypeLen ?t"
    using dpos_Suc [OF less.prems(3), of ff] by (simp add: len)
  have pa1: "parsed ff ms (Suc i) types1 offsets1"
    unfolding parsed_def types1_def offsets1_def
  proof (intro conjI allI impI)
    fix j assume "j < Suc i"
    then show "types[i := ?t] ! j = sqlite3VdbeSerialType (ms ! j) ff"
      using less.prems by (cases "j = i") (auto simp: parsed_def)
  next
    fix j assume "j \<le> Suc i"
    then show "offsets[Suc i := dpos ff ms (Suc i)] ! j = dpos ff ms j"
      using less.prems by (cases "j = Suc i") (auto simp: parsed_def)
  qed (use less.prems in simp)
  have step: "column_parse p2 zData (hdr_len ff ms) (hpos ff ms i) i (dpos ff ms i) types offsets =
      (if Suc i \<le> p2 \<and> hpos ff ms (Suc i) < hdr_len ff ms
       then column_parse p2 zData (hdr_len ff ms) (hpos ff ms (Suc i)) (Suc i) (dpos ff ms (Suc i)) types1 offsets1
       else Some (Suc i, hpos ff ms (Suc i), dpos ff ms (Suc i), types1, offsets1))"
    using nov by (subst column_parse.simps)
      (simp add: gv t off Let_def types1_def offsets1_def hpos_Suc [OF less.prems(3)] del: power_numeral)
  show ?case
  proof (cases "Suc i \<le> p2 \<and> Suc i < length ms")
    case True
    then have "p2 - Suc i < p2 - i" by linarith
    then show ?thesis
      using True less.hyps [of "Suc i" types1 offsets1] less.prems pa1 hpos_less [OF ok, of "Suc i"]
      unfolding step by (simp add: types1_def offsets1_def)
  next
    case False
    then have "min (p2 + 1) (length ms) = Suc i" "\<not> (Suc i \<le> p2 \<and> hpos ff ms (Suc i) < hdr_len ff ms)"
      using less.prems hpos_end [OF ok] by (auto simp: min_def not_less le_Suc_eq)
    then show ?thesis unfolding step using pa1 by (auto simp: types1_def offsets1_def)
  qed
qed

section \<open>Reading one column\<close>

lemma SerialGet_flags:
  "sqlite3VdbeSerialGet buf t q = Some (m, n) \<Longrightarrow> flags m \<in> {0x0001, 0x0004, 0x0008, 0x1002, 0x1010}"
  by (auto simp: sqlite3VdbeSerialGet_def serialGet_def Let_def bind_eq_Some_conv split: if_splits)

lemma value_enc [simp]: "mem_value (m\<lparr>enc := e\<rparr>) = mem_value m"
  by (simp add: mem_value_def mem_bytes_def)

lemma mem_value_mask:
  assumes "k AND 0x401F = 0" "s AND 0x401F = 0"
  shows "mem_value (m\<lparr>flags := (flags m AND NOT k) OR s\<rparr>) = mem_value m"
proof -
  have "((flags m AND NOT k) OR s) AND g = flags m AND g" if "g AND 0x401F = g" for g
  proof (rule bit_word_eqI)
    fix n
    have "bit g n \<Longrightarrow> \<not> bit k n \<and> \<not> bit s n"
      using that assms by (metis bit_0_eq bit_and_iff bot_apply bot_bool_def)
    then show "bit (((flags m AND NOT k) OR s) AND g) n = bit (flags m AND g) n"
      by (auto simp: bit_simps dest: bit_imp_le_length)
  qed
  then show ?thesis by (simp add: mem_value_def mem_bytes_def has_def)
qed

lemma column_out_value:
  assumes "flags m \<in> {0x0001, 0x0004, 0x0008, 0x1002, 0x1010}"
  shows "mem_value (column_out (z, m)) = mem_value m"
    "mem_value (column_out (z, m\<lparr>flags := flags m AND NOT MEM_Ephem, enc := e\<rparr>)) = mem_value m"
  by (insert assms; elim insertE emptyE; simp add: column_out_def mem_value_def mem_bytes_def has_def)+

lemma column_out_static:
  assumes "\<not> has d MEM_Ephem"
  shows "mem_value (column_out (z, if has d MEM_Static then d
     else d\<lparr>flags := (flags d AND NOT (MEM_Dyn OR MEM_Static OR MEM_Ephem)) OR MEM_Static\<rparr>)) = mem_value d"
proof -
  let ?d = "d\<lparr>flags := (flags d AND NOT (MEM_Dyn OR MEM_Static OR MEM_Ephem)) OR MEM_Static\<rparr>"
  have v: "mem_value ?d = mem_value d" by (rule mem_value_mask) simp_all
  have e: "\<not> has ?d MEM_Ephem" by (simp add: or_and_eq_0 and.assoc)
  show ?thesis using assms v e by (simp only: column_out_def prod.case if_False simp_thms split: if_split)
qed

definition cursor_ok :: "nat \<Rightarrow> nat \<Rightarrow> nat \<Rightarrow> mem list \<Rightarrow> vdbe_cursor \<Rightarrow> bool" where
  "cursor_ok limit cacheCtr ff ms c \<longleftrightarrow>
     row_ok ff ms \<and> \<not> nullRow c \<and> payload c = record_of ff ms \<and> length (payload c) \<le> limit
     \<and> hpos ff ms 0 \<le> avail c \<and> length (aOffset c) = Suc (length (aType c))
     \<and> (cacheStatus c = cacheCtr \<longrightarrow>
          payloadSize c = length (payload c)
          \<and> (case aRow c of
               Some r \<Rightarrow> r = take (avail c) (payload c) \<and> szRow c = min (length (payload c)) (avail c) \<and> hdr_len ff ms \<le> avail c
             | None \<Rightarrow> szRow c = 0)
          \<and> parsed ff ms (nHdrParsed c) (aType c) (aOffset c)
          \<and> nHdrParsed c \<le> length (aType c) \<and> iHdrOffset c = hpos ff ms (nHdrParsed c))"

lemma record_of_split: "record_of ff ms = putVarint32 (of_nat (hdr_len ff ms)) @ record_header ff ms @ record_body ff ms"
  by (simp add: record_of_def hdr_len_def)

lemma refresh_eq:
  assumes ok: "cursor_ok limit cacheCtr ff ms c" and nf: "0 < length (aType c)"
    and stale: "cacheStatus c \<noteq> cacheCtr"
  shows "\<exists>c'. column_refresh limit cacheCtr c = Some (Inr (Some c')) \<and> cursor_ok limit cacheCtr ff ms c'
    \<and> cacheStatus c' = cacheCtr \<and> length (aType c') = length (aType c) \<and> avail c' = avail c"
proof -
  let ?h = "hdr_len ff ms" and ?v = "putVarint32 (of_nat (hdr_len ff ms))"
  have row: "row_ok ff ms" "\<not> nullRow c" "payload c = record_of ff ms" "length (payload c) \<le> limit"
      "hpos ff ms 0 \<le> avail c" "length (aOffset c) = Suc (length (aType c))"
    using ok unfolding cursor_ok_def by blast+
  have h98: "?h \<le> 98307" using row(1) by (simp add: row_ok_def)
  then have u: "unat (of_nat ?h :: u32) = ?h" by (simp add: unat_of_nat)
  have hl: "?h \<le> length (record_of ff ms)" using dpos_le [OF row(1), of 0] by (simp add: dpos_def)
  have "length ?v \<le> avail c" using row(5) by (simp add: hpos_def)
  then have "take (avail c) (payload c) = ?v @ take (avail c - length ?v) (record_header ff ms @ record_body ff ms)"
    by (simp add: row(3) record_of_split)
  then have gv: "getVarint32 (take (avail c) (payload c)) = Some (of_nat ?h, length ?v)"
    by (simp add: getVarint32_putVarint32)
  have p0: "parsed ff ms 0 (aType c) ((aOffset c)[0 := ?h])"
    using row(6) by (simp add: parsed_def dpos_def)
  have v: "length ?v = hpos ff ms 0" by (simp add: hpos_def)
  show ?thesis
    using row h98 hl gv u p0 v
    by (auto simp: column_refresh_def Let_def cursor_ok_def min_def)
qed

lemma header_eq:
  assumes ok: "cursor_ok limit cacheCtr ff ms c" and cur: "cacheStatus c = cacheCtr" and p2: "p2 < length (aType c)"
  shows "\<exists>c'. column_header p2 c = Some (Inr c') \<and> cursor_ok limit cacheCtr ff ms c' \<and> cacheStatus c' = cacheCtr
    \<and> length (aType c') = length (aType c) \<and> (p2 < nHdrParsed c' \<longleftrightarrow> p2 < length ms)"
proof -
  have row: "row_ok ff ms" "\<not> nullRow c" "payload c = record_of ff ms" "payloadSize c = length (record_of ff ms)"
      "length (aOffset c) = Suc (length (aType c))" "parsed ff ms (nHdrParsed c) (aType c) (aOffset c)"
      "iHdrOffset c = hpos ff ms (nHdrParsed c)"
    using ok cur by (simp_all add: cursor_ok_def)
  have n: "nHdrParsed c \<le> length ms" and o: "\<And>j. j \<le> nHdrParsed c \<Longrightarrow> aOffset c ! j = dpos ff ms j"
    using row(6) by (simp_all add: parsed_def)
  have o0: "aOffset c ! 0 = hdr_len ff ms" using o [of 0] by (simp add: dpos_def)
  have hl: "hdr_len ff ms \<le> length (record_of ff ms)" using dpos_le [OF row(1), of 0] by (simp add: dpos_def)
  show ?thesis
  proof (cases "nHdrParsed c \<le> p2 \<and> nHdrParsed c < length ms")
    case True
    let ?z = "case aRow c of Some r \<Rightarrow> r | None \<Rightarrow> take (hdr_len ff ms) (payload c)"
    let ?n = "min (p2 + 1) (length ms)"
    have hh: "has_header ff ms ?z"
      using ok cur hl by (auto simp: has_header_def cursor_ok_def min_def split: option.splits)
    obtain types offsets where
      cp: "column_parse p2 ?z (hdr_len ff ms) (hpos ff ms (nHdrParsed c)) (nHdrParsed c) (dpos ff ms (nHdrParsed c)) (aType c) (aOffset c)
          = Some (?n, hpos ff ms ?n, dpos ff ms ?n, types, offsets)"
      and pa: "parsed ff ms ?n types offsets" "length types = length (aType c)" "length offsets = length (aOffset c)"
      using column_parse_eq [OF row(1) hh p2 row(5) _ _ row(6)] True by blast
    have chk: "\<not> (hpos ff ms ?n \<ge> hdr_len ff ms \<and> (hpos ff ms ?n > hdr_len ff ms \<or> dpos ff ms ?n \<noteq> length (record_of ff ms))
        \<or> dpos ff ms ?n > length (record_of ff ms))"
      using hpos_less [OF row(1), of ?n] hpos_end [OF row(1)] dpos_end [OF row(1)] dpos_le [OF row(1), of ?n]
      by (cases "?n < length ms") (auto simp: min_def split: if_splits)
    define c' where "c' = c\<lparr>nHdrParsed := ?n, iHdrOffset := hpos ff ms ?n, aType := types, aOffset := offsets\<rparr>"
    have guard: "nHdrParsed c \<le> p2 \<and> hpos ff ms (nHdrParsed c) < hdr_len ff ms"
      using True hpos_less [OF row(1), of "nHdrParsed c"] by simp
    have "column_header p2 c = Some (Inr c')"
      using chk unfolding column_header_def Let_def o0 row(7) o [OF order_refl] if_P [OF guard] cp
      by (simp add: c'_def row(4))
    moreover have "cursor_ok limit cacheCtr ff ms c'"
      using ok cur pa p2 by (auto simp: cursor_ok_def c'_def split: option.splits)
    ultimately show ?thesis using cur pa by (auto simp: c'_def)
  next
    case False
    then have "\<not> (nHdrParsed c \<le> p2 \<and> iHdrOffset c < aOffset c ! 0)"
    proof (cases "nHdrParsed c \<le> p2")
      case True
      then have "nHdrParsed c = length ms" using False n by linarith
      then show ?thesis using hpos_end [OF row(1)] by (simp only: o0 row(7)) simp
    qed simp
    then show ?thesis using False ok cur n by (auto simp: column_header_def)
  qed
qed

lemma record_at:
  assumes "row_ok ff ms" "i < length ms"
  shows "\<exists>r. drop (dpos ff ms i) (record_of ff ms) = field_bytes (ms ! i) ff @ r"
proof -
  have "record_body ff ms = record_body ff (take i ms) @ record_body ff (drop i ms)"
    by (metis append_take_drop_id record_body_append)
  moreover have "record_body ff (drop i ms) = field_bytes (ms ! i) ff @ record_body ff (drop (Suc i) ms)"
    using assms(2) by (simp add: Cons_nth_drop_Suc [symmetric])
  moreover have "hdr_len ff ms = length (putVarint32 (of_nat (hdr_len ff ms))) + length (record_header ff ms)"
    using header_size_fixed [OF header_small [OF assms(1)]] by (simp add: hdr_len_def)
  moreover have "record_of ff ms = (putVarint32 (of_nat (hdr_len ff ms)) @ record_header ff ms) @ record_body ff ms"
    by (simp add: record_of_split)
  ultimately show ?thesis by (simp add: dpos_def)
qed

lemma content_eq:
  assumes ok: "cursor_ok limit cacheCtr ff ms c" and cur: "cacheStatus c = cacheCtr"
    and p2: "p2 < nHdrParsed c" and buf: "length sz = 8"
  shows "\<exists>m. column_content False False sz e p2 c q = Some (Inr m) \<and> mem_value (column_out m) = stored_value (ms ! p2)"
proof -
  let ?m = "ms ! p2" let ?t = "sqlite3VdbeSerialType ?m ff" let ?f = "field_bytes ?m ff"
  have row: "row_ok ff ms" "payload c = record_of ff ms" "parsed ff ms (nHdrParsed c) (aType c) (aOffset c)"
    using ok cur unfolding cursor_ok_def by blast+
  have i: "p2 < length ms" and ty: "aType c ! p2 = ?t" and off: "aOffset c ! p2 = dpos ff ms p2" "aOffset c ! Suc p2 = dpos ff ms (Suc p2)"
    using row(3) p2 by (auto simp: parsed_def)
  have m: "storable ?m" using row(1) i by (simp add: row_ok_def)
  have len: "sqlite3VdbeSerialTypeLen ?t = length ?f" using m by (rule serial_type_len)
  obtain r where r: "drop (dpos ff ms p2) (record_of ff ms) = ?f @ r" using record_at [OF row(1) i] by blast
  have end_: "dpos ff ms p2 + length ?f \<le> length (record_of ff ms)"
    using dpos_le [OF row(1), of "Suc p2"] i by (simp add: dpos_Suc)
  have get: "\<exists>m'. sqlite3VdbeSerialGet (?f @ x) ?t q' = Some (m', length ?f) \<and> mem_value m' = stored_value ?m
      \<and> flags m' \<in> {0x0001, 0x0004, 0x0008, 0x1002, 0x1010}" for x q'
    using serial_roundtrip [OF m, of ff x q'] SerialGet_flags by blast
  consider (page) "dpos ff ms (Suc p2) \<le> szRow c" | (empty) "\<not> dpos ff ms (Suc p2) \<le> szRow c" "length ?f = 0"
    | (overflow) "\<not> dpos ff ms (Suc p2) \<le> szRow c" "length ?f \<noteq> 0" by blast
  then show ?thesis
  proof cases
    case page
    have "hdr_len ff ms \<le> szRow c" using page dpos_mono [of 0 "Suc p2" ff ms] by (simp add: dpos_def)
    moreover have "0 < hdr_len ff ms" using row(1) by (rule hdr_len_pos)
    ultimately have a: "aRow c = Some (take (avail c) (record_of ff ms))" "szRow c \<le> avail c"
      using ok cur row(2) by (auto simp: cursor_ok_def split: option.splits)
    then have "drop (dpos ff ms p2) (take (avail c) (record_of ff ms)) = ?f @ take (avail c - dpos ff ms p2 - length ?f) r"
      using page i by (simp add: drop_take r dpos_Suc)
    then obtain m' where "sqlite3VdbeSerialGet (drop (dpos ff ms p2) (take (avail c) (record_of ff ms))) ?t q = Some (m', length ?f)"
        "mem_value m' = stored_value ?m" "flags m' \<in> {0x0001, 0x0004, 0x0008, 0x1002, 0x1010}"
      using get by metis
    then show ?thesis using page a column_out_value(1) [of "m'\<lparr>enc := e\<rparr>"]
      by (simp add: column_content_def ty off Let_def)
  next
    case empty
    then have "?t \<le> 13" using len by (auto simp: sqlite3VdbeSerialTypeLen_def split: if_splits)
    moreover obtain m' where "sqlite3VdbeSerialGet sz ?t q = Some (m', 0)"
        "mem_value m' = stored_value ?m" "flags m' \<in> {0x0001, 0x0004, 0x0008, 0x1002, 0x1010}"
      using get [of sz q] empty(2) by auto
    ultimately show ?thesis using empty column_out_value(1) [of "m'\<lparr>enc := e\<rparr>"]
      by (simp add: column_content_def ty off Let_def len)
  next
    case overflow
    obtain q' where mb: "sqlite3VdbeMemFromBtree (record_of ff ms) (avail c) (dpos ff ms p2) (length ?f) q = Some q'" "zdata q' = ?f"
    proof -
      have "take (length ?f) (drop (dpos ff ms p2) (record_of ff ms)) = ?f" by (simp add: r)
      then show ?thesis using that end_ unfolding sqlite3VdbeMemFromBtree_def
        by (cases "dpos ff ms p2 + length ?f \<le> avail c") simp_all
    qed
    obtain m' where "sqlite3VdbeSerialGet (zdata q') ?t q' = Some (m', length ?f)"
        "mem_value m' = stored_value ?m" "flags m' \<in> {0x0001, 0x0004, 0x0008, 0x1002, 0x1010}"
      using get [of "[]" q'] mb(2) by auto
    then show ?thesis using overflow mb column_out_value(2) [of m' True e]
      by (simp add: column_content_def ty off Let_def len row(2))
  qed
qed

lemma record_300: "hdr_len 4 [int_mem 300] = 2" "record_of 4 [int_mem 300] = [2, 2, 1, 44]"
  "row_ok 4 [int_mem 300]"
proof -
  have t: "sqlite3VdbeSerialType (int_mem 300) 4 = 2"
    by (simp add: sqlite3VdbeSerialType_def int_mem_def)
  show h: "hdr_len 4 [int_mem 300] = 2"
    by (simp add: hdr_len_def t header_size_def putVarint32_def)
  have f: "field_bytes (int_mem 300) 4 = put_be 2 300"
    by (simp add: field_bytes_def t sqlite3VdbeSerialPut_def sqlite3VdbeSerialTypeLen_def) (simp add: int_mem_def)
  have "put_be 2 300 = put_be (Suc (Suc 0)) 300" by (simp only: numeral_2_eq_2)
  then have "put_be 2 300 = [1, 44]" unfolding put_be.simps by simp
  then show r: "record_of 4 [int_mem 300] = [2, 2, 1, 44]" by (simp add: record_of_split h f t putVarint32_def)
  show "row_ok 4 [int_mem 300]"
    by (simp add: row_ok_def h r) (simp add: storable_def mem_value_def mem_bytes_def int_mem_def in_i64_def)
qed

section \<open>Properties\<close>

text \<open>C2. \<^verbatim>\<open>OP_Column\<close> reads back what \<^verbatim>\<open>OP_MakeRecord\<close> stored: on a cursor over a record in the
  format, in any state of its header cache and with any part of the record on overflow
  pages, column \<^verbatim>\<open>p2\<close> is the stored value of the \<^verbatim>\<open>p2\<close>-th register, or the default (NULL
  without one) when the record has fewer columns; and the cache stays consistent.\<close>

theorem column_reads_record:
  assumes "cursor_ok limit cacheCtr ff ms c" and "p2 < length (aType c)" and "length sz = 8"
    and "\<forall>d. p4 = Some d \<longrightarrow> \<not> has d MEM_Ephem"
  shows "\<exists>c' m. impl_OP_Column limit cacheCtr False False sz e p2 p4 c q = Some (Inr (c', m))
    \<and> cursor_ok limit cacheCtr ff ms c'
    \<and> mem_value m = (if p2 < length ms then stored_value (ms ! p2)
        else case p4 of Some d \<Rightarrow> mem_value d | None \<Rightarrow> VNull)"
proof -
  obtain c1 where c1: "(if cacheStatus c \<noteq> cacheCtr then column_refresh limit cacheCtr c else Some (Inr (Some c))) = Some (Inr (Some c1))"
      "cursor_ok limit cacheCtr ff ms c1" "cacheStatus c1 = cacheCtr" "p2 < length (aType c1)"
  proof (cases "cacheStatus c = cacheCtr")
    case True
    then show ?thesis using that [of c] assms(1,2) by simp
  next
    case False
    obtain c1 where "column_refresh limit cacheCtr c = Some (Inr (Some c1))" "cursor_ok limit cacheCtr ff ms c1"
        "cacheStatus c1 = cacheCtr" "length (aType c1) = length (aType c)"
      using refresh_eq [OF assms(1) _ False] assms(2) by fastforce
    then show ?thesis using that [of c1] False assms(2) by simp
  qed
  obtain c2 where c2: "column_header p2 c1 = Some (Inr c2)" "cursor_ok limit cacheCtr ff ms c2" "cacheStatus c2 = cacheCtr"
      "p2 < nHdrParsed c2 \<longleftrightarrow> p2 < length ms"
    using header_eq [OF c1(2-4)] by blast
  show ?thesis
  proof (cases "p2 < length ms")
    case True
    then show ?thesis using c2 content_eq [OF c2(2,3) _ assms(3), of p2 e q]
      unfolding impl_OP_Column_def c1(1) by auto
  next
    case False
    have null: "mem_value (column_out (True, sqlite3VdbeMemSetNull q)) = VNull"
      by (simp add: column_out_def sqlite3VdbeMemSetNull_def)
    show ?thesis using False c2 null column_out_static assms(4)
      unfolding impl_OP_Column_def c1(1) by (cases p4) auto
  qed
qed

theorem column_reads_record_witness:
  "\<exists>c c' m. payload c = [2, 2, 1, 44]
    \<and> impl_OP_Column 1000 1 False False (replicate 8 0) 1 0 None c (int_mem 0) = Some (Inr (c', m))
    \<and> mem_value m = VInt 300"
proof -
  let ?c = "\<lparr>payload = [2, 2, 1, 44], avail = 3, nullRow = False, pseudoReg = None, cacheStatus = 0,
    payloadSize = 0, szRow = 0, aRow = None, iHdrOffset = 0, nHdrParsed = 0, aOffset = [0, 0], aType = [0]\<rparr>"
  have "cursor_ok 1000 1 4 [int_mem 300] ?c"
    by (simp add: cursor_ok_def record_300 hpos_def putVarint32_def)
  moreover have "stored_value (int_mem 300) = VInt 300" by (simp add: stored_value_def mem_value_def int_mem_def)
  ultimately have "\<exists>c' m. impl_OP_Column 1000 1 False False (replicate 8 0) 1 0 None ?c (int_mem 0) = Some (Inr (c', m))
      \<and> mem_value m = VInt 300"
    using column_reads_record [of 1000 1 4 "[int_mem 300]" ?c 0 "replicate 8 0" None 1 "int_mem 0"] by auto
  then show ?thesis by - (rule exI [of _ ?c], simp)
qed

end
