(* ===== verification/RecordCompare.thy ===== *)
theory RecordCompare
  imports Column
begin

text \<open>
  Comparing a record with an unpacked key (\<^verbatim>\<open>src/sqlite/src/vdbeaux.c\<close>): the general routine
  \<^verbatim>\<open>vdbeRecordCompareWithSkip\<close>, its two fast paths for a leading integer and a leading
  string, and the choice between them in \<^verbatim>\<open>sqlite3VdbeFindCompare\<close>.

  The result is the return value together with the error code of the unpacked record;
  \<^const>\<open>None\<close> is a read past the end of the record.
\<close>

section \<open>The comparison routines\<close>

record unpacked =
  keyEnc :: u8
  nKeyFields :: nat
  aSortOrder :: "bool list"
  aColl :: "collseq option list"
  aMem :: "mem list"
  nField :: nat
  default_rc :: int
  errCode :: nat
  r1 :: int
  r2 :: int

abbreviation (input) SQLITE_CORRUPT :: nat where "SQLITE_CORRUPT \<equiv> 11"

text \<open>One field against one cell of the key: the serial type and the comparison, or the
  discovery that the record is corrupt.\<close>

definition rhs_integer :: "bytes \<Rightarrow> nat \<Rightarrow> nat \<Rightarrow> mem \<Rightarrow> (nat \<times> int) option" where
  "rhs_integer aKey1 idx1 d1 pRhs = do {
     b \<leftarrow> rd aKey1 idx1;
     let serial_type = unat b;
     if serial_type \<ge> 12 then Some (serial_type, 1)
     else if serial_type = 0 then Some (serial_type, -1)
     else if serial_type = 7 then do {
       let rhs = dbl_of_int (u_i pRhs);
       (mem1, _) \<leftarrow> sqlite3VdbeSerialGet (drop d1 aKey1) serial_type pRhs;
       Some (serial_type, if dbl_less (u_r mem1) rhs then -1 else if dbl_less rhs (u_r mem1) then 1 else 0)
     } else do {
       lhs \<leftarrow> vdbeRecordDecodeInt serial_type (drop d1 aKey1);
       let rhs = u_i pRhs;
       Some (serial_type, if lhs < rhs then -1 else if lhs > rhs then 1 else 0)
     }
   }"

definition rhs_real :: "bytes \<Rightarrow> nat \<Rightarrow> nat \<Rightarrow> mem \<Rightarrow> (nat \<times> int) option" where
  "rhs_real aKey1 idx1 d1 pRhs = do {
     b \<leftarrow> rd aKey1 idx1;
     let serial_type = unat b;
     if serial_type \<ge> 12 then Some (serial_type, 1)
     else if serial_type = 0 then Some (serial_type, -1)
     else do {
       let rhs = u_r pRhs;
       (mem1, _) \<leftarrow> sqlite3VdbeSerialGet (drop d1 aKey1) serial_type pRhs;
       let lhs = (if serial_type = 7 then u_r mem1 else dbl_of_int (u_i mem1));
       Some (serial_type, if dbl_less lhs rhs then -1 else if dbl_less rhs lhs then 1 else 0)
     }
   }"

definition rhs_string :: "bytes \<Rightarrow> nat \<Rightarrow> nat \<Rightarrow> mem \<Rightarrow> collseq option \<Rightarrow> u8 \<Rightarrow> (nat \<times> int) option option" where
  "rhs_string aKey1 idx1 d1 pRhs coll key_enc = do {
     (t, _) \<leftarrow> getVarint32 (drop idx1 aKey1);
     let serial_type = unat t;
     if serial_type < 12 then Some (Some (serial_type, -1))
     else if even serial_type then Some (Some (serial_type, 1))
     else
       let n = (serial_type - 12) div 2
       in if d1 + n > length aKey1 then Some None
          else
            let lhs = take n (drop d1 aKey1)
            in Some (Some (serial_type,
                 case coll of
                   Some c \<Rightarrow> vdbeCompareMemString
                     \<lparr>flags = MEM_Str, u_i = 0, u_r = 0, u_nZero = 0, zdata = lhs, enc = key_enc\<rparr> pRhs c
                 | None \<Rightarrow>
                     let nRhs = length (zdata pRhs); nCmp = min n nRhs;
                         rc = memcmp (take nCmp lhs) (take nCmp (zdata pRhs))
                     in if rc = 0 then int n - int nRhs else rc))
   }"

definition rhs_blob :: "bytes \<Rightarrow> nat \<Rightarrow> nat \<Rightarrow> mem \<Rightarrow> (nat \<times> int) option option" where
  "rhs_blob aKey1 idx1 d1 pRhs = do {
     (t, _) \<leftarrow> getVarint32 (drop idx1 aKey1);
     let serial_type = unat t;
     if serial_type < 12 \<or> odd serial_type then Some (Some (serial_type, -1))
     else
       let nStr = (serial_type - 12) div 2
       in if d1 + nStr > length aKey1 then Some None
          else
            let nRhs = length (zdata pRhs); nCmp = min nStr nRhs;
                rc = memcmp (take nCmp (drop d1 aKey1)) (take nCmp (zdata pRhs))
            in Some (Some (serial_type, if rc = 0 then int nStr - int nRhs else rc))
   }"

definition rhs_null :: "bytes \<Rightarrow> nat \<Rightarrow> (nat \<times> int) option" where
  "rhs_null aKey1 idx1 = do { b \<leftarrow> rd aKey1 idx1; Some (unat b, if b \<noteq> 0 then 1 else 0) }"

definition compare_field :: "bytes \<Rightarrow> nat \<Rightarrow> nat \<Rightarrow> mem \<Rightarrow> collseq option \<Rightarrow> u8 \<Rightarrow> (nat \<times> int) option option" where
  "compare_field aKey1 idx1 d1 pRhs coll key_enc =
     (if has pRhs MEM_Int then map_option Some (rhs_integer aKey1 idx1 d1 pRhs)
      else if has pRhs MEM_Real then map_option Some (rhs_real aKey1 idx1 d1 pRhs)
      else if has pRhs MEM_Str then rhs_string aKey1 idx1 d1 pRhs coll key_enc
      else if has pRhs MEM_Blob then rhs_blob aKey1 idx1 d1 pRhs
      else map_option Some (rhs_null aKey1 idx1))"

text \<open>The loop runs while there are key fields left, so at most \<^verbatim>\<open>nField\<close> times.\<close>

function compare_loop :: "bytes \<Rightarrow> unpacked \<Rightarrow> nat \<Rightarrow> nat \<Rightarrow> nat \<Rightarrow> nat \<Rightarrow> (int \<times> nat) option" where
  "compare_loop aKey1 pPKey2 szHdr1 i idx1 d1 = do {
     f \<leftarrow> compare_field aKey1 idx1 d1 (aMem pPKey2 ! i) (aColl pPKey2 ! i) (keyEnc pPKey2);
     case f of
       None \<Rightarrow> Some (0, SQLITE_CORRUPT)
     | Some (serial_type, rc) \<Rightarrow>
         if rc \<noteq> 0 then Some (if aSortOrder pPKey2 ! i then - rc else rc, errCode pPKey2)
         else
           let d1 = d1 + sqlite3VdbeSerialTypeLen serial_type;
               idx1 = idx1 + varintLen (of_nat serial_type)
           in if idx1 < szHdr1 \<and> i + 1 < nField pPKey2 \<and> d1 \<le> length aKey1
              then compare_loop aKey1 pPKey2 szHdr1 (i + 1) idx1 d1
              else Some (default_rc pPKey2, errCode pPKey2)
   }"
  by pat_completeness auto

termination compare_loop
  by (relation "measure (\<lambda>(_, p, _, i, _, _). nField p - i)") auto

declare compare_loop.simps [simp del]

definition vdbeRecordCompareWithSkip :: "bytes \<Rightarrow> unpacked \<Rightarrow> bool \<Rightarrow> (int \<times> nat) option" where
  "vdbeRecordCompareWithSkip aKey1 pPKey2 bSkip =
     (if bSkip then do {
        (s1, k) \<leftarrow> getVarint32 (drop 1 aKey1);
        szHdr1 \<leftarrow> rd aKey1 0;
        compare_loop aKey1 pPKey2 (unat szHdr1) 1 (1 + k) (unat szHdr1 + sqlite3VdbeSerialTypeLen (unat s1))
      } else do {
        (szHdr1, idx1) \<leftarrow> getVarint32 aKey1;
        if unat szHdr1 > length aKey1 then Some (0, SQLITE_CORRUPT)
        else compare_loop aKey1 pPKey2 (unat szHdr1) 0 idx1 (unat szHdr1)
      })"

definition sqlite3VdbeRecordCompare :: "bytes \<Rightarrow> unpacked \<Rightarrow> (int \<times> nat) option" where
  "sqlite3VdbeRecordCompare aKey1 pPKey2 = vdbeRecordCompareWithSkip aKey1 pPKey2 False"

definition vdbeRecordCompareInt :: "bytes \<Rightarrow> unpacked \<Rightarrow> (int \<times> nat) option" where
  "vdbeRecordCompareInt pKey1 pPKey2 = do {
     b0 \<leftarrow> rd pKey1 0;
     b1 \<leftarrow> rd pKey1 1;
     let aKey = drop (unat (b0 AND 0x3F)) pKey1;
     let serial_type = unat b1;
     let v = u_i (aMem pPKey2 ! 0);
     let finish = (\<lambda>lhs.
       if v > lhs then Some (r1 pPKey2, errCode pPKey2)
       else if v < lhs then Some (r2 pPKey2, errCode pPKey2)
       else if nField pPKey2 > 1 then vdbeRecordCompareWithSkip pKey1 pPKey2 True
       else Some (default_rc pPKey2, errCode pPKey2));
     if serial_type = 1 then do { lhs \<leftarrow> ONE_BYTE_INT aKey; finish lhs }
     else if serial_type = 2 then do { lhs \<leftarrow> TWO_BYTE_INT aKey; finish lhs }
     else if serial_type = 3 then do { lhs \<leftarrow> THREE_BYTE_INT aKey; finish lhs }
     else if serial_type = 4 then do { y \<leftarrow> FOUR_BYTE_UINT aKey; finish (sint y) }
     else if serial_type = 5 then do {
       lo \<leftarrow> FOUR_BYTE_UINT (drop 2 aKey); hi \<leftarrow> TWO_BYTE_INT aKey; finish (uint lo + TWOPOWER32 * hi) }
     else if serial_type = 6 then do {
       x \<leftarrow> FOUR_BYTE_UINT aKey; y \<leftarrow> FOUR_BYTE_UINT (drop 4 aKey);
       finish (sint (push_bit 32 (ucast x) OR ucast y :: u64)) }
     else if serial_type = 8 then finish 0
     else if serial_type = 9 then finish 1
     else sqlite3VdbeRecordCompare pKey1 pPKey2
   }"

definition vdbeRecordCompareString :: "bytes \<Rightarrow> unpacked \<Rightarrow> (int \<times> nat) option" where
  "vdbeRecordCompareString aKey1 pPKey2 = do {
     (t, _) \<leftarrow> getVarint32 (drop 1 aKey1);
     let serial_type = sint t;
     if serial_type < 12 then Some (r1 pPKey2, errCode pPKey2)
     else if even serial_type then Some (r2 pPKey2, errCode pPKey2)
     else do {
       b0 \<leftarrow> rd aKey1 0;
       let szHdr = unat b0;
       let nStr = nat ((serial_type - 12) div 2);
       let z = zdata (aMem pPKey2 ! 0);
       if szHdr + nStr > length aKey1 then Some (0, SQLITE_CORRUPT)
       else
         let nCmp = min (length z) nStr;
             res = memcmp (take nCmp (drop szHdr aKey1)) (take nCmp z)
         in if res = 0 then
              let res = int nStr - int (length z)
              in if res = 0 then
                   if nField pPKey2 > 1 then vdbeRecordCompareWithSkip aKey1 pPKey2 True
                   else Some (default_rc pPKey2, errCode pPKey2)
                 else if res > 0 then Some (r2 pPKey2, errCode pPKey2)
                 else Some (r1 pPKey2, errCode pPKey2)
            else if res > 0 then Some (r2 pPKey2, errCode pPKey2)
            else Some (r1 pPKey2, errCode pPKey2)
     }
   }"

text \<open>The choice is also the point where \<^verbatim>\<open>r1\<close> and \<^verbatim>\<open>r2\<close> are set; the second component is the
  routine that will be called with the unpacked record.\<close>

definition sqlite3VdbeFindCompare :: "unpacked \<Rightarrow> unpacked \<times> (bytes \<Rightarrow> unpacked \<Rightarrow> (int \<times> nat) option)" where
  "sqlite3VdbeFindCompare p =
     (if nKeyFields p \<le> 13 then
        let p = (if aSortOrder p ! 0 then p\<lparr>r1 := 1, r2 := -1\<rparr> else p\<lparr>r1 := -1, r2 := 1\<rparr>);
            m = aMem p ! 0
        in if has m MEM_Int then (p, vdbeRecordCompareInt)
           else if \<not> has m (MEM_Real OR MEM_Null OR MEM_Blob) \<and> aColl p ! 0 = None
             then (p, vdbeRecordCompareString)
           else (p, sqlite3VdbeRecordCompare)
      else (p, sqlite3VdbeRecordCompare))"

section \<open>The order on rows\<close>

definition bytes_compare :: "bytes \<Rightarrow> bytes \<Rightarrow> int" where
  "bytes_compare x y =
     (let n = min (length x) (length y); c = memcmp (take n x) (take n y)
      in if c \<noteq> 0 then c else int (length x) - int (length y))"

fun value_class :: "sqlvalue \<Rightarrow> nat" where
  "value_class VNull = 0" | "value_class (VInt _) = 1" | "value_class (VReal _) = 1"
| "value_class (VText _) = 2" | "value_class (VBlob _) = 3" | "value_class VOther = 4"

definition int_compare :: "int \<Rightarrow> int \<Rightarrow> int" where
  "int_compare a b = (if a < b then -1 else if a > b then 1 else 0)"

fun value_compare :: "collseq option \<Rightarrow> sqlvalue \<Rightarrow> sqlvalue \<Rightarrow> int" where
  "value_compare c (VInt a) (VInt b) = int_compare a b"
| "value_compare c (VInt a) (VReal b) = dbl_cmp (dbl_of_int a) b"
| "value_compare c (VReal a) (VInt b) = dbl_cmp a (dbl_of_int b)"
| "value_compare c (VReal a) (VReal b) = dbl_cmp a b"
| "value_compare c (VText a) (VText b) = (case c of None \<Rightarrow> bytes_compare a b | Some c \<Rightarrow> xCmp c a b)"
| "value_compare c (VBlob a) (VBlob b) = bytes_compare a b"
| "value_compare c a b = int_compare (int (value_class a)) (int (value_class b))"

text \<open>Rows are compared field by field, in the direction of each, until one of them ends.\<close>

fun row_compare :: "int \<Rightarrow> bool list \<Rightarrow> collseq option list \<Rightarrow> sqlvalue list \<Rightarrow> sqlvalue list \<Rightarrow> int" where
  "row_compare dflt (s # ss) (c # cs) (x # xs) (y # ys) =
     (let rc = value_compare c x y
      in if rc \<noteq> 0 then (if s then - rc else rc) else row_compare dflt ss cs xs ys)"
| "row_compare dflt _ _ _ _ = dflt"

section \<open>One field\<close>

definition key_cell :: "mem \<Rightarrow> bool" where
  "key_cell r \<longleftrightarrow> mem_value r \<noteq> VOther \<and> \<not> has r MEM_Zero
     \<and> (has r MEM_Null \<longrightarrow> \<not> has r MEM_Int \<and> \<not> has r MEM_Real \<and> \<not> has r MEM_Str \<and> \<not> has r MEM_Blob)"

definition no_nan :: "mem \<Rightarrow> bool" where
  "no_nan m \<longleftrightarrow> (\<forall>r. mem_value m = VReal r \<longrightarrow> \<not> dbl_is_nan r)"

lemma key_cell_cases:
  assumes "key_cell r"
  obtains (Int) "has r MEM_Int" "mem_value r = VInt (u_i r)"
  | (Real) "\<not> has r MEM_Int" "has r MEM_Real" "mem_value r = VReal (u_r r)"
  | (Text) "\<not> has r MEM_Int" "\<not> has r MEM_Real" "has r MEM_Str" "mem_value r = VText (zdata r)"
  | (Blob) "\<not> has r MEM_Int" "\<not> has r MEM_Real" "\<not> has r MEM_Str" "has r MEM_Blob" "mem_value r = VBlob (zdata r)"
  | (Null) "\<not> has r MEM_Int" "\<not> has r MEM_Real" "\<not> has r MEM_Str" "\<not> has r MEM_Blob" "mem_value r = VNull"
  using assms unfolding key_cell_def mem_value_def mem_bytes_def by (auto split: if_splits)

lemma rd_drop: "rd (drop k p) i = rd p (k + i)"
  by (auto simp: rd_def)

lemma first_type_byte:
  assumes t: "t < 2 ^ 32" and d: "drop idx p = putVarint32 (of_nat t) @ r"
  obtains b where "rd p idx = Some b" "t < 128 \<longrightarrow> unat b = t" "128 \<le> t \<longrightarrow> 128 \<le> unat b"
proof -
  have u: "unat (of_nat t :: u32) = t" using t by (simp add: unat_of_nat)
  obtain b w where bw: "putVarint32 (of_nat t) = b # w" by (cases "putVarint32 (of_nat t :: u32)") auto
  have rd: "rd p idx = Some b" using rd_drop [of idx p 0] by (simp add: d bw)
  have g: "getVarint32 ((b # w) @ r) = Some (of_nat t, length (b # w))"
    using getVarint32_putVarint32 [of "of_nat t" r] by (simp add: bw)
  have small: "unat b = t" if "t < 128"
  proof -
    have "(of_nat t :: u32) < 0x80" using that u by (simp add: word_less_nat_alt)
    then have "b = ucast (of_nat t :: u32)" using bw by (simp add: putVarint32_def)
    then show ?thesis using that by (simp add: unsigned_ucast_eq u take_bit_nat_eq_self)
  qed
  have big: "128 \<le> unat b" if "128 \<le> t"
  proof (rule ccontr)
    assume "\<not> 128 \<le> unat b"
    then have "b < 0x80" by (simp add: word_less_nat_alt)
    then have "(ucast b :: u32) = of_nat t" using g by (simp add: getVarint32_def)
    then have "unat (ucast b :: u32) = t" using u by metis
    moreover have "unat (ucast b :: u32) = unat b" by (simp add: unsigned_ucast_eq take_bit_nat_eq_self_iff order_less_trans [OF unsigned_less])
    ultimately show False using that \<open>\<not> 128 \<le> unat b\<close> by simp
  qed
  show ?thesis using that rd small big by blast
qed

lemma stored_int:
  assumes "storable m" "mem_value m = VInt i"
  shows "has m MEM_Int" "\<not> has m MEM_Null" "\<not> has m MEM_Zero" "u_i m = i" "in_i64 (u_i m)"
    "field_bytes m ff = sqlite3VdbeSerialPut m (sqlite3VdbeSerialType m ff)"
  using assms(1) by (cases rule: value_cases; use assms(2) in \<open>simp add: field_bytes_def\<close>)+

lemma get_field_int:
  assumes "storable m" "mem_value m = VInt i"
  shows "\<exists>m' n. sqlite3VdbeSerialGet (field_bytes m ff @ r) (sqlite3VdbeSerialType m ff) q = Some (m', n) \<and> u_i m' = i"
  using serial_roundtrip_int [of m ff r q] stored_int [OF assms] stored_int(6) [OF assms, of ff] by simp

lemma Decode_field:
  assumes "storable m" "mem_value m = VInt i"
  shows "vdbeRecordDecodeInt (sqlite3VdbeSerialType m ff) (field_bytes m ff @ r) = Some i"
  using DecodeInt_field [of m ff r] stored_int [OF assms] stored_int(6) [OF assms, of ff] by simp

lemma get_field_real:
  assumes "storable m" "mem_value m = VReal x"
  shows "\<exists>m' n. sqlite3VdbeSerialGet (field_bytes m ff @ r) 7 q = Some (m', n) \<and> u_r m' = x"
proof -
  have t: "sqlite3VdbeSerialType m ff = 7" using serial_type_cases [OF assms(1), of ff x] assms(2) by simp
  have z: "u_r m = x" "\<not> has m MEM_Zero"
    using assms(1) by (cases rule: value_cases; use assms(2) in simp)+
  have "field_bytes m ff = put_be 8 x"
    using z by (simp add: field_bytes_def t sqlite3VdbeSerialPut_def sqlite3VdbeSerialTypeLen_def del: put_be.simps)
  then show ?thesis by (simp add: get_real del: put_be.simps)
qed

lemma field_content:
  assumes "storable m" "mem_value m = VText z \<or> mem_value m = VBlob z"
  shows "field_bytes m ff = z"
proof -
  have t: "sqlite3VdbeSerialType m ff \<ge> 12"
    using serial_type_cases [OF assms(1), of ff undefined z] assms(2) by auto
  show ?thesis
    using assms(1) by (cases rule: value_cases;
      use assms(2) t in \<open>simp add: field_bytes_def sqlite3VdbeSerialPut_def mem_bytes_def\<close>)
qed

text \<open>The result of comparing one field: the sign of the comparison and, when it is zero, the
  serial type.\<close>

definition field_result :: "nat \<Rightarrow> int \<Rightarrow> (nat \<times> int) option option \<Rightarrow> bool" where
  "field_result t rc res \<longleftrightarrow> (\<exists>t'. res = Some (Some (t', rc)) \<and> (rc = 0 \<longrightarrow> t' = t))"

text \<open>The field \<open>m\<close> stands at the header position \<open>idx\<close> and the body position \<open>d\<close>.\<close>

definition field_at :: "nat \<Rightarrow> mem \<Rightarrow> bytes \<Rightarrow> nat \<Rightarrow> nat \<Rightarrow> bool" where
  "field_at ff m p idx d \<longleftrightarrow> storable m \<and> no_nan m
     \<and> (\<exists>w. drop idx p = putVarint32 (of_nat (sqlite3VdbeSerialType m ff)) @ w)
     \<and> (\<exists>w. drop d p = field_bytes m ff @ w) \<and> d + length (field_bytes m ff) \<le> length p"

lemma field_at_type:
  assumes "field_at ff m p idx d"
  shows "\<exists>b. rd p idx = Some b \<and> (sqlite3VdbeSerialType m ff < 128 \<longrightarrow> unat b = sqlite3VdbeSerialType m ff)
      \<and> (128 \<le> sqlite3VdbeSerialType m ff \<longrightarrow> 128 \<le> unat b)"
    and "\<exists>k. getVarint32 (drop idx p) = Some (of_nat (sqlite3VdbeSerialType m ff), k)"
    and "unat (of_nat (sqlite3VdbeSerialType m ff) :: u32) = sqlite3VdbeSerialType m ff"
proof -
  have m: "storable m" using assms by (simp add: field_at_def)
  obtain w where w: "drop idx p = putVarint32 (of_nat (sqlite3VdbeSerialType m ff)) @ w"
    using assms by (auto simp: field_at_def)
  note t = serial_type_less [OF m, of ff]
  obtain b where "rd p idx = Some b" "sqlite3VdbeSerialType m ff < 128 \<longrightarrow> unat b = sqlite3VdbeSerialType m ff"
      "128 \<le> sqlite3VdbeSerialType m ff \<longrightarrow> 128 \<le> unat b"
    using first_type_byte [OF t w] .
  then show "\<exists>b. rd p idx = Some b \<and> (sqlite3VdbeSerialType m ff < 128 \<longrightarrow> unat b = sqlite3VdbeSerialType m ff)
      \<and> (128 \<le> sqlite3VdbeSerialType m ff \<longrightarrow> 128 \<le> unat b)" by blast
  show "\<exists>k. getVarint32 (drop idx p) = Some (of_nat (sqlite3VdbeSerialType m ff), k)"
    using w by (simp add: getVarint32_putVarint32)
  show "unat (of_nat (sqlite3VdbeSerialType m ff) :: u32) = sqlite3VdbeSerialType m ff"
    using t by (simp add: unat_of_nat)
qed

lemma rhs_integer_eq:
  assumes f: "field_at ff m p idx d" and r: "mem_value r = VInt (u_i r)"
  shows "field_result (sqlite3VdbeSerialType m ff) (value_compare c (mem_value m) (mem_value r))
    (map_option Some (rhs_integer p idx d r))"
proof -
  let ?t = "sqlite3VdbeSerialType m ff"
  obtain b w where b: "rd p idx = Some b" "?t < 128 \<longrightarrow> unat b = ?t" "128 \<le> ?t \<longrightarrow> 128 \<le> unat b"
      and w: "drop d p = field_bytes m ff @ w" and m: "storable m"
    using field_at_type(1) [OF f] f by (auto simp: field_at_def)
  note tc = serial_type_cases [OF m, of ff]
  show ?thesis
  proof (cases "mem_value m")
    case (VInt a)
    then have "?t \<in> {1, 2, 3, 4, 5, 6, 8, 9}" using tc by blast
    moreover have "vdbeRecordDecodeInt ?t (drop d p) = Some a" using Decode_field [OF m VInt] by (simp add: w)
    ultimately show ?thesis using b VInt unfolding r
      by (auto simp: field_result_def rhs_integer_def int_compare_def)
  next
    case (VReal x)
    then have "?t = 7" using tc by blast
    moreover obtain m' n where "sqlite3VdbeSerialGet (drop d p) 7 r = Some (m', n)" "u_r m' = x"
      using get_field_real [OF m VReal, of ff w r] by (auto simp: w)
    ultimately show ?thesis using b VReal unfolding r by (simp add: field_result_def rhs_integer_def dbl_cmp_def)
  next
    case VNull
    then have "?t = 0" using tc by blast
    then show ?thesis using b VNull unfolding r by (simp add: field_result_def rhs_integer_def int_compare_def)
  next
    case (VText z)
    then have "12 \<le> unat b" using b tc by (cases "?t < 128") auto
    then show ?thesis using b VText unfolding r by (simp add: field_result_def rhs_integer_def int_compare_def)
  next
    case (VBlob z)
    then have "12 \<le> unat b" using b tc by (cases "?t < 128") auto
    then show ?thesis using b VBlob unfolding r by (simp add: field_result_def rhs_integer_def int_compare_def)
  qed (use m in \<open>simp add: storable_def\<close>)
qed

lemma rhs_real_eq:
  assumes f: "field_at ff m p idx d" and r: "mem_value r = VReal (u_r r)"
  shows "field_result (sqlite3VdbeSerialType m ff) (value_compare c (mem_value m) (mem_value r))
    (map_option Some (rhs_real p idx d r))"
proof -
  let ?t = "sqlite3VdbeSerialType m ff"
  obtain b w where b: "rd p idx = Some b" "?t < 128 \<longrightarrow> unat b = ?t" "128 \<le> ?t \<longrightarrow> 128 \<le> unat b"
      and w: "drop d p = field_bytes m ff @ w" and m: "storable m"
    using field_at_type(1) [OF f] f by (auto simp: field_at_def)
  note tc = serial_type_cases [OF m, of ff]
  show ?thesis
  proof (cases "mem_value m")
    case (VInt a)
    then have "?t \<in> {1, 2, 3, 4, 5, 6, 8, 9}" using tc by blast
    moreover obtain m' n where "sqlite3VdbeSerialGet (drop d p) ?t r = Some (m', n)" "u_i m' = a"
      using get_field_int [OF m VInt, of ff w r] by (auto simp: w)
    ultimately show ?thesis using b VInt unfolding r
      by (auto simp: field_result_def rhs_real_def dbl_cmp_def)
  next
    case (VReal x)
    then have "?t = 7" using tc by blast
    moreover obtain m' n where "sqlite3VdbeSerialGet (drop d p) 7 r = Some (m', n)" "u_r m' = x"
      using get_field_real [OF m VReal, of ff w r] by (auto simp: w)
    ultimately show ?thesis using b VReal unfolding r by (simp add: field_result_def rhs_real_def dbl_cmp_def)
  next
    case VNull
    then have "?t = 0" using tc by blast
    then show ?thesis using b VNull unfolding r by (simp add: field_result_def rhs_real_def int_compare_def)
  next
    case (VText z)
    then have "12 \<le> unat b" using b tc by (cases "?t < 128") auto
    then show ?thesis using b VText unfolding r by (simp add: field_result_def rhs_real_def int_compare_def)
  next
    case (VBlob z)
    then have "12 \<le> unat b" using b tc by (cases "?t < 128") auto
    then show ?thesis using b VBlob unfolding r by (simp add: field_result_def rhs_real_def int_compare_def)
  qed (use m in \<open>simp add: storable_def\<close>)
qed

lemma rhs_string_eq:
  assumes f: "field_at ff m p idx d" and r: "mem_value r = VText (zdata r)"
    and c: "\<forall>c'. c = Some c' \<longrightarrow> cenc c' = e"
  shows "field_result (sqlite3VdbeSerialType m ff) (value_compare c (mem_value m) (mem_value r))
    (rhs_string p idx d r c e)"
proof -
  let ?t = "sqlite3VdbeSerialType m ff"
  obtain k w where g: "getVarint32 (drop idx p) = Some (of_nat ?t, k)"
      and w: "drop d p = field_bytes m ff @ w" and m: "storable m"
    using field_at_type(2) [OF f] f by (auto simp: field_at_def)
  note tc = serial_type_cases [OF m, of ff]
  note u = field_at_type(3) [OF f]
  show ?thesis
  proof (cases "mem_value m")
    case (VInt a)
    then have "?t \<in> {1, 2, 3, 4, 5, 6, 8, 9}" using tc by blast
    then have "?t < 12" by auto
    then show ?thesis using g u VInt unfolding r by (simp add: field_result_def rhs_string_def int_compare_def)
  next
    case (VReal x)
    then have "?t = 7" using tc by blast
    then show ?thesis using g u VReal unfolding r by (simp add: field_result_def rhs_string_def int_compare_def)
  next
    case VNull
    then have "?t = 0" using tc by blast
    then show ?thesis using g u VNull unfolding r by (simp add: field_result_def rhs_string_def int_compare_def)
  next
    case (VText z)
    then have t: "?t = length z * 2 + 13" using tc by blast
    have z: "field_bytes m ff = z" using field_content [OF m] VText by blast
    have "d + length z \<le> length p" using f by (simp add: field_at_def z)
    moreover have "odd ?t" "(?t - 12) div 2 = length z" "\<not> ?t < 12" by (simp_all add: t)
    ultimately show ?thesis using g u VText c unfolding r
      by (cases c) (simp_all add: field_result_def rhs_string_def w z vdbeCompareMemString_def bytes_compare_def Let_def)
  next
    case (VBlob z)
    then have "?t = length z * 2 + 12" using tc by blast
    then show ?thesis using g u VBlob unfolding r by (simp add: field_result_def rhs_string_def int_compare_def)
  qed (use m in \<open>simp add: storable_def\<close>)
qed

lemma rhs_blob_eq:
  assumes f: "field_at ff m p idx d" and r: "mem_value r = VBlob (zdata r)"
  shows "field_result (sqlite3VdbeSerialType m ff) (value_compare c (mem_value m) (mem_value r))
    (rhs_blob p idx d r)"
proof -
  let ?t = "sqlite3VdbeSerialType m ff"
  obtain k w where g: "getVarint32 (drop idx p) = Some (of_nat ?t, k)"
      and w: "drop d p = field_bytes m ff @ w" and m: "storable m"
    using field_at_type(2) [OF f] f by (auto simp: field_at_def)
  note tc = serial_type_cases [OF m, of ff]
  note u = field_at_type(3) [OF f]
  show ?thesis
  proof (cases "mem_value m")
    case (VInt a)
    then have "?t \<in> {1, 2, 3, 4, 5, 6, 8, 9}" using tc by blast
    then have "?t < 12" by auto
    then show ?thesis using g u VInt unfolding r by (simp add: field_result_def rhs_blob_def int_compare_def)
  next
    case (VReal x)
    then have "?t = 7" using tc by blast
    then show ?thesis using g u VReal unfolding r by (simp add: field_result_def rhs_blob_def int_compare_def)
  next
    case VNull
    then have "?t = 0" using tc by blast
    then show ?thesis using g u VNull unfolding r by (simp add: field_result_def rhs_blob_def int_compare_def)
  next
    case (VText z)
    then have "?t = length z * 2 + 13" using tc by blast
    then show ?thesis using g u VText unfolding r by (simp add: field_result_def rhs_blob_def int_compare_def)
  next
    case (VBlob z)
    then have t: "?t = length z * 2 + 12" using tc by blast
    have z: "field_bytes m ff = z" using field_content [OF m] VBlob by blast
    have "d + length z \<le> length p" using f by (simp add: field_at_def z)
    moreover have "even ?t" "(?t - 12) div 2 = length z" "\<not> ?t < 12" by (simp_all add: t)
    ultimately show ?thesis using g u VBlob unfolding r
      by (simp add: field_result_def rhs_blob_def w z bytes_compare_def Let_def)
  qed (use m in \<open>simp add: storable_def\<close>)
qed

lemma rhs_null_eq:
  assumes f: "field_at ff m p idx d" and r: "mem_value r = VNull"
  shows "field_result (sqlite3VdbeSerialType m ff) (value_compare c (mem_value m) (mem_value r))
    (map_option Some (rhs_null p idx))"
proof -
  let ?t = "sqlite3VdbeSerialType m ff"
  obtain b where b: "rd p idx = Some b" "?t < 128 \<longrightarrow> unat b = ?t" "128 \<le> ?t \<longrightarrow> 128 \<le> unat b" and m: "storable m"
    using field_at_type(1) [OF f] f by (auto simp: field_at_def)
  note tc = serial_type_cases [OF m, of ff]
  have z: "b = 0 \<longleftrightarrow> unat b = 0" by (simp add: unat_eq_0)
  show ?thesis
  proof (cases "mem_value m")
    case (VInt a)
    then have "?t \<in> {1, 2, 3, 4, 5, 6, 8, 9}" using tc by blast
    then have "b \<noteq> 0" using b z by auto
    then show ?thesis using b VInt r by (simp add: field_result_def rhs_null_def int_compare_def)
  next
    case (VReal x)
    then have "?t = 7" using tc by blast
    then have "b \<noteq> 0" using b z by auto
    then show ?thesis using b VReal r by (simp add: field_result_def rhs_null_def int_compare_def)
  next
    case VNull
    then have "?t = 0" using tc by blast
    then have "b = 0" using b z by auto
    then show ?thesis using b VNull r \<open>?t = 0\<close> by (simp add: field_result_def rhs_null_def int_compare_def)
  next
    case (VText s)
    then have "b \<noteq> 0" using b z tc by (cases "?t < 128") auto
    then show ?thesis using b VText r by (simp add: field_result_def rhs_null_def int_compare_def)
  next
    case (VBlob s)
    then have "12 \<le> unat b" using b tc by (cases "?t < 128") auto
    then have "b \<noteq> 0" using z by auto
    then show ?thesis using b VBlob r by (simp add: field_result_def rhs_null_def int_compare_def)
  qed (use m in \<open>simp add: storable_def\<close>)
qed

lemma compare_field_eq:
  assumes f: "field_at ff m p idx d" and r: "key_cell r" and c: "\<forall>c'. c = Some c' \<longrightarrow> cenc c' = e"
  shows "field_result (sqlite3VdbeSerialType m ff) (value_compare c (mem_value m) (mem_value r))
    (compare_field p idx d r c e)"
  using r
proof (cases rule: key_cell_cases)
  case Int
  then show ?thesis using rhs_integer_eq [OF f, of r c] by (simp add: compare_field_def)
next
  case Real
  then show ?thesis using rhs_real_eq [OF f, of r c] by (simp add: compare_field_def)
next
  case Text
  then show ?thesis using rhs_string_eq [OF f _ c, of r] by (simp add: compare_field_def)
next
  case Blob
  then show ?thesis using rhs_blob_eq [OF f, of r c] by (simp add: compare_field_def)
next
  case Null
  then show ?thesis using rhs_null_eq [OF f, of r c] by (simp add: compare_field_def)
qed

section \<open>The whole record\<close>

definition key_ok :: "nat \<Rightarrow> mem list \<Rightarrow> unpacked \<Rightarrow> bool" where
  "key_ok ff ms p \<longleftrightarrow> row_ok ff ms \<and> ms \<noteq> [] \<and> (\<forall>m \<in> set ms. no_nan m)
     \<and> 0 < nField p \<and> nField p \<le> length ms \<and> length (aMem p) = nField p
     \<and> nField p \<le> length (aSortOrder p) \<and> nField p \<le> length (aColl p)
     \<and> (\<forall>r \<in> set (aMem p). key_cell r) \<and> (\<forall>c. Some c \<in> set (aColl p) \<longrightarrow> cenc c = keyEnc p)"

definition key_compare :: "nat \<Rightarrow> mem list \<Rightarrow> unpacked \<Rightarrow> int" where
  "key_compare i ms p = row_compare (default_rc p) (drop i (aSortOrder p)) (drop i (aColl p))
     (map mem_value (drop i ms)) (map mem_value (drop i (aMem p)))"

lemma field_at_record:
  assumes ok: "row_ok ff ms" and n: "\<forall>m \<in> set ms. no_nan m" and i: "i < length ms"
  shows "field_at ff (ms ! i) (record_of ff ms) (hpos ff ms i) (dpos ff ms i)"
proof -
  have "hdr_len ff ms \<le> length (record_of ff ms)" using dpos_le [OF ok, of 0] by (simp add: dpos_def)
  then have h: "has_header ff ms (record_of ff ms)" by (simp add: has_header_def)
  obtain r where "drop (hpos ff ms i) (record_of ff ms) = record_header ff (drop i ms) @ r"
    using drop_hpos [OF ok h, of i] i by auto
  then have "drop (hpos ff ms i) (record_of ff ms)
      = putVarint32 (of_nat (sqlite3VdbeSerialType (ms ! i) ff)) @ record_header ff (drop (Suc i) ms) @ r"
    using i by (simp add: Cons_nth_drop_Suc [symmetric])
  moreover have "dpos ff ms i + length (field_bytes (ms ! i) ff) \<le> length (record_of ff ms)"
    using dpos_le [OF ok, of "Suc i"] i by (simp add: dpos_Suc)
  ultimately show ?thesis using record_at [OF ok i] ok n i by (auto simp: field_at_def row_ok_def)
qed

lemma key_compare_step:
  assumes k: "key_ok ff ms p" and i: "i < nField p"
  shows "key_compare i ms p =
    (let rc = value_compare (aColl p ! i) (mem_value (ms ! i)) (mem_value (aMem p ! i))
     in if rc \<noteq> 0 then (if aSortOrder p ! i then - rc else rc) else key_compare (Suc i) ms p)"
  using k i unfolding key_compare_def by (simp add: key_ok_def Cons_nth_drop_Suc [symmetric])

lemma key_compare_end: "key_ok ff ms p \<Longrightarrow> key_compare (nField p) ms p = default_rc p"
  by (simp add: key_compare_def key_ok_def)

lemma compare_loop_eq:
  assumes k: "key_ok ff ms p" and i: "i < nField p"
  shows "compare_loop (record_of ff ms) p (hdr_len ff ms) i (hpos ff ms i) (dpos ff ms i)
    = Some (key_compare i ms p, errCode p)"
  using i
proof (induction "nField p - i" arbitrary: i rule: less_induct)
  case less
  let ?m = "ms ! i" and ?rc = "value_compare (aColl p ! i) (mem_value (ms ! i)) (mem_value (aMem p ! i))"
  have ok: "row_ok ff ms" and im: "i < length ms" using k less.prems by (simp_all add: key_ok_def)
  have m: "storable ?m" using ok im by (simp add: row_ok_def)
  have "key_cell (aMem p ! i)" "\<forall>c'. aColl p ! i = Some c' \<longrightarrow> cenc c' = keyEnc p"
    using k less.prems by (auto simp: key_ok_def intro: nth_mem) (metis nth_mem order_less_le_trans)
  then obtain t' where t': "compare_field (record_of ff ms) (hpos ff ms i) (dpos ff ms i) (aMem p ! i) (aColl p ! i) (keyEnc p)
      = Some (Some (t', ?rc))" "?rc = 0 \<longrightarrow> t' = sqlite3VdbeSerialType ?m ff"
    using compare_field_eq [OF field_at_record [OF ok _ im], of "aMem p ! i" "aColl p ! i" "keyEnc p"] k
    unfolding key_ok_def field_result_def by blast
  show ?case
  proof (cases "?rc = 0")
    case False
    then show ?thesis using t'(1) key_compare_step [OF k less.prems] by (simp add: compare_loop.simps Let_def)
  next
    case True
    then have t: "t' = sqlite3VdbeSerialType ?m ff" using t' by blast
    have d: "dpos ff ms i + sqlite3VdbeSerialTypeLen t' = dpos ff ms (Suc i)"
      using dpos_Suc [OF im, of ff] serial_type_len [OF m, of ff] by (simp add: t)
    have h: "hpos ff ms i + varintLen (of_nat t') = hpos ff ms (Suc i)"
      using hpos_Suc [OF im, of ff] serial_type_less [OF m, of ff] by (simp add: t length_putVarint32 ucast_of_nat32)
    have dl: "dpos ff ms (Suc i) \<le> length (record_of ff ms)" using dpos_le [OF ok, of "Suc i"] im by simp
    have hl: "hpos ff ms (Suc i) < hdr_len ff ms" if "Suc i < nField p"
      using hpos_less [OF ok, of "Suc i"] that k by (simp add: key_ok_def)
    have step: "compare_loop (record_of ff ms) p (hdr_len ff ms) i (hpos ff ms i) (dpos ff ms i) =
        (if Suc i < nField p then compare_loop (record_of ff ms) p (hdr_len ff ms) (Suc i) (hpos ff ms (Suc i)) (dpos ff ms (Suc i))
         else Some (default_rc p, errCode p))"
      using t'(1) True dl hl by (subst compare_loop.simps) (auto simp: Let_def d h)
    show ?thesis
    proof (cases "Suc i < nField p")
      case True
      then have "nField p - Suc i < nField p - i" by linarith
      then show ?thesis using step True less.hyps [OF _ True] key_compare_step [OF k less.prems] \<open>?rc = 0\<close> by simp
    next
      case False
      then have "Suc i = nField p" using less.prems by simp
      then show ?thesis using step key_compare_step [OF k less.prems] key_compare_end [OF k] \<open>?rc = 0\<close> by simp
    qed
  qed
qed

lemma RecordCompare_eq:
  assumes k: "key_ok ff ms p"
  shows "sqlite3VdbeRecordCompare (record_of ff ms) p = Some (key_compare 0 ms p, errCode p)"
proof -
  have ok: "row_ok ff ms" and n: "0 < nField p" using k by (simp_all add: key_ok_def)
  have h: "hdr_len ff ms \<le> length (record_of ff ms)" using dpos_le [OF ok, of 0] by (simp add: dpos_def)
  have "hdr_len ff ms \<le> 98307" using ok by (simp add: row_ok_def)
  then have u: "unat (of_nat (hdr_len ff ms) :: u32) = hdr_len ff ms" by (simp add: unat_of_nat)
  have g: "getVarint32 (record_of ff ms) = Some (of_nat (hdr_len ff ms), hpos ff ms 0)"
    by (simp add: record_of_split getVarint32_putVarint32 hpos_def)
  show ?thesis
    using compare_loop_eq [OF k n] h
    by (simp add: sqlite3VdbeRecordCompare_def vdbeRecordCompareWithSkip_def g u dpos_def)
qed

text \<open>With at most 13 fields the header size is a single byte, and below 64 when the first
  field takes one byte.\<close>

lemma type_varint_5: "storable m \<Longrightarrow> length (putVarint32 (of_nat (sqlite3VdbeSerialType m ff))) \<le> 5"
proof -
  assume m: "storable m"
  let ?t = "sqlite3VdbeSerialType m ff"
  have t: "?t < 2 ^ 32" by (rule serial_type_less [OF m])
  then have u: "unat (of_nat ?t :: u64) = ?t" by (simp add: unat_of_nat)
  have "length (putVarint32 (of_nat ?t)) = varintLen (of_nat ?t)"
    using t by (simp add: length_putVarint32 ucast_of_nat32)
  also have "\<dots> = length (putVarint64_buf (of_nat ?t))" using t by (intro varintLen_small) (simp add: u)
  also have "\<dots> \<le> Suc 4" using t by (intro length_putVarint64_buf) (simp add: u)
  finally show ?thesis by simp
qed

lemma header_le: "\<forall>m \<in> set ms. storable m \<Longrightarrow> length (record_header ff ms) \<le> 5 * length ms"
proof (induction ms)
  case (Cons m ms)
  then show ?case using type_varint_5 [of m ff] by simp
qed simp

lemma short_header:
  assumes k: "key_ok ff ms p" and n: "length ms \<le> 13"
  shows "hpos ff ms 0 = 1" "rd (record_of ff ms) 0 = Some (of_nat (hdr_len ff ms))"
    "unat (of_nat (hdr_len ff ms) :: u8) = hdr_len ff ms"
    "sqlite3VdbeSerialType (ms ! 0) ff < 128 \<Longrightarrow> hdr_len ff ms < 64"
proof -
  obtain m ms' where ms: "ms = m # ms'" using k by (cases ms) (auto simp: key_ok_def)
  have st: "\<forall>m \<in> set ms. storable m" using k by (simp add: key_ok_def row_ok_def)
  have l: "length (record_header ff ms) \<le> 65" using header_le [OF st, of ff] n by linarith
  then have h: "hdr_len ff ms = length (record_header ff ms) + 1" by (simp add: hdr_len_def header_size_def)
  then have h66: "hdr_len ff ms < 128" using l by linarith
  have u: "unat (of_nat (hdr_len ff ms) :: u32) = hdr_len ff ms" using h66 by (simp add: unat_of_nat)
  have "(of_nat (hdr_len ff ms) :: u32) < 0x80" using h66 u by (simp add: word_less_nat_alt)
  then have p: "putVarint32 (of_nat (hdr_len ff ms)) = [ucast (of_nat (hdr_len ff ms) :: u32)]"
    by (simp add: putVarint32_def)
  have c: "ucast (of_nat (hdr_len ff ms) :: u32) = (of_nat (hdr_len ff ms) :: u8)"
    by (rule bit_word_eqI) (simp add: bit_simps)
  show "hpos ff ms 0 = 1" by (simp add: hpos_def p)
  show "rd (record_of ff ms) 0 = Some (of_nat (hdr_len ff ms))" by (simp add: record_of_split p c)
  show "unat (of_nat (hdr_len ff ms) :: u8) = hdr_len ff ms" using h66 by (simp add: unat_of_nat)
  assume "sqlite3VdbeSerialType (ms ! 0) ff < 128"
  then have "length (record_header ff ms) = 1 + length (record_header ff ms')"
    using st by (simp add: ms putVarint32_def word_less_nat_alt unat_of_nat)
  moreover have "length (record_header ff ms') \<le> 5 * length ms'" using header_le [of ms' ff] st by (simp add: ms)
  ultimately show "hdr_len ff ms < 64" using h n by (simp add: ms)
qed

lemma Skip_eq:
  assumes k: "key_ok ff ms p" and n: "length ms \<le> 13" and f: "1 < nField p"
  shows "vdbeRecordCompareWithSkip (record_of ff ms) p True = Some (key_compare 1 ms p, errCode p)"
proof -
  have ok: "row_ok ff ms" and im: "0 < length ms" and m: "storable (ms ! 0)"
    using k by (auto simp: key_ok_def row_ok_def)
  let ?t = "sqlite3VdbeSerialType (ms ! 0) ff"
  note s = short_header [OF k n]
  have fa: "field_at ff (ms ! 0) (record_of ff ms) (hpos ff ms 0) (dpos ff ms 0)"
    using field_at_record [OF ok _ im] k by (simp add: key_ok_def)
  then obtain w where w: "drop 1 (record_of ff ms) = putVarint32 (of_nat ?t) @ w" by (auto simp: field_at_def s(1))
  have g: "getVarint32 (drop 1 (record_of ff ms)) = Some (of_nat ?t, length (putVarint32 (of_nat ?t)))"
    using w by (simp add: getVarint32_putVarint32)
  have hp: "1 + length (putVarint32 (of_nat ?t)) = hpos ff ms 1" using hpos_Suc [OF im, of ff] s(1) by simp
  have dp: "hdr_len ff ms + sqlite3VdbeSerialTypeLen ?t = dpos ff ms 1"
    using dpos_Suc [OF im, of ff] serial_type_len [OF m, of ff] by (simp add: dpos_def)
  show ?thesis
    using compare_loop_eq [OF k f] hp dp field_at_type(3) [OF fa]
    by (simp add: vdbeRecordCompareWithSkip_def g [unfolded One_nat_def] s(2,3))
qed

text \<open>The fast paths: which side is decided by the first field, and the rest by the loop.\<close>

lemma first_field:
  assumes k: "key_ok ff ms p"
  shows "key_compare 0 ms p =
    (let rc = value_compare (aColl p ! 0) (mem_value (ms ! 0)) (mem_value (aMem p ! 0))
     in if rc \<noteq> 0 then (if aSortOrder p ! 0 then - rc else rc) else key_compare 1 ms p)"
  using key_compare_step [OF k, of 0] k unfolding One_nat_def by (simp add: key_ok_def)

definition sides_ok :: "unpacked \<Rightarrow> bool" where
  "sides_ok p \<longleftrightarrow> r1 p = (if aSortOrder p ! 0 then 1 else -1) \<and> r2 p = - r1 p"

lemma rest_eq:
  assumes k: "key_ok ff ms p" and n: "length ms \<le> 13"
  shows "(if nField p > 1 then vdbeRecordCompareWithSkip (record_of ff ms) p True
      else Some (default_rc p, errCode p)) = Some (key_compare 1 ms p, errCode p)"
proof (cases "nField p > 1")
  case False
  then have "nField p = 1" using k by (simp add: key_ok_def)
  then show ?thesis using key_compare_end [OF k] by simp
qed (simp add: Skip_eq [OF k n])

lemma CompareInt_decode:
  assumes "rd q 0 = Some b0" "rd q 1 = Some b1" "unat b1 \<in> {1, 2, 3, 4, 5, 6, 8, 9}"
  shows "vdbeRecordCompareInt q p = do {
      lhs \<leftarrow> vdbeRecordDecodeInt (unat b1) (drop (unat (b0 AND 0x3F)) q);
      if u_i (aMem p ! 0) > lhs then Some (r1 p, errCode p) else if u_i (aMem p ! 0) < lhs then Some (r2 p, errCode p)
      else if nField p > 1 then vdbeRecordCompareWithSkip q p True
      else Some (default_rc p, errCode p) }"
  using assms(3)
  by (elim insertE emptyE;
      simp add: vdbeRecordCompareInt_def vdbeRecordDecodeInt_def assms(1) assms(2) [unfolded One_nat_def] Let_def Option.bind_assoc)

lemma CompareInt_eq:
  assumes k: "key_ok ff ms p" and n: "length ms \<le> 13" and s: "sides_ok p" and i: "has (aMem p ! 0) MEM_Int"
  shows "\<exists>rc. vdbeRecordCompareInt (record_of ff ms) p = Some (rc, errCode p) \<and> sgn rc = sgn (key_compare 0 ms p)"
proof -
  let ?m = "ms ! 0" let ?t = "sqlite3VdbeSerialType ?m ff" let ?r = "aMem p ! 0"
  have ok: "row_ok ff ms" and im: "0 < length ms" and m: "storable ?m"
    using k by (auto simp: key_ok_def row_ok_def)
  have r: "mem_value ?r = VInt (u_i ?r)"
  proof -
    have "key_cell ?r" using k by (auto simp: key_ok_def intro: nth_mem)
    then show ?thesis using i by (cases rule: key_cell_cases) auto
  qed
  have fa: "field_at ff ?m (record_of ff ms) (hpos ff ms 0) (dpos ff ms 0)"
    using field_at_record [OF ok _ im] k by (simp add: key_ok_def)
  note sh = short_header [OF k n]
  obtain b where b: "rd (record_of ff ms) 1 = Some b" "?t < 128 \<longrightarrow> unat b = ?t" "128 \<le> ?t \<longrightarrow> 128 \<le> unat b"
    using field_at_type(1) [OF fa] by (auto simp: sh(1))
  obtain w where w: "drop (hdr_len ff ms) (record_of ff ms) = field_bytes ?m ff @ w"
    using fa by (auto simp: field_at_def dpos_def)
  note tc = serial_type_cases [OF m, of ff]
  note b1 = b(1) [unfolded One_nat_def]
  show ?thesis
  proof (cases "\<exists>a. mem_value ?m = VInt a")
    case True
    then obtain a where a: "mem_value ?m = VInt a" by blast
    then have t: "?t \<in> {1, 2, 3, 4, 5, 6, 8, 9}" using tc by blast
    then have ub: "unat b = ?t" using b by auto
    have "hdr_len ff ms < 64" using sh(4) t by auto
    then have "hdr_len ff ms < 2 ^ 6" by simp
    then have "take_bit 6 (hdr_len ff ms) = hdr_len ff ms" by (simp only: take_bit_nat_eq_self)
    moreover have "(of_nat (hdr_len ff ms) AND 0x3F :: u8) = take_bit 6 (of_nat (hdr_len ff ms))"
      by (simp add: take_bit_eq_mask mask_eq_exp_minus_1)
    ultimately have h: "unat (of_nat (hdr_len ff ms) AND 0x3F :: u8) = hdr_len ff ms"
      by (simp add: unsigned_take_bit_eq sh(3))
    have d: "vdbeRecordDecodeInt ?t (drop (hdr_len ff ms) (record_of ff ms)) = Some a"
      using Decode_field [OF m a] by (simp add: w)
    have "vdbeRecordCompareInt (record_of ff ms) p =
        (if u_i ?r > a then Some (r1 p, errCode p) else if u_i ?r < a then Some (r2 p, errCode p)
         else Some (key_compare 1 ms p, errCode p))"
      using CompareInt_decode [OF sh(2) b(1), of p] t rest_eq [OF k n] by (simp add: ub h d)
    then show ?thesis using first_field [OF k] s
      by (simp add: a r int_compare_def sides_ok_def)
  next
    case False
    then have "unat b \<notin> {1, 2, 3, 4, 5, 6, 8, 9}"
      using tc b m by (cases "mem_value ?m"; cases "?t < 128") (auto simp: storable_def)
    then have "vdbeRecordCompareInt (record_of ff ms) p = sqlite3VdbeRecordCompare (record_of ff ms) p"
      unfolding vdbeRecordCompareInt_def by (simp add: sh(2) b1 Let_def)
    then show ?thesis by (simp add: RecordCompare_eq [OF k])
  qed
qed

lemma sint_serial_type:
  assumes "storable m"
  shows "sint (of_nat (sqlite3VdbeSerialType m ff) :: u32) = int (sqlite3VdbeSerialType m ff)"
proof -
  let ?t = "sqlite3VdbeSerialType m ff"
  have "?t \<le> 2000000013"
    using assms
    by (rule value_cases) (use assms in \<open>auto simp: sqlite3VdbeSerialType_def Let_def storable_def mem_bytes_def
      dest: int_type_range [of m ff] intro: order_trans [OF mod_less_eq_dividend]\<close>)
  then show ?thesis by (simp add: signed_of_nat signed_take_bit_int_eq_self)
qed

lemma CompareString_eq:
  assumes k: "key_ok ff ms p" and n: "length ms \<le> 13" and s: "sides_ok p"
    and r: "mem_value (aMem p ! 0) = VText (zdata (aMem p ! 0))" and c: "aColl p ! 0 = None"
  shows "\<exists>rc. vdbeRecordCompareString (record_of ff ms) p = Some (rc, errCode p) \<and> sgn rc = sgn (key_compare 0 ms p)"
proof -
  let ?m = "ms ! 0" let ?t = "sqlite3VdbeSerialType ?m ff" let ?r = "aMem p ! 0"
  have ok: "row_ok ff ms" and im: "0 < length ms" and m: "storable ?m"
    using k by (auto simp: key_ok_def row_ok_def)
  have fa: "field_at ff ?m (record_of ff ms) (hpos ff ms 0) (dpos ff ms 0)"
    using field_at_record [OF ok _ im] k by (simp add: key_ok_def)
  note sh = short_header [OF k n]
  obtain g where g: "getVarint32 (drop 1 (record_of ff ms)) = Some (of_nat ?t, g)"
    using field_at_type(2) [OF fa] by (auto simp: sh(1))
  note u = field_at_type(3) [OF fa] g [unfolded One_nat_def]
  obtain w where w: "drop (hdr_len ff ms) (record_of ff ms) = field_bytes ?m ff @ w"
    using fa by (auto simp: field_at_def dpos_def)
  note tc = serial_type_cases [OF m, of ff]
  note u = u sint_serial_type [OF m, of ff]
  show ?thesis
  proof (cases "mem_value ?m")
    case (VText z)
    then have t: "?t = length z * 2 + 13" using tc by blast
    have z: "field_bytes ?m ff = z" using field_content [OF m] VText by blast
    have l: "hdr_len ff ms + length z \<le> length (record_of ff ms)" using fa by (simp add: field_at_def z dpos_def)
    have "odd ?t" "nat ((int ?t - 12) div 2) = length z" "\<not> ?t < 12" by (simp_all add: t)
    then have "vdbeRecordCompareString (record_of ff ms) p =
        (let rc = bytes_compare z (zdata ?r)
         in if rc = 0 then Some (key_compare 1 ms p, errCode p) else if rc > 0 then Some (r2 p, errCode p) else Some (r1 p, errCode p))"
      using rest_eq [OF k n] l
      by (simp add: vdbeRecordCompareString_def u sh(2,3) w z bytes_compare_def Let_def min.commute)
    then show ?thesis using first_field [OF k] s c r
      by (auto simp: VText Let_def sides_ok_def)
  next
    case (VBlob z)
    then have "?t = length z * 2 + 12" using tc by blast
    then have "even ?t" "\<not> ?t < 12" by simp_all
    then show ?thesis using first_field [OF k] s r
      by (simp add: VBlob vdbeRecordCompareString_def u int_compare_def sides_ok_def)
  next
    case (VInt a)
    then have "?t \<in> {1, 2, 3, 4, 5, 6, 8, 9}" using tc by blast
    then have "?t < 12" by auto
    then show ?thesis using first_field [OF k] s r
      by (simp add: VInt vdbeRecordCompareString_def u int_compare_def sides_ok_def)
  next
    case (VReal a)
    then have "?t = 7" using tc by blast
    then show ?thesis using first_field [OF k] s r
      by (simp add: VReal vdbeRecordCompareString_def u int_compare_def sides_ok_def)
  next
    case VNull
    then have "?t = 0" using tc by blast
    then show ?thesis using first_field [OF k] s r
      by (simp add: VNull vdbeRecordCompareString_def u int_compare_def sides_ok_def)
  qed (use m in \<open>simp add: storable_def\<close>)
qed

section \<open>Properties\<close>

text \<open>C4. The routine chosen by \<^verbatim>\<open>sqlite3VdbeFindCompare\<close>, the general one or a fast path, orders a
  record against a key lexicographically by value, in the direction of each field and by
  \<^verbatim>\<open>default_rc\<close> when the key is a prefix: the result has the sign of \<^const>\<open>row_compare\<close> and
  no corruption is reported. (Provided: the record is in the format, holds no NaN and has no
  more fields than the key description, and the collations are in the encoding of the key.)\<close>

theorem FindCompare_lexicographic:
  assumes "key_ok ff ms p" and "length ms \<le> nKeyFields p"
    and "sqlite3VdbeFindCompare p = (p', xRecordCompare)"
  shows "\<exists>rc. xRecordCompare (record_of ff ms) p' = Some (rc, errCode p)
    \<and> sgn rc = sgn (row_compare (default_rc p) (aSortOrder p) (aColl p) (map mem_value ms) (map mem_value (aMem p)))"
proof -
  define q where "q = (if aSortOrder p ! 0 then p\<lparr>r1 := 1, r2 := -1\<rparr> else p\<lparr>r1 := -1, r2 := 1\<rparr>)"
  have q: "key_ok ff ms q" "errCode q = errCode p" "aMem q = aMem p" "aColl q = aColl p"
      "key_compare 0 ms q = key_compare 0 ms p" "sides_ok q"
    using assms(1) by (simp_all add: q_def key_ok_def key_compare_def sides_ok_def)
  have f: "sqlite3VdbeFindCompare p = (if nKeyFields p \<le> 13 then
      if has (aMem p ! 0) MEM_Int then (q, vdbeRecordCompareInt)
      else if \<not> has (aMem p ! 0) (MEM_Real OR MEM_Null OR MEM_Blob) \<and> aColl p ! 0 = None then (q, vdbeRecordCompareString)
      else (q, sqlite3VdbeRecordCompare) else (p, sqlite3VdbeRecordCompare))"
    unfolding sqlite3VdbeFindCompare_def q_def [symmetric] Let_def q(3,4) ..
  have goal: "row_compare (default_rc p) (aSortOrder p) (aColl p) (map mem_value ms) (map mem_value (aMem p)) = key_compare 0 ms p"
    by (simp add: key_compare_def)
  have cell: "key_cell (aMem p ! 0)" using assms(1) by (auto simp: key_ok_def intro: nth_mem)
  consider (big) "13 < nKeyFields p" "p' = p" "xRecordCompare = sqlite3VdbeRecordCompare"
    | (int) "nKeyFields p \<le> 13" "has (aMem p ! 0) MEM_Int" "p' = q" "xRecordCompare = vdbeRecordCompareInt"
    | (str) "nKeyFields p \<le> 13" "\<not> has (aMem p ! 0) MEM_Int" "\<not> has (aMem p ! 0) (MEM_Real OR MEM_Null OR MEM_Blob)"
        "aColl p ! 0 = None" "p' = q" "xRecordCompare = vdbeRecordCompareString"
    | (gen) "p' = q" "xRecordCompare = sqlite3VdbeRecordCompare"
    using assms(3) unfolding f by (auto split: if_splits)
  then show ?thesis
  proof cases
    case big
    then show ?thesis using RecordCompare_eq [OF assms(1)] goal by simp
  next
    case int
    then show ?thesis using CompareInt_eq [OF q(1) _ q(6)] assms(2) q goal by simp
  next
    case str
    have n: "\<not> has (aMem p ! 0) MEM_Real" "\<not> has (aMem p ! 0) MEM_Null" "\<not> has (aMem p ! 0) MEM_Blob"
      using str(3) unfolding has_def and_or_eq_0 by simp_all
    have "mem_value (aMem p ! 0) = VText (zdata (aMem p ! 0))"
      using cell by (cases rule: key_cell_cases; use n str(2) in \<open>simp add: mem_value_def split: if_splits\<close>)
    then show ?thesis using CompareString_eq [OF q(1) _ q(6)] assms(2) q str goal by simp
  next
    case gen
    then show ?thesis using RecordCompare_eq [OF q(1)] q goal by simp
  qed
qed

theorem FindCompare_lexicographic_witness:
  "\<exists>p p' cmp rc. sqlite3VdbeFindCompare p = (p', cmp) \<and> aMem p = [int_mem 200] \<and> aSortOrder p = [True]
    \<and> cmp [2, 2, 1, 44] p' = Some (rc, 0) \<and> rc < 0"
proof -
  let ?p = "\<lparr>keyEnc = 1, nKeyFields = 1, aSortOrder = [True], aColl = [None], aMem = [int_mem 200], nField = 1,
     default_rc = 0, errCode = 0, r1 = 0, r2 = 0\<rparr>"
  have k: "key_ok 4 [int_mem 300] ?p"
    by (simp add: key_ok_def record_300) (simp add: no_nan_def key_cell_def mem_value_def int_mem_def)
  have f: "sqlite3VdbeFindCompare ?p = (?p\<lparr>r1 := 1, r2 := -1\<rparr>, vdbeRecordCompareInt)"
    by (simp add: sqlite3VdbeFindCompare_def) (simp add: int_mem_def)
  have v: "mem_value (int_mem i) = VInt i" for i by (simp add: mem_value_def int_mem_def)
  obtain rc where rc: "vdbeRecordCompareInt [2, 2, 1, 44] (?p\<lparr>r1 := 1, r2 := -1\<rparr>) = Some (rc, 0)" "sgn rc = -1"
    using FindCompare_lexicographic [OF k _ f] by (auto simp: record_300 v int_compare_def)
  then have "rc < 0" by (simp add: sgn_if split: if_splits)
  then show ?thesis using f rc(1) by - (rule exI [of _ ?p], simp)
qed

end
