(* ===== verification/Vdbe.thy ===== *)
theory Vdbe
  imports RecordCompare
begin

text \<open>
  The virtual machine's registers and its arithmetic (\<^verbatim>\<open>src/sqlite/src/sqpyte.c\<close>, with the
  conversions of \<^verbatim>\<open>vdbemem.c\<close> and \<^verbatim>\<open>vdbe.c\<close> they call).

  An opcode implementation takes the machine, the address of its instruction and the
  instruction; its result is the machine with the address \<^verbatim>\<open>pc\<close> (the next instruction is at
  \<^verbatim>\<open>pc+1\<close>), an error, or \<^const>\<open>None\<close> when it would touch a register outside the file.
  Floating point arithmetic, \<^verbatim>\<open>sqlite3AtoF\<close> and \<^verbatim>\<open>sqlite3_snprintf\<close> come with the environment.
\<close>

section \<open>The machine\<close>

datatype opcode =
  OP_Goto | OP_Gosub | OP_Return | OP_InitCoroutine | OP_EndCoroutine | OP_Yield | OP_Integer | OP_Real
| OP_Null | OP_Copy | OP_SCopy | OP_Move | OP_Add | OP_Subtract | OP_Multiply | OP_Divide | OP_Remainder
| OP_If | OP_IfNot | OP_IsNull | OP_NotNull | OP_IfPos | OP_IfZero | OP_Once | OP_Jump | OP_Compare
| OP_Eq | OP_Ne | OP_Lt | OP_Le | OP_Gt | OP_Ge | OP_RealAffinity | OP_MustBeInt | OP_CollSeq | OP_Sequence

record vdbe_op =
  opcode :: opcode
  P1 :: int
  P2 :: int
  P3 :: int
  P4_real :: u64
  P4_coll :: "collseq option"
  P4_keyinfo :: "(collseq option \<times> bool) list"
  P5 :: u8

record vdbe =
  aMem :: "mem list"
  aOp :: "vdbe_op list"
  aOnceFlag :: "u8 list"
  seqCount :: "int list"
  iCompare :: int
  nVmStep :: nat
  nProgressLimit :: nat

text \<open>The machine's floating point unit, the text conversions and the state of the connection.
  \<^verbatim>\<open>f_cast\<close> is the value of \<^verbatim>\<open>(i64)r\<close> outside the range of \<^verbatim>\<open>i64\<close>, which C leaves undefined.\<close>

record env =
  f_add :: "u64 \<Rightarrow> u64 \<Rightarrow> u64"
  f_sub :: "u64 \<Rightarrow> u64 \<Rightarrow> u64"
  f_mul :: "u64 \<Rightarrow> u64 \<Rightarrow> u64"
  f_div :: "u64 \<Rightarrow> u64 \<Rightarrow> u64"
  f_cast :: "u64 \<Rightarrow> int"
  sqlite3AtoF :: "bytes \<Rightarrow> u8 \<Rightarrow> bool \<times> u64"
  number_text :: "mem \<Rightarrow> bytes"
  encoding :: u8
  mallocFailed :: bool
  isInterrupted :: bool
  xProgress :: "bool option"
  nProgressOps :: nat

datatype vdbe_error = AbortDueToInterrupt | ErrorHalt int | OutOfMemory | AbortDueToError int

type_synonym vdbe_result = "(vdbe_error + (vdbe \<times> int)) option"

definition reg :: "vdbe \<Rightarrow> int \<Rightarrow> mem option" where
  "reg p i = (if 0 \<le> i \<and> nat i < length (aMem p) then Some (aMem p ! nat i) else None)"

definition set_reg :: "vdbe \<Rightarrow> int \<Rightarrow> mem \<Rightarrow> vdbe" where
  "set_reg p i m = p\<lparr>aMem := (aMem p)[nat i := m]\<rparr>"

lemma reg_set_reg: "reg p i = Some a \<Longrightarrow> reg (set_reg p i m) j = (if i = j then Some m else reg p j)"
  by (auto simp: reg_def set_reg_def nth_list_update split: if_splits)

lemma reg_set_reg_Some: "reg p j = Some c \<Longrightarrow> \<exists>c'. reg (set_reg p i m) j = Some c'"
  by (auto simp: reg_def set_reg_def split: if_splits)

lemma reg_update [simp]:
  "reg (p\<lparr>iCompare := c\<rparr>) i = reg p i" "reg (p\<lparr>aOnceFlag := f\<rparr>) i = reg p i"
  "reg (p\<lparr>nProgressLimit := k\<rparr>) i = reg p i" "reg (p\<lparr>seqCount := s\<rparr>) i = reg p i"
  by (simp_all add: reg_def)

lemma set_reg_same [simp]:
  "aOp (set_reg p i m) = aOp p" "iCompare (set_reg p i m) = iCompare p" "aOnceFlag (set_reg p i m) = aOnceFlag p"
  "seqCount (set_reg p i m) = seqCount p" "length (aMem (set_reg p i m)) = length (aMem p)"
  by (simp_all add: set_reg_def)

section \<open>Conversions\<close>

definition MemSetTypeFlag :: "mem \<Rightarrow> u16 \<Rightarrow> mem" where
  "MemSetTypeFlag p f = p\<lparr>flags := (flags p AND NOT (0x01ff OR MEM_Zero)) OR f\<rparr>"

text \<open>Writing a member of the union \<^verbatim>\<open>u\<close> overwrites the others (little endian).\<close>

definition write_r :: "mem \<Rightarrow> u64 \<Rightarrow> mem" where
  "write_r m r = m\<lparr>u_r := r, u_i := sint r, u_nZero := unat (ucast r :: u32)\<rparr>"

definition write_i :: "mem \<Rightarrow> int \<Rightarrow> mem" where
  "write_i m i = m\<lparr>u_i := i, u_r := word_of_int i, u_nZero := unat (word_of_int i :: u32)\<rparr>"

definition mem_text :: "mem \<Rightarrow> string" where
  "mem_text m = map (\<lambda>b. char_of (unat b)) (zdata m)"

definition computeNumericType :: "env \<Rightarrow> mem \<Rightarrow> mem \<times> u16" where
  "computeNumericType e pMem =
     (let (ok, r) = sqlite3AtoF e (zdata pMem) (enc pMem); pMem = write_r pMem r
      in if \<not> ok then (pMem, 0)
         else let (i, rc) = sqlite3Atoi64 (mem_text pMem) (unat (enc pMem)); pMem = write_i pMem i
              in if rc = 0 then (pMem, MEM_Int) else (pMem, MEM_Real))"

definition numericType :: "env \<Rightarrow> mem \<Rightarrow> mem \<times> u16" where
  "numericType e pMem =
     (if has pMem (MEM_Int OR MEM_Real) then (pMem, flags pMem AND (MEM_Int OR MEM_Real))
      else if has pMem (MEM_Str OR MEM_Blob) then computeNumericType e pMem
      else (pMem, 0))"

definition dbl_zero :: "u64 \<Rightarrow> bool" where
  "dbl_zero x \<longleftrightarrow> take_bit 63 x = 0"

text \<open>Truncation towards zero of a double in the range of \<^verbatim>\<open>i64\<close>.\<close>

definition dbl_trunc :: "u64 \<Rightarrow> int" where
  "dbl_trunc x =
     (let ex = unat (take_bit 11 (drop_bit 52 x)); m = 2 ^ 52 + unat (take_bit 52 x);
          a = (if ex < 1023 then 0 else if ex \<ge> 1075 then m * 2 ^ (ex - 1075) else m div 2 ^ (1075 - ex))
      in if bit x 63 then - int a else int a)"

definition dbl_le :: "u64 \<Rightarrow> u64 \<Rightarrow> bool" where
  "dbl_le x y \<longleftrightarrow> \<not> dbl_is_nan x \<and> \<not> dbl_is_nan y \<and> dbl_key x \<le> dbl_key y"

definition doubleToInt64 :: "env \<Rightarrow> u64 \<Rightarrow> int" where
  "doubleToInt64 e r =
     (if dbl_le r (dbl_of_int SMALLEST_INT64) then SMALLEST_INT64
      else if dbl_le (dbl_of_int LARGEST_INT64) r then LARGEST_INT64
      else if dbl_is_nan r then f_cast e r else dbl_trunc r)"

text \<open>The plain conversion \<^verbatim>\<open>(i64)r\<close>.\<close>

definition cast_i64 :: "env \<Rightarrow> u64 \<Rightarrow> int" where
  "cast_i64 e r =
     (if dbl_le (dbl_of_int SMALLEST_INT64) r \<and> dbl_less r (dbl_of_int LARGEST_INT64)
      then dbl_trunc r else f_cast e r)"

definition sqlite3VdbeRealValue :: "env \<Rightarrow> mem \<Rightarrow> u64" where
  "sqlite3VdbeRealValue e pMem =
     (if has pMem MEM_Real then u_r pMem
      else if has pMem MEM_Int then dbl_of_int (u_i pMem)
      else if has pMem (MEM_Str OR MEM_Blob) then snd (sqlite3AtoF e (zdata pMem) (enc pMem))
      else 0)"

definition sqlite3VdbeIntegerAffinity :: "env \<Rightarrow> mem \<Rightarrow> mem" where
  "sqlite3VdbeIntegerAffinity e pMem =
     (let ix = doubleToInt64 e (u_r pMem)
      in if dbl_le (u_r pMem) (dbl_of_int ix) \<and> dbl_le (dbl_of_int ix) (u_r pMem)
            \<and> ix > SMALLEST_INT64 \<and> ix < LARGEST_INT64
         then MemSetTypeFlag (pMem\<lparr>u_i := ix\<rparr>) MEM_Int
         else pMem)"

definition sqlite3VdbeMemRealify :: "env \<Rightarrow> mem \<Rightarrow> mem" where
  "sqlite3VdbeMemRealify e pMem = MemSetTypeFlag (pMem\<lparr>u_r := sqlite3VdbeRealValue e pMem\<rparr>) MEM_Real"

definition applyNumericAffinity :: "env \<Rightarrow> mem \<Rightarrow> bool \<Rightarrow> mem" where
  "applyNumericAffinity e pRec bTryForInt =
     (let (ok, rValue) = sqlite3AtoF e (zdata pRec) (enc pRec)
      in if \<not> ok then pRec
         else let (iValue, rc) = sqlite3Atoi64 (mem_text pRec) (unat (enc pRec))
              in if rc = 0 then pRec\<lparr>u_i := iValue, flags := flags pRec OR MEM_Int\<rparr>
                 else let pRec = pRec\<lparr>u_r := rValue, flags := flags pRec OR MEM_Real\<rparr>
                      in if bTryForInt then sqlite3VdbeIntegerAffinity e pRec else pRec)"

text \<open>The text of a number in the encoding of the database; the allocation succeeds.\<close>

definition sqlite3VdbeMemStringify :: "env \<Rightarrow> mem \<Rightarrow> bool \<Rightarrow> mem" where
  "sqlite3VdbeMemStringify e pMem bForce =
     (let f = (flags pMem AND (MEM_Null OR MEM_Int OR MEM_Real)) OR MEM_Str OR MEM_Term
      in pMem\<lparr>zdata := number_text e pMem, enc := encoding e,
              flags := (if bForce then f AND NOT (MEM_Int OR MEM_Real) else f)\<rparr>)"

definition applyAffinity :: "env \<Rightarrow> mem \<Rightarrow> char \<Rightarrow> mem" where
  "applyAffinity e pRec affinity =
     (if code affinity \<ge> code CHR ''C'' then
        if \<not> has pRec MEM_Int then
          if \<not> has pRec MEM_Real then
            if has pRec MEM_Str then applyNumericAffinity e pRec True else pRec
          else sqlite3VdbeIntegerAffinity e pRec
        else pRec
      else if affinity = CHR ''B'' then
        if \<not> has pRec MEM_Str \<and> has pRec (MEM_Real OR MEM_Int) then sqlite3VdbeMemStringify e pRec True else pRec
      else pRec)"

section \<open>Arithmetic\<close>

datatype int_result = ResultNull | FpMath | IntResult int

definition int_math :: "opcode \<Rightarrow> int \<Rightarrow> int \<Rightarrow> int_result" where
  "int_math oc iA iB =
     (let safe = (\<lambda>(r, overflow). if overflow \<noteq> 0 then FpMath else IntResult r)
      in case oc of
        OP_Add \<Rightarrow> safe (sqlite3AddInt64 iB iA)
      | OP_Subtract \<Rightarrow> safe (sqlite3SubInt64 iB iA)
      | OP_Multiply \<Rightarrow> safe (sqlite3MulInt64 iB iA)
      | OP_Divide \<Rightarrow>
          if iA = 0 then ResultNull
          else if iA = -1 \<and> iB = SMALLEST_INT64 then FpMath
          else IntResult (iB sdiv iA)
      | _ \<Rightarrow>
          if iA = 0 then ResultNull
          else let iA = (if iA = -1 then 1 else iA) in IntResult (iB smod iA))"

text \<open>The floating point part; \<^const>\<open>None\<close> is the NULL result.\<close>

definition fp_math :: "env \<Rightarrow> opcode \<Rightarrow> u64 \<Rightarrow> u64 \<Rightarrow> u64 option" where
  "fp_math e oc rA rB =
     (let nan = (\<lambda>r. if dbl_is_nan r then None else Some r)
      in case oc of
        OP_Add \<Rightarrow> nan (f_add e rB rA)
      | OP_Subtract \<Rightarrow> nan (f_sub e rB rA)
      | OP_Multiply \<Rightarrow> nan (f_mul e rB rA)
      | OP_Divide \<Rightarrow> if dbl_zero rA then None else nan (f_div e rB rA)
      | _ \<Rightarrow>
          let iA = cast_i64 e rA; iB = cast_i64 e rB
          in if iA = 0 then None
             else let iA = (if iA = -1 then 1 else iA) in nan (dbl_of_int (iB smod iA)))"

definition impl_OP_Add_Subtract_Multiply_Divide_Remainder ::
  "env \<Rightarrow> vdbe \<Rightarrow> vdbe_op \<Rightarrow> vdbe option" where
  "impl_OP_Add_Subtract_Multiply_Divide_Remainder e p pOp = do {
     m1 \<leftarrow> reg p (P1 pOp);
     let (m1', type1) = numericType e m1;
     let p = set_reg p (P1 pOp) m1';
     m2 \<leftarrow> reg p (P2 pOp);
     let (m2', type2) = numericType e m2;
     let p = set_reg p (P2 pOp) m2';
     pIn1 \<leftarrow> reg p (P1 pOp);
     pIn2 \<leftarrow> reg p (P2 pOp);
     pOut \<leftarrow> reg p (P3 pOp);
     let null = set_reg p (P3 pOp) (sqlite3VdbeMemSetNull pOut);
     let fp = (\<lambda>bIntint. case fp_math e (opcode pOp) (sqlite3VdbeRealValue e pIn1) (sqlite3VdbeRealValue e pIn2) of
         None \<Rightarrow> null
       | Some rB \<Rightarrow>
           let out = MemSetTypeFlag (pOut\<lparr>u_r := rB\<rparr>) MEM_Real
           in set_reg p (P3 pOp)
                (if (type1 OR type2) AND MEM_Real = 0 \<and> \<not> bIntint then sqlite3VdbeIntegerAffinity e out else out));
     Some (if (flags pIn1 OR flags pIn2) AND MEM_Null \<noteq> 0 then null
           else if type1 AND type2 AND MEM_Int \<noteq> 0 then
             case int_math (opcode pOp) (u_i pIn1) (u_i pIn2) of
               ResultNull \<Rightarrow> null
             | FpMath \<Rightarrow> fp True
             | IntResult i \<Rightarrow> set_reg p (P3 pOp) (MemSetTypeFlag (pOut\<lparr>u_i := i\<rparr>) MEM_Int)
           else fp False)
   }"

section \<open>Integer arithmetic is exact\<close>

definition exact_result :: "opcode \<Rightarrow> int \<Rightarrow> int \<Rightarrow> int option" where
  "exact_result oc a b =
     (case oc of
        OP_Add \<Rightarrow> Some (b + a) | OP_Subtract \<Rightarrow> Some (b - a) | OP_Multiply \<Rightarrow> Some (b * a)
      | OP_Divide \<Rightarrow> if a = 0 then None else Some (b sdiv a)
      | _ \<Rightarrow> if a = 0 then None else Some (b smod a))"

definition small_product :: "opcode \<Rightarrow> int \<Rightarrow> int \<Rightarrow> bool" where
  "small_product oc a b \<longleftrightarrow> oc = OP_Multiply \<and> \<bar>a\<bar> < TWOPOWER32 \<and> \<bar>b\<bar> < TWOPOWER32"

lemma smod_minus_one: "(b :: int) smod -1 = 0"
  by (simp add: signed_modulo_int_def)

lemma smod_one: "(b :: int) smod 1 = 0"
  by (simp add: signed_modulo_int_def)

lemma smod_i64: "in_i64 b \<Longrightarrow> in_i64 (b smod a)"
proof -
  assume b: "in_i64 b"
  have "\<bar>b\<bar> mod \<bar>a\<bar> \<le> \<bar>b\<bar>" "0 \<le> \<bar>b\<bar> mod \<bar>a\<bar>"
    by (simp_all add: zmod_le_nonneg_dividend, cases "a = 0", simp_all)
  then show ?thesis using b by (auto simp: in_i64_def signed_modulo_int_def sgn_if split: if_splits)
qed

lemma sdiv_i64:
  assumes "in_i64 b"
  shows "in_i64 (b sdiv a) \<longleftrightarrow> \<not> (a = -1 \<and> b = SMALLEST_INT64)"
proof (cases "b = SMALLEST_INT64")
  case True
  have "b sdiv a = - b \<longleftrightarrow> a = -1" using int_sdiv_negated_is_minus1 [of b a] True by simp
  then show ?thesis using sdiv_int_range [of b a] True by (auto simp: in_i64_def)
next
  case False
  then show ?thesis using sdiv_int_range [of b a] assms by (auto simp: in_i64_def)
qed

lemma int_math_exact:
  assumes "in_i64 a" "in_i64 b" "oc \<in> {OP_Add, OP_Subtract, OP_Multiply, OP_Divide, OP_Remainder}"
  shows "int_math oc a b =
    (case exact_result oc a b of
       None \<Rightarrow> ResultNull
     | Some x \<Rightarrow> if small_product oc a b then IntResult (wrap64 x) else if in_i64 x then IntResult x else FpMath)"
  using assms(3)
proof (elim insertE emptyE)
  assume oc: "oc = OP_Multiply"
  show ?thesis using assms(1,2) MulInt64_spec [of b a]
    by (simp add: oc int_math_def exact_result_def small_product_def conj_commute)
next
  assume oc: "oc = OP_Divide"
  show ?thesis using sdiv_i64 [OF assms(2), of a]
    by (simp add: oc int_math_def exact_result_def small_product_def)
next
  assume oc: "oc = OP_Remainder"
  show ?thesis using smod_i64 [OF assms(2), of a]
    by (simp add: oc int_math_def exact_result_def small_product_def smod_minus_one smod_one)
qed (use assms(1,2) AddInt64_spec [of b a] SubInt64_spec [of b a] in
  \<open>simp_all add: int_math_def exact_result_def small_product_def\<close>)

definition arith_opcodes :: "opcode set" where
  "arith_opcodes = {OP_Add, OP_Subtract, OP_Multiply, OP_Divide, OP_Remainder}"

text \<open>The value of an arithmetic opcode on two integers.\<close>

definition int_arith_value :: "env \<Rightarrow> opcode \<Rightarrow> int \<Rightarrow> int \<Rightarrow> sqlvalue" where
  "int_arith_value e oc a b =
     (case exact_result oc a b of
        None \<Rightarrow> VNull
      | Some x \<Rightarrow>
          if small_product oc a b then VInt (wrap64 x)
          else if in_i64 x then VInt x
          else case fp_math e oc (dbl_of_int a) (dbl_of_int b) of None \<Rightarrow> VNull | Some r \<Rightarrow> VReal r)"

lemma and_not_or: "h AND k = h \<Longrightarrow> (f AND NOT k OR g) AND h = g AND (h :: u16)"
  by (auto simp: bit_eq_iff bit_simps)

lemma and_mask_pair: "k AND h = h \<Longrightarrow> (x AND k) AND (y AND k) AND h = x AND y AND (h :: u16)"
  by (auto simp: bit_eq_iff bit_simps)

lemma value_MemSetTypeFlag [simp]:
  "mem_value (MemSetTypeFlag (m\<lparr>u_i := i\<rparr>) MEM_Int) = VInt i"
  "mem_value (MemSetTypeFlag (m\<lparr>u_r := r\<rparr>) MEM_Real) = VReal r"
  "mem_value (sqlite3VdbeMemSetNull m) = VNull"
proof -
  have k: "(- 16896 :: u16) = NOT 0x41ff" by simp
  have f: "h AND 0x41ff = h \<Longrightarrow> (flags m AND - 16896 OR g) AND h = g AND h" for g h
    unfolding k by (rule and_not_or)
  show "mem_value (MemSetTypeFlag (m\<lparr>u_i := i\<rparr>) MEM_Int) = VInt i"
    "mem_value (MemSetTypeFlag (m\<lparr>u_r := r\<rparr>) MEM_Real) = VReal r"
    by (simp_all add: mem_value_def MemSetTypeFlag_def has_def f)
  show "mem_value (sqlite3VdbeMemSetNull m) = VNull" by (simp add: mem_value_def sqlite3VdbeMemSetNull_def)
qed

lemma numericType_number: "has m MEM_Int \<or> has m MEM_Real \<Longrightarrow> numericType e m = (m, flags m AND (MEM_Int OR MEM_Real))"
  by (auto simp: numericType_def has_def flag_simps)

lemma set_reg_id: "reg p i = Some m \<Longrightarrow> set_reg p i m = p"
  by (auto simp: reg_def set_reg_def split: if_splits)

lemma reg_value_ex: "mem_value x = v \<Longrightarrow> \<exists>m. set_reg p i x = set_reg p i m \<and> mem_value m = v"
  by blast

lemma arith_int:
  assumes r: "reg p (P1 pOp) = Some m1" "reg p (P2 pOp) = Some m2" "reg p (P3 pOp) = Some m3"
    and v: "mem_value m1 = VInt a" "mem_value m2 = VInt b" "\<not> has m1 MEM_Real" "\<not> has m2 MEM_Real"
    and i: "in_i64 a" "in_i64 b" and oc: "opcode pOp \<in> arith_opcodes"
  shows "\<exists>m. impl_OP_Add_Subtract_Multiply_Divide_Remainder e p pOp = Some (set_reg p (P3 pOp) m)
    \<and> mem_value m = int_arith_value e (opcode pOp) a b"
proof -
  have f: "has m1 MEM_Int" "u_i m1 = a" "\<not> has m1 MEM_Null" "has m2 MEM_Int" "u_i m2 = b" "\<not> has m2 MEM_Null"
    using v by (auto simp: mem_value_def split: if_splits)
  note n = numericType_number [of m1 e] numericType_number [of m2 e]
  have t: "(flags m1 AND 12) AND (flags m2 AND 12) AND 4 \<noteq> 0" "(flags m1 OR flags m2) AND 1 = 0"
    using f and_mask_pair [of 12 4 "flags m1" "flags m2"] flag_bits(3) [of "flags m1 AND flags m2"]
    by (simp_all add: has_def flag_simps and.assoc)
  note ex = int_math_exact [OF i oc [unfolded arith_opcodes_def]]
  show ?thesis
    using f v(3,4) r t
    by (simp add: impl_OP_Add_Subtract_Multiply_Divide_Remainder_def n set_reg_id ex int_arith_value_def
        sqlite3VdbeRealValue_def split: option.split) (auto intro!: reg_value_ex)
qed

section \<open>Every result is well typed\<close>

definition cell_ok :: "mem \<Rightarrow> bool" where
  "cell_ok m \<longleftrightarrow> (has m MEM_Int \<longrightarrow> in_i64 (u_i m)) \<and> (has m MEM_Real \<longrightarrow> \<not> dbl_is_nan (u_r m))"

fun number_ok :: "sqlvalue \<Rightarrow> bool" where
  "number_ok VNull = True" | "number_ok (VInt i) = in_i64 i" | "number_ok (VReal r) = (\<not> dbl_is_nan r)"
| "number_ok _ = False"

lemma Atoi64_i64: "in_i64 (fst (sqlite3Atoi64 z n))"
proof -
  have u: "in_i64 (uint u) \<and> in_i64 (- uint u)" if "\<not> u > 0x7fffffffffffffff" for u :: u64
  proof -
    have "u \<le> 0x7fffffffffffffff" using that by simp
    then have "uint u \<le> uint (0x7fffffffffffffff :: u64)" by (simp only: word_le_def)
    then have "uint u \<le> LARGEST_INT64" by simp
    moreover have "0 \<le> uint u" by simp
    ultimately show ?thesis unfolding in_i64_def by linarith
  qed
  obtain incr nonNum zNum where 1: "(if n = SQLITE_UTF8 then (1 :: nat, False, z)
         else
           let i = utf16_ascii_end z (3 - n)
           in (2, i < length z, drop (n mod 2) (take (i + n - 3) z))) = (incr, nonNum, zNum)"
    by (metis prod_cases3)
  obtain neg zStart where 2: "(case skip_space incr zNum of
       c # z \<Rightarrow> if c = CHR ''-'' then (True, drop incr (skip_space incr zNum))
         else if c = CHR ''+'' then (False, drop incr (skip_space incr zNum)) else (False, skip_space incr zNum)
     | [] \<Rightarrow> (False, skip_space incr zNum)) = (neg, zStart)"
    by (rule that, rule surjective_pairing)
  obtain v i c more where 3: "scan_digits incr 0 0 0 (skip_zeros incr zStart) = (v, i, c, more)"
    by (metis prod_cases4)
  show ?thesis
    using u [of v] unfolding sqlite3Atoi64_def Let_def 1 [unfolded Let_def] prod.case 2 3 if_distrib [of fst] fst_conv if_cancel
    by (simp add: in_i64_def)
qed

lemma wrap64_i64: "in_i64 (wrap64 x)"
  using signed_take_bit_int_greater_eq_minus_exp [of 63 x] signed_take_bit_int_less_exp [of 63 x]
  by (simp add: wrap64_def in_i64_def)

lemma numericType_same:
  assumes "numericType e m = (m', t)"
  shows "flags m' = flags m" "zdata m' = zdata m" "\<not> has m MEM_Zero \<Longrightarrow> mem_value m' = mem_value m"
    "t AND 4 \<noteq> 0 \<Longrightarrow> cell_ok m \<Longrightarrow> in_i64 (u_i m')" "cell_ok m \<Longrightarrow> cell_ok m'"
proof -
  have c: "m' = m \<and> (t AND 4 \<noteq> 0 \<longrightarrow> has m MEM_Int)
      \<or> \<not> has m MEM_Int \<and> \<not> has m MEM_Real \<and> m' = m\<lparr>u_r := u_r m', u_i := u_i m', u_nZero := u_nZero m'\<rparr>
        \<and> (t AND 4 \<noteq> 0 \<longrightarrow> in_i64 (u_i m'))"
  proof (cases "has m MEM_Int \<or> has m MEM_Real")
    case True
    then have "t = flags m AND 12" "m' = m" using assms numericType_number [of m e] by auto
    moreover have "(flags m AND 12) AND 4 = flags m AND 4" by (simp add: and.assoc)
    ultimately show ?thesis by (simp add: has_def)
  next
    case False
    then have n: "\<not> has m (MEM_Int OR MEM_Real)" by (simp add: has_def flag_simps)
    show ?thesis
    proof (cases "has m (MEM_Str OR MEM_Blob)")
      case True
      obtain r where r: "sqlite3AtoF e (zdata m) (enc m) = (False, r) \<or> sqlite3AtoF e (zdata m) (enc m) = (True, r)"
        by (metis (full_types) surj_pair)
      obtain i rc where i: "sqlite3Atoi64 (mem_text m) (unat (enc m)) = (i, rc)" by (rule prod.exhaust)
      have ii: "in_i64 i" using Atoi64_i64 [of "mem_text m" "unat (enc m)"] by (simp add: i)
      have w: "mem_text (write_r m r) = mem_text m" "enc (write_r m r) = enc m" by (simp_all add: mem_text_def write_r_def)
      have "numericType e m = computeNumericType e m" using n True unfolding numericType_def by simp
      then have "(m' = write_r m r \<and> t = 0) \<or> (m' = write_i (write_r m r) i)"
        using assms r by (auto simp: computeNumericType_def Let_def w i split: if_splits)
      then show ?thesis using False ii by (auto simp: write_r_def write_i_def)
    next
      case Fa: False
      then have "numericType e m = (m, 0)" using n unfolding numericType_def by simp
      then show ?thesis using assms by simp
    qed
  qed
  have e: "flags m' = flags m" "zdata m' = zdata m" using c by (metis mem.select_convs mem.surjective mem.update_convs)+
  show "flags m' = flags m" "zdata m' = zdata m" by fact+
  show "\<not> has m MEM_Zero \<Longrightarrow> mem_value m' = mem_value m"
    using c e by (auto simp: mem_value_def mem_bytes_def has_def)
  show "t AND 4 \<noteq> 0 \<Longrightarrow> cell_ok m \<Longrightarrow> in_i64 (u_i m')" using c by (auto simp: cell_ok_def)
  show "cell_ok m \<Longrightarrow> cell_ok m'" using c e by (auto simp: cell_ok_def has_def)
qed

lemma fp_math_number: "fp_math e oc rA rB = Some r \<Longrightarrow> \<not> dbl_is_nan r"
  by (cases oc) (auto simp: fp_math_def Let_def split: if_splits)

lemma IntegerAffinity_number:
  assumes "mem_value m = VReal (u_r m)" "\<not> dbl_is_nan (u_r m)"
  shows "number_ok (mem_value (sqlite3VdbeIntegerAffinity e m))"
  using assms by (auto simp: sqlite3VdbeIntegerAffinity_def Let_def in_i64_def)

text \<open>A register keeps its value, unless it holds a zero-filled blob whose length shares the
  union with the number computed from it.\<close>

definition kept :: "vdbe \<Rightarrow> vdbe \<Rightarrow> int \<Rightarrow> bool" where
  "kept p p' j \<longleftrightarrow> (\<forall>c. reg p j = Some c \<longrightarrow>
     (\<exists>c'. reg p' j = Some c' \<and> has c' MEM_Zero = has c MEM_Zero \<and> (\<not> has c MEM_Zero \<longrightarrow> mem_value c' = mem_value c)))"

lemma kept_refl: "kept p p j"
  by (simp add: kept_def)

lemma kept_trans: "kept p q j \<Longrightarrow> kept q r j \<Longrightarrow> kept p r j"
  by (fastforce simp: kept_def)

lemma kept_numericType:
  assumes "reg p i = Some m" "numericType e m = (m', t)"
  shows "kept p (set_reg p i m') j"
  using assms numericType_same [OF assms(2)] by (auto simp: kept_def reg_set_reg has_def)

lemma kept_out: "reg p i = Some m \<Longrightarrow> i \<noteq> j \<Longrightarrow> kept p (set_reg p i m') j"
  by (simp add: kept_def reg_set_reg)

lemma arith_out_ok:
  assumes "int_ok \<longrightarrow> in_i64 a \<and> in_i64 b" and "oc \<in> arith_opcodes"
  shows "\<exists>m. (if null then set_reg p i (sqlite3VdbeMemSetNull q)
      else if int_ok then
        case int_math oc a b of
          ResultNull \<Rightarrow> set_reg p i (sqlite3VdbeMemSetNull q)
        | FpMath \<Rightarrow> (case fp_math e oc rA rB of None \<Rightarrow> set_reg p i (sqlite3VdbeMemSetNull q)
            | Some r \<Rightarrow> set_reg p i (if F True then sqlite3VdbeIntegerAffinity e (MemSetTypeFlag (q\<lparr>u_r := r\<rparr>) MEM_Real)
                else MemSetTypeFlag (q\<lparr>u_r := r\<rparr>) MEM_Real))
        | IntResult x \<Rightarrow> set_reg p i (MemSetTypeFlag (q\<lparr>u_i := x\<rparr>) MEM_Int)
      else (case fp_math e oc rA rB of None \<Rightarrow> set_reg p i (sqlite3VdbeMemSetNull q)
            | Some r \<Rightarrow> set_reg p i (if F False then sqlite3VdbeIntegerAffinity e (MemSetTypeFlag (q\<lparr>u_r := r\<rparr>) MEM_Real)
                else MemSetTypeFlag (q\<lparr>u_r := r\<rparr>) MEM_Real))) = set_reg p i m
    \<and> number_ok (mem_value m) \<and> (null \<longrightarrow> mem_value m = VNull)"
proof -
  have u: "u_r (MemSetTypeFlag (q\<lparr>u_r := r\<rparr>) MEM_Real) = r" for r by (simp add: MemSetTypeFlag_def)
  have fp: "\<exists>m. (case fp_math e oc rA rB of None \<Rightarrow> set_reg p i (sqlite3VdbeMemSetNull q)
            | Some r \<Rightarrow> set_reg p i (if f then sqlite3VdbeIntegerAffinity e (MemSetTypeFlag (q\<lparr>u_r := r\<rparr>) MEM_Real)
                else MemSetTypeFlag (q\<lparr>u_r := r\<rparr>) MEM_Real)) = set_reg p i m \<and> number_ok (mem_value m)" for f
  proof (cases "fp_math e oc rA rB")
    case None
    then show ?thesis by (auto intro!: exI [of _ "sqlite3VdbeMemSetNull q"])
  next
    case (Some r)
    let ?m = "MemSetTypeFlag (q\<lparr>u_r := r\<rparr>) MEM_Real"
    have "number_ok (mem_value (sqlite3VdbeIntegerAffinity e ?m))" "number_ok (mem_value ?m)"
      using fp_math_number [OF Some] IntegerAffinity_number [of ?m e] by (simp_all add: u)
    then show ?thesis using Some by (auto split: if_split)
  qed
  have int: "number_ok (mem_value (MemSetTypeFlag (q\<lparr>u_i := x\<rparr>) MEM_Int))"
    if "int_math oc a b = IntResult x" int_ok for x
    using that assms int_math_exact [of a b oc] wrap64_i64
    by (auto simp: arith_opcodes_def split: option.splits if_splits)
  show ?thesis
  proof (cases null)
    case True
    then show ?thesis by (auto intro!: exI [of _ "sqlite3VdbeMemSetNull q"])
  next
    case False
    show ?thesis
    proof (cases "int_ok \<and> (\<exists>x. int_math oc a b = IntResult x)")
      case True
      then obtain x where "int_ok" "int_math oc a b = IntResult x" by blast
      then show ?thesis using False int by (auto intro!: exI [of _ "MemSetTypeFlag (q\<lparr>u_i := x\<rparr>) MEM_Int"])
    next
      case no: False
      show ?thesis using False fp no by (cases "int_math oc a b") (auto intro!: exI [of _ "sqlite3VdbeMemSetNull q"])
    qed
  qed
qed

lemma and_assoc_4: "(x AND y AND 4 \<noteq> 0) = ((x AND 4 \<noteq> 0) \<and> (y AND 4 \<noteq> (0 :: u16)))"
  using flag_bits(3) [of "x AND y"] by (simp add: flag_bits and.assoc bit_simps)

lemma arith_typed:
  assumes r: "reg p (P1 pOp) = Some m1" "reg p (P2 pOp) = Some m2" "reg p (P3 pOp) = Some m3"
    and ok: "cell_ok m1" "cell_ok m2" and oc: "opcode pOp \<in> arith_opcodes"
  shows "\<exists>p' m. impl_OP_Add_Subtract_Multiply_Divide_Remainder e p pOp = Some p'
    \<and> reg p' (P3 pOp) = Some m \<and> number_ok (mem_value m)
    \<and> (mem_value m1 = VNull \<or> mem_value m2 = VNull \<longrightarrow> mem_value m = VNull)
    \<and> (\<forall>j. j \<noteq> P3 pOp \<longrightarrow> (if j = P1 pOp \<or> j = P2 pOp then kept p p' j else reg p' j = reg p j))"
proof -
  obtain m1' t1 where 1: "numericType e m1 = (m1', t1)" by fastforce
  define q where "q = set_reg p (P1 pOp) m1'"
  note n1 = numericType_same [OF 1]
  obtain m2a where m2a: "reg q (P2 pOp) = Some m2a" "cell_ok m2a" "flags m2a = flags m2"
    using r ok n1 by (cases "P1 pOp = P2 pOp") (auto simp: q_def reg_set_reg)
  obtain m2' t2 where 2: "numericType e m2a = (m2', t2)" by fastforce
  note n2 = numericType_same [OF 2]
  define s where "s = set_reg q (P2 pOp) m2'"
  obtain a where a: "reg s (P1 pOp) = Some a" "flags a = flags m1" "t1 AND 4 \<noteq> 0 \<Longrightarrow> t2 AND 4 \<noteq> 0 \<Longrightarrow> in_i64 (u_i a)"
    using r ok n1 n2 m2a by (auto simp: s_def q_def reg_set_reg split: if_splits)
  have b: "reg s (P2 pOp) = Some m2'" "t2 AND 4 \<noteq> 0 \<Longrightarrow> in_i64 (u_i m2')"
    using m2a n2 by (auto simp: s_def reg_set_reg)
  obtain c where c: "reg s (P3 pOp) = Some c"
    using reg_set_reg_Some [OF r(3)] reg_set_reg_Some unfolding s_def q_def by metis
  have k: "kept p s j" for j
    using kept_trans [OF kept_numericType [OF r(1) 1] kept_numericType [OF m2a(1) [unfolded q_def] 2]] by (simp add: s_def q_def)
  have ok4: "t1 AND t2 AND 4 \<noteq> 0 \<longrightarrow> in_i64 (u_i a) \<and> in_i64 (u_i m2')"
    using a(3) b(2) by (simp add: and_assoc_4)
  have null: "(flags a OR flags m2') AND 1 \<noteq> 0 \<longleftrightarrow> mem_value m1 = VNull \<or> mem_value m2 = VNull"
    using a(2) n2(1) m2a(3) by (auto simp: mem_value_def has_def or_and_eq_0)
  obtain m where m: "impl_OP_Add_Subtract_Multiply_Divide_Remainder e p pOp = Some (set_reg s (P3 pOp) m)"
      "number_ok (mem_value m)" "mem_value m1 = VNull \<or> mem_value m2 = VNull \<longrightarrow> mem_value m = VNull"
    using arith_out_ok [OF ok4 oc, where null = "(flags a OR flags m2') AND 1 \<noteq> 0" and p = s and i = "P3 pOp" and q = c and e = e
        and rA = "sqlite3VdbeRealValue e a" and rB = "sqlite3VdbeRealValue e m2'" and F = "\<lambda>f. (t1 OR t2) AND MEM_Real = 0 \<and> \<not> f"]
    unfolding impl_OP_Add_Subtract_Multiply_Divide_Remainder_def r(1) bind.bind_lunit 1 prod.case Let_def
      q_def [symmetric] m2a(1) 2 s_def [symmetric] a(1) b(1) c null [symmetric]
    by auto
  have "kept p (set_reg s (P3 pOp) m) j" if "j \<noteq> P3 pOp" for j
    by (rule kept_trans [OF k kept_out [OF c]]) (use that in simp)
  moreover have "reg (set_reg s (P3 pOp) m) j = reg p j" if "j \<notin> {P1 pOp, P2 pOp, P3 pOp}" for j
    using that r(1) m2a(1) c unfolding s_def q_def by (auto simp: reg_set_reg)
  ultimately show ?thesis using m c by (auto simp: reg_set_reg)
qed

text \<open>A zero-filled blob as an operand: the conversion attempt writes its number over the length
  of the zero-filled tail, and the blob in the operand's register shrinks. (\<^verbatim>\<open>sqlite3AtoF\<close> of
  an empty text stores 0.0.)\<close>

lemma zeroblob_operand_clobbered:
  assumes "sqlite3AtoF e [] 1 = (False, 0)"
  defines "z \<equiv> sqlite3VdbeMemSetZeroBlob (int_mem 0) 5"
  shows "mem_value z = VBlob (replicate 5 0) \<and> mem_value (fst (numericType e z)) = VBlob []"
proof -
  have z: "flags z = 0x4010" "zdata z = []" "enc z = 1" "u_nZero z = 5"
    by (simp_all add: z_def sqlite3VdbeMemSetZeroBlob_def)
  have "numericType e z = (write_r z 0, 0)"
    by (simp add: numericType_def has_def z computeNumericType_def assms(1))
  then show ?thesis by (simp add: mem_value_def mem_bytes_def has_def z write_r_def)
qed

section \<open>Properties\<close>

definition int_op :: "opcode \<Rightarrow> vdbe_op" where
  "int_op oc = \<lparr>opcode = oc, P1 = 1, P2 = 2, P3 = 3, P4_real = 0, P4_coll = None, P4_keyinfo = [], P5 = 0\<rparr>"

definition regs3 :: "mem \<Rightarrow> mem \<Rightarrow> vdbe" where
  "regs3 a b = \<lparr>aMem = [int_mem 0, a, b, int_mem 0], aOp = [], aOnceFlag = [], seqCount = [], iCompare = 0,
     nVmStep = 0, nProgressLimit = 0\<rparr>"

definition no_env :: env where
  "no_env = \<lparr>f_add = (\<lambda>x y. 0), f_sub = (\<lambda>x y. 0), f_mul = (\<lambda>x y. 0), f_div = (\<lambda>x y. 0), f_cast = (\<lambda>x. 0),
     sqlite3AtoF = (\<lambda>z n. (False, 0)), number_text = zdata, encoding = 1, mallocFailed = False,
     isInterrupted = False, xProgress = None, nProgressOps = 0\<rparr>"

lemma regs3_simps [simp]: "reg (regs3 a b) 1 = Some a" "reg (regs3 a b) 2 = Some b" "reg (regs3 a b) 3 = Some (int_mem 0)"
  by (simp_all add: reg_def regs3_def nat_numeral)

lemma int_mem_simps [simp]: "mem_value (int_mem i) = VInt i" "has (int_mem i) MEM_Real \<longleftrightarrow> False" "has (int_mem i) MEM_Null \<longleftrightarrow> False"
  "u_i (int_mem i) = i" "flags (int_mem i) = MEM_Int" "has (int_mem i) MEM_Int"
  by (simp_all add: int_mem_def mem_value_def)

lemma cell_ok_int_mem: "cell_ok (int_mem i) = in_i64 i"
  by (simp add: cell_ok_def has_def)

text \<open>C7. Arithmetic on two integer registers writes the mathematical result when it fits in 64
  bits, the double computed from the operands (NULL for a NaN) when it does not, and NULL
  for a division or remainder by zero; the other registers are untouched. Only the product of
  two factors below 2^32 in magnitude is always an integer, reduced modulo 2^64.\<close>

theorem int_arithmetic:
  assumes "reg p (P1 pOp) = Some m1" and "reg p (P2 pOp) = Some m2" and "reg p (P3 pOp) = Some m3"
    and "mem_value m1 = VInt a" and "mem_value m2 = VInt b" and "\<not> has m1 MEM_Real" and "\<not> has m2 MEM_Real"
    and "in_i64 a" and "in_i64 b" and "opcode pOp \<in> arith_opcodes"
  shows "\<exists>p' m. impl_OP_Add_Subtract_Multiply_Divide_Remainder e p pOp = Some p'
    \<and> reg p' (P3 pOp) = Some m \<and> mem_value m = int_arith_value e (opcode pOp) a b
    \<and> (\<forall>j. j \<noteq> P3 pOp \<longrightarrow> reg p' j = reg p j)"
  using arith_int [OF assms, of e] assms(3) by (auto simp: reg_set_reg)

theorem int_arithmetic_witness:
  "\<exists>p' m. impl_OP_Add_Subtract_Multiply_Divide_Remainder no_env (regs3 (int_mem (-1)) (int_mem 9223372036854775807)) (int_op OP_Subtract) = Some p'
    \<and> reg p' 3 = Some m \<and> mem_value m = VReal 0"
  using int_arithmetic [of "regs3 (int_mem (-1)) (int_mem 9223372036854775807)" "int_op OP_Subtract"
      "int_mem (-1)" "int_mem 9223372036854775807" "int_mem 0" "-1" 9223372036854775807 no_env]
  by (auto simp: int_op_def arith_opcodes_def in_i64_def int_arith_value_def exact_result_def small_product_def
      fp_math_def no_env_def dbl_is_nan_def)

text \<open>C16. Arithmetic on any two registers is defined and well typed: the result is NULL, a 64-bit
  integer or a double that is not a NaN; it is NULL when an operand is; a register that is neither an
  operand nor the result is untouched; and an operand keeps its value, except that a zero-filled
  blob may lose its tail, which \<^verbatim>\<open>zeroblob_operand_clobbered\<close> shows it does.\<close>

theorem arithmetic_well_typed:
  assumes "reg p (P1 pOp) = Some m1" and "reg p (P2 pOp) = Some m2" and "reg p (P3 pOp) = Some m3"
    and "cell_ok m1" and "cell_ok m2" and "opcode pOp \<in> arith_opcodes"
  shows "\<exists>p' m. impl_OP_Add_Subtract_Multiply_Divide_Remainder e p pOp = Some p'
    \<and> reg p' (P3 pOp) = Some m \<and> number_ok (mem_value m)
    \<and> (mem_value m1 = VNull \<or> mem_value m2 = VNull \<longrightarrow> mem_value m = VNull)
    \<and> (\<forall>j. j \<noteq> P3 pOp \<longrightarrow> (if j = P1 pOp \<or> j = P2 pOp then kept p p' j else reg p' j = reg p j))"
  using assms by (rule arith_typed)

theorem arithmetic_well_typed_witness:
  "\<exists>p' m. impl_OP_Add_Subtract_Multiply_Divide_Remainder no_env
      (regs3 (sqlite3VdbeMemSetNull (int_mem 0)) (int_mem 7)) (int_op OP_Multiply) = Some p'
    \<and> reg p' 3 = Some m \<and> mem_value m = VNull"
proof -
  have "cell_ok (sqlite3VdbeMemSetNull (int_mem 0))" by (simp add: cell_ok_def sqlite3VdbeMemSetNull_def)
  then show ?thesis
    using arithmetic_well_typed [of "regs3 (sqlite3VdbeMemSetNull (int_mem 0)) (int_mem 7)" "int_op OP_Multiply"
        "sqlite3VdbeMemSetNull (int_mem 0)" "int_mem 7" "int_mem 0" no_env]
    by (auto simp: int_op_def arith_opcodes_def cell_ok_int_mem in_i64_def)
qed

end
