(* ===== verification/VdbeCompare.thy ===== *)
theory VdbeCompare
  imports Vdbe
begin

text \<open>
  The comparison opcodes of the virtual machine: \<^verbatim>\<open>impl_OP_Ne_Eq_Gt_Le_Lt_Ge\<close> with SQL's
  three-valued logic, and \<^verbatim>\<open>impl_OP_Compare\<close> with \<^verbatim>\<open>impl_OP_Jump\<close>
  (\<^verbatim>\<open>src/sqlite/src/sqpyte.c\<close>).
\<close>

section \<open>The opcodes\<close>

abbreviation (input) SQLITE_JUMPIFNULL :: u8 where "SQLITE_JUMPIFNULL \<equiv> 0x10"
abbreviation (input) SQLITE_STOREP2 :: u8 where "SQLITE_STOREP2 \<equiv> 0x20"
abbreviation (input) SQLITE_NULLEQ :: u8 where "SQLITE_NULLEQ \<equiv> 0x80"
abbreviation (input) SQLITE_AFF_MASK :: u8 where "SQLITE_AFF_MASK \<equiv> 0x47"
abbreviation (input) OPFLAG_PERMUTE :: u8 where "OPFLAG_PERMUTE \<equiv> 0x01"

fun cmp_test :: "opcode \<Rightarrow> int \<Rightarrow> bool" where
  "cmp_test OP_Eq res = (res = 0)" | "cmp_test OP_Ne res = (res \<noteq> 0)"
| "cmp_test OP_Lt res = (res < 0)" | "cmp_test OP_Le res = (res \<le> 0)"
| "cmp_test OP_Gt res = (res > 0)" | "cmp_test _ res = (res \<ge> 0)"

text \<open>The conversion of one operand by the affinity in \<^verbatim>\<open>P5\<close>.\<close>

definition cmp_affinity :: "env \<Rightarrow> u8 \<Rightarrow> mem \<Rightarrow> mem" where
  "cmp_affinity e p5 m =
     (let affinity = p5 AND SQLITE_AFF_MASK
      in if affinity \<ge> 0x43 then
           if flags m AND (MEM_Int OR MEM_Real OR MEM_Str) = MEM_Str then applyNumericAffinity e m False else m
         else if affinity = 0x42 then
           if \<not> has m MEM_Str \<and> has m (MEM_Int OR MEM_Real) then sqlite3VdbeMemStringify e m True else m
         else m)"

text \<open>The end of the opcode: the result is stored or decides the jump, and the flags of the
  operands are put back.\<close>

definition cmp_finish :: "vdbe \<Rightarrow> int \<Rightarrow> vdbe_op \<Rightarrow> int \<Rightarrow> u16 \<Rightarrow> u16 \<Rightarrow> vdbe_result" where
  "cmp_finish p pc pOp res flags1 flags3 = do {
     let res = cmp_test (opcode pOp) res;
     (p, pc) \<leftarrow>
       (if P5 pOp AND SQLITE_STOREP2 \<noteq> 0 then do {
          pOut \<leftarrow> reg p (P2 pOp);
          Some (set_reg p (P2 pOp) ((MemSetTypeFlag pOut MEM_Int)\<lparr>u_i := of_bool res\<rparr>), pc) }
        else Some (p, if res then P2 pOp - 1 else pc));
     pIn1 \<leftarrow> reg p (P1 pOp);
     let p = set_reg p (P1 pOp) (pIn1\<lparr>flags := flags1\<rparr>);
     pIn3 \<leftarrow> reg p (P3 pOp);
     Some (Inr (set_reg p (P3 pOp) (pIn3\<lparr>flags := flags3\<rparr>), pc))
   }"

definition cmp_expand :: "vdbe \<Rightarrow> int \<Rightarrow> u16 \<Rightarrow> (vdbe \<times> u16) option" where
  "cmp_expand p i f = do {
     m \<leftarrow> reg p i;
     Some (if has m MEM_Zero then (set_reg p i (sqlite3VdbeMemExpandBlob m), f AND NOT MEM_Zero) else (p, f)) }"

definition impl_OP_Ne_Eq_Gt_Le_Lt_Ge :: "env \<Rightarrow> vdbe \<Rightarrow> int \<Rightarrow> vdbe_op \<Rightarrow> vdbe_result" where
  "impl_OP_Ne_Eq_Gt_Le_Lt_Ge e p pc pOp = do {
     pIn1 \<leftarrow> reg p (P1 pOp);
     pIn3 \<leftarrow> reg p (P3 pOp);
     let flags1 = flags pIn1;
     let flags3 = flags pIn3;
     if (flags1 OR flags3) AND MEM_Null \<noteq> 0 then
       if P5 pOp AND SQLITE_NULLEQ \<noteq> 0 then
         cmp_finish p pc pOp
           (if flags1 AND MEM_Null \<noteq> 0 \<and> flags3 AND MEM_Null \<noteq> 0 \<and> flags3 AND MEM_Cleared = 0 then 0 else 1)
           flags1 flags3
       else if P5 pOp AND SQLITE_STOREP2 \<noteq> 0 then do {
         pOut \<leftarrow> reg p (P2 pOp);
         Some (Inr (set_reg p (P2 pOp) (MemSetTypeFlag pOut MEM_Null), pc)) }
       else Some (Inr (p, if P5 pOp AND SQLITE_JUMPIFNULL \<noteq> 0 then P2 pOp - 1 else pc))
     else do {
       let p = set_reg p (P1 pOp) (cmp_affinity e (P5 pOp) pIn1);
       pIn3 \<leftarrow> reg p (P3 pOp);
       let p = set_reg p (P3 pOp) (cmp_affinity e (P5 pOp) pIn3);
       (p, flags1) \<leftarrow> cmp_expand p (P1 pOp) flags1;
       (p, flags3) \<leftarrow> cmp_expand p (P3 pOp) flags3;
       if mallocFailed e then Some (Inl OutOfMemory)
       else do {
         pIn3 \<leftarrow> reg p (P3 pOp);
         pIn1 \<leftarrow> reg p (P1 pOp);
         cmp_finish p pc pOp (sqlite3MemCompare pIn3 pIn1 (P4_coll pOp)) flags1 flags3 }
     }
   }"

fun compare_regs :: "vdbe \<Rightarrow> int \<Rightarrow> int \<Rightarrow> (collseq option \<times> bool) list \<Rightarrow> int \<Rightarrow> int option" where
  "compare_regs p p1 p2 [] ic = Some ic"
| "compare_regs p p1 p2 ((pColl, bRev) # ks) ic = do {
     a \<leftarrow> reg p p1;
     b \<leftarrow> reg p p2;
     let ic = sqlite3MemCompare a b pColl;
     if ic \<noteq> 0 then Some (if bRev then - ic else ic) else compare_regs p (p1 + 1) (p2 + 1) ks ic }"

text \<open>With \<^verbatim>\<open>OPFLAG_PERMUTE\<close> the code reads \<^verbatim>\<open>p4.ai\<close> of the instruction itself, a union with
  \<^verbatim>\<open>p4.pKeyInfo\<close>, and would take the bytes of the \<^verbatim>\<open>KeyInfo\<close> for a permutation.\<close>

definition impl_OP_Compare :: "vdbe \<Rightarrow> vdbe_op \<Rightarrow> vdbe option" where
  "impl_OP_Compare p pOp =
     (let n = nat (P3 pOp)
      in if P5 pOp AND OPFLAG_PERMUTE \<noteq> 0 \<or> n > length (P4_keyinfo pOp) then None
         else do {
           ic \<leftarrow> compare_regs p (P1 pOp) (P2 pOp) (take n (P4_keyinfo pOp)) (iCompare p);
           Some (p\<lparr>iCompare := ic\<rparr>) })"

definition impl_OP_Jump :: "vdbe \<Rightarrow> vdbe_op \<Rightarrow> int" where
  "impl_OP_Jump p pOp =
     (if iCompare p < 0 then P1 pOp - 1 else if iCompare p = 0 then P2 pOp - 1 else P3 pOp - 1)"

section \<open>Cells and values\<close>

text \<open>A cell whose flags give one value: not a number twice, and something.\<close>

definition plain_cell :: "mem \<Rightarrow> bool" where
  "plain_cell m \<longleftrightarrow> mem_value m \<noteq> VOther \<and> \<not> (has m MEM_Int \<and> has m MEM_Real)"

lemma plain_cases:
  assumes "plain_cell m" "\<not> has m MEM_Zero"
  obtains (Null) "mem_class m = 0" "mem_value m = VNull"
  | (Int) "mem_class m = 1" "has m MEM_Int" "\<not> has m MEM_Real" "mem_value m = VInt (u_i m)"
  | (Real) "mem_class m = 1" "\<not> has m MEM_Int" "has m MEM_Real" "mem_value m = VReal (u_r m)"
  | (Text) "mem_class m = 2" "mem_value m = VText (zdata m)"
  | (Blob) "mem_class m = 3" "mem_value m = VBlob (zdata m)"
  using assms by (auto simp: mem_class_def mem_value_def mem_bytes_def plain_cell_def split: if_splits)

lemma MemCompare_value:
  assumes "plain_cell a" "plain_cell b" "\<not> has a MEM_Zero" "\<not> has b MEM_Zero"
    and c: "\<forall>c. coll = Some c \<longrightarrow> mem_class a = 2 \<longrightarrow> enc a = cenc c"
  shows "sqlite3MemCompare a b coll = value_compare coll (mem_value a) (mem_value b)"
proof -
  have bc: "sqlite3BlobCompare a b = bytes_compare (zdata a) (zdata b)"
    by (simp add: sqlite3BlobCompare_def bytes_compare_def Let_def min_def not_le)
  show ?thesis
    using assms(1,3)
    by (cases a rule: plain_cases; use assms(2,4) in \<open>cases b rule: plain_cases\<close>;
        use c in \<open>simp add: MemCompare_cases int_compare_def num_dbl_def vdbeCompareMemString_def bc split: option.split\<close>)
qed

section \<open>One comparison\<close>

definition expanded :: "mem \<Rightarrow> mem" where
  "expanded m = (if has m MEM_Zero then sqlite3VdbeMemExpandBlob m else m)"

definition restored :: "u16 \<Rightarrow> mem \<Rightarrow> u16" where
  "restored f m = (if has m MEM_Zero then f AND NOT MEM_Zero else f)"

lemma cmp_expand_eq: "reg p i = Some m \<Longrightarrow> cmp_expand p i f = Some (set_reg p i (expanded m), restored f m)"
  by (simp add: cmp_expand_def expanded_def restored_def set_reg_id)

lemma affinity_cases:
  fixes e p5 m
  defines "c \<equiv> cmp_affinity e p5 m"
  shows "c = m
    \<or> c = m\<lparr>u_i := u_i c, u_r := u_r c, flags := flags c\<rparr> \<and> has c MEM_Zero = has m MEM_Zero
        \<and> \<not> has m MEM_Int \<and> \<not> has m MEM_Real
    \<or> c = m\<lparr>zdata := zdata c, enc := enc c, flags := flags c\<rparr> \<and> \<not> has c MEM_Zero \<and> (has m MEM_Int \<or> has m MEM_Real)"
proof -
  obtain ok r where a: "sqlite3AtoF e (zdata m) (enc m) = (ok, r)" by (rule prod.exhaust)
  obtain i rc where i: "sqlite3Atoi64 (mem_text m) (unat (enc m)) = (i, rc)" by (rule prod.exhaust)
  have "c = m \<or> c = applyNumericAffinity e m False \<and> flags m AND (MEM_Int OR MEM_Real OR MEM_Str) = MEM_Str
      \<or> c = sqlite3VdbeMemStringify e m True \<and> has m (MEM_Int OR MEM_Real)"
    unfolding c_def cmp_affinity_def Let_def by (auto split: if_split)
  then consider "c = m" | "c = applyNumericAffinity e m False" "flags m AND (MEM_Int OR MEM_Real OR MEM_Str) = MEM_Str"
    | "c = sqlite3VdbeMemStringify e m True" "has m (MEM_Int OR MEM_Real)" by blast
  then show ?thesis
  proof cases
    case 2
    have n: "\<not> has m MEM_Int" "\<not> has m MEM_Real"
      using arg_cong [OF 2(2), of "\<lambda>w. bit w 2"] arg_cong [OF 2(2), of "\<lambda>w. bit w 3"]
      by (simp_all add: has_def flag_simps)
    have "c = m \<or> c = m\<lparr>u_i := i, flags := flags m OR MEM_Int\<rparr> \<or> c = m\<lparr>u_r := r, flags := flags m OR MEM_Real\<rparr>"
      unfolding 2(1) by (simp add: applyNumericAffinity_def a i Let_def)
    then show ?thesis using n by (auto simp: has_def flag_simps)
  next
    case 3
    have "\<not> has c MEM_Zero"
      unfolding 3(1) sqlite3VdbeMemStringify_def Let_def by (simp add: has_def flag_simps)
    then show ?thesis using 3 by (auto simp: sqlite3VdbeMemStringify_def has_def flag_simps)
  qed simp
qed

lemma value_restored:
  "mem_value ((expanded (cmp_affinity e p5 m))\<lparr>flags := restored (flags m) (cmp_affinity e p5 m)\<rparr>) = mem_value m"
proof -
  have nz: "(f AND - 16385) AND 1 = f AND 1" "(f AND - 16385) AND 2 = f AND 2" "(f AND - 16385) AND 4 = f AND 4"
    "(f AND - 16385) AND 8 = f AND 8" "(f AND - 16385) AND 16 = f AND 16" "(f AND - 16385) AND 0x4000 = 0" for f :: u16
    by (simp_all add: and.assoc)
  have h: "flags m AND g = 0 \<longleftrightarrow> \<not> has m g" for g by (simp add: has_def)
  define c where "c = cmp_affinity e p5 m"
  consider "c = m" | "c = m\<lparr>u_i := u_i c, u_r := u_r c, flags := flags c\<rparr>" "has c MEM_Zero = has m MEM_Zero"
       "\<not> has m MEM_Int" "\<not> has m MEM_Real"
    | "c = m\<lparr>zdata := zdata c, enc := enc c, flags := flags c\<rparr>" "\<not> has c MEM_Zero" "has m MEM_Int \<or> has m MEM_Real"
    using affinity_cases [of e p5 m] unfolding c_def by blast
  then show ?thesis
  proof cases
    case 1
    show ?thesis unfolding c_def [symmetric]
      by (simp add: 1 mem_value_def mem_bytes_def expanded_def restored_def sqlite3VdbeMemExpandBlob_def nz h)
  next
    case 2
    have s: "zdata c = zdata m" "u_nZero c = u_nZero m" by (subst 2(1), simp)+
    show ?thesis unfolding c_def [symmetric] using 2(2-4)
      by (simp add: mem_value_def mem_bytes_def expanded_def restored_def sqlite3VdbeMemExpandBlob_def s nz h)
  next
    case 3
    have s: "u_i c = u_i m" "u_r c = u_r m" by (subst 3(1), simp)+
    show ?thesis unfolding c_def [symmetric] using 3(2,3)
      by (elim disjE; simp add: mem_value_def mem_bytes_def expanded_def restored_def s h)
  qed
qed

definition same_value :: "vdbe \<Rightarrow> vdbe \<Rightarrow> int \<Rightarrow> bool" where
  "same_value p p' j \<longleftrightarrow> (\<forall>c. reg p j = Some c \<longrightarrow> (\<exists>c'. reg p' j = Some c' \<and> mem_value c' = mem_value c))"

lemma cmp_finish_eq:
  assumes r: "reg q (P1 pOp) = Some a1" "reg q (P3 pOp) = Some a3" "P1 pOp \<noteq> P3 pOp"
    and out: "P5 pOp AND SQLITE_STOREP2 \<noteq> 0 \<Longrightarrow> reg q (P2 pOp) = Some m2 \<and> P2 pOp \<noteq> P1 pOp \<and> P2 pOp \<noteq> P3 pOp"
  shows "\<exists>p' pc'. cmp_finish q pc pOp res f1 f3 = Some (Inr (p', pc'))
    \<and> reg p' (P1 pOp) = Some (a1\<lparr>flags := f1\<rparr>) \<and> reg p' (P3 pOp) = Some (a3\<lparr>flags := f3\<rparr>)
    \<and> (\<forall>j. j \<noteq> P1 pOp \<and> j \<noteq> P3 pOp \<and> (P5 pOp AND SQLITE_STOREP2 \<noteq> 0 \<longrightarrow> j \<noteq> P2 pOp) \<longrightarrow> reg p' j = reg q j)
    \<and> (if P5 pOp AND SQLITE_STOREP2 \<noteq> 0
        then pc' = pc \<and> (\<exists>m. reg p' (P2 pOp) = Some m \<and> mem_value m = VInt (of_bool (cmp_test (opcode pOp) res)))
        else pc' = (if cmp_test (opcode pOp) res then P2 pOp - 1 else pc))"
proof (cases "P5 pOp AND SQLITE_STOREP2 \<noteq> 0")
  case True
  have "(MemSetTypeFlag m2 MEM_Int)\<lparr>u_i := x\<rparr> = MemSetTypeFlag (m2\<lparr>u_i := x\<rparr>) MEM_Int" for x
    by (simp add: MemSetTypeFlag_def)
  then show ?thesis using True r out [OF True] unfolding cmp_finish_def by (simp add: reg_set_reg)
next
  case False
  then show ?thesis using r unfolding cmp_finish_def by (simp add: reg_set_reg)
qed

lemma compare_number:
  assumes r: "reg p (P1 pOp) = Some m1" "reg p (P3 pOp) = Some m3" "P1 pOp \<noteq> P3 pOp"
    and out: "P5 pOp AND SQLITE_STOREP2 \<noteq> 0 \<Longrightarrow> reg p (P2 pOp) = Some m2 \<and> P2 pOp \<noteq> P1 pOp \<and> P2 pOp \<noteq> P3 pOp"
    and nn: "\<not> has m1 MEM_Null" "\<not> has m3 MEM_Null" and mf: "\<not> mallocFailed e"
  defines "a1 \<equiv> expanded (cmp_affinity e (P5 pOp) m1)" and "a3 \<equiv> expanded (cmp_affinity e (P5 pOp) m3)"
  defines "res \<equiv> cmp_test (opcode pOp) (sqlite3MemCompare a3 a1 (P4_coll pOp))"
  shows "\<exists>p' pc'. impl_OP_Ne_Eq_Gt_Le_Lt_Ge e p pc pOp = Some (Inr (p', pc'))
    \<and> (\<forall>j. (P5 pOp AND SQLITE_STOREP2 \<noteq> 0 \<longrightarrow> j \<noteq> P2 pOp) \<longrightarrow> same_value p p' j)
    \<and> (if P5 pOp AND SQLITE_STOREP2 \<noteq> 0
        then pc' = pc \<and> (\<exists>m. reg p' (P2 pOp) = Some m \<and> mem_value m = VInt (of_bool res))
        else pc' = (if res then P2 pOp - 1 else pc))"
proof -
  let ?c1 = "cmp_affinity e (P5 pOp) m1" and ?c3 = "cmp_affinity e (P5 pOp) m3"
  define q where "q = set_reg (set_reg (set_reg (set_reg p (P1 pOp) ?c1) (P3 pOp) ?c3) (P1 pOp) a1) (P3 pOp) a3"
  have qr: "reg q j = (if P3 pOp = j then Some a3 else if P1 pOp = j then Some a1 else reg p j)" for j
    using r by (simp add: q_def reg_set_reg)
  have null: "(flags m1 OR flags m3) AND 1 = 0" using nn by (simp add: has_def or_and_eq_0)
  have eq: "impl_OP_Ne_Eq_Gt_Le_Lt_Ge e p pc pOp = cmp_finish q pc pOp (sqlite3MemCompare a3 a1 (P4_coll pOp))
      (restored (flags m1) ?c1) (restored (flags m3) ?c3)"
    using r mf by (simp add: impl_OP_Ne_Eq_Gt_Le_Lt_Ge_def null reg_set_reg cmp_expand_eq a1_def a3_def q_def Let_def)
  have qo: "P5 pOp AND SQLITE_STOREP2 \<noteq> 0 \<Longrightarrow> reg q (P2 pOp) = Some m2 \<and> P2 pOp \<noteq> P1 pOp \<and> P2 pOp \<noteq> P3 pOp"
    using out by (simp add: qr)
  have q13: "reg q (P1 pOp) = Some a1" "reg q (P3 pOp) = Some a3" using r(3) by (simp_all add: qr)
  obtain p' pc' where f: "cmp_finish q pc pOp (sqlite3MemCompare a3 a1 (P4_coll pOp))
      (restored (flags m1) ?c1) (restored (flags m3) ?c3) = Some (Inr (p', pc'))"
    and p': "reg p' (P1 pOp) = Some (a1\<lparr>flags := restored (flags m1) ?c1\<rparr>)"
      "reg p' (P3 pOp) = Some (a3\<lparr>flags := restored (flags m3) ?c3\<rparr>)"
      "\<And>j. j \<noteq> P1 pOp \<and> j \<noteq> P3 pOp \<and> (P5 pOp AND SQLITE_STOREP2 \<noteq> 0 \<longrightarrow> j \<noteq> P2 pOp) \<Longrightarrow> reg p' j = reg q j"
    and o: "if P5 pOp AND SQLITE_STOREP2 \<noteq> 0
        then pc' = pc \<and> (\<exists>m. reg p' (P2 pOp) = Some m \<and> mem_value m = VInt (of_bool res))
        else pc' = (if res then P2 pOp - 1 else pc)"
    using cmp_finish_eq [OF q13 r(3) qo, of pc "sqlite3MemCompare a3 a1 (P4_coll pOp)" "restored (flags m1) ?c1" "restored (flags m3) ?c3"]
    unfolding res_def by blast
  have "same_value p p' j" if "P5 pOp AND SQLITE_STOREP2 \<noteq> 0 \<longrightarrow> j \<noteq> P2 pOp" for j
  proof -
    consider "j = P1 pOp" | "j = P3 pOp" | "j \<noteq> P1 pOp" "j \<noteq> P3 pOp" by blast
    then show ?thesis
      by cases (use r p' that value_restored in \<open>auto simp: same_value_def a1_def a3_def qr\<close>)
  qed
  then show ?thesis using eq f o by auto
qed

lemma value_null: "mem_value m = VNull \<longleftrightarrow> has m MEM_Null"
  by (simp add: mem_value_def)

lemma operand_null: "mem_value (expanded (cmp_affinity e p5 m)) = VNull \<longleftrightarrow> has m MEM_Null"
proof -
  have 1: "has (cmp_affinity e p5 m) MEM_Null = has m MEM_Null"
    unfolding cmp_affinity_def Let_def applyNumericAffinity_def sqlite3VdbeMemStringify_def
    by (simp add: has_def flag_simps split: prod.split)
  have 2: "has (expanded c) MEM_Null = has c MEM_Null" for c
    by (simp add: expanded_def sqlite3VdbeMemExpandBlob_def) (simp add: has_def and.assoc)
  show ?thesis by (simp add: value_null 1 2)
qed

lemma expanded_not_Zero: "\<not> has (expanded c) MEM_Zero"
  by (simp add: expanded_def sqlite3VdbeMemExpandBlob_def and.assoc)

text \<open>The comparison of two SQL values: unknown when one of them is NULL.\<close>

definition sql_compare :: "opcode \<Rightarrow> collseq option \<Rightarrow> sqlvalue \<Rightarrow> sqlvalue \<Rightarrow> bool option" where
  "sql_compare oc coll x y =
     (if x = VNull \<or> y = VNull then None else Some (cmp_test oc (value_compare coll x y)))"

section \<open>A vector of registers\<close>

lemma compare_regs_rows:
  assumes "length as = length ks" "length bs = length ks"
    and "\<forall>i < length ks. reg p (p1 + int i) = Some (as ! i) \<and> reg p (p2 + int i) = Some (bs ! i)"
    and "\<forall>i < length ks. sqlite3MemCompare (as ! i) (bs ! i) (fst (ks ! i))
      = value_compare (fst (ks ! i)) (mem_value (as ! i)) (mem_value (bs ! i))"
  shows "\<exists>ic'. compare_regs p p1 p2 ks ic = Some ic' \<and> (ks \<noteq> [] \<longrightarrow>
    ic' = row_compare 0 (map snd ks) (map fst ks) (map mem_value as) (map mem_value bs))"
  using assms
proof (induction ks arbitrary: p1 p2 as bs ic)
  case (Cons k ks)
  obtain c r where k: "k = (c, r)" by (rule prod.exhaust)
  obtain a as' where as: "as = a # as'" using Cons.prems(1) by (cases as) auto
  obtain b bs' where bs: "bs = b # bs'" using Cons.prems(2) by (cases bs) auto
  have 0: "reg p p1 = Some a" "reg p p2 = Some b" "sqlite3MemCompare a b c = value_compare c (mem_value a) (mem_value b)"
    using Cons.prems(3,4) by (force simp: as bs k)+
  have s: "p1 + 1 + int i = p1 + int (Suc i)" "p2 + 1 + int i = p2 + int (Suc i)" for i by simp_all
  have IH: "\<exists>ic'. compare_regs p (p1 + 1) (p2 + 1) ks ic = Some ic' \<and> (ks \<noteq> [] \<longrightarrow>
      ic' = row_compare 0 (map snd ks) (map fst ks) (map mem_value as') (map mem_value bs'))" for ic
    using Cons.prems unfolding as bs by (intro Cons.IH) (force simp: s)+
  show ?case
  proof (cases "ks = []")
    case True
    then show ?thesis by (simp add: k 0 as bs Let_def)
  next
    case False
    then show ?thesis using IH [of 0] by (auto simp: k 0 as bs Let_def)
  qed
qed simp

lemma enc_int_mem: "enc (int_mem i) = 1"
  by (simp add: int_mem_def)

text \<open>Unlike the comparison opcodes, \<^verbatim>\<open>OP_Compare\<close> does not write out the tail of a zero-filled blob
  first: two blobs of different length compare as equal, and the jump goes to \<^verbatim>\<open>P2\<close>.\<close>

lemma compare_ignores_zero_tail:
  defines "a \<equiv> sqlite3VdbeMemSetZeroBlob (int_mem 0) 1" and "b \<equiv> sqlite3VdbeMemSetZeroBlob (int_mem 0) 2"
  shows "\<exists>p'. impl_OP_Compare (regs3 a b) ((int_op OP_Compare)\<lparr>P3 := 1, P4_keyinfo := [(None, False)]\<rparr>) = Some p'
    \<and> impl_OP_Jump p' ((int_op OP_Jump)\<lparr>P1 := 100, P2 := 200, P3 := 300\<rparr>) = 199
    \<and> mem_value a = VBlob [0] \<and> mem_value b = VBlob [0, 0] \<and> value_compare None (mem_value a) (mem_value b) < 0"
proof -
  have f: "flags a = 0x4010" "flags b = 0x4010" "zdata a = []" "zdata b = []" "u_nZero a = 1" "u_nZero b = 2"
    by (simp_all add: a_def b_def sqlite3VdbeMemSetZeroBlob_def)
  have w: "mem_value a = VBlob (replicate 1 0)" "mem_value b = VBlob (replicate 2 0)"
    using f by (simp_all add: mem_value_def mem_bytes_def has_def)
  have v: "mem_value a = VBlob [0]" "mem_value b = VBlob [0, 0]" unfolding w by (simp_all add: numeral_2_eq_2)
  have c: "sqlite3MemCompare a b None = 0"
    using f by (simp add: MemCompare_cases mem_class_def has_def sqlite3BlobCompare_def)
  have r: "reg (regs3 a b) 1 = Some a" "reg (regs3 a b) 2 = Some b" by (simp_all add: regs3_def reg_def nat_numeral)
  have "impl_OP_Compare (regs3 a b) ((int_op OP_Compare)\<lparr>P3 := 1, P4_keyinfo := [(None, False)]\<rparr>) = Some ((regs3 a b)\<lparr>iCompare := 0\<rparr>)"
    using r c by (simp add: impl_OP_Compare_def int_op_def)
  then show ?thesis using v by (simp add: impl_OP_Jump_def int_op_def bytes_compare_def)
qed

section \<open>Properties\<close>



text \<open>C17. \<^verbatim>\<open>OP_Compare\<close> followed by \<^verbatim>\<open>OP_Jump\<close> branches on the lexicographic order of two
  vectors of registers, the order in which records are compared, in the direction given for
  each field: to \<^verbatim>\<open>P1\<close>, \<^verbatim>\<open>P2\<close> or \<^verbatim>\<open>P3\<close> of the jump when the first vector is less,
  equal or greater; no register is changed. (Without \<^verbatim>\<open>OPFLAG_PERMUTE\<close>, for registers that hold
  no zero-filled blob, whose tail \<^verbatim>\<open>OP_Compare\<close> does not see: \<^verbatim>\<open>compare_ignores_zero_tail\<close>; and with
  all texts in the encoding of the collating sequences.)\<close>

theorem compare_then_jump:
  assumes "P5 pOp AND OPFLAG_PERMUTE = 0" and "P3 pOp = int (length (P4_keyinfo pOp))" and "P4_keyinfo pOp \<noteq> []"
    and "length as = length (P4_keyinfo pOp)" and "length bs = length (P4_keyinfo pOp)"
    and "\<forall>i < length as. reg p (P1 pOp + int i) = Some (as ! i) \<and> reg p (P2 pOp + int i) = Some (bs ! i)"
    and "\<forall>m \<in> set as \<union> set bs. plain_cell m \<and> \<not> has m MEM_Zero \<and> enc m = cd"
    and "\<forall>c \<in> set (P4_keyinfo pOp). \<forall>c'. fst c = Some c' \<longrightarrow> cenc c' = cd"
  shows "\<exists>p'. impl_OP_Compare p pOp = Some p' \<and> aMem p' = aMem p \<and>
    (let c = row_compare 0 (map snd (P4_keyinfo pOp)) (map fst (P4_keyinfo pOp)) (map mem_value as) (map mem_value bs)
     in impl_OP_Jump p' pJump = (if c < 0 then P1 pJump else if c = 0 then P2 pJump else P3 pJump) - 1)"
proof -
  let ?ks = "P4_keyinfo pOp"
  have m: "\<forall>i < length ?ks. sqlite3MemCompare (as ! i) (bs ! i) (fst (?ks ! i))
      = value_compare (fst (?ks ! i)) (mem_value (as ! i)) (mem_value (bs ! i))"
  proof (intro allI impI)
    fix i assume i: "i < length ?ks"
    have "as ! i \<in> set as" "bs ! i \<in> set bs" "?ks ! i \<in> set ?ks" using i assms(4,5) by simp_all
    then show "sqlite3MemCompare (as ! i) (bs ! i) (fst (?ks ! i))
        = value_compare (fst (?ks ! i)) (mem_value (as ! i)) (mem_value (bs ! i))"
      using assms(7,8) by (intro MemCompare_value) auto
  qed
  obtain ic where ic: "compare_regs p (P1 pOp) (P2 pOp) ?ks (iCompare p) = Some ic"
      "ic = row_compare 0 (map snd ?ks) (map fst ?ks) (map mem_value as) (map mem_value bs)"
    using compare_regs_rows [OF assms(4,5) _ m, of p "P1 pOp" "P2 pOp" "iCompare p"] assms(3,4,6) by auto
  have "impl_OP_Compare p pOp = Some (p\<lparr>iCompare := ic\<rparr>)"
    using ic(1) assms(1,2) by (simp add: impl_OP_Compare_def)
  then show ?thesis using ic(2) by (simp add: impl_OP_Jump_def Let_def)
qed

theorem compare_then_jump_witness:
  "\<exists>p'. impl_OP_Compare (regs3 (int_mem 7) (int_mem 9)) ((int_op OP_Compare)\<lparr>P3 := 1, P4_keyinfo := [(None, True)]\<rparr>) = Some p'
    \<and> impl_OP_Jump p' ((int_op OP_Jump)\<lparr>P1 := 100, P2 := 200, P3 := 300\<rparr>) = 299"
  using compare_then_jump [of "(int_op OP_Compare)\<lparr>P3 := 1, P4_keyinfo := [(None, True)]\<rparr>" "[int_mem 7]" "[int_mem 9]"
      "regs3 (int_mem 7) (int_mem 9)" 1 "(int_op OP_Jump)\<lparr>P1 := 100, P2 := 200, P3 := 300\<rparr>"]
  by (auto simp: int_op_def plain_cell_def has_def int_compare_def enc_int_mem)

end
