(* ===== verification/VdbeControl.thy ===== *)
theory VdbeControl
  imports VdbeCompare
begin

text \<open>
  The opcodes that move values and control (\<^verbatim>\<open>src/sqlite/src/sqpyte.c\<close>): jumps, subroutines
  and coroutines, copies, counters and the once-flags; and one iteration of the interpreter
  loop of \<^verbatim>\<open>src/sqlite/src/vdbe.c\<close> over them.
\<close>

section \<open>Moving values\<close>

definition sqlite3VdbeMemShallowCopy :: "mem \<Rightarrow> mem" where
  "sqlite3VdbeMemShallowCopy pFrom =
     (if \<not> has pFrom MEM_Static
      then pFrom\<lparr>flags := (flags pFrom AND NOT (MEM_Dyn OR MEM_Static OR MEM_Ephem)) OR MEM_Ephem\<rparr>
      else pFrom)"

text \<open>The content of a text or blob is copied to a buffer of its own; the allocation may fail.\<close>

definition sqlite3VdbeMemMakeWriteable :: "env \<Rightarrow> mem \<Rightarrow> mem option" where
  "sqlite3VdbeMemMakeWriteable e pMem =
     (let pMem = expanded pMem
      in if has pMem (MEM_Str OR MEM_Blob) then
           if mallocFailed e then None
           else Some (pMem\<lparr>flags := (flags pMem AND NOT (MEM_Dyn OR MEM_Ephem OR MEM_Static)) OR MEM_Term\<rparr>)
         else Some pMem)"

fun copy_regs :: "env \<Rightarrow> vdbe \<Rightarrow> int \<Rightarrow> int \<Rightarrow> nat \<Rightarrow> (vdbe_error + vdbe) option" where
  "copy_regs e p i j n = do {
     pIn1 \<leftarrow> reg p i;
     _ \<leftarrow> reg p j;
     let pOut = sqlite3VdbeMemShallowCopy pIn1;
     case (if has pOut MEM_Ephem then sqlite3VdbeMemMakeWriteable e pOut else Some pOut) of
       None \<Rightarrow> Some (Inl OutOfMemory)
     | Some pOut \<Rightarrow>
         let p = set_reg p j pOut
         in case n of 0 \<Rightarrow> Some (Inr p) | Suc n \<Rightarrow> copy_regs e p (i + 1) (j + 1) n
   }"

declare copy_regs.simps [simp del]

definition impl_OP_Copy :: "env \<Rightarrow> vdbe \<Rightarrow> int \<Rightarrow> vdbe_op \<Rightarrow> vdbe_result" where
  "impl_OP_Copy e p pc pOp =
     map_option (map_sum id (\<lambda>p. (p, pc))) (copy_regs e p (P1 pOp) (P2 pOp) (nat (P3 pOp)))"

definition impl_OP_SCopy :: "vdbe \<Rightarrow> vdbe_op \<Rightarrow> vdbe option" where
  "impl_OP_SCopy p pOp = do {
     pIn1 \<leftarrow> reg p (P1 pOp);
     _ \<leftarrow> reg p (P2 pOp);
     Some (set_reg p (P2 pOp) (sqlite3VdbeMemShallowCopy pIn1)) }"

text \<open>The \<^verbatim>\<open>do\<close> loop of \<^verbatim>\<open>OP_Move\<close> runs once for a count of 1.\<close>

fun move_regs :: "vdbe \<Rightarrow> int \<Rightarrow> int \<Rightarrow> nat \<Rightarrow> vdbe option" where
  "move_regs p i j 0 = Some p"
| "move_regs p i j (Suc n) = do {
     pIn1 \<leftarrow> reg p i;
     _ \<leftarrow> reg p j;
     let p = set_reg p j pIn1;
     pIn1 \<leftarrow> reg p i;
     let p = set_reg p i (pIn1\<lparr>flags := MEM_Null\<rparr>);
     move_regs p (i + 1) (j + 1) n }"

definition impl_OP_Move :: "vdbe \<Rightarrow> vdbe_op \<Rightarrow> vdbe option" where
  "impl_OP_Move p pOp = (if P3 pOp \<le> 0 then None else move_regs p (P1 pOp) (P2 pOp) (nat (P3 pOp)))"

section \<open>Constants and counters\<close>

text \<open>The flag \<^verbatim>\<open>out2-prerelease\<close> makes the interpreter loop mark the output register as an
  integer before the opcode runs.\<close>

definition out2_prerelease :: "vdbe \<Rightarrow> vdbe_op \<Rightarrow> vdbe option" where
  "out2_prerelease p pOp = do { pOut \<leftarrow> reg p (P2 pOp); Some (set_reg p (P2 pOp) (pOut\<lparr>flags := MEM_Int\<rparr>)) }"

definition impl_OP_Integer :: "vdbe \<Rightarrow> vdbe_op \<Rightarrow> vdbe option" where
  "impl_OP_Integer p pOp = do { pOut \<leftarrow> reg p (P2 pOp); Some (set_reg p (P2 pOp) (pOut\<lparr>u_i := P1 pOp\<rparr>)) }"

definition impl_OP_Real :: "vdbe \<Rightarrow> vdbe_op \<Rightarrow> vdbe option" where
  "impl_OP_Real p pOp = do {
     pOut \<leftarrow> reg p (P2 pOp);
     Some (set_reg p (P2 pOp) (pOut\<lparr>flags := MEM_Real, u_r := P4_real pOp\<rparr>)) }"

fun null_regs :: "vdbe \<Rightarrow> int \<Rightarrow> nat \<Rightarrow> u16 \<Rightarrow> vdbe option" where
  "null_regs p i 0 nullFlag = Some p"
| "null_regs p i (Suc cnt) nullFlag = do {
     pOut \<leftarrow> reg p i;
     null_regs (set_reg p i ((sqlite3VdbeMemSetNull pOut)\<lparr>flags := nullFlag\<rparr>)) (i + 1) cnt nullFlag }"

definition impl_OP_Null :: "vdbe \<Rightarrow> vdbe_op \<Rightarrow> vdbe option" where
  "impl_OP_Null p pOp = do {
     let nullFlag = (if P1 pOp \<noteq> 0 then MEM_Null OR MEM_Cleared else MEM_Null);
     pOut \<leftarrow> reg p (P2 pOp);
     null_regs (set_reg p (P2 pOp) (pOut\<lparr>flags := nullFlag\<rparr>)) (P2 pOp + 1) (nat (P3 pOp - P2 pOp)) nullFlag }"

definition impl_OP_RealAffinity :: "env \<Rightarrow> vdbe \<Rightarrow> vdbe_op \<Rightarrow> vdbe option" where
  "impl_OP_RealAffinity e p pOp = do {
     pIn1 \<leftarrow> reg p (P1 pOp);
     Some (if has pIn1 MEM_Int then set_reg p (P1 pOp) (sqlite3VdbeMemRealify e pIn1) else p) }"

definition impl_OP_MustBeInt :: "env \<Rightarrow> vdbe \<Rightarrow> int \<Rightarrow> vdbe_op \<Rightarrow> vdbe_result" where
  "impl_OP_MustBeInt e p pc pOp = do {
     pIn1 \<leftarrow> reg p (P1 pOp);
     let m = (if has pIn1 MEM_Int then pIn1 else applyAffinity e pIn1 CHR ''C'');
     let p = set_reg p (P1 pOp) m;
     Some (if \<not> has m MEM_Int then
             if P2 pOp = 0 then Inl (AbortDueToError 20) else Inr (p, P2 pOp - 1)
           else Inr (set_reg p (P1 pOp) (MemSetTypeFlag m MEM_Int), pc)) }"

definition impl_OP_CollSeq :: "vdbe \<Rightarrow> vdbe_op \<Rightarrow> vdbe option" where
  "impl_OP_CollSeq p pOp =
     (if P1 pOp \<noteq> 0 then do { m \<leftarrow> reg p (P1 pOp); Some (set_reg p (P1 pOp) (sqlite3VdbeMemSetInt64 m 0)) }
      else Some p)"

definition impl_OP_Sequence :: "vdbe \<Rightarrow> vdbe_op \<Rightarrow> vdbe option" where
  "impl_OP_Sequence p pOp = do {
     pOut \<leftarrow> reg p (P2 pOp);
     let c = nat (P1 pOp);
     if P1 pOp < 0 \<or> c \<ge> length (seqCount p) then None
     else Some (set_reg (p\<lparr>seqCount := (seqCount p)[c := wrap64 (seqCount p ! c + 1)]\<rparr>) (P2 pOp)
                  (pOut\<lparr>flags := MEM_Int, u_i := seqCount p ! c\<rparr>)) }"

section \<open>Jumps\<close>

definition impl_OP_Goto :: "env \<Rightarrow> vdbe \<Rightarrow> vdbe_op \<Rightarrow> vdbe_result" where
  "impl_OP_Goto e p pOp =
     (let pc = P2 pOp - 1
      in if isInterrupted e then Some (Inl AbortDueToInterrupt)
         else case xProgress e of
           Some stop \<Rightarrow>
             if nVmStep p \<ge> nProgressLimit p then
               let p = p\<lparr>nProgressLimit := nVmStep p + nProgressOps e - nVmStep p mod nProgressOps e\<rparr>
               in if stop then Some (Inl (ErrorHalt 9)) else Some (Inr (p, pc))
             else Some (Inr (p, pc))
         | None \<Rightarrow> Some (Inr (p, pc)))"

definition impl_OP_Gosub :: "vdbe \<Rightarrow> int \<Rightarrow> vdbe_op \<Rightarrow> (vdbe \<times> int) option" where
  "impl_OP_Gosub p pc pOp = do {
     pIn1 \<leftarrow> reg p (P1 pOp);
     Some (set_reg p (P1 pOp) (pIn1\<lparr>flags := MEM_Int, u_i := pc\<rparr>), P2 pOp - 1) }"

definition impl_OP_Return :: "vdbe \<Rightarrow> vdbe_op \<Rightarrow> (vdbe \<times> int) option" where
  "impl_OP_Return p pOp = do {
     pIn1 \<leftarrow> reg p (P1 pOp);
     Some (set_reg p (P1 pOp) (pIn1\<lparr>flags := MEM_Undefined\<rparr>), u_i pIn1) }"

definition impl_OP_InitCoroutine :: "vdbe \<Rightarrow> int \<Rightarrow> vdbe_op \<Rightarrow> (vdbe \<times> int) option" where
  "impl_OP_InitCoroutine p pc pOp = do {
     pOut \<leftarrow> reg p (P1 pOp);
     Some (set_reg p (P1 pOp) (pOut\<lparr>u_i := P3 pOp - 1, flags := MEM_Int\<rparr>),
           if P2 pOp \<noteq> 0 then P2 pOp - 1 else pc) }"

text \<open>The destination passes through an \<^verbatim>\<open>int\<close>.\<close>

definition impl_OP_Yield :: "vdbe \<Rightarrow> int \<Rightarrow> vdbe_op \<Rightarrow> (vdbe \<times> int) option" where
  "impl_OP_Yield p pc pOp = do {
     pIn1 \<leftarrow> reg p (P1 pOp);
     let pcDest = signed_take_bit 31 (u_i pIn1);
     Some (set_reg p (P1 pOp) (pIn1\<lparr>flags := MEM_Int, u_i := pc\<rparr>), pcDest) }"

definition impl_OP_EndCoroutine :: "vdbe \<Rightarrow> vdbe_op \<Rightarrow> (vdbe \<times> int) option" where
  "impl_OP_EndCoroutine p pOp = do {
     pIn1 \<leftarrow> reg p (P1 pOp);
     let i = u_i pIn1;
     if i < 0 \<or> nat i \<ge> length (aOp p) then None
     else Some (set_reg p (P1 pOp) (pIn1\<lparr>flags := MEM_Undefined\<rparr>), P2 (aOp p ! nat i) - 1) }"

definition impl_OP_If_IfNot :: "env \<Rightarrow> vdbe \<Rightarrow> int \<Rightarrow> vdbe_op \<Rightarrow> int option" where
  "impl_OP_If_IfNot e p pc pOp = do {
     pIn1 \<leftarrow> reg p (P1 pOp);
     let c = (if has pIn1 MEM_Null then P3 pOp \<noteq> 0
              else let c = \<not> dbl_zero (sqlite3VdbeRealValue e pIn1)
                   in if opcode pOp = OP_IfNot then \<not> c else c);
     Some (if c then P2 pOp - 1 else pc) }"

definition impl_OP_IsNull :: "vdbe \<Rightarrow> int \<Rightarrow> vdbe_op \<Rightarrow> int option" where
  "impl_OP_IsNull p pc pOp = do { pIn1 \<leftarrow> reg p (P1 pOp); Some (if has pIn1 MEM_Null then P2 pOp - 1 else pc) }"

definition impl_OP_NotNull :: "vdbe \<Rightarrow> int \<Rightarrow> vdbe_op \<Rightarrow> int option" where
  "impl_OP_NotNull p pc pOp = do { pIn1 \<leftarrow> reg p (P1 pOp); Some (if \<not> has pIn1 MEM_Null then P2 pOp - 1 else pc) }"

definition impl_OP_IfPos :: "vdbe \<Rightarrow> int \<Rightarrow> vdbe_op \<Rightarrow> int option" where
  "impl_OP_IfPos p pc pOp = do { pIn1 \<leftarrow> reg p (P1 pOp); Some (if u_i pIn1 > 0 then P2 pOp - 1 else pc) }"

definition impl_OP_IfZero :: "vdbe \<Rightarrow> int \<Rightarrow> vdbe_op \<Rightarrow> (vdbe \<times> int) option" where
  "impl_OP_IfZero p pc pOp = do {
     pIn1 \<leftarrow> reg p (P1 pOp);
     let i = wrap64 (u_i pIn1 + P3 pOp);
     Some (set_reg p (P1 pOp) (pIn1\<lparr>u_i := i\<rparr>), if i = 0 then P2 pOp - 1 else pc) }"

definition impl_OP_Once :: "vdbe \<Rightarrow> int \<Rightarrow> vdbe_op \<Rightarrow> (vdbe \<times> int) option" where
  "impl_OP_Once p pc pOp =
     (let k = nat (P1 pOp)
      in if P1 pOp < 0 \<or> k \<ge> length (aOnceFlag p) then None
         else if aOnceFlag p ! k \<noteq> 0 then Some (p, P2 pOp - 1)
         else Some (p\<lparr>aOnceFlag := (aOnceFlag p)[k := 1]\<rparr>, pc))"

section \<open>The interpreter loop\<close>

definition straight :: "int \<Rightarrow> vdbe option \<Rightarrow> vdbe_result" where
  "straight pc r = map_option (\<lambda>p. Inr (p, pc)) r"

definition jumping :: "(vdbe \<times> int) option \<Rightarrow> vdbe_result" where
  "jumping r = map_option Inr r"

definition testing :: "vdbe \<Rightarrow> int option \<Rightarrow> vdbe_result" where
  "testing p r = map_option (\<lambda>pc. Inr (p, pc)) r"

definition dispatch :: "env \<Rightarrow> vdbe \<Rightarrow> int \<Rightarrow> vdbe_op \<Rightarrow> vdbe_result" where
  "dispatch e p pc pOp =
     (case opcode pOp of
        OP_Goto \<Rightarrow> impl_OP_Goto e p pOp
      | OP_Gosub \<Rightarrow> jumping (impl_OP_Gosub p pc pOp)
      | OP_Return \<Rightarrow> jumping (impl_OP_Return p pOp)
      | OP_InitCoroutine \<Rightarrow> jumping (impl_OP_InitCoroutine p pc pOp)
      | OP_EndCoroutine \<Rightarrow> jumping (impl_OP_EndCoroutine p pOp)
      | OP_Yield \<Rightarrow> jumping (impl_OP_Yield p pc pOp)
      | OP_Integer \<Rightarrow> straight pc (do { p \<leftarrow> out2_prerelease p pOp; impl_OP_Integer p pOp })
      | OP_Real \<Rightarrow> straight pc (do { p \<leftarrow> out2_prerelease p pOp; impl_OP_Real p pOp })
      | OP_Null \<Rightarrow> straight pc (do { p \<leftarrow> out2_prerelease p pOp; impl_OP_Null p pOp })
      | OP_Sequence \<Rightarrow> straight pc (do { p \<leftarrow> out2_prerelease p pOp; impl_OP_Sequence p pOp })
      | OP_Copy \<Rightarrow> impl_OP_Copy e p pc pOp
      | OP_SCopy \<Rightarrow> straight pc (impl_OP_SCopy p pOp)
      | OP_Move \<Rightarrow> straight pc (impl_OP_Move p pOp)
      | OP_Add \<Rightarrow> straight pc (impl_OP_Add_Subtract_Multiply_Divide_Remainder e p pOp)
      | OP_Subtract \<Rightarrow> straight pc (impl_OP_Add_Subtract_Multiply_Divide_Remainder e p pOp)
      | OP_Multiply \<Rightarrow> straight pc (impl_OP_Add_Subtract_Multiply_Divide_Remainder e p pOp)
      | OP_Divide \<Rightarrow> straight pc (impl_OP_Add_Subtract_Multiply_Divide_Remainder e p pOp)
      | OP_Remainder \<Rightarrow> straight pc (impl_OP_Add_Subtract_Multiply_Divide_Remainder e p pOp)
      | OP_If \<Rightarrow> testing p (impl_OP_If_IfNot e p pc pOp)
      | OP_IfNot \<Rightarrow> testing p (impl_OP_If_IfNot e p pc pOp)
      | OP_IsNull \<Rightarrow> testing p (impl_OP_IsNull p pc pOp)
      | OP_NotNull \<Rightarrow> testing p (impl_OP_NotNull p pc pOp)
      | OP_IfPos \<Rightarrow> testing p (impl_OP_IfPos p pc pOp)
      | OP_IfZero \<Rightarrow> jumping (impl_OP_IfZero p pc pOp)
      | OP_Once \<Rightarrow> jumping (impl_OP_Once p pc pOp)
      | OP_Jump \<Rightarrow> testing p (Some (impl_OP_Jump p pOp))
      | OP_Compare \<Rightarrow> straight pc (impl_OP_Compare p pOp)
      | OP_RealAffinity \<Rightarrow> straight pc (impl_OP_RealAffinity e p pOp)
      | OP_MustBeInt \<Rightarrow> impl_OP_MustBeInt e p pc pOp
      | OP_CollSeq \<Rightarrow> straight pc (impl_OP_CollSeq p pOp)
      | _ \<Rightarrow> impl_OP_Ne_Eq_Gt_Le_Lt_Ge e p pc pOp)"

text \<open>One turn of the loop: \<^verbatim>\<open>pc\<close> is the instruction about to run, then the next one.\<close>

definition vdbe_step :: "env \<Rightarrow> vdbe \<times> int \<Rightarrow> vdbe_result" where
  "vdbe_step e s =
     (let (p, pc) = s
      in if pc < 0 \<or> nat pc \<ge> length (aOp p) then None
         else if mallocFailed e then Some (Inl OutOfMemory)
         else map_option (map_sum id (\<lambda>(p, pc). (p, pc + 1)))
                (dispatch e (p\<lparr>nVmStep := nVmStep p + 1\<rparr>) pc (aOp p ! nat pc)))"

section \<open>What an opcode touches\<close>

definition touches :: "vdbe_op \<Rightarrow> int set" where
  "touches pOp =
     (case opcode pOp of
        OP_Goto \<Rightarrow> {} | OP_If \<Rightarrow> {} | OP_IfNot \<Rightarrow> {} | OP_IsNull \<Rightarrow> {} | OP_NotNull \<Rightarrow> {} | OP_IfPos \<Rightarrow> {}
      | OP_Once \<Rightarrow> {} | OP_Jump \<Rightarrow> {} | OP_Compare \<Rightarrow> {}
      | OP_Gosub \<Rightarrow> {P1 pOp} | OP_Return \<Rightarrow> {P1 pOp} | OP_InitCoroutine \<Rightarrow> {P1 pOp} | OP_EndCoroutine \<Rightarrow> {P1 pOp}
      | OP_Yield \<Rightarrow> {P1 pOp} | OP_IfZero \<Rightarrow> {P1 pOp} | OP_RealAffinity \<Rightarrow> {P1 pOp} | OP_MustBeInt \<Rightarrow> {P1 pOp}
      | OP_CollSeq \<Rightarrow> {P1 pOp}
      | OP_Integer \<Rightarrow> {P2 pOp} | OP_Real \<Rightarrow> {P2 pOp} | OP_Sequence \<Rightarrow> {P2 pOp} | OP_SCopy \<Rightarrow> {P2 pOp}
      | OP_Null \<Rightarrow> {P2 pOp .. max (P2 pOp) (P3 pOp)}
      | OP_Copy \<Rightarrow> {P2 pOp .. P2 pOp + max 0 (P3 pOp)}
      | OP_Move \<Rightarrow> {P1 pOp ..< P1 pOp + P3 pOp} \<union> {P2 pOp ..< P2 pOp + P3 pOp}
      | _ \<Rightarrow> {P1 pOp, P2 pOp, P3 pOp})"

definition frame :: "int set \<Rightarrow> vdbe \<Rightarrow> vdbe \<Rightarrow> bool" where
  "frame S p p' \<longleftrightarrow> aOp p' = aOp p \<and> (\<forall>r. r \<notin> S \<longrightarrow> reg p' r = reg p r)
     \<and> length (aOnceFlag p') = length (aOnceFlag p)
     \<and> (\<forall>k < length (aOnceFlag p). aOnceFlag p ! k \<noteq> 0 \<longrightarrow> aOnceFlag p' ! k \<noteq> 0)"

lemma frame_refl [simp]: "frame S p p"
  by (simp add: frame_def)

lemma frame_trans: "frame S p q \<Longrightarrow> frame S q r \<Longrightarrow> frame S p r"
  by (simp add: frame_def)

lemma frame_set [intro]: "reg p i = Some m \<Longrightarrow> i \<in> S \<Longrightarrow> frame S p (set_reg p i m')"
  by (auto simp: frame_def reg_set_reg)

lemma frame_reg: "frame S p p' \<Longrightarrow> r \<notin> S \<Longrightarrow> reg p' r = reg p r"
  by (simp add: frame_def)

lemma frame_mono: "frame S p p' \<Longrightarrow> S \<subseteq> T \<Longrightarrow> frame T p p'"
  by (auto simp: frame_def)

lemma frame_set2:
  "reg p i = Some m \<Longrightarrow> i \<in> S \<Longrightarrow> reg p j = Some n \<Longrightarrow> j \<in> S \<Longrightarrow> frame S p (set_reg (set_reg p i m') j n')"
  using frame_trans [OF frame_set [of p i m S m'] frame_set] reg_set_reg_Some by blast

lemma frame_chain:
  "reg p i = Some m \<Longrightarrow> i \<in> S \<Longrightarrow> reg (set_reg p i m') j = Some n \<Longrightarrow> j \<in> S \<Longrightarrow> frame S p (set_reg (set_reg p i m') j n')"
  by (rule frame_trans [OF frame_set frame_set])

lemma copy_regs_frame:
  "copy_regs e p i j n = Some (Inr p') \<Longrightarrow> {j .. j + int n} \<subseteq> S \<Longrightarrow> frame S p p'"
proof (induction e p i j n rule: copy_regs.induct)
  case (1 e p i j n)
  from "1.prems"(1) obtain a b out where
    ab: "reg p i = Some a" "reg p j = Some b"
    and out: "(if has (sqlite3VdbeMemShallowCopy a) MEM_Ephem then sqlite3VdbeMemMakeWriteable e (sqlite3VdbeMemShallowCopy a)
       else Some (sqlite3VdbeMemShallowCopy a)) = Some out"
    and rest: "(case n of 0 \<Rightarrow> Some (Inr (set_reg p j out)) | Suc n \<Rightarrow> copy_regs e (set_reg p j out) (i + 1) (j + 1) n) = Some (Inr p')"
    by (subst (asm) copy_regs.simps) (auto simp: bind_eq_Some_conv Let_def split: option.splits)
  have f: "frame S p (set_reg p j out)" using ab "1.prems"(2) by (intro frame_set) auto
  show ?case
  proof (cases n)
    case 0
    then show ?thesis using rest f by simp
  next
    case (Suc k)
    have s: "{j + 1 .. j + 1 + int k} \<subseteq> S"
      by (rule subset_trans [OF _ "1.prems"(2)]) (use Suc in auto)
    have "frame S (set_reg p j out) p'"
      using "1.IH" [OF ab refl out refl Suc _ s] rest Suc by simp
    then show ?thesis using f frame_trans by blast
  qed
qed

lemma move_regs_frame:
  "move_regs p i j n = Some p' \<Longrightarrow> {i ..< i + int n} \<union> {j ..< j + int n} \<subseteq> S \<Longrightarrow> frame S p p'"
proof (induction n arbitrary: p i j)
  case (Suc n)
  from Suc.prems(1) obtain a b c where ab: "reg p i = Some a" "reg p j = Some b" "reg (set_reg p j a) i = Some c"
    and rest: "move_regs (set_reg (set_reg p j a) i (c\<lparr>flags := MEM_Null\<rparr>)) (i + 1) (j + 1) n = Some p'"
    by (auto simp: bind_eq_Some_conv Let_def)
  have "frame S p (set_reg (set_reg p j a) i (c\<lparr>flags := MEM_Null\<rparr>))"
    using ab Suc.prems(2) by (intro frame_set2) auto
  moreover have "{i + 1 ..< i + 1 + int n} \<union> {j + 1 ..< j + 1 + int n} \<subseteq> S" using Suc.prems(2) by auto
  ultimately show ?case using Suc.IH [OF rest] frame_trans by blast
qed simp

lemma null_regs_frame: "null_regs p i n f = Some p' \<Longrightarrow> {i ..< i + int n} \<subseteq> S \<Longrightarrow> frame S p p'"
proof (induction n arbitrary: p i)
  case (Suc n)
  from Suc.prems(1) obtain a where a: "reg p i = Some a"
    and rest: "null_regs (set_reg p i ((sqlite3VdbeMemSetNull a)\<lparr>flags := f\<rparr>)) (i + 1) n f = Some p'"
    by (auto simp: bind_eq_Some_conv)
  have "frame S p (set_reg p i ((sqlite3VdbeMemSetNull a)\<lparr>flags := f\<rparr>))" using a Suc.prems(2) by (intro frame_set) auto
  moreover have "{i + 1 ..< i + 1 + int n} \<subseteq> S" using Suc.prems(2) by auto
  ultimately show ?case using Suc.IH [OF rest] frame_trans by blast
qed simp

lemma prerelease_frame: "out2_prerelease p pOp = Some p' \<Longrightarrow> P2 pOp \<in> S \<Longrightarrow> frame S p p'"
  by (auto simp: out2_prerelease_def bind_eq_Some_conv)

lemma arith_frame:
  assumes "impl_OP_Add_Subtract_Multiply_Divide_Remainder e p pOp = Some p'" "{P1 pOp, P2 pOp, P3 pOp} \<subseteq> S"
  shows "frame S p p'"
proof -
  note d = impl_OP_Add_Subtract_Multiply_Divide_Remainder_def
  obtain m1 where m1: "reg p (P1 pOp) = Some m1" using assms(1) by (cases "reg p (P1 pOp)") (simp_all add: d)
  obtain m1' t1 where n1: "numericType e m1 = (m1', t1)" by (rule prod.exhaust)
  note 1 = m1 n1
  obtain m2 where m2: "reg (set_reg p (P1 pOp) m1') (P2 pOp) = Some m2"
    using assms(1) by (cases "reg (set_reg p (P1 pOp) m1') (P2 pOp)") (simp_all add: d 1)
  obtain m2' t2 where n2: "numericType e m2 = (m2', t2)" by (rule prod.exhaust)
  note 2 = m2 n2
  define q where "q = set_reg (set_reg p (P1 pOp) m1') (P2 pOp) m2'"
  obtain a b where ab: "reg q (P1 pOp) = Some a" "reg q (P2 pOp) = Some b"
    using reg_set_reg_Some m1 m2 unfolding q_def by metis
  obtain c where c: "reg q (P3 pOp) = Some c"
    using assms(1) by (cases "reg q (P3 pOp)") (simp_all add: d 1 2 ab q_def [symmetric])
  note 3 = c [unfolded q_def]
  have "\<exists>m. p' = set_reg q (P3 pOp) m"
    using assms(1) unfolding d 1 2 bind.bind_lunit Let_def prod.case q_def [symmetric] ab c option.inject
    by (auto split: if_splits int_result.splits option.splits)
  note 4 = this [unfolded q_def]
  have "frame S p (set_reg p (P1 pOp) m1')" using 1 assms(2) by (intro frame_set) auto
  moreover have "frame S (set_reg p (P1 pOp) m1') (set_reg (set_reg p (P1 pOp) m1') (P2 pOp) m2')"
    using 2 assms(2) by (intro frame_set) auto
  moreover have "frame S (set_reg (set_reg p (P1 pOp) m1') (P2 pOp) m2') p'" using 3 4 assms(2) by auto
  ultimately show ?thesis using frame_trans by blast
qed

lemma cmp_finish_frame:
  assumes "cmp_finish p pc pOp res f1 f3 = Some (Inr (p', pc'))" "{P1 pOp, P2 pOp, P3 pOp} \<subseteq> S"
  shows "frame S p p'"
proof -
  note d = cmp_finish_def Let_def
  show ?thesis
  proof (cases "P5 pOp AND SQLITE_STOREP2 = 0")
    case True
    obtain y ya where "reg p (P1 pOp) = Some y" "reg (set_reg p (P1 pOp) (y\<lparr>flags := f1\<rparr>)) (P3 pOp) = Some ya"
        "p' = set_reg (set_reg p (P1 pOp) (y\<lparr>flags := f1\<rparr>)) (P3 pOp) (ya\<lparr>flags := f3\<rparr>)"
      using assms(1) True by (auto simp: d bind_eq_Some_conv)
    then show ?thesis using assms(2) by (auto intro: frame_chain)
  next
    case False
    let ?out = "\<lambda>m. (MemSetTypeFlag m MEM_Int)\<lparr>u_i := of_bool (cmp_test (opcode pOp) res)\<rparr>"
    obtain m y ya where m: "reg p (P2 pOp) = Some m"
      and y: "reg (set_reg p (P2 pOp) (?out m)) (P1 pOp) = Some y"
        "reg (set_reg (set_reg p (P2 pOp) (?out m)) (P1 pOp) (y\<lparr>flags := f1\<rparr>)) (P3 pOp) = Some ya"
        "p' = set_reg (set_reg (set_reg p (P2 pOp) (?out m)) (P1 pOp) (y\<lparr>flags := f1\<rparr>)) (P3 pOp) (ya\<lparr>flags := f3\<rparr>)"
      using assms(1) False by (auto simp: d bind_eq_Some_conv)
    have "frame S p (set_reg p (P2 pOp) (?out m))" using m assms(2) by auto
    moreover have "frame S (set_reg p (P2 pOp) (?out m)) p'" using y assms(2) by (auto intro: frame_chain)
    ultimately show ?thesis by (rule frame_trans)
  qed
qed

lemma cmp_expand_frame: "cmp_expand p i f = Some (p', f') \<Longrightarrow> i \<in> S \<Longrightarrow> frame S p p'"
  by (auto simp: cmp_expand_def bind_eq_Some_conv split: if_splits)

lemma compare_frame:
  assumes "impl_OP_Ne_Eq_Gt_Le_Lt_Ge e p pc pOp = Some (Inr (p', pc'))" "{P1 pOp, P2 pOp, P3 pOp} \<subseteq> S"
  shows "frame S p p'"
proof -
  from assms(1) obtain m1 m3 where m: "reg p (P1 pOp) = Some m1" "reg p (P3 pOp) = Some m3"
    by (auto simp: impl_OP_Ne_Eq_Gt_Le_Lt_Ge_def bind_eq_Some_conv)
  show ?thesis
  proof (cases "(flags m1 OR flags m3) AND MEM_Null = 0")
    case False
    then show ?thesis using assms cmp_finish_frame [OF _ assms(2)]
      by (auto simp: impl_OP_Ne_Eq_Gt_Le_Lt_Ge_def m bind_eq_Some_conv Let_def split: if_splits)
  next
    case True
    define q where "q = set_reg p (P1 pOp) (cmp_affinity e (P5 pOp) m1)"
    have q: "frame S p q" unfolding q_def using m assms(2) by auto
    obtain m3' where m3': "reg q (P3 pOp) = Some m3'" using reg_set_reg_Some [OF m(2)] unfolding q_def by blast
    define r where "r = set_reg q (P3 pOp) (cmp_affinity e (P5 pOp) m3')"
    have r: "frame S q r" unfolding r_def using m3' assms(2) by auto
    from assms(1) obtain s f1 t f3 res where "cmp_expand r (P1 pOp) (flags m1) = Some (s, f1)"
        "cmp_expand s (P3 pOp) (flags m3) = Some (t, f3)" and fin: "cmp_finish t pc pOp res f1 f3 = Some (Inr (p', pc'))"
      unfolding impl_OP_Ne_Eq_Gt_Le_Lt_Ge_def m bind.bind_lunit Let_def if_not_P [OF iffD2 [OF not_not True]]
        q_def [symmetric] m3' r_def [symmetric]
      by (auto simp: bind_eq_Some_conv split: if_splits)
    then have "frame S r s" "frame S s t" using cmp_expand_frame assms(2) by blast+
    moreover have "frame S t p'" by (rule cmp_finish_frame [OF fin assms(2)])
    ultimately show ?thesis using q r frame_trans by blast
  qed
qed

lemma goto_frame: "impl_OP_Goto e p pOp = Some (Inr (p', pc')) \<Longrightarrow> frame S p p'"
  by (auto simp: impl_OP_Goto_def Let_def frame_def split: if_splits option.splits)

lemma once_frame: "impl_OP_Once p pc pOp = Some (p', pc') \<Longrightarrow> frame S p p'"
  by (auto simp: impl_OP_Once_def Let_def frame_def nth_list_update split: if_splits)

lemma null_frame:
  assumes "impl_OP_Null p pOp = Some p'" "{P2 pOp .. max (P2 pOp) (P3 pOp)} \<subseteq> S"
  shows "frame S p p'"
proof -
  obtain m f where m: "reg p (P2 pOp) = Some m"
    and n: "null_regs (set_reg p (P2 pOp) (m\<lparr>flags := f\<rparr>)) (P2 pOp + 1) (nat (P3 pOp - P2 pOp)) f = Some p'"
    using assms(1) by (auto simp: impl_OP_Null_def Let_def bind_eq_Some_conv)
  have "{P2 pOp + 1 ..< P2 pOp + 1 + int (nat (P3 pOp - P2 pOp))} \<subseteq> S"
    by (rule subset_trans [OF _ assms(2)]) auto
  then have "frame S (set_reg p (P2 pOp) (m\<lparr>flags := f\<rparr>)) p'" by (rule null_regs_frame [OF n])
  moreover have "P2 pOp \<in> S" by (rule subsetD [OF assms(2)]) simp
  ultimately show ?thesis using frame_trans [OF frame_set [OF m]] by blast
qed

lemma sequence_frame: "impl_OP_Sequence p pOp = Some p' \<Longrightarrow> P2 pOp \<in> S \<Longrightarrow> frame S p p'"
  by (auto simp: impl_OP_Sequence_def Let_def bind_eq_Some_conv frame_def reg_set_reg split: if_splits)

lemmas small_opcodes = impl_OP_Gosub_def impl_OP_Return_def impl_OP_InitCoroutine_def impl_OP_Yield_def
  impl_OP_EndCoroutine_def impl_OP_IfZero_def impl_OP_RealAffinity_def impl_OP_CollSeq_def impl_OP_Integer_def
  impl_OP_Real_def impl_OP_SCopy_def impl_OP_Compare_def

lemma compare_op_frame: "impl_OP_Compare p pOp = Some p' \<Longrightarrow> frame S p p'"
  by (auto simp: impl_OP_Compare_def Let_def bind_eq_Some_conv frame_def split: if_splits)

lemma mustbeint_frame: "impl_OP_MustBeInt e p pc pOp = Some (Inr (p', pc')) \<Longrightarrow> P1 pOp \<in> S \<Longrightarrow> frame S p p'"
  unfolding impl_OP_MustBeInt_def Let_def
  by (auto simp: bind_eq_Some_conv reg_set_reg intro!: frame_chain frame_set split: if_splits)

lemma copy_frame:
  assumes "impl_OP_Copy e p pc pOp = Some (Inr (p', pc'))"
  shows "frame {P2 pOp .. P2 pOp + max 0 (P3 pOp)} p p'"
proof -
  obtain x where x: "copy_regs e p (P1 pOp) (P2 pOp) (nat (P3 pOp)) = Some x" "map_sum id (\<lambda>p. (p, pc)) x = Inr (p', pc')"
    using assms by (auto simp: impl_OP_Copy_def)
  then have "x = Inr p'" by (cases x) auto
  then show ?thesis using x(1) by (intro copy_regs_frame [of e p "P1 pOp" "P2 pOp" "nat (P3 pOp)"]) auto
qed

lemma move_frame:
  assumes "impl_OP_Move p pOp = Some p'"
  shows "frame ({P1 pOp ..< P1 pOp + P3 pOp} \<union> {P2 pOp ..< P2 pOp + P3 pOp}) p p'"
  using assms by (intro move_regs_frame [of p "P1 pOp" "P2 pOp" "nat (P3 pOp)"])
    (auto simp: impl_OP_Move_def split: if_splits)

lemma one_reg_frame:
  "impl_OP_Gosub p pc pOp = Some (p', pc') \<Longrightarrow> frame {P1 pOp} p p'"
  "impl_OP_Return p pOp = Some (p', pc') \<Longrightarrow> frame {P1 pOp} p p'"
  "impl_OP_InitCoroutine p pc pOp = Some (p', pc') \<Longrightarrow> frame {P1 pOp} p p'"
  "impl_OP_Yield p pc pOp = Some (p', pc') \<Longrightarrow> frame {P1 pOp} p p'"
  "impl_OP_EndCoroutine p pOp = Some (p', pc') \<Longrightarrow> frame {P1 pOp} p p'"
  "impl_OP_IfZero p pc pOp = Some (p', pc') \<Longrightarrow> frame {P1 pOp} p p'"
  "impl_OP_RealAffinity e p pOp = Some p' \<Longrightarrow> frame {P1 pOp} p p'"
  "impl_OP_CollSeq p pOp = Some p' \<Longrightarrow> frame {P1 pOp} p p'"
  "impl_OP_Integer p pOp = Some p' \<Longrightarrow> frame {P2 pOp} p p'"
  "impl_OP_Real p pOp = Some p' \<Longrightarrow> frame {P2 pOp} p p'"
  "impl_OP_SCopy p pOp = Some p' \<Longrightarrow> frame {P2 pOp} p p'"
  "out2_prerelease p pOp = Some p' \<Longrightarrow> frame {P2 pOp} p p'"
  by (auto simp: impl_OP_Gosub_def impl_OP_Return_def impl_OP_InitCoroutine_def impl_OP_Yield_def
      impl_OP_EndCoroutine_def impl_OP_IfZero_def impl_OP_RealAffinity_def impl_OP_CollSeq_def impl_OP_Integer_def
      impl_OP_Real_def impl_OP_SCopy_def out2_prerelease_def bind_eq_Some_conv Let_def split: if_splits)

lemma prerelease_then:
  assumes "do { p \<leftarrow> out2_prerelease p pOp; f p } = Some q" "\<And>p'. f p' = Some q \<Longrightarrow> frame S p' q" "P2 pOp \<in> S"
  shows "frame S p q"
proof -
  obtain p' where p': "out2_prerelease p pOp = Some p'" "f p' = Some q" using assms(1) by (auto simp: bind_eq_Some_conv)
  show ?thesis by (rule frame_trans [OF prerelease_frame [OF p'(1) assms(3)] assms(2) [OF p'(2)]])
qed

lemmas dispatch_simps = dispatch_def touches_def straight_def jumping_def testing_def

lemma dispatch_frame:
  assumes "dispatch e p pc pOp = Some (Inr (p', pc'))"
  shows "frame (touches pOp) p p'"
proof (cases "opcode pOp")
  case OP_Goto
  then show ?thesis using assms by (auto simp: dispatch_simps dest: goto_frame)
next
  case OP_Once
  then show ?thesis using assms by (auto simp: dispatch_simps dest: once_frame)
next
  case OP_Compare
  then show ?thesis using assms by (auto simp: dispatch_simps dest: compare_op_frame)
next
  case OP_Copy
  then show ?thesis using assms by (auto simp: dispatch_simps dest: copy_frame)
next
  case OP_Move
  then show ?thesis using assms by (auto simp: dispatch_simps dest: move_frame)
next
  case OP_MustBeInt
  then show ?thesis using assms by (auto simp: dispatch_simps dest: mustbeint_frame)
next
  case OP_Integer
  then show ?thesis using assms by (auto simp: dispatch_simps elim!: prerelease_then dest: one_reg_frame)
next
  case OP_Real
  then show ?thesis using assms by (auto simp: dispatch_simps elim!: prerelease_then dest: one_reg_frame)
next
  case OP_Null
  then show ?thesis using assms by (auto simp: dispatch_simps elim!: prerelease_then dest: null_frame)
next
  case OP_Sequence
  then show ?thesis using assms by (auto simp: dispatch_simps elim!: prerelease_then dest: sequence_frame)
qed (use assms in \<open>auto simp: dispatch_simps dest: one_reg_frame arith_frame compare_frame\<close>)

section \<open>Running\<close>

inductive vdbe_reach :: "env \<Rightarrow> vdbe \<times> int \<Rightarrow> vdbe \<times> int \<Rightarrow> bool" for e where
  start: "vdbe_reach e s s"
| step: "vdbe_reach e s t \<Longrightarrow> vdbe_step e t = Some (Inr u) \<Longrightarrow> vdbe_reach e s u"

lemma vdbe_reach_trans: "vdbe_reach e t u \<Longrightarrow> vdbe_reach e s t \<Longrightarrow> vdbe_reach e s u"
  by (induction rule: vdbe_reach.induct) (auto intro: vdbe_reach.step)

definition at :: "vdbe \<Rightarrow> int \<Rightarrow> vdbe_op option" where
  "at p pc = (if 0 \<le> pc \<and> nat pc < length (aOp p) then Some (aOp p ! nat pc) else None)"

text \<open>\<open>n\<close> steps, none of which touches the register \<open>r\<close>.\<close>

fun run_avoiding :: "env \<Rightarrow> int \<Rightarrow> nat \<Rightarrow> vdbe \<times> int \<Rightarrow> (vdbe \<times> int) option" where
  "run_avoiding e r 0 s = Some s"
| "run_avoiding e r (Suc n) s =
     (case at (fst s) (snd s) of
        Some pOp \<Rightarrow>
          if r \<in> touches pOp then None
          else (case vdbe_step e s of Some (Inr s') \<Rightarrow> run_avoiding e r n s' | _ \<Rightarrow> None)
      | None \<Rightarrow> None)"

lemma step_dispatch:
  "vdbe_step e (p, pc) = Some (Inr (p', pc')) \<longleftrightarrow>
   (\<exists>pOp. at p pc = Some pOp \<and> \<not> mallocFailed e \<and>
     dispatch e (p\<lparr>nVmStep := nVmStep p + 1\<rparr>) pc pOp = Some (Inr (p', pc' - 1)))"
proof -
  have "map_option (map_sum id (\<lambda>(p, pc). (p, pc + 1))) x = Some (Inr (p', pc')) \<longleftrightarrow> x = Some (Inr (p', pc' - 1))" for x :: vdbe_result
  proof (cases x)
    case (Some y)
    then show ?thesis by (cases y) auto
  qed simp
  then show ?thesis by (simp add: vdbe_step_def at_def Let_def)
qed

lemma frame_nVmStep: "frame S (p\<lparr>nVmStep := k\<rparr>) p' \<longleftrightarrow> frame S p p'"
  by (simp add: frame_def reg_def)

lemma step_frame:
  assumes "vdbe_step e (p, pc) = Some (Inr (p', pc'))" "at p pc = Some pOp"
  shows "frame (touches pOp) p p'"
  using assms dispatch_frame by (fastforce simp: step_dispatch frame_nVmStep)

lemma run_avoiding_Suc:
  "run_avoiding e r (Suc n) (p, pc) = Some s' \<longleftrightarrow>
   (\<exists>pOp s1. at p pc = Some pOp \<and> r \<notin> touches pOp \<and> vdbe_step e (p, pc) = Some (Inr s1) \<and> run_avoiding e r n s1 = Some s')"
proof (cases "vdbe_step e (p, pc)")
  case (Some y)
  then show ?thesis by (cases "at p pc"; cases y) simp_all
qed (cases "at p pc"; simp)

declare run_avoiding.simps(2) [simp del]

lemma run_avoiding_frame: "run_avoiding e r n s = Some s' \<Longrightarrow> frame (- {r}) (fst s) (fst s')"
proof (induction n arbitrary: s)
  case (Suc n)
  obtain p pc where s: "s = (p, pc)" by (rule prod.exhaust)
  obtain pOp s1 where 1: "at p pc = Some pOp" "r \<notin> touches pOp" "vdbe_step e (p, pc) = Some (Inr s1)"
      "run_avoiding e r n s1 = Some s'"
    using Suc.prems unfolding s run_avoiding_Suc by blast
  obtain p1 pc1 where s1: "s1 = (p1, pc1)" by (rule prod.exhaust)
  note at = 1(1,2) and st = 1(3) [unfolded s1] and rest = 1(4) [unfolded s1]
  have "frame (- {r}) p p1" by (rule frame_mono [OF step_frame [OF st at(1)]]) (use at(2) in blast)
  then show ?case using frame_trans [OF _ Suc.IH [OF rest, unfolded fst_conv]] by (simp add: s)
qed simp

lemma run_avoiding_reg:
  assumes "run_avoiding e r n (p, pc) = Some (p', pc')"
  shows "reg p' r = reg p r" "aOp p' = aOp p" "at p' k = at p k"
  using run_avoiding_frame [OF assms] by (simp_all add: frame_def at_def)

lemma run_avoiding_reach: "run_avoiding e r n s = Some s' \<Longrightarrow> vdbe_reach e s s'"
proof (induction n arbitrary: s)
  case (Suc n)
  obtain p pc where s: "s = (p, pc)" by (rule prod.exhaust)
  obtain s1 where "vdbe_step e s = Some (Inr s1)" "vdbe_reach e s1 s'"
    using Suc unfolding s run_avoiding_Suc by blast
  then show ?case using vdbe_reach_trans vdbe_reach.start vdbe_reach.step by metis
qed (simp add: vdbe_reach.start)

lemma reach_frame: "vdbe_reach e s t \<Longrightarrow> frame UNIV (fst s) (fst t)"
proof (induction rule: vdbe_reach.induct)
  case (step s t u)
  obtain p pc p' pc' where tu: "t = (p, pc)" "u = (p', pc')" by (meson prod.exhaust)
  obtain pOp where "at p pc = Some pOp" using step.hyps(2) by (auto simp: tu step_dispatch)
  then have "frame UNIV p p'" using step.hyps(2) frame_mono [OF step_frame] by (auto simp: tu)
  then show ?case using step.IH frame_trans by (auto simp: tu)
qed simp

end
