(* ===== verification/VdbeRun.thy ===== *)
theory VdbeRun
  imports VdbeControl
begin

text \<open>
  What programs over the control opcodes do: subroutines return, coroutines alternate, a block
  guarded by \<^verbatim>\<open>OP_Once\<close> runs once, a counted loop ends, and copies and moves transfer values.
  The statements are about runs of the interpreter loop of \<^theory_text>\<open>VdbeControl\<close>.
\<close>

section \<open>Control transfers\<close>

lemma step_jumping:
  assumes "at p pc = Some pOp" "\<not> mallocFailed e"
    and "dispatch e (p\<lparr>nVmStep := nVmStep p + 1\<rparr>) pc pOp = jumping (Some (q, k))"
  shows "vdbe_step e (p, pc) = Some (Inr (q, k + 1))"
  using assms by (simp add: step_dispatch jumping_def)

lemma reg_nVmStep [simp]: "reg (p\<lparr>nVmStep := k\<rparr>) r = reg p r"
  by (simp add: reg_def)

lemma set_reg_result [simp]: "reg p r = Some m \<Longrightarrow> reg (set_reg (p\<lparr>nVmStep := k\<rparr>) r m') r = Some m'"
  by (simp add: reg_set_reg)

lemma step_Gosub:
  assumes "vdbe_step e (p, pc) = Some (Inr (p1, pc1))" "at p pc = Some g" "opcode g = OP_Gosub"
  shows "pc1 = P2 g" "\<exists>m. reg p1 (P1 g) = Some m \<and> flags m = MEM_Int \<and> u_i m = pc" "\<not> mallocFailed e"
  using assms by (auto simp: step_dispatch dispatch_def jumping_def impl_OP_Gosub_def bind_eq_Some_conv)

lemma step_Return:
  assumes "at p pc = Some g" "opcode g = OP_Return" "reg p (P1 g) = Some m" "\<not> mallocFailed e"
  shows "\<exists>p'. vdbe_step e (p, pc) = Some (Inr (p', u_i m + 1))"
  using assms by (auto simp: step_dispatch dispatch_def jumping_def impl_OP_Return_def)

lemma step_Yield:
  assumes "at p pc = Some g" "opcode g = OP_Yield" "reg p (P1 g) = Some m" "\<not> mallocFailed e"
    and "- (2 ^ 31) \<le> u_i m" "u_i m < 2 ^ 31"
  shows "\<exists>p' m'. vdbe_step e (p, pc) = Some (Inr (p', u_i m + 1)) \<and> reg p' (P1 g) = Some m' \<and> u_i m' = pc"
proof -
  have "signed_take_bit 31 (u_i m) = u_i m" using assms(5,6) by (simp add: signed_take_bit_int_eq_self_iff)
  then show ?thesis using assms(1-4)
    by (auto simp: step_dispatch dispatch_def jumping_def impl_OP_Yield_def)
qed

lemma step_EndCoroutine:
  assumes "at p pc = Some g" "opcode g = OP_EndCoroutine" "reg p (P1 g) = Some m" "\<not> mallocFailed e"
    and "at p (u_i m) = Some y"
  shows "\<exists>p'. vdbe_step e (p, pc) = Some (Inr (p', P2 y))"
proof -
  have "0 \<le> u_i m" "nat (u_i m) < length (aOp p)" "aOp p ! nat (u_i m) = y"
    using assms(5) by (auto simp: at_def split: if_splits)
  then show ?thesis using assms(1-4)
    by (auto simp: step_dispatch dispatch_def jumping_def impl_OP_EndCoroutine_def)
qed

lemma step_Once:
  assumes "vdbe_step e (p, pc) = Some (Inr (p', pc'))" "at p pc = Some g" "opcode g = OP_Once"
  shows "0 \<le> P1 g" "nat (P1 g) < length (aOnceFlag p)" "aOnceFlag p' ! nat (P1 g) \<noteq> 0"
    "aOnceFlag p ! nat (P1 g) \<noteq> 0 \<Longrightarrow> pc' = P2 g"
    "aOnceFlag p ! nat (P1 g) = 0 \<Longrightarrow> pc' = pc + 1"
  using assms by (auto simp: step_dispatch dispatch_def jumping_def impl_OP_Once_def Let_def split: if_splits)

lemma step_IfZero:
  assumes "at p pc = Some g" "opcode g = OP_IfZero" "reg p (P1 g) = Some m" "\<not> mallocFailed e"
    and "in_i64 (u_i m + P3 g)"
  shows "\<exists>p' m'. vdbe_step e (p, pc) = Some (Inr (p', if u_i m + P3 g = 0 then P2 g else pc + 1))
    \<and> reg p' (P1 g) = Some m' \<and> u_i m' = u_i m + P3 g"
proof -
  have "wrap64 (u_i m + P3 g) = u_i m + P3 g"
    using assms(5) by (simp add: wrap64_def in_i64_def signed_take_bit_int_eq_self_iff)
  then show ?thesis using assms(1-4)
    by (auto simp: step_dispatch dispatch_def jumping_def impl_OP_IfZero_def)
qed

lemma step_Goto:
  assumes "at p pc = Some g" "opcode g = OP_Goto" "\<not> mallocFailed e" "\<not> isInterrupted e" "xProgress e = None"
  shows "\<exists>p'. vdbe_step e (p, pc) = Some (Inr (p', P2 g)) \<and> (\<forall>r. reg p' r = reg p r)"
  using assms by (auto simp: step_dispatch dispatch_def impl_OP_Goto_def)

section \<open>A counted loop\<close>

text \<open>The body runs from \<open>h\<close> to \<open>z\<close>, where the counter in \<open>r\<close> is decremented. It leaves the counter
  alone, and from a state with the invariant for \<open>k + 1\<close> turns to go it comes to one with the invariant
  for \<open>k\<close>; the invariant itself does not speak of the counter.\<close>

definition counted_loop :: "env \<Rightarrow> vdbe_op list \<Rightarrow> int \<Rightarrow> int \<Rightarrow> int \<Rightarrow> int \<Rightarrow> (nat \<Rightarrow> vdbe \<Rightarrow> bool) \<Rightarrow> bool" where
  "counted_loop e prog r h z out I \<longleftrightarrow>
     \<not> mallocFailed e \<and> \<not> isInterrupted e \<and> xProgress e = None
     \<and> 0 \<le> z \<and> nat z + 1 < length prog
     \<and> opcode (prog ! nat z) = OP_IfZero \<and> P1 (prog ! nat z) = r \<and> P2 (prog ! nat z) = out \<and> P3 (prog ! nat z) = -1
     \<and> opcode (prog ! (nat z + 1)) = OP_Goto \<and> P2 (prog ! (nat z + 1)) = h
     \<and> (\<forall>k p m. aOp p = prog \<and> reg p r = Some m \<and> u_i m = int k + 1 \<and> I (Suc k) p
          \<longrightarrow> (\<exists>n p'. run_avoiding e r n (p, h) = Some (p', z) \<and> I k p'))
     \<and> (\<forall>k p p'. I k p \<and> frame {r} p p' \<longrightarrow> I k p')"

lemma counted_loop_ends:
  assumes "counted_loop e prog r h z out I"
  shows "aOp p = prog \<Longrightarrow> reg p r = Some m \<Longrightarrow> u_i m = int n + 1 \<Longrightarrow> in_i64 (int n + 1) \<Longrightarrow> I (Suc n) p \<Longrightarrow>
    \<exists>p' m'. vdbe_reach e (p, h) (p', out) \<and> reg p' r = Some m' \<and> u_i m' = 0 \<and> I 0 p'"
proof (induction n arbitrary: p m)
  case 0
  obtain k p1 where run: "run_avoiding e r k (p, h) = Some (p1, z)" "I 0 p1"
    using assms 0(1,2,3,5) unfolding counted_loop_def by (metis of_nat_0)
  note k = run_avoiding_reg [OF run(1)]
  have at: "at p1 z = Some (prog ! nat z)" using assms k 0(1) by (simp add: counted_loop_def at_def)
  obtain p' m' where s: "vdbe_step e (p1, z) = Some (Inr (p', out))" "reg p' r = Some m'" "u_i m' = 0"
    using step_IfZero [OF at, of m e] assms k(1) 0 by (auto simp: counted_loop_def in_i64_def)
  have "frame {r} p1 p'" using step_frame [OF s(1) at] assms by (simp add: counted_loop_def touches_def)
  then have "I 0 p'" using assms run(2) unfolding counted_loop_def by blast
  then show ?case using run_avoiding_reach [OF run(1)] s vdbe_reach.step by blast
next
  case (Suc n)
  obtain k p1 where run: "run_avoiding e r k (p, h) = Some (p1, z)" "I (Suc n) p1"
    using assms Suc.prems(1,2,3,5) unfolding counted_loop_def by (metis (no_types, lifting))
  note keep = run_avoiding_reg [OF run(1)]
  have at1: "at p1 z = Some (prog ! nat z)" using assms keep Suc.prems(1) by (simp add: counted_loop_def at_def)
  obtain p2 m2 where s2: "vdbe_step e (p1, z) = Some (Inr (p2, z + 1))" "reg p2 r = Some m2" "u_i m2 = int n + 1"
    using step_IfZero [OF at1, of m e] assms keep(1) Suc.prems by (auto simp: counted_loop_def in_i64_def)
  have f2: "frame {r} p1 p2" using step_frame [OF s2(1) at1] assms by (simp add: counted_loop_def touches_def)
  have a2: "aOp p2 = prog" using f2 keep Suc.prems(1) by (simp add: frame_def)
  have at2: "at p2 (z + 1) = Some (prog ! (nat z + 1))"
    using assms a2 by (simp add: counted_loop_def at_def nat_add_distrib)
  obtain p3 where s3: "vdbe_step e (p2, z + 1) = Some (Inr (p3, h))" "reg p3 r = Some m2"
    using step_Goto [OF at2, of e] assms s2(2) unfolding counted_loop_def by metis
  have f3: "frame {r} p2 p3" using frame_mono [OF step_frame [OF s3(1) at2]] assms by (simp add: counted_loop_def touches_def)
  have a3: "aOp p3 = prog" using f3 a2 by (simp add: frame_def)
  have I3: "I (Suc n) p3" using assms run(2) f2 f3 unfolding counted_loop_def by blast
  have "in_i64 (int n + 1)" using Suc.prems(4) by (simp add: in_i64_def)
  then obtain p' m' where "vdbe_reach e (p3, h) (p', out)" "reg p' r = Some m'" "u_i m' = 0" "I 0 p'"
    using Suc.IH [OF a3 s3(2) s2(3)] I3 by blast
  moreover have "vdbe_reach e (p, h) (p3, h)"
    using run_avoiding_reach [OF run(1)] s2(1) s3(1) vdbe_reach.step by blast
  ultimately show ?case using vdbe_reach_trans by blast
qed

section \<open>Copies\<close>

definition value_flags :: u16 where "value_flags = 0x401f"

lemma value_flags_cong:
  assumes "flags m AND value_flags = flags m' AND value_flags" "u_i m = u_i m'" "u_r m = u_r m'" "u_nZero m = u_nZero m'"
    "zdata m = zdata m'"
  shows "mem_value m = mem_value m'"
proof -
  have "flags m AND f = flags m' AND f" if "value_flags AND f = f" for f
    using arg_cong [OF assms(1), of "\<lambda>x. x AND f"] that by (simp add: and.assoc)
  then have "has m f = has m' f" if "value_flags AND f = f" for f using that by (simp add: has_def)
  then show ?thesis using assms(2-) by (simp add: mem_value_def mem_bytes_def value_flags_def)
qed

lemma mask_disjoint: "k AND h = 0 \<Longrightarrow> g AND h = 0 \<Longrightarrow> (f AND NOT k OR g) AND h = f AND (h :: u16)"
  by (auto simp: bit_eq_iff bit_simps)

lemma value_ShallowCopy: "mem_value (sqlite3VdbeMemShallowCopy m) = mem_value m"
proof -
  have "(flags m AND NOT 0x1c00 OR 0x1000) AND 0x401f = flags m AND (0x401f :: u16)"
    by (rule mask_disjoint) simp_all
  then show ?thesis
    unfolding sqlite3VdbeMemShallowCopy_def by (auto intro!: value_flags_cong simp: value_flags_def)
qed

lemma value_expanded: "mem_value (expanded m) = mem_value m"
proof (cases "has m MEM_Zero")
  case True
  have "(flags m AND NOT 0x4200) AND f = flags m AND f" if "f AND 0x4200 = 0" for f :: u16
    using that by (auto simp: bit_eq_iff bit_simps)
  then show ?thesis using True
    by (simp add: expanded_def sqlite3VdbeMemExpandBlob_def mem_value_def mem_bytes_def) (simp add: has_def and.assoc)
qed (simp add: expanded_def)

lemma value_MakeWriteable: "sqlite3VdbeMemMakeWriteable e m = Some m' \<Longrightarrow> mem_value m' = mem_value m"
proof -
  have "(f AND NOT 0x1c00 OR 0x200) AND 0x401f = f AND (0x401f :: u16)" for f
    by (rule mask_disjoint) simp_all
  then have w: "mem_value (x\<lparr>flags := flags x AND NOT 0x1c00 OR 0x200\<rparr>) = mem_value x" for x
    by (intro value_flags_cong) (simp_all add: value_flags_def)
  assume "sqlite3VdbeMemMakeWriteable e m = Some m'"
  then have "mem_value m' = mem_value (expanded m)"
    using w [of "expanded m"] by (auto simp: sqlite3VdbeMemMakeWriteable_def Let_def split: if_splits)
  then show ?thesis by (simp add: value_expanded)
qed

definition present :: "vdbe \<Rightarrow> int \<Rightarrow> nat \<Rightarrow> bool" where
  "present p i n \<longleftrightarrow> (\<forall>k < n. \<exists>m. reg p (i + int k) = Some m)"

definition reg_value :: "vdbe \<Rightarrow> int \<Rightarrow> sqlvalue option" where
  "reg_value p i = map_option mem_value (reg p i)"

lemma present_Suc: "present p i (Suc n) \<Longrightarrow> (\<exists>m. reg p i = Some m) \<and> present p (i + 1) n"
  by (auto simp: present_def dest: spec [of _ 0] spec [of _ "Suc k" for k] simp: algebra_simps)

lemma present_set_reg: "present p i n \<Longrightarrow> present (set_reg p j m) i n"
  using reg_set_reg_Some unfolding present_def by blast

lemma copied_cell:
  assumes "\<not> mallocFailed e"
  shows "\<exists>m. (if has (sqlite3VdbeMemShallowCopy a) MEM_Ephem then sqlite3VdbeMemMakeWriteable e (sqlite3VdbeMemShallowCopy a)
      else Some (sqlite3VdbeMemShallowCopy a)) = Some m \<and> mem_value m = mem_value a"
proof -
  obtain m where "sqlite3VdbeMemMakeWriteable e (sqlite3VdbeMemShallowCopy a) = Some m"
    using assms unfolding sqlite3VdbeMemMakeWriteable_def Let_def
    by (cases "has (expanded (sqlite3VdbeMemShallowCopy a)) (MEM_Str OR MEM_Blob)") simp_all
  then show ?thesis using value_MakeWriteable value_ShallowCopy by simp
qed

lemma copy_regs_values:
  assumes "\<not> mallocFailed e"
  shows "present p i (Suc n) \<Longrightarrow> present p j (Suc n) \<Longrightarrow> i + int n < j \<or> j + int n < i \<Longrightarrow>
    \<exists>p'. copy_regs e p i j n = Some (Inr p') \<and> (\<forall>k \<le> n. reg_value p' (j + int k) = reg_value p (i + int k))"
proof (induction n arbitrary: p i j)
  case 0
  obtain a b where ab: "reg p i = Some a" "reg p j = Some b" using 0 present_Suc by blast
  obtain m where "(if has (sqlite3VdbeMemShallowCopy a) MEM_Ephem then sqlite3VdbeMemMakeWriteable e (sqlite3VdbeMemShallowCopy a)
      else Some (sqlite3VdbeMemShallowCopy a)) = Some m" "mem_value m = mem_value a"
    using copied_cell [OF assms] by blast
  then show ?case using ab by (subst copy_regs.simps) (simp add: reg_value_def reg_set_reg)
next
  case (Suc n)
  obtain a b where ab: "reg p i = Some a" "reg p j = Some b" using Suc.prems present_Suc by blast
  obtain m where m: "(if has (sqlite3VdbeMemShallowCopy a) MEM_Ephem then sqlite3VdbeMemMakeWriteable e (sqlite3VdbeMemShallowCopy a)
      else Some (sqlite3VdbeMemShallowCopy a)) = Some m" "mem_value m = mem_value a"
    using copied_cell [OF assms] by blast
  let ?q = "set_reg p j m"
  have q: "present ?q (i + 1) (Suc n)" "present ?q (j + 1) (Suc n)"
    using Suc.prems present_Suc present_set_reg by blast+
  obtain p' where p': "copy_regs e ?q (i + 1) (j + 1) n = Some (Inr p')"
      "\<forall>k \<le> n. reg_value p' (j + 1 + int k) = reg_value ?q (i + 1 + int k)"
    using Suc.IH [OF q] Suc.prems(3) by auto
  have f: "frame {j + 1 .. j + 1 + int n} ?q p'" using copy_regs_frame [OF p'(1)] by blast
  have "reg_value p' (j + int k) = reg_value p (i + int k)" if "k \<le> Suc n" for k
  proof (cases k)
    case 0
    then show ?thesis using frame_reg [OF f, of j] ab m(2) by (simp add: reg_value_def reg_set_reg)
  next
    case (Suc l)
    moreover have "reg ?q (i + int k) = reg p (i + int k)"
      using Suc.prems(3) that ab by (auto simp: reg_set_reg)
    ultimately show ?thesis using p'(2) that by (auto simp: reg_value_def algebra_simps)
  qed
  then show ?case using ab m(1) p'(1) by (subst copy_regs.simps) simp
qed

lemma move_regs_values:
  "present p i n \<Longrightarrow> present p j n \<Longrightarrow> i + int n \<le> j \<or> j + int n \<le> i \<Longrightarrow>
    \<exists>p'. move_regs p i j n = Some p' \<and> (\<forall>k < n. reg_value p' (j + int k) = reg_value p (i + int k)
      \<and> reg_value p' (i + int k) = Some VNull)"
proof (induction n arbitrary: p i j)
  case (Suc n)
  obtain a b where ab: "reg p i = Some a" "reg p j = Some b" using Suc.prems present_Suc by blast
  have ij: "i \<noteq> j" using Suc.prems(3) by auto
  let ?q = "set_reg (set_reg p j a) i (a\<lparr>flags := MEM_Null\<rparr>)"
  have r1: "reg (set_reg p j a) i = Some a" using ab ij by (simp add: reg_set_reg)
  have q: "present ?q (i + 1) n" "present ?q (j + 1) n"
    using Suc.prems present_Suc present_set_reg by blast+
  have qr: "reg ?q k = (if k = i then Some (a\<lparr>flags := MEM_Null\<rparr>) else if k = j then Some a else reg p k)" for k
    using ab r1 by (auto simp: reg_set_reg)
  obtain p' where p': "move_regs ?q (i + 1) (j + 1) n = Some p'"
      "\<forall>k < n. reg_value p' (j + 1 + int k) = reg_value ?q (i + 1 + int k) \<and> reg_value p' (i + 1 + int k) = Some VNull"
    using Suc.IH [OF q] Suc.prems(3) by auto
  have f: "frame ({i + 1 ..< i + 1 + int n} \<union> {j + 1 ..< j + 1 + int n}) ?q p'" using move_regs_frame [OF p'(1)] by blast
  have "reg_value p' (j + int k) = reg_value p (i + int k) \<and> reg_value p' (i + int k) = Some VNull" if "k < Suc n" for k
  proof (cases k)
    case 0
    then show ?thesis using frame_reg [OF f, of j] frame_reg [OF f, of i] ab ij Suc.prems(3)
      by (auto simp: reg_value_def qr)
  next
    case (Suc l)
    have "reg ?q (i + int k) = reg p (i + int k)" using Suc.prems(3) that Suc by (auto simp: qr)
    then show ?thesis using p'(2) that Suc by (auto simp: reg_value_def algebra_simps)
  qed
  then show ?case using ab r1 p'(1) by (simp add: Let_def)
qed simp

section \<open>Properties\<close>

text \<open>C18. Subroutines return: after \<^verbatim>\<open>OP_Gosub\<close>, any run that leaves the register of the return
  address alone and comes to an \<^verbatim>\<open>OP_Return\<close> on it continues at the instruction after the
  \<^verbatim>\<open>OP_Gosub\<close>.\<close>

theorem subroutine_returns:
  assumes "at p pc = Some g" and "opcode g = OP_Gosub"
    and "vdbe_step e (p, pc) = Some (Inr (p1, pc1))"
    and "run_avoiding e (P1 g) n (p1, pc1) = Some (p2, pc2)"
    and "at p2 pc2 = Some r" and "opcode r = OP_Return" and "P1 r = P1 g"
  shows "pc1 = P2 g \<and> (\<exists>p3. vdbe_step e (p2, pc2) = Some (Inr (p3, pc + 1)))"
proof -
  note g = step_Gosub [OF assms(3,1,2)]
  then obtain m where "reg p1 (P1 g) = Some m" "u_i m = pc" by blast
  then have "reg p2 (P1 r) = Some m" using run_avoiding_reg(1) [OF assms(4)] assms(7) by simp
  then show ?thesis using step_Return [OF assms(5,6) _ g(3)] g(1) \<open>u_i m = pc\<close> by auto
qed

definition prog_vdbe :: "vdbe_op list \<Rightarrow> vdbe" where
  "prog_vdbe ops = (regs3 (int_mem 0) (int_mem 3))\<lparr>aOp := ops, aOnceFlag := [0]\<rparr>"

definition op3 :: "opcode \<Rightarrow> int \<Rightarrow> int \<Rightarrow> int \<Rightarrow> vdbe_op" where
  "op3 oc a b c = \<lparr>opcode = oc, P1 = a, P2 = b, P3 = c, P4_real = 0, P4_coll = None, P4_keyinfo = [], P5 = 0\<rparr>"

lemma prog_simps [simp]: "aOp (prog_vdbe ops) = ops" "reg (prog_vdbe ops) 1 = Some (int_mem 0)"
  "reg (prog_vdbe ops) 2 = Some (int_mem 3)" "reg (prog_vdbe ops) 3 = Some (int_mem 0)" "aOnceFlag (prog_vdbe ops) = [0]"
  "at (prog_vdbe ops) k = (if 0 \<le> k \<and> nat k < length ops then Some (ops ! nat k) else None)"
  by (simp_all add: prog_vdbe_def reg_def at_def regs3_def nat_numeral)

text \<open>A loop that adds 5 to a register three times.\<close>

definition sum_prog :: "vdbe_op list" where
  "sum_prog = [op3 OP_Add 1 3 3, op3 OP_IfZero 2 7 (-1), op3 OP_Goto 0 0 0]"

definition sum_vdbe :: vdbe where
  "sum_vdbe = (regs3 (int_mem 5) (int_mem 3))\<lparr>aOp := sum_prog\<rparr>"

definition sum_left :: "nat \<Rightarrow> vdbe \<Rightarrow> bool" where
  "sum_left k p \<longleftrightarrow> k \<le> 3 \<and> reg p 1 = Some (int_mem 5) \<and> reg p 3 = Some (int_mem (15 - 5 * int k))"

lemma add_cells:
  assumes "reg p 1 = Some (int_mem a)" "reg p 3 = Some (int_mem b)" "in_i64 a" "in_i64 b" "in_i64 (a + b)"
  shows "impl_OP_Add_Subtract_Multiply_Divide_Remainder e p (op3 OP_Add 1 3 3) = Some (set_reg p 3 (int_mem (a + b)))"
proof -
  have n: "numericType e (int_mem i) = (int_mem i, 4)" for i by (simp add: numericType_def int_mem_def has_def)
  have i: "int_math OP_Add a b = IntResult (a + b)"
    using AddInt64_spec [of b a] assms(3-5) by (simp add: int_math_def add.commute)
  have s: "set_reg p 1 (int_mem a) = p" "set_reg p 3 (int_mem b) = p" using assms(1,2) by (simp_all add: set_reg_id)
  have t: "MemSetTypeFlag (int_mem b\<lparr>u_i := i\<rparr>) MEM_Int = int_mem i" for i
    by (simp add: MemSetTypeFlag_def int_mem_def)
  show ?thesis
    unfolding impl_OP_Add_Subtract_Multiply_Divide_Remainder_def
    using assms(1,2) by (simp add: op3_def n s i t Let_def)
qed

lemma sum_body:
  assumes "aOp p = sum_prog" "sum_left (Suc k) p"
  shows "\<exists>n p'. run_avoiding no_env 2 n (p, 0) = Some (p', 1) \<and> sum_left k p'"
proof -
  let ?p = "p\<lparr>nVmStep := nVmStep p + 1\<rparr>"
  let ?q = "set_reg ?p 3 (int_mem (15 - 5 * int k))"
  have r: "reg ?p 1 = Some (int_mem 5)" "reg ?p 3 = Some (int_mem (10 - 5 * int k))" "k \<le> 2"
    using assms(2) by (simp_all add: sum_left_def)
  have at: "at p 0 = Some (op3 OP_Add 1 3 3)" using assms(1) by (simp add: at_def sum_prog_def)
  have "impl_OP_Add_Subtract_Multiply_Divide_Remainder no_env ?p (op3 OP_Add 1 3 3) = Some ?q"
    using add_cells [OF r(1,2), of no_env] r(3) by (simp add: in_i64_def)
  then have "vdbe_step no_env (p, 0) = Some (Inr (?q, 0 + 1))"
    unfolding step_dispatch using at by (simp add: dispatch_def straight_def no_env_def op3_def)
  then have "run_avoiding no_env 2 1 (p, 0) = Some (?q, 1)"
    unfolding One_nat_def run_avoiding_Suc using at by (auto simp: touches_def op3_def)
  moreover have "sum_left k ?q" using r by (simp add: sum_left_def reg_set_reg)
  ultimately show ?thesis by blast
qed

lemma sum_loop: "counted_loop no_env sum_prog 2 0 1 7 sum_left"
proof -
  have f: "frame {2} p p' \<Longrightarrow> sum_left k p \<Longrightarrow> sum_left k p'" for k p p' by (simp add: frame_def sum_left_def)
  show ?thesis unfolding counted_loop_def using sum_body f
    by (intro conjI allI impI) (auto simp: sum_prog_def op3_def no_env_def)
qed

lemma op3_simps [simp]: "opcode (op3 oc a b c) = oc" "P1 (op3 oc a b c) = a" "P2 (op3 oc a b c) = b" "P3 (op3 oc a b c) = c"
  by (simp_all add: op3_def)

lemma no_env_ok [simp]: "\<not> mallocFailed no_env" "\<not> isInterrupted no_env" "xProgress no_env = None"
  by (simp_all add: no_env_def)

theorem subroutine_returns_witness:
  "\<exists>p1 p3. vdbe_step no_env (prog_vdbe [op3 OP_Gosub 1 1 0, op3 OP_Return 1 0 0], 0) = Some (Inr (p1, 1))
    \<and> vdbe_step no_env (p1, 1) = Some (Inr (p3, 1))"
proof -
  let ?p = "prog_vdbe [op3 OP_Gosub 1 1 0, op3 OP_Return 1 0 0]"
  obtain p1 where p1: "vdbe_step no_env (?p, 0) = Some (Inr (p1, 1))"
    by (auto simp: step_dispatch dispatch_def jumping_def impl_OP_Gosub_def)
  have "aOp p1 = aOp ?p" using step_frame [OF p1, of "op3 OP_Gosub 1 1 0"] by (simp add: frame_def)
  then have "at p1 1 = Some (op3 OP_Return 1 0 0)" by (simp add: at_def)
  then show ?thesis using p1 subroutine_returns [OF _ _ p1, of "op3 OP_Gosub 1 1 0" 0 p1 1 "op3 OP_Return 1 0 0"] by auto
qed

text \<open>C10. Coroutines alternate: an \<^verbatim>\<open>OP_Yield\<close> at \<open>y\<close> resumes the coroutine at the instruction
  after the address in its register; when a run that leaves the register alone reaches an
  \<^verbatim>\<open>OP_Yield\<close> on it at \<open>z\<close>, control returns to the instruction after \<open>y\<close> and the
  register holds \<open>z\<close>, so that the next \<^verbatim>\<open>OP_Yield\<close> resumes after \<open>z\<close>; when it reaches an
  \<^verbatim>\<open>OP_EndCoroutine\<close>, control goes to \<^verbatim>\<open>P2\<close> of the instruction at \<open>y\<close>.
  (Addresses fit a 32-bit \<^verbatim>\<open>int\<close>.)\<close>

theorem coroutine_alternates:
  assumes "at p y = Some g" and "opcode g = OP_Yield" and "reg p (P1 g) = Some m" and "\<not> mallocFailed e"
    and "- (2 ^ 31) \<le> u_i m" and "u_i m < 2 ^ 31" and "y < 2 ^ 31"
  shows "\<exists>p1. vdbe_step e (p, y) = Some (Inr (p1, u_i m + 1))
    \<and> (\<forall>n p2 z h. run_avoiding e (P1 g) n (p1, u_i m + 1) = Some (p2, z) \<and> at p2 z = Some h \<and> P1 h = P1 g \<longrightarrow>
        (opcode h = OP_Yield \<longrightarrow> (\<exists>p3 m3. vdbe_step e (p2, z) = Some (Inr (p3, y + 1)) \<and> reg p3 (P1 g) = Some m3 \<and> u_i m3 = z))
      \<and> (opcode h = OP_EndCoroutine \<longrightarrow> (\<exists>p3. vdbe_step e (p2, z) = Some (Inr (p3, P2 g)))))"
proof -
  obtain p1 m1 where 1: "vdbe_step e (p, y) = Some (Inr (p1, u_i m + 1))" "reg p1 (P1 g) = Some m1" "u_i m1 = y"
    using step_Yield [OF assms(1-6)] by blast
  have y: "0 \<le> y" using assms(1) by (simp add: at_def split: if_splits)
  have a1: "at p1 k = at p k" for k using step_frame [OF 1(1) assms(1)] by (simp add: frame_def at_def)
  have "(opcode h = OP_Yield \<longrightarrow> (\<exists>p3 m3. vdbe_step e (p2, z) = Some (Inr (p3, y + 1)) \<and> reg p3 (P1 g) = Some m3 \<and> u_i m3 = z))
      \<and> (opcode h = OP_EndCoroutine \<longrightarrow> (\<exists>p3. vdbe_step e (p2, z) = Some (Inr (p3, P2 g))))"
    if run: "run_avoiding e (P1 g) n (p1, u_i m + 1) = Some (p2, z)" and h: "at p2 z = Some h" "P1 h = P1 g" for n p2 z h
  proof -
    have r: "reg p2 (P1 h) = Some m1" using run_avoiding_reg(1) [OF run] 1(2) h(2) by simp
    have g: "at p2 (u_i m1) = Some g" using run_avoiding_reg(3) [OF run] a1 assms(1) 1(3) by simp
    show ?thesis
      using step_Yield [OF h(1) _ r assms(4)] step_EndCoroutine [OF h(1) _ r assms(4) g] 1(3) assms(7) y h(2) by auto
  qed
  then show ?thesis using 1(1) by blast
qed

theorem coroutine_alternates_witness:
  "\<exists>p1 p3 m3. vdbe_step no_env (prog_vdbe [op3 OP_Yield 2 9 0, op3 OP_Goto 0 1 0, op3 OP_Goto 0 2 0, op3 OP_Goto 0 4 0, op3 OP_Yield 2 0 0], 0)
      = Some (Inr (p1, 4)) \<and> vdbe_step no_env (p1, 4) = Some (Inr (p3, 1)) \<and> reg p3 2 = Some m3 \<and> u_i m3 = 4"
proof -
  let ?p = "prog_vdbe [op3 OP_Yield 2 9 0, op3 OP_Goto 0 1 0, op3 OP_Goto 0 2 0, op3 OP_Goto 0 4 0, op3 OP_Yield 2 0 0]"
  obtain p1 where p1: "vdbe_step no_env (?p, 0) = Some (Inr (p1, 4))"
    and h: "\<And>h. run_avoiding no_env 2 0 (p1, 4) = Some (p1, 4) \<and> at p1 4 = Some h \<and> P1 h = 2 \<Longrightarrow> opcode h = OP_Yield \<Longrightarrow>
       \<exists>p3 m3. vdbe_step no_env (p1, 4) = Some (Inr (p3, 1)) \<and> reg p3 2 = Some m3 \<and> u_i m3 = 4"
    using coroutine_alternates [of ?p 0 "op3 OP_Yield 2 9 0" "int_mem 3" no_env] by (simp del: run_avoiding.simps) blast
  have "aOp p1 = aOp ?p" using step_frame [OF p1, of "op3 OP_Yield 2 9 0"] by (simp add: frame_def)
  then have "at p1 4 = Some (op3 OP_Yield 2 0 0)" by (simp add: at_def nat_numeral)
  then show ?thesis using p1 h [of "op3 OP_Yield 2 0 0"] by auto
qed

text \<open>C19. A block guarded by \<^verbatim>\<open>OP_Once\<close> is entered once: the flag starts clear, the first
  \<^verbatim>\<open>OP_Once\<close> on it falls through into the block, and in every later state of the run any
  \<^verbatim>\<open>OP_Once\<close> on the same flag jumps over its block, whatever instructions ran in between.\<close>

theorem once_block_runs_once:
  assumes "at p pc = Some g" and "opcode g = OP_Once" and "vdbe_step e (p, pc) = Some (Inr (p1, pc1))"
    and "aOnceFlag p ! nat (P1 g) = 0"
    and "vdbe_reach e (p1, pc1) (q, k)" and "at q k = Some h" and "opcode h = OP_Once" and "P1 h = P1 g"
    and "vdbe_step e (q, k) = Some (Inr (q', k'))"
  shows "pc1 = pc + 1 \<and> k' = P2 h"
proof -
  note o = step_Once [OF assms(3,1,2)]
  have "frame (touches g) p p1" by (rule step_frame [OF assms(3,1)])
  then have "nat (P1 g) < length (aOnceFlag p1)" using o(2) by (simp add: frame_def)
  then have "aOnceFlag q ! nat (P1 g) \<noteq> 0" using reach_frame [OF assms(5)] o(3) by (simp add: frame_def)
  then show ?thesis using step_Once(4) [OF assms(9,6,7)] o(5) assms(4,8) by simp
qed

theorem once_block_runs_once_witness:
  "\<exists>p1 p2 p3. vdbe_step no_env (prog_vdbe [op3 OP_Once 0 7 0, op3 OP_Goto 0 0 0], 0) = Some (Inr (p1, 1))
    \<and> vdbe_step no_env (p1, 1) = Some (Inr (p2, 0)) \<and> vdbe_step no_env (p2, 0) = Some (Inr (p3, 7))"
proof -
  let ?p = "prog_vdbe [op3 OP_Once 0 7 0, op3 OP_Goto 0 0 0]"
  obtain p1 pc1 where p1: "vdbe_step no_env (?p, 0) = Some (Inr (p1, pc1))"
    by (auto simp: step_dispatch dispatch_def jumping_def impl_OP_Once_def Let_def)
  have f: "frame {} ?p p1" using step_frame [OF p1, of "op3 OP_Once 0 7 0"] by (simp add: touches_def)
  have pc1: "pc1 = 1" using step_Once(5) [OF p1, of "op3 OP_Once 0 7 0"] by simp
  have "at p1 1 = Some (op3 OP_Goto 0 0 0)" using f by (simp add: frame_def at_def)
  then obtain p2 where p2: "vdbe_step no_env (p1, 1) = Some (Inr (p2, 0))"
    using step_Goto [of p1 1 "op3 OP_Goto 0 0 0" no_env] by auto
  have f2: "frame {} p1 p2" using step_frame [OF p2, of "op3 OP_Goto 0 0 0"] f by (simp add: touches_def frame_def at_def)
  have a2: "at p2 0 = Some (op3 OP_Once 0 7 0)" using f f2 by (simp add: frame_def at_def)
  have "length (aOnceFlag p2) = 1" using f f2 by (simp add: frame_def)
  then obtain p3 k0 where "impl_OP_Once (p2\<lparr>nVmStep := nVmStep p2 + 1\<rparr>) 0 (op3 OP_Once 0 7 0) = Some (p3, k0)"
    unfolding impl_OP_Once_def Let_def by (cases "aOnceFlag p2 ! 0 = 0") simp_all
  then have "vdbe_step no_env (p2, 0) = Some (Inr (p3, k0 + 1))"
    using a2 by (intro step_jumping [of p2 0 "op3 OP_Once 0 7 0"]) (simp_all add: dispatch_def)
  then obtain k where p3: "vdbe_step no_env (p2, 0) = Some (Inr (p3, k))" by blast
  have "vdbe_reach no_env (p1, 1) (p2, 0)" using p2 vdbe_reach.start vdbe_reach.step by blast
  then have "k = 7" using once_block_runs_once [OF _ _ p1 _ _ a2 _ _ p3, of "op3 OP_Once 0 7 0"] pc1 by simp
  then show ?thesis using p1 p2 p3 pc1 by blast
qed

text \<open>C20. A counted loop ends, as the code for LIMIT has it. Let the body, from any state with the
  invariant for \<open>k + 1\<close> turns to go, come to the \<^verbatim>\<open>OP_IfZero\<close> that decrements the counter, leave the
  counter alone and establish the invariant for \<open>k\<close>. Then from any positive 64-bit value of the counter
  with the invariant for that many turns the loop reaches its exit, with the counter at zero and
  the invariant for no turns to go. (No interrupt arrives and no allocation fails.)\<close>

theorem counted_loop_terminates:
  assumes "counted_loop e prog r h z out I" and "aOp p = prog" and "reg p r = Some m" and "0 < u_i m" and "in_i64 (u_i m)"
    and "I (nat (u_i m)) p"
  shows "\<exists>p' m'. vdbe_reach e (p, h) (p', out) \<and> reg p' r = Some m' \<and> u_i m' = 0 \<and> I 0 p'"
proof -
  have "Suc (nat (u_i m - 1)) = nat (u_i m)" using assms(4) by simp
  then show ?thesis using counted_loop_ends [OF assms(1-3), of "nat (u_i m - 1)"] assms(4-6) by simp
qed

theorem counted_loop_terminates_witness:
  "\<exists>p'. vdbe_reach no_env (sum_vdbe, 0) (p', 7) \<and> reg p' 3 = Some (int_mem 15)"
proof -
  have "aOp sum_vdbe = sum_prog" "reg sum_vdbe 2 = Some (int_mem 3)" "sum_left 3 sum_vdbe"
    by (simp_all add: sum_vdbe_def sum_left_def regs3_def reg_def nat_numeral)
  then show ?thesis
    using counted_loop_terminates [OF sum_loop, of sum_vdbe "int_mem 3"] by (auto simp: in_i64_def sum_left_def int_mem_def)
qed

text \<open>C21. \<^verbatim>\<open>OP_Copy\<close> and \<^verbatim>\<open>OP_Move\<close> transfer a range of registers: the destination takes the
  values of a source that does not overlap it, all other registers are untouched, and a moved
  source is left NULL.\<close>

theorem copy_and_move:
  assumes "present p (P1 pOp) n" and "present p (P2 pOp) n" and "0 < n" and "\<not> mallocFailed e"
    and "P1 pOp + int n \<le> P2 pOp \<or> P2 pOp + int n \<le> P1 pOp"
  shows "(P3 pOp = int n - 1 \<longrightarrow> (\<exists>p'. impl_OP_Copy e p pc pOp = Some (Inr (p', pc))
      \<and> (\<forall>k < n. reg_value p' (P2 pOp + int k) = reg_value p (P1 pOp + int k))
      \<and> (\<forall>r. r \<notin> {P2 pOp ..< P2 pOp + int n} \<longrightarrow> reg p' r = reg p r)))
    \<and> (P3 pOp = int n \<longrightarrow> (\<exists>p'. impl_OP_Move p pOp = Some p'
      \<and> (\<forall>k < n. reg_value p' (P2 pOp + int k) = reg_value p (P1 pOp + int k) \<and> reg_value p' (P1 pOp + int k) = Some VNull)
      \<and> (\<forall>r. r \<notin> {P1 pOp ..< P1 pOp + int n} \<union> {P2 pOp ..< P2 pOp + int n} \<longrightarrow> reg p' r = reg p r)))"
proof (intro conjI impI)
  obtain l where n: "n = Suc l" using assms(3) by (cases n) auto
  have "P1 pOp + int l < P2 pOp \<or> P2 pOp + int l < P1 pOp" using assms(5) n by auto
  then obtain p' where p': "copy_regs e p (P1 pOp) (P2 pOp) l = Some (Inr p')"
      "\<forall>k \<le> l. reg_value p' (P2 pOp + int k) = reg_value p (P1 pOp + int k)"
    using copy_regs_values [OF assms(4), of p "P1 pOp" l "P2 pOp"] assms(1,2) unfolding n by blast
  assume c: "P3 pOp = int n - 1"
  have eq: "impl_OP_Copy e p pc pOp = Some (Inr (p', pc))" using p'(1) c n by (simp add: impl_OP_Copy_def)
  moreover have "reg p' r = reg p r" if "r \<notin> {P2 pOp ..< P2 pOp + int n}" for r
    using frame_reg [OF copy_frame [OF eq], of r] that c n by auto
  ultimately show "\<exists>p'. impl_OP_Copy e p pc pOp = Some (Inr (p', pc))
      \<and> (\<forall>k < n. reg_value p' (P2 pOp + int k) = reg_value p (P1 pOp + int k))
      \<and> (\<forall>r. r \<notin> {P2 pOp ..< P2 pOp + int n} \<longrightarrow> reg p' r = reg p r)"
    using p'(2) n by auto
next
  assume c: "P3 pOp = int n"
  obtain p' where p': "move_regs p (P1 pOp) (P2 pOp) n = Some p'"
      "\<forall>k < n. reg_value p' (P2 pOp + int k) = reg_value p (P1 pOp + int k) \<and> reg_value p' (P1 pOp + int k) = Some VNull"
    using move_regs_values [OF assms(1,2,5)] by blast
  have eq: "impl_OP_Move p pOp = Some p'" using p'(1) c assms(3) by (simp add: impl_OP_Move_def)
  then show "\<exists>p'. impl_OP_Move p pOp = Some p'
      \<and> (\<forall>k < n. reg_value p' (P2 pOp + int k) = reg_value p (P1 pOp + int k) \<and> reg_value p' (P1 pOp + int k) = Some VNull)
      \<and> (\<forall>r. r \<notin> {P1 pOp ..< P1 pOp + int n} \<union> {P2 pOp ..< P2 pOp + int n} \<longrightarrow> reg p' r = reg p r)"
    using p'(2) frame_reg [OF move_frame [OF eq]] c by auto
qed

theorem copy_and_move_witness:
  "\<exists>p'. impl_OP_Move (regs3 (int_mem 7) (int_mem 8)) (op3 OP_Move 1 3 1) = Some p'
    \<and> reg_value p' 3 = Some (VInt 7) \<and> reg_value p' 1 = Some VNull"
proof -
  have "present (regs3 (int_mem 7) (int_mem 8)) 1 1" "present (regs3 (int_mem 7) (int_mem 8)) 3 1"
    by (simp_all add: present_def)
  then show ?thesis
    using copy_and_move [of "regs3 (int_mem 7) (int_mem 8)" "op3 OP_Move 1 3 1" 1 no_env] by (auto simp: reg_value_def)
qed

end
