(* ===== verification/Bitvec.thy ===== *)
theory Bitvec
  imports Prelude
begin

text \<open>
  The sparse bit vector (\<^verbatim>\<open>src/sqlite/src/bitvec.c\<close>), in which the pager keeps sets of page
  numbers: a bitmap, a hash table or a tree of bit vectors, by size and load.

  The members of the union are separate fields, read as \<^verbatim>\<open>iSize\<close> and \<^verbatim>\<open>iDivisor\<close> say, with the
  array sizes of a 64-bit build. An unsigned 32-bit number is a \<^typ>\<open>nat\<close>, with the reduction
  written out where a sum may exceed it. An index outside an array, or a probe loop that
  would not end, is \<^const>\<open>None\<close>.
\<close>

section \<open>The structure\<close>

abbreviation (input) BITVEC_NBIT :: nat where "BITVEC_NBIT \<equiv> 3968"
abbreviation (input) BITVEC_NINT :: nat where "BITVEC_NINT \<equiv> 124"
abbreviation (input) BITVEC_MXHASH :: nat where "BITVEC_MXHASH \<equiv> 62"
abbreviation (input) BITVEC_NPTR :: nat where "BITVEC_NPTR \<equiv> 62"
abbreviation (input) SQLITE_NOMEM :: nat where "SQLITE_NOMEM \<equiv> 7"

datatype bitvec =
  Bitvec (iSize: nat) (nSet: nat) (iDivisor: nat) (aBitmap: bytes) (aHash: "nat list") (apSub: "bitvec option list")

definition bitvec_new :: "nat \<Rightarrow> bitvec" where
  "bitvec_new s = Bitvec s 0 0 (replicate 496 0) (replicate BITVEC_NINT 0) (replicate BITVEC_NPTR None)"

definition sqlite3BitvecCreate :: "nat \<Rightarrow> allocator \<Rightarrow> bitvec option \<times> allocator" where
  "sqlite3BitvecCreate s m =
     (case sqlite3_malloc m of (ok, m) \<Rightarrow> (if ok then Some (bitvec_new s) else None, m))"

definition BITVEC_HASH :: "nat \<Rightarrow> nat" where
  "BITVEC_HASH X = (X * 1) mod BITVEC_NINT"

text \<open>Linear probing for a value: the slots are visited from the hash on, until the value or a
  free slot; a table without either is gone round for ever.\<close>

datatype probe = Found | Free nat

fun hash_probe :: "nat \<Rightarrow> nat list \<Rightarrow> nat \<Rightarrow> nat \<Rightarrow> probe option" where
  "hash_probe 0 hs h i = None"
| "hash_probe (Suc n) hs h i =
     (if hs ! h = 0 then Some (Free h)
      else if hs ! h = i then Some Found
      else hash_probe n hs ((h + 1) mod BITVEC_NINT) i)"

section \<open>Testing a bit\<close>

lemma size_sub: "k < length (apSub p) \<Longrightarrow> apSub p ! k = Some q \<Longrightarrow> size q < size p"
proof (cases p)
  case (Bitvec s n d bm hs subs)
  assume "k < length (apSub p)" "apSub p ! k = Some q"
  then have "Some q \<in> set subs" using Bitvec by (metis bitvec.sel(6) nth_mem)
  then have "size q < size_list (size_option size) subs"
    by (rule size_list_estimation) simp
  then show ?thesis by (simp add: Bitvec)
qed

function bitvec_lookup :: "bitvec \<Rightarrow> nat \<Rightarrow> bool option" where
  "bitvec_lookup p i =
     (if iDivisor p \<noteq> 0 then
        let bin = i div iDivisor p; i = i mod iDivisor p
        in if bin < length (apSub p) then
             (case apSub p ! bin of None \<Rightarrow> Some False | Some q \<Rightarrow> bitvec_lookup q i)
           else None
      else if iSize p \<le> BITVEC_NBIT then
        (case rd (aBitmap p) (i div 8) of
           None \<Rightarrow> None
         | Some b \<Rightarrow> Some (b AND push_bit (i mod 8) 1 \<noteq> 0))
      else
        (case hash_probe BITVEC_NINT (aHash p) (BITVEC_HASH i) (i + 1) of
           None \<Rightarrow> None | Some Found \<Rightarrow> Some True | Some (Free h) \<Rightarrow> Some False))"
  by pat_completeness auto

termination by (relation "measure (\<lambda>(p, i). size p)") (auto simp: size_sub)

declare bitvec_lookup.simps [simp del]

definition sqlite3BitvecTest :: "bitvec option \<Rightarrow> nat \<Rightarrow> bool option" where
  "sqlite3BitvecTest p i =
     (case p of
        None \<Rightarrow> Some False
      | Some p \<Rightarrow> if i > iSize p \<or> i = 0 then Some False else bitvec_lookup p (i - 1))"

section \<open>Setting a bit\<close>

text \<open>The result of a step that sets a bit: the vector, the result code and the allocator.\<close>

type_synonym set_result = "(bitvec \<times> nat \<times> allocator) option"

text \<open>The values saved from a full hash table are set one by one.\<close>

fun set_all :: "(bitvec \<Rightarrow> nat \<Rightarrow> allocator \<Rightarrow> set_result) \<Rightarrow> bitvec \<Rightarrow> nat list \<Rightarrow> nat \<Rightarrow> allocator \<Rightarrow> set_result" where
  "set_all f p [] rc m = Some (p, rc, m)"
| "set_all f p (v # aiValues) rc m =
     (if v \<noteq> 0 then do { (p, rc', m) \<leftarrow> f p v m; set_all f p aiValues (rc OR rc') m }
      else set_all f p aiValues rc m)"

definition bitvec_set_end :: "bitvec \<Rightarrow> nat \<Rightarrow> nat \<Rightarrow> bitvec" where
  "bitvec_set_end p i h =
     Bitvec (iSize p) (nSet p + 1) (iDivisor p) (aBitmap p) ((aHash p)[h := i]) (apSub p)"

definition divided :: "bitvec \<Rightarrow> bitvec" where
  "divided p = Bitvec (iSize p) (nSet p) ((iSize p + BITVEC_NPTR - 1) div BITVEC_NPTR)
     (replicate 496 0) (replicate BITVEC_NINT 0) (replicate BITVEC_NPTR None)"

definition bitvec_set_rehash :: "(bitvec \<Rightarrow> nat \<Rightarrow> allocator \<Rightarrow> set_result) \<Rightarrow> bitvec \<Rightarrow> nat \<Rightarrow> nat \<Rightarrow> allocator \<Rightarrow> set_result" where
  "bitvec_set_rehash rec p i h m =
     (if nSet p \<ge> BITVEC_MXHASH then
        (case sqlite3_malloc m of (ok, m) \<Rightarrow>
           if \<not> ok then Some (p, SQLITE_NOMEM, m)
           else do { (q, rc, m) \<leftarrow> rec (divided p) i m; set_all rec q (aHash p) rc m })
      else Some (bitvec_set_end p i h, 0, m))"

definition hash_set :: "(bitvec \<Rightarrow> nat \<Rightarrow> allocator \<Rightarrow> set_result) \<Rightarrow> bitvec \<Rightarrow> nat \<Rightarrow> allocator \<Rightarrow> set_result" where
  "hash_set rec p i m =
     (let h = BITVEC_HASH (i - 1)
      in if aHash p ! h = 0 then
           if nSet p < BITVEC_NINT - 1 then Some (bitvec_set_end p i h, 0, m)
           else bitvec_set_rehash rec p i h m
         else
           (case hash_probe BITVEC_NINT (aHash p) h i of
              None \<Rightarrow> None
            | Some Found \<Rightarrow> Some (p, 0, m)
            | Some (Free h) \<Rightarrow> bitvec_set_rehash rec p i h m))"

text \<open>The first argument bounds the depth of the recursion.\<close>

primrec bitvec_set :: "nat \<Rightarrow> bitvec \<Rightarrow> nat \<Rightarrow> allocator \<Rightarrow> set_result" where
  "bitvec_set 0 p i m = None"
| "bitvec_set (Suc n) p i m =
     (if iSize p > BITVEC_NBIT \<and> iDivisor p \<noteq> 0 then
        let bin = (i - 1) div iDivisor p
        in if bin \<ge> length (apSub p) then None
           else
             (case (case apSub p ! bin of None \<Rightarrow> sqlite3BitvecCreate (iDivisor p) m | Some q \<Rightarrow> (Some q, m)) of
                (None, m) \<Rightarrow> Some (p, SQLITE_NOMEM, m)
              | (Some q, m) \<Rightarrow> do {
                  (q, rc, m) \<leftarrow> bitvec_set n q ((i - 1) mod iDivisor p + 1) m;
                  Some (Bitvec (iSize p) (nSet p) (iDivisor p) (aBitmap p) (aHash p) ((apSub p)[bin := Some q]), rc, m) })
      else if iSize p \<le> BITVEC_NBIT then do {
        b \<leftarrow> rd (aBitmap p) ((i - 1) div 8);
        Some (Bitvec (iSize p) (nSet p) (iDivisor p)
                ((aBitmap p)[(i - 1) div 8 := b OR push_bit ((i - 1) mod 8) 1]) (aHash p) (apSub p), 0, m) }
      else hash_set (bitvec_set n) p i m)"

text \<open>Nine levels are enough for every 32-bit size, as shown below.\<close>

definition sqlite3BitvecSet :: "bitvec option \<Rightarrow> nat \<Rightarrow> allocator \<Rightarrow> (bitvec option \<times> nat \<times> allocator) option" where
  "sqlite3BitvecSet p i m =
     (case p of
        None \<Rightarrow> Some (None, 0, m)
      | Some p \<Rightarrow> map_option (\<lambda>(p, rc, m). (Some p, rc, m)) (bitvec_set 9 p i m))"

section \<open>Clearing a bit\<close>

fun free_slot :: "nat \<Rightarrow> nat list \<Rightarrow> nat \<Rightarrow> nat option" where
  "free_slot 0 hs h = None"
| "free_slot (Suc n) hs h = (if hs ! h = 0 then Some h else free_slot n hs (if h + 1 \<ge> BITVEC_NINT then 0 else h + 1))"

fun hash_rebuild :: "nat list \<Rightarrow> nat \<Rightarrow> nat list \<Rightarrow> nat \<Rightarrow> (nat list \<times> nat) option" where
  "hash_rebuild [] i hs n = Some (hs, n)"
| "hash_rebuild (v # aiValues) i hs n =
     (if v \<noteq> 0 \<and> v \<noteq> i + 1 then do {
        h \<leftarrow> free_slot BITVEC_NINT hs (BITVEC_HASH (v - 1));
        hash_rebuild aiValues i (hs[h := v]) (n + 1) }
      else hash_rebuild aiValues i hs n)"

function bitvec_clear :: "bitvec \<Rightarrow> nat \<Rightarrow> bitvec option" where
  "bitvec_clear p i =
     (if iDivisor p \<noteq> 0 then
        let bin = i div iDivisor p; i = i mod iDivisor p
        in if bin < length (apSub p) then
             (case apSub p ! bin of
                None \<Rightarrow> Some p
              | Some q \<Rightarrow> do {
                  q \<leftarrow> bitvec_clear q i;
                  Some (Bitvec (iSize p) (nSet p) (iDivisor p) (aBitmap p) (aHash p) ((apSub p)[bin := Some q])) })
           else None
      else if iSize p \<le> BITVEC_NBIT then do {
        b \<leftarrow> rd (aBitmap p) (i div 8);
        Some (Bitvec (iSize p) (nSet p) (iDivisor p)
                ((aBitmap p)[i div 8 := b AND NOT (push_bit (i mod 8) 1)]) (aHash p) (apSub p)) }
      else do {
        (hs, n) \<leftarrow> hash_rebuild (aHash p) i (replicate BITVEC_NINT 0) 0;
        Some (Bitvec (iSize p) n (iDivisor p) (aBitmap p) hs (apSub p)) })"
  by pat_completeness auto

termination by (relation "measure (\<lambda>(p, i). size p)") (auto simp: size_sub)

declare bitvec_clear.simps [simp del]

definition sqlite3BitvecClear :: "bitvec option \<Rightarrow> nat \<Rightarrow> bitvec option option" where
  "sqlite3BitvecClear p i =
     (case p of None \<Rightarrow> Some None | Some p \<Rightarrow> map_option Some (bitvec_clear p (i - 1)))"

definition sqlite3BitvecSize :: "bitvec \<Rightarrow> nat" where
  "sqlite3BitvecSize p = iSize p"


section \<open>The set a bit vector stands for\<close>

function in_bv :: "bitvec \<Rightarrow> nat \<Rightarrow> bool" where
  "in_bv p i =
     (if iDivisor p \<noteq> 0 then
        if i div iDivisor p < length (apSub p) then
          (case apSub p ! (i div iDivisor p) of None \<Rightarrow> False | Some q \<Rightarrow> in_bv q (i mod iDivisor p))
        else False
      else if iSize p \<le> BITVEC_NBIT then bit (aBitmap p ! (i div 8)) (i mod 8)
      else i + 1 \<in> set (aHash p))"
  by pat_completeness auto

termination by (relation "measure (\<lambda>(p, i). size p)") (auto simp: size_sub)

declare in_bv.simps [simp del]

definition bv_set :: "bitvec \<Rightarrow> nat set" where
  "bv_set p = {i. 0 < i \<and> i \<le> iSize p \<and> in_bv p (i - 1)}"

section \<open>The hash table\<close>

definition used :: "nat list \<Rightarrow> nat" where
  "used hs = length (filter ((\<noteq>) 0) hs)"

definition hash_ok :: "nat \<Rightarrow> nat list \<Rightarrow> bool" where
  "hash_ok s hs \<longleftrightarrow> length hs = BITVEC_NINT \<and> (\<forall>v \<in> set hs. v \<le> s) \<and> used hs < BITVEC_NINT \<and>
     (\<forall>v \<in> set hs. v \<noteq> 0 \<longrightarrow> hash_probe BITVEC_NINT hs (BITVEC_HASH (v - 1)) v = Some Found)"

lemma used_full: "used hs < length hs \<Longrightarrow> \<exists>k < length hs. hs ! k = 0"
  unfolding used_def by (metis (full_types) filter_True in_set_conv_nth less_irrefl)

lemma used_update:
  "k < length hs \<Longrightarrow> hs ! k = 0 \<Longrightarrow> v \<noteq> 0 \<Longrightarrow> used (hs[k := v]) = used hs + 1"
  unfolding used_def
proof (induction hs arbitrary: k)
  case (Cons x hs)
  then show ?case by (cases k) auto
qed simp

lemma probe_None:
  assumes "hash_probe n hs h v = None" "h < 124"
  shows "\<forall>j < n. hs ! ((h + j) mod 124) \<noteq> 0"
  using assms
proof (induction n arbitrary: h)
  case (Suc n)
  then have "hs ! h \<noteq> 0" and r: "hash_probe n hs ((h + 1) mod 124) v = None"
    by (auto split: if_splits)
  have "\<forall>j < n. hs ! (((h + 1) mod 124 + j) mod 124) \<noteq> 0" by (rule Suc.IH [OF r]) simp
  then have "\<forall>j < n. hs ! ((h + Suc j) mod 124) \<noteq> 0" by (simp add: mod_simps)
  then show ?case using \<open>hs ! h \<noteq> 0\<close> Suc.prems(2) by (auto simp: less_Suc_eq_0_disj)
qed simp

lemma probe_Some:
  assumes "length hs = 124" "used hs < 124" "h < 124"
  shows "hash_probe 124 hs h v \<noteq> None"
proof
  assume "hash_probe 124 hs h v = None"
  from probe_None [OF this assms(3)] have nz: "\<forall>j < 124. hs ! ((h + j) mod 124) \<noteq> 0" .
  obtain k where k: "k < 124" "hs ! k = 0" using used_full [of hs] assms by auto
  have "(h + (k + 124 - h) mod 124) mod 124 = (h + (k + 124 - h)) mod 124" by (rule mod_add_right_eq)
  then have "(h + (k + 124 - h) mod 124) mod 124 = k" using assms(3) k(1) by simp
  moreover have "(k + 124 - h) mod 124 < 124" by simp
  ultimately show False using nz k(2) by metis
qed

lemma probe_Free:
  "hash_probe n hs h v = Some (Free k) \<Longrightarrow> h < 124 \<Longrightarrow> k < 124 \<and> hs ! k = 0"
  by (induction n arbitrary: h) (auto split: if_splits)

lemma probe_Found:
  "hash_probe n hs h v = Some Found \<Longrightarrow> h < 124 \<Longrightarrow> length hs = 124 \<Longrightarrow> v \<in> set hs"
  by (induction n arbitrary: h) (auto split: if_splits)

lemma probe_keeps:
  "hash_probe n hs h v = Some Found \<Longrightarrow> hs ! k = 0 \<Longrightarrow> v \<noteq> 0 \<Longrightarrow> x \<noteq> 0 \<Longrightarrow> k < length hs \<Longrightarrow>
   hash_probe n (hs[k := x]) h v = Some Found"
  by (induction n arbitrary: h) (auto simp: nth_list_update split: if_splits)

lemma slot_filled:
  "free_slot n hs h = Some k \<Longrightarrow> v \<noteq> 0 \<Longrightarrow> h < 124 \<Longrightarrow> k < length hs \<Longrightarrow>
   hash_probe n (hs[k := v]) h v = Some Found"
proof (induction n arbitrary: h)
  case (Suc n)
  have "(if h + 1 \<ge> 124 then 0 else h + 1) = (h + 1) mod 124"
    using Suc.prems(3) by (cases "h = 123") auto
  then show ?case using Suc by (auto simp: nth_list_update split: if_splits)
qed simp

lemma free_slot_probe:
  "v \<notin> set hs \<Longrightarrow> h < 124 \<Longrightarrow> length hs = 124 \<Longrightarrow> hash_probe n hs h v = map_option Free (free_slot n hs h)"
proof (induction n arbitrary: h)
  case (Suc n)
  then have "hs ! h \<noteq> v" by (metis nth_mem)
  moreover have "(if h + 1 \<ge> 124 then 0 else h + 1) = (h + 1) mod 124"
    using Suc.prems(2) by (cases "h = 123") auto
  moreover have "hash_probe n hs ((h + 1) mod 124) v = map_option Free (free_slot n hs ((h + 1) mod 124))"
    by (rule Suc.IH) (simp_all add: Suc.prems)
  ultimately show ?case by (simp del: One_nat_def)
qed simp

lemma free_slot_Some:
  assumes "length hs = 124" "used hs < 124" "h < 124"
  shows "\<exists>k. free_slot 124 hs h = Some k \<and> k < 124 \<and> hs ! k = 0"
proof -
  obtain v where v: "v \<notin> set hs" using infinite_UNIV_nat ex_new_if_finite by blast
  show ?thesis
    using probe_Some [OF assms, of v] free_slot_probe [OF v assms(3,1), of 124]
      probe_Free [of 124 hs h v] assms(3) by (cases "free_slot 124 hs h") auto
qed

lemma probe_Free_slot:
  "hash_probe n hs h v = Some (Free k) \<Longrightarrow> h < 124 \<Longrightarrow> free_slot n hs h = Some k"
proof (induction n arbitrary: h)
  case (Suc n)
  have "(if h + 1 \<ge> 124 then 0 else h + 1) = (h + 1) mod 124"
    using Suc.prems(2) by (cases "h = 123") auto
  then show ?case using Suc by (auto split: if_splits)
qed simp

lemma hash_ok_insert:
  assumes ok: "hash_ok s hs" and v: "0 < v" "v \<le> s" and n: "used hs < 123"
    and p: "free_slot 124 hs (BITVEC_HASH (v - 1)) = Some k"
  shows "hash_ok s (hs[k := v])" "set (hs[k := v]) - {0} = insert v (set hs - {0})"
    "used (hs[k := v]) = used hs + 1"
proof -
  have k: "k < length hs" "hs ! k = 0"
    using free_slot_Some [of hs "BITVEC_HASH (v - 1)"] ok p by (auto simp: hash_ok_def BITVEC_HASH_def)
  show u: "used (hs[k := v]) = used hs + 1" using used_update [OF k] v by simp
  have sub: "set (hs[k := v]) \<subseteq> insert v (set hs)" by (rule set_update_subset_insert)
  show "set (hs[k := v]) - {0} = insert v (set hs - {0})"
  proof (intro equalityI subsetI)
    fix x assume x: "x \<in> insert v (set hs - {0})"
    show "x \<in> set (hs[k := v]) - {0}"
    proof (cases "x = v")
      case True then show ?thesis using v k by (simp add: set_update_memI)
    next
      case False
      then obtain j where "j < length hs" "hs ! j = x" "x \<noteq> 0" using x by (auto simp: in_set_conv_nth)
      then show ?thesis using k by (metis Diff_iff empty_iff insert_iff length_list_update nth_list_update_neq nth_mem)
    qed
  qed (use sub v in auto)
  have "hash_probe 124 (hs[k := v]) (BITVEC_HASH (x - 1)) x = Some Found"
    if x: "x \<in> set (hs[k := v])" "x \<noteq> 0" for x
  proof (cases "x = v")
    case True then show ?thesis using slot_filled [OF p] k v by (simp add: BITVEC_HASH_def)
  next
    case False
    then have "x \<in> set hs" using x sub by auto
    then have "hash_probe 124 hs (BITVEC_HASH (x - 1)) x = Some Found" using ok x by (simp add: hash_ok_def)
    then show ?thesis using k v x by (intro probe_keeps) auto
  qed
  moreover have "x \<le> s" if "x \<in> set (hs[k := v])" for x
    using that sub v ok by (auto simp: hash_ok_def)
  ultimately show "hash_ok s (hs[k := v])" using ok u n by (simp add: hash_ok_def)
qed

lemma hash_ok_empty: "hash_ok s (replicate 124 0)"
  by (simp add: hash_ok_def used_def filter_empty_conv)

lemma hash_probe_iff:
  assumes "hash_ok s hs" "v \<noteq> 0"
  shows "hash_probe 124 hs (BITVEC_HASH (v - 1)) v = Some Found \<longleftrightarrow> v \<in> set hs"
  using assms probe_Found [of 124 hs "BITVEC_HASH (v - 1)" v] by (auto simp: hash_ok_def BITVEC_HASH_def)

lemma hash_rebuild_ok:
  assumes "hash_ok s hs" "used hs + length (filter ((\<noteq>) 0) vs) < 124" "\<forall>v \<in> set vs. v \<le> s" "n = used hs"
  shows "\<exists>hs' n'. hash_rebuild vs i hs n = Some (hs', n') \<and> hash_ok s hs' \<and> n' = used hs' \<and>
    set hs' - {0} = (set hs - {0}) \<union> (set vs - {0, i + 1})"
  using assms
proof (induction vs arbitrary: hs n)
  case (Cons v vs)
  show ?case
  proof (cases "v \<noteq> 0 \<and> v \<noteq> i + 1")
    case False
    have "\<exists>hs' n'. hash_rebuild vs i hs n = Some (hs', n') \<and> hash_ok s hs' \<and> n' = used hs' \<and>
      set hs' - {0} = (set hs - {0}) \<union> (set vs - {0, i + 1})"
      by (rule Cons.IH) (use Cons.prems in \<open>auto split: if_splits\<close>)
    then show ?thesis using False by auto
  next
    case True
    obtain k where k: "free_slot 124 hs (BITVEC_HASH (v - 1)) = Some k"
      using free_slot_Some [of hs "BITVEC_HASH (v - 1)"] Cons.prems(1) by (auto simp: hash_ok_def BITVEC_HASH_def)
    have v: "0 < v" "v \<le> s" "used hs < 123" using Cons.prems True by auto
    note ins = hash_ok_insert [OF Cons.prems(1) v k]
    have "\<exists>hs' n'. hash_rebuild vs i (hs[k := v]) (n + 1) = Some (hs', n') \<and> hash_ok s hs' \<and> n' = used hs' \<and>
      set hs' - {0} = (set (hs[k := v]) - {0}) \<union> (set vs - {0, i + 1})"
      by (rule Cons.IH) (use Cons.prems True ins(1,3) in auto)
    then show ?thesis using True k unfolding ins(2) by auto
  qed
qed auto

section \<open>Well-formed bit vectors\<close>

inductive bv_ok :: "bitvec \<Rightarrow> bool" where
  bitmap: "s \<le> BITVEC_NBIT \<Longrightarrow> length bm = 496 \<Longrightarrow> bv_ok (Bitvec s n 0 bm hs subs)"
| hash: "s > BITVEC_NBIT \<Longrightarrow> hash_ok s hs \<Longrightarrow> n = used hs \<Longrightarrow> bv_ok (Bitvec s n 0 bm hs subs)"
| tree: "s > BITVEC_NBIT \<Longrightarrow> length subs = BITVEC_NPTR \<Longrightarrow> d = (s + 61) div 62 \<Longrightarrow>
    \<forall>q. Some q \<in> set subs \<longrightarrow> bv_ok q \<and> iSize q = d \<Longrightarrow> bv_ok (Bitvec s n d bm hs subs)"

inductive_cases bv_okE: "bv_ok (Bitvec s n d bm hs subs)"

lemma bv_ok_new: "bv_ok (bitvec_new s)" "iSize (bitvec_new s) = s"
proof -
  show "bv_ok (bitvec_new s)"
  proof (cases "s \<le> 3968")
    case True then show ?thesis unfolding bitvec_new_def by (intro bv_ok.bitmap) auto
  next
    case False
    then show ?thesis unfolding bitvec_new_def
      by (intro bv_ok.hash hash_ok_empty) (auto simp: used_def filter_empty_conv)
  qed
qed (simp add: bitvec_new_def)

lemma in_bv_new: "i < s \<Longrightarrow> \<not> in_bv (bitvec_new s) i"
  by (subst in_bv.simps) (auto simp: bitvec_new_def)

lemma bv_set_new: "bv_set (bitvec_new s) = {}"
  using in_bv_new [of _ s] by (auto simp: bv_set_def bv_ok_new)

lemma divided_set: "bv_ok p \<Longrightarrow> iSize p > 3968 \<Longrightarrow> bv_ok (divided p) \<and> in_bv (divided p) i = False"
  by (auto simp: divided_def in_bv.simps [of "Bitvec _ _ _ _ _ _"] intro!: bv_ok.tree)

lemma bin_bound: "3968 < s \<Longrightarrow> i < s \<Longrightarrow> i div ((s + 61) div 62) < (62 :: nat)"
proof -
  assume "3968 < s" "i < s"
  then have "i < 62 * ((s + 61) div 62)" "0 < (s + 61) div 62" by linarith+
  then show ?thesis by (simp add: less_mult_imp_div_less mult.commute)
qed

lemma lookup_in_bv:
  assumes "bv_ok p" "i < iSize p"
  shows "bitvec_lookup p i = Some (in_bv p i)"
  using assms
proof (induction arbitrary: i)
  case (bitmap s bm n hs subs)
  then have b: "i div 8 < length bm" by auto
  have "(bm ! (i div 8) AND push_bit (i mod 8) 1 \<noteq> 0) = bit (bm ! (i div 8)) (i mod 8)"
    by (simp add: push_bit_eq_mult and_exp_eq_0_iff_not_bit)
  then show ?case using bitmap b by (subst bitvec_lookup.simps, subst in_bv.simps) (simp add: rd_def)
next
  case (hash s hs n bm subs)
  let ?r = "hash_probe 124 hs (BITVEC_HASH i) (i + 1)"
  have "?r \<noteq> None" using hash.hyps by (intro probe_Some) (auto simp: hash_ok_def BITVEC_HASH_def)
  moreover have "?r = Some Found \<longleftrightarrow> i + 1 \<in> set hs" using hash_probe_iff [OF hash.hyps(2), of "i + 1"] by simp
  ultimately show ?case using hash
    by (subst bitvec_lookup.simps, subst in_bv.simps) (auto split: option.splits probe.splits)
next
  case (tree s subs d n bm hs)
  then have d: "d \<noteq> 0" by auto
  have b: "i div d < 62" using bin_bound [of s i] tree by simp
  have "bitvec_lookup q (i mod d) = Some (in_bv q (i mod d))" if "subs ! (i div d) = Some q" for q
  proof -
    have "Some q \<in> set subs" using that b tree.hyps(2) by (metis nth_mem)
    then show ?thesis using tree.IH d by auto
  qed
  then show ?case using d b tree.hyps(2)
    by (subst bitvec_lookup.simps, subst in_bv.simps) (auto simp: Let_def split: option.splits)
qed

section \<open>The members of each representation\<close>

lemma bitmap_bv_set:
  "s \<le> 3968 \<Longrightarrow> bv_set (Bitvec s n 0 bm hs subs) = {i. 0 < i \<and> i \<le> s \<and> bit (bm ! ((i - 1) div 8)) ((i - 1) mod 8)}"
  unfolding bv_set_def by (subst in_bv.simps) simp

lemma hash_bv_set:
  "s > 3968 \<Longrightarrow> hash_ok s hs \<Longrightarrow> bv_set (Bitvec s n 0 bm hs subs) = set hs - {0}"
  unfolding bv_set_def by (subst in_bv.simps) (auto simp: hash_ok_def)

lemma tree_bv_set:
  assumes "bv_ok (Bitvec s n d bm hs subs)" "d \<noteq> 0"
  shows "bv_set (Bitvec s n d bm hs subs) =
    {i. 0 < i \<and> i \<le> s \<and> (\<exists>q. subs ! ((i - 1) div d) = Some q \<and> (i - 1) mod d + 1 \<in> bv_set q)}"
proof -
  from assms have len: "length subs = 62" and d: "d = (s + 61) div 62" and s: "s > 3968"
    and sub: "\<And>q. Some q \<in> set subs \<Longrightarrow> iSize q = d" by (auto elim: bv_okE)
  have "in_bv (Bitvec s n d bm hs subs) (i - 1) = (\<exists>q. subs ! ((i - 1) div d) = Some q \<and> (i - 1) mod d + 1 \<in> bv_set q)"
    if i: "0 < i" "i \<le> s" for i
  proof (cases "subs ! ((i - 1) div d)")
    case None then show ?thesis using assms(2) by (subst in_bv.simps) simp
  next
    case (Some q)
    have b: "(i - 1) div d < length subs" using bin_bound [of s "i - 1"] s i d len by simp
    then have "iSize q = d" using Some sub by (metis nth_mem)
    moreover have "(i - 1) mod d < d" using assms(2) by simp
    ultimately have "(i - 1) mod d + 1 \<in> bv_set q \<longleftrightarrow> in_bv q ((i - 1) mod d)" by (simp add: bv_set_def Suc_le_eq)
    then show ?thesis using Some b assms(2) by (subst in_bv.simps) simp
  qed
  then show ?thesis unfolding bv_set_def by auto
qed

lemma same_cell: "0 < i \<Longrightarrow> 0 < j \<Longrightarrow> (i - 1) div d = (j - 1) div d \<Longrightarrow> (i - 1) mod d = (j - 1) mod d \<Longrightarrow> i = (j :: nat)"
  by (metis One_nat_def Suc_pred div_mult_mod_eq)

text \<open>What replacing one sub-vector does to the members.\<close>

lemma tree_update:
  assumes ok: "bv_ok (Bitvec s n d bm hs subs)" "d \<noteq> 0" and i: "0 < i" "i \<le> s"
    and q: "bv_ok q" "iSize q = d"
  shows "bv_ok (Bitvec s n d bm hs (subs[(i - 1) div d := Some q]))"
    "bv_set (Bitvec s n d bm hs (subs[(i - 1) div d := Some q])) =
      {j. 0 < j \<and> j \<le> s \<and> (if (j - 1) div d = (i - 1) div d then (j - 1) mod d + 1 \<in> bv_set q
                        else j \<in> bv_set (Bitvec s n d bm hs subs))}"
proof -
  from ok have len: "length subs = 62" and d: "d = (s + 61) div 62" and s: "s > 3968"
    and sub: "\<And>q. Some q \<in> set subs \<Longrightarrow> bv_ok q \<and> iSize q = d" by (auto elim: bv_okE)
  show ok': "bv_ok (Bitvec s n d bm hs (subs[(i - 1) div d := Some q]))"
    by (rule bv_ok.tree) (use s len d sub q set_update_subset_insert [of subs] in auto)
  have b: "(i - 1) div d < length subs" using bin_bound [of s "i - 1"] s i d len by simp
  show "bv_set (Bitvec s n d bm hs (subs[(i - 1) div d := Some q])) =
      {j. 0 < j \<and> j \<le> s \<and> (if (j - 1) div d = (i - 1) div d then (j - 1) mod d + 1 \<in> bv_set q
                        else j \<in> bv_set (Bitvec s n d bm hs subs))}"
    unfolding tree_bv_set [OF ok' ok(2)] tree_bv_set [OF ok] using b by (auto simp: nth_list_update)
qed

section \<open>Setting a bit adds it\<close>

definition set_post :: "bitvec \<Rightarrow> nat \<Rightarrow> allocator \<Rightarrow> set_result \<Rightarrow> bool" where
  "set_post p i m r \<longleftrightarrow> (\<exists>p' rc m'. r = Some (p', rc, m') \<and> bv_ok p' \<and> iSize p' = iSize p \<and>
     (iDivisor p \<noteq> 0 \<longrightarrow> iDivisor p' = iDivisor p) \<and> rc \<in> {0, SQLITE_NOMEM} \<and>
     bv_set p' \<subseteq> insert i (bv_set p) \<and> (rc = 0 \<longrightarrow> bv_set p' = insert i (bv_set p)) \<and>
     (False \<notin> set m \<longrightarrow> rc = 0 \<and> False \<notin> set m'))"

definition sets_trees :: "nat \<Rightarrow> (bitvec \<Rightarrow> nat \<Rightarrow> allocator \<Rightarrow> set_result) \<Rightarrow> bool" where
  "sets_trees s f \<longleftrightarrow> (\<forall>q j m. bv_ok q \<longrightarrow> iSize q = s \<longrightarrow> iDivisor q \<noteq> 0 \<longrightarrow> 0 < j \<longrightarrow> j \<le> s \<longrightarrow>
     set_post q j m (f q j m))"

lemma sets_treesD: "sets_trees s f \<Longrightarrow> bv_ok q \<Longrightarrow> iSize q = s \<Longrightarrow> iDivisor q \<noteq> 0 \<Longrightarrow> 0 < j \<Longrightarrow> j \<le> s \<Longrightarrow>
    set_post q j m (f q j m)"
  by (simp add: sets_trees_def)

lemma set_bitmap:
  assumes "bv_ok p" "iSize p \<le> 3968" "0 < i" "i \<le> iSize p"
  shows "set_post p i m (bitvec_set (Suc n) p i m)"
  using assms(1)
proof cases
  case (bitmap s bm n' hs subs)
  have b: "(i - 1) div 8 < length bm" using bitmap assms by auto
  let ?b = "bm ! ((i - 1) div 8) OR push_bit ((i - 1) mod 8) 1"
  let ?q = "Bitvec s n' 0 (bm[(i - 1) div 8 := ?b]) hs subs"
  have "bit ?b ((j - 1) mod 8) = (bit (bm ! ((i - 1) div 8)) ((j - 1) mod 8) \<or> (j - 1) mod 8 = (i - 1) mod 8)" for j
    by (auto simp: bit_simps)
  then have "bv_set ?q = insert i (bv_set p)"
    unfolding bitmap(1) bitmap_bv_set [OF bitmap(2)] using b assms(3,4) same_cell [of _ i 8]
    by (auto simp: nth_list_update bitmap(1))
  moreover have "bv_ok ?q" using bitmap by (intro bv_ok.bitmap) auto
  moreover have "bitvec_set (Suc n) p i m = Some (?q, 0, m)" using bitmap b by (simp add: rd_def)
  ultimately show ?thesis using bitmap(1) by (simp add: set_post_def)
qed (use assms in auto)

lemma set_all_ok:
  assumes rec: "sets_trees s f"
    and "bv_ok p" "iSize p = s" "iDivisor p \<noteq> 0" "\<forall>v \<in> set vs. v \<le> s" "rc \<in> {0, 7}"
  shows "\<exists>p' rc' m'. set_all f p vs rc m = Some (p', rc', m') \<and> bv_ok p' \<and> iSize p' = s \<and>
    rc' \<in> {0, 7} \<and> bv_set p' \<subseteq> bv_set p \<union> (set vs - {0}) \<and>
    (rc' = 0 \<longrightarrow> rc = 0 \<and> bv_set p' = bv_set p \<union> (set vs - {0})) \<and>
    (rc = 0 \<and> False \<notin> set m \<longrightarrow> rc' = 0 \<and> False \<notin> set m')"
  using assms(2-)
proof (induction vs arbitrary: p rc m)
  case (Cons v vs)
  show ?case
  proof (cases "v = 0")
    case True then show ?thesis using Cons by simp
  next
    case False
    then have "set_post p v m (f p v m)" using Cons.prems by (intro sets_treesD [OF rec]) auto
    then obtain p' r m' where r: "f p v m = Some (p', r, m')" "bv_ok p'" "iSize p' = iSize p"
      "iDivisor p' \<noteq> 0" "r \<in> {0, 7}" "bv_set p' \<subseteq> insert v (bv_set p)"
      "r = 0 \<longrightarrow> bv_set p' = insert v (bv_set p)" "False \<notin> set m \<longrightarrow> r = 0 \<and> False \<notin> set m'"
      using Cons.prems(3) by (auto simp: set_post_def)
    have or: "rc OR r \<in> {0, 7}" "rc OR r = 0 \<longleftrightarrow> rc = 0 \<and> r = 0" using r(5) Cons.prems(5) by auto
    have s: "iSize p' = s" using r(3) Cons.prems(2) by simp
    have vs: "\<forall>v \<in> set vs. v \<le> s" using Cons.prems(4) by simp
    obtain p2 r2 m2 where r2: "set_all f p' vs (rc OR r) m' = Some (p2, r2, m2)" "bv_ok p2" "iSize p2 = s"
      "r2 \<in> {0, 7}" "bv_set p2 \<subseteq> bv_set p' \<union> (set vs - {0})"
      "r2 = 0 \<longrightarrow> rc OR r = 0 \<and> bv_set p2 = bv_set p' \<union> (set vs - {0})"
      "rc OR r = 0 \<and> False \<notin> set m' \<longrightarrow> r2 = 0 \<and> False \<notin> set m2"
      using Cons.IH [OF r(2) s r(4) vs or(1), of m'] by (elim exE conjE) (rule that; assumption)
    have "set_all f p (v # vs) rc m = Some (p2, r2, m2)" using False r(1) r2(1) by simp
    then show ?thesis
    proof (intro exI conjI)
      show "bv_set p2 \<subseteq> bv_set p \<union> (set (v # vs) - {0})" using r(6) r2(5) False by auto
      show "r2 = 0 \<longrightarrow> rc = 0 \<and> bv_set p2 = bv_set p \<union> (set (v # vs) - {0})"
        using r(7) r2(6) or(2) False by auto
      show "rc = 0 \<and> False \<notin> set m \<longrightarrow> r2 = 0 \<and> False \<notin> set m2"
        using r(8) r2(7) or(2) by blast
    qed (use r2 in auto)
  qed
qed auto

lemma hash_rehash:
  assumes rec: "sets_trees (iSize p) f"
    and p: "bv_ok p" "iSize p > 3968" "iDivisor p = 0" "0 < i" "i \<le> iSize p"
    and k: "free_slot 124 (aHash p) (BITVEC_HASH (i - 1)) = Some k"
  shows "nSet p < 123 \<Longrightarrow> set_post p i m (Some (bitvec_set_end p i k, 0, m))"
    "set_post p i m (bitvec_set_rehash f p i k m)"
proof -
  obtain s n bm hs subs where P: "p = Bitvec s n 0 bm hs subs"
    using p(3) by (cases p) auto
  have hs: "hash_ok s hs" "n = used hs" and s: "s > 3968" using p P by (auto elim: bv_okE)
  note mem = hash_bv_set [OF s hs(1), of n bm subs, folded P]
  show end': "set_post p i m (Some (bitvec_set_end p i k, 0, m))" if n: "nSet p < 123"
  proof -
    have i: "0 < i" "i \<le> s" "used hs < 123" and k': "free_slot 124 hs (BITVEC_HASH (i - 1)) = Some k"
      using p k n hs P by auto
    note ins = hash_ok_insert [OF hs(1) i k']
    have e: "bitvec_set_end p i k = Bitvec s (n + 1) 0 bm (hs[k := i]) subs"
      by (simp add: bitvec_set_end_def P)
    have "bv_ok (bitvec_set_end p i k)"
      unfolding e by (rule bv_ok.hash) (use s ins hs in auto)
    moreover have "bv_set (bitvec_set_end p i k) = insert i (bv_set p)"
      unfolding e hash_bv_set [OF s ins(1)] ins(2) mem by simp
    ultimately show ?thesis by (simp add: set_post_def bitvec_set_end_def P)
  qed
  obtain ok m1 where m1: "sqlite3_malloc m = (ok, m1)" by (rule prod.exhaust)
  have m1': "False \<notin> set m \<Longrightarrow> ok \<and> False \<notin> set m1"
    using m1 by (auto simp: sqlite3_malloc_def split: list.splits)
  show "set_post p i m (bitvec_set_rehash f p i k m)"
  proof (cases "nSet p \<ge> 62 \<and> ok")
    case False
    then show ?thesis using end' m1 m1' p(1) by (auto simp: bitvec_set_rehash_def set_post_def)
  next
    case True
    have D: "bv_ok (divided p)" "iSize (divided p) = s" "iDivisor (divided p) \<noteq> 0" "bv_set (divided p) = {}"
      using divided_set [OF p(1,2)] P s by (auto simp: bv_set_def divided_def)
    have "set_post (divided p) i m1 (f (divided p) i m1)" using D p P by (intro sets_treesD [OF rec]) auto
    then obtain q r m2 where q: "f (divided p) i m1 = Some (q, r, m2)" "bv_ok q" "iSize q = s"
      "iDivisor q \<noteq> 0" "r \<in> {0, 7}" "bv_set q \<subseteq> {i}" "r = 0 \<longrightarrow> bv_set q = {i}"
      "False \<notin> set m1 \<longrightarrow> r = 0 \<and> False \<notin> set m2"
      using D by (auto simp: set_post_def)
    have le: "\<forall>v \<in> set hs. v \<le> s" using hs by (simp add: hash_ok_def)
    obtain p2 r2 m3 where r2: "set_all f q hs r m2 = Some (p2, r2, m3)" "bv_ok p2" "iSize p2 = s"
      "r2 \<in> {0, 7}" "bv_set p2 \<subseteq> bv_set q \<union> (set hs - {0})"
      "r2 = 0 \<longrightarrow> r = 0 \<and> bv_set p2 = bv_set q \<union> (set hs - {0})"
      "r = 0 \<and> False \<notin> set m2 \<longrightarrow> r2 = 0 \<and> False \<notin> set m3"
      using set_all_ok [OF rec [unfolded P bitvec.sel] q(2,3,4) le q(5), of m2]
      by (elim exE conjE) (rule that; assumption)
    have e: "bitvec_set_rehash f p i k m = Some (p2, r2, m3)"
      using True m1 q(1) r2(1) by (simp add: bitvec_set_rehash_def P)
    show ?thesis unfolding set_post_def e
    proof (intro exI conjI)
      show "bv_set p2 \<subseteq> insert i (bv_set p)" unfolding mem using r2(5) q(6) by auto
      show "r2 = 0 \<longrightarrow> bv_set p2 = insert i (bv_set p)" unfolding mem using r2(6) q(7) by auto
      show "False \<notin> set m \<longrightarrow> r2 = 0 \<and> False \<notin> set m3" using m1' q(8) r2(7) by blast
    qed (use r2 P in auto)
  qed
qed

lemma set_hash:
  assumes rec: "sets_trees (iSize p) f"
    and p: "bv_ok p" "iSize p > 3968" "iDivisor p = 0" "0 < i" "i \<le> iSize p"
  shows "set_post p i m (hash_set f p i m)"
proof -
  obtain s n bm hs subs where P: "p = Bitvec s n 0 bm hs subs"
    using p(3) by (cases p) auto
  have hs: "hash_ok s hs" "n = used hs" and s: "s > 3968" using p P by (auto elim: bv_okE)
  let ?h = "BITVEC_HASH (i - 1)"
  have h: "?h < 124" by (simp add: BITVEC_HASH_def)
  show ?thesis
  proof (cases "hs ! ?h = 0")
    case True
    then have "free_slot 124 hs ?h = Some ?h" by (simp add: numeral_eq_Suc)
    then have k: "free_slot 124 (aHash p) ?h = Some ?h" using P by simp
    have "hash_set f p i m = (if nSet p < 123 then Some (bitvec_set_end p i ?h, 0, m) else bitvec_set_rehash f p i ?h m)"
      using True by (simp add: hash_set_def P Let_def)
    then show ?thesis using hash_rehash [OF rec p k, of m] by simp
  next
    case False
    have "hash_probe 124 hs ?h i \<noteq> None" using hs h by (intro probe_Some) (auto simp: hash_ok_def)
    then consider "hash_probe 124 hs ?h i = Some Found" | k where "hash_probe 124 hs ?h i = Some (Free k)"
      by (metis option.exhaust probe.exhaust)
    then show ?thesis
    proof cases
      case 1
      then have "i \<in> bv_set p" unfolding P hash_bv_set [OF s hs(1)]
        using hash_probe_iff [OF hs(1), of i] p(4) by simp
      then show ?thesis using 1 False p(1) by (auto simp: hash_set_def P Let_def set_post_def)
    next
      case 2
      have k: "free_slot 124 (aHash p) ?h = Some k" using probe_Free_slot [OF 2 h] P by simp
      show ?thesis using hash_rehash(2) [OF rec p k, of m] False 2 by (simp add: hash_set_def P Let_def)
    qed
  qed
qed

text \<open>The depth of the recursion: a level of the tree divides the size by 62, and takes two
  calls, the one that finds the hash table full and the one that enters the sub-vector.\<close>

lemma set_tree:
  assumes rec: "\<And>q j m. bv_ok q \<Longrightarrow> iSize q = iDivisor p \<Longrightarrow> 0 < j \<Longrightarrow> j \<le> iSize q \<Longrightarrow> set_post q j m (bitvec_set n q j m)"
    and p: "bv_ok p" "iSize p > 3968" "iDivisor p \<noteq> 0" "0 < i" "i \<le> iSize p"
  shows "set_post p i m (bitvec_set (Suc n) p i m)"
proof -
  obtain s n' d bm hs subs where P: "p = Bitvec s n' d bm hs subs" by (cases p)
  have d0: "d \<noteq> 0" and ok: "bv_ok (Bitvec s n' d bm hs subs)" and i: "0 < i" "i \<le> s" using p P by auto
  from ok d0 have len: "length subs = 62" and d: "d = (s + 61) div 62" and s: "s > 3968"
    and sub: "\<And>q. Some q \<in> set subs \<Longrightarrow> bv_ok q \<and> iSize q = d" by (auto elim: bv_okE)
  let ?b = "(i - 1) div d" and ?j = "(i - 1) mod d + 1"
  have b: "?b < length subs" using bin_bound [of s "i - 1"] s i d len by simp
  have j: "0 < ?j" "?j \<le> d" using d0 by (simp_all add: Suc_le_eq)
  have mem_i: "{k. 0 < k \<and> k \<le> s \<and> (if (k - 1) div d = ?b then (k - 1) mod d + 1 \<in> insert ?j (A k) else k \<in> B)} =
      insert i {k. 0 < k \<and> k \<le> s \<and> (if (k - 1) div d = ?b then (k - 1) mod d + 1 \<in> A k else k \<in> B)}" for A :: "nat \<Rightarrow> nat set" and B
    using i same_cell [of _ i d] by auto
  have old: "bv_set p = {k. 0 < k \<and> k \<le> s \<and> (if (k - 1) div d = ?b then (k - 1) mod d + 1 \<in>
      (case subs ! ?b of None \<Rightarrow> {} | Some q \<Rightarrow> bv_set q) else k \<in> bv_set p)}"
    unfolding P tree_bv_set [OF ok d0] by (auto split: option.splits)
  obtain qo m1 where q1: "(case subs ! ?b of None \<Rightarrow> sqlite3BitvecCreate d m | Some q \<Rightarrow> (Some q, m)) = (qo, m1)"
    by (rule prod.exhaust)
  have m1: "False \<notin> set m \<Longrightarrow> qo \<noteq> None \<and> False \<notin> set m1"
    using q1 by (cases "subs ! ?b") (auto simp: sqlite3BitvecCreate_def sqlite3_malloc_def split: list.splits, metis)
  show ?thesis
  proof (cases qo)
    case None
    then have "bitvec_set (Suc n) p i m = Some (p, 7, m1)" using p(2,3) P b q1 by (cases "subs ! ?b") (auto simp: Let_def)
    then show ?thesis using p(1) m1 None by (auto simp: set_post_def)
  next
    case (Some q)
    have q: "bv_ok q" "iSize q = d" "bv_set q = (case subs ! ?b of None \<Rightarrow> {} | Some q \<Rightarrow> bv_set q)"
      using q1 Some sub b bv_ok_new bv_set_new
      by (auto simp: sqlite3BitvecCreate_def split: option.splits prod.splits if_splits) (metis nth_mem)+
    have "set_post q ?j m1 (bitvec_set n q ?j m1)" using q j P by (intro rec) auto
    then obtain q' rc m2 where r: "bitvec_set n q ?j m1 = Some (q', rc, m2)" "bv_ok q'" "iSize q' = d"
      "rc \<in> {0, 7}" "bv_set q' \<subseteq> insert ?j (bv_set q)" "rc = 0 \<longrightarrow> bv_set q' = insert ?j (bv_set q)"
      "False \<notin> set m1 \<longrightarrow> rc = 0 \<and> False \<notin> set m2"
      unfolding set_post_def q(2) by (elim exE conjE) (rule that; assumption)
    let ?p = "Bitvec s n' d bm hs (subs[?b := Some q'])"
    have e: "bitvec_set (Suc n) p i m = Some (?p, rc, m2)"
      using p(2,3) P b q1 Some r(1) by (cases "subs ! ?b") (auto simp: Let_def)
    note up = tree_update [OF ok d0 i r(2,3)]
    have up2: "bv_set ?p = {k. 0 < k \<and> k \<le> s \<and> (if (k - 1) div d = ?b then (k - 1) mod d + 1 \<in> bv_set q' else k \<in> bv_set p)}"
      unfolding up(2) P ..
    have new: "insert i (bv_set p) = {k. 0 < k \<and> k \<le> s \<and> (if (k - 1) div d = ?b then (k - 1) mod d + 1 \<in> insert ?j (bv_set q) else k \<in> bv_set p)}"
      unfolding mem_i q(3) using old by simp
    show ?thesis unfolding set_post_def e
    proof (intro exI conjI)
      show "bv_set ?p \<subseteq> insert i (bv_set p)" unfolding up2 new using r(5) by auto
      show "rc = 0 \<longrightarrow> bv_set ?p = insert i (bv_set p)" unfolding up2 new using r(6) by simp
      show "False \<notin> set m \<longrightarrow> rc = 0 \<and> False \<notin> set m2" using m1 r(7) by blast
    qed (use r up P in auto)
  qed
qed

lemma set_fuel:
  "iSize p \<le> 3968 * 62 ^ k \<Longrightarrow> 2 * k + 1 \<le> n \<Longrightarrow> bv_ok p \<Longrightarrow> 0 < i \<Longrightarrow> i \<le> iSize p \<Longrightarrow>
   set_post p i m (bitvec_set n p i m)"
proof (induction k arbitrary: p i m n)
  case 0
  obtain n' where "n = Suc n'" using 0(2) by (cases n) auto
  then show ?case using set_bitmap [of p i m n'] 0 by simp
next
  case (Suc k)
  have tree: "set_post q j m (bitvec_set n q j m)"
    if q: "bv_ok q" "iSize q > 3968" "iDivisor q \<noteq> 0" "0 < j" "j \<le> iSize q" "iSize q \<le> 3968 * 62 ^ Suc k" and n: "2 * k + 2 \<le> n"
    for q j m n
  proof -
    obtain n' where n': "n = Suc n'" "2 * k + 1 \<le> n'" using n by (cases n) auto
    have "iDivisor q = (iSize q + 61) div 62" using q(1-3) by (auto elim: bv_ok.cases)
    moreover have "(iSize q + 61) div 62 < Suc (3968 * 62 ^ k)"
      by (rule less_mult_imp_div_less) (use q(6) in simp)
    ultimately have d: "iDivisor q \<le> 3968 * 62 ^ k" by simp
    show ?thesis unfolding n'(1)
      by (rule set_tree [OF _ q(1-5)], rule Suc.IH) (use d n' in auto)
  qed
  obtain n' where n': "n = Suc n'" "2 * k + 2 \<le> n'" using Suc.prems(2) by (cases n) auto
  consider "iSize p \<le> 3968" | "iSize p > 3968" "iDivisor p \<noteq> 0" | "iSize p > 3968" "iDivisor p = 0" by linarith
  then show ?case
  proof cases
    case 1 then show ?thesis using set_bitmap [of p i m n'] Suc.prems n' by simp
  next
    case 2 then show ?thesis using Suc.prems by (intro tree) auto
  next
    case 3
    have "sets_trees (iSize p) (bitvec_set n')"
      unfolding sets_trees_def by (intro allI impI tree) (use 3 Suc.prems n' in auto)
    then have "set_post p i m (hash_set (bitvec_set n') p i m)"
      by (rule set_hash) (use 3 Suc.prems in auto)
    then show ?thesis using 3 n' by simp
  qed
qed

section \<open>Clearing a bit removes it\<close>

lemma bitmap_clear_bit: "k < 8 \<Longrightarrow> j < 8 \<Longrightarrow> bit ((b :: u8) AND NOT (2 ^ k)) j = (bit b j \<and> j \<noteq> k)"
  by (auto simp: bit_simps)

lemma bitvec_clear_ok:
  assumes "bv_ok p" "0 < i" "i \<le> iSize p"
  shows "\<exists>p'. bitvec_clear p (i - 1) = Some p' \<and> bv_ok p' \<and> iSize p' = iSize p \<and> bv_set p' = bv_set p - {i}"
  using assms
proof (induction arbitrary: i)
  case (bitmap s bm n hs subs)
  have b: "(i - 1) div 8 < length bm" using bitmap by auto
  let ?q = "Bitvec s n 0 (bm[(i - 1) div 8 := bm ! ((i - 1) div 8) AND NOT (push_bit ((i - 1) mod 8) 1)]) hs subs"
  have "bitvec_clear (Bitvec s n 0 bm hs subs) (i - 1) = Some ?q"
    using bitmap b by (subst bitvec_clear.simps) (simp add: rd_def)
  moreover have "bv_ok ?q" using bitmap by (intro bv_ok.bitmap) auto
  moreover have "bv_set ?q = bv_set (Bitvec s n 0 bm hs subs) - {i}"
    unfolding bitmap_bv_set [OF bitmap(1)] using b bitmap.prems same_cell [of _ i 8]
    by (auto simp: nth_list_update bitmap_clear_bit)
  ultimately show ?case by simp
next
  case (hash s hs n bm subs)
  obtain hs' n' where h: "hash_rebuild hs (i - 1) (replicate 124 0) 0 = Some (hs', n')" "hash_ok s hs'"
    "n' = used hs'" "set hs' - {0} = (set (replicate 124 0) - {0}) \<union> (set hs - {0, i - 1 + 1})"
    using hash_rebuild_ok [OF hash_ok_empty, of hs s 0 "i - 1"] hash.hyps
    by (auto simp: hash_ok_def used_def filter_empty_conv)
  have "bitvec_clear (Bitvec s n 0 bm hs subs) (i - 1) = Some (Bitvec s n' 0 bm hs' subs)"
    using hash.hyps(1) h(1) by (subst bitvec_clear.simps) simp
  moreover have "bv_ok (Bitvec s n' 0 bm hs' subs)" using hash h by (intro bv_ok.hash) auto
  moreover have "bv_set (Bitvec s n' 0 bm hs' subs) = bv_set (Bitvec s n 0 bm hs subs) - {i}"
    unfolding hash_bv_set [OF hash.hyps(1) h(2)] hash_bv_set [OF hash.hyps(1,2)] h(4) using hash.prems by auto
  ultimately show ?case by simp
next
  case (tree s subs d n bm hs)
  then have ok: "bv_ok (Bitvec s n d bm hs subs)" and d: "d \<noteq> 0" and i: "0 < i" "i \<le> s"
    by (auto intro: bv_ok.tree)
  let ?b = "(i - 1) div d" and ?j = "(i - 1) mod d + 1"
  have b: "?b < length subs" using bin_bound [of s "i - 1"] tree by simp
  show ?case
  proof (cases "subs ! ?b")
    case None
    then have "bitvec_clear (Bitvec s n d bm hs subs) (i - 1) = Some (Bitvec s n d bm hs subs)"
      using b d by (subst bitvec_clear.simps) (simp add: Let_def)
    moreover have "i \<notin> bv_set (Bitvec s n d bm hs subs)" unfolding tree_bv_set [OF ok d] using None by simp
    ultimately show ?thesis using ok by simp
  next
    case (Some q)
    have "Some q \<in> set subs" using Some b by (metis nth_mem)
    then have q: "iSize q = d" and IH: "\<And>i. 0 < i \<Longrightarrow> i \<le> d \<Longrightarrow>
        \<exists>p'. bitvec_clear q (i - 1) = Some p' \<and> bv_ok p' \<and> iSize p' = d \<and> bv_set p' = bv_set q - {i}"
      using tree.IH by auto
    have "0 < ?j" "?j \<le> d" using d by (simp_all add: Suc_le_eq)
    then obtain q' where q': "bitvec_clear q ((i - 1) mod d) = Some q'" "bv_ok q'" "iSize q' = d"
      "bv_set q' = bv_set q - {?j}" using IH [of ?j] by auto
    have "bitvec_clear (Bitvec s n d bm hs subs) (i - 1) = Some (Bitvec s n d bm hs (subs[?b := Some q']))"
      using b d Some q'(1) by (subst bitvec_clear.simps) (simp add: Let_def)
    moreover note up = tree_update [OF ok d i q'(2,3)]
    have "bv_set (Bitvec s n d bm hs (subs[?b := Some q'])) = bv_set (Bitvec s n d bm hs subs) - {i}"
      unfolding up(2) q'(4) tree_bv_set [OF ok d] using Some i same_cell [of _ i d] by auto
    ultimately show ?thesis using up(1) by simp
  qed
qed

section \<open>Sets of page numbers\<close>

text \<open>What the users of bit vectors rely on: a set of numbers up to a size, whose membership
  test always answers, and whose insertion either succeeds or fails for want of memory, in
  which case it may forget members but never invents one.\<close>

locale page_set =
  fixes ok :: "'s \<Rightarrow> bool" and limit :: "'s \<Rightarrow> nat" and elems :: "'s \<Rightarrow> nat set"
    and test :: "'s \<Rightarrow> nat \<Rightarrow> bool option"
    and add :: "'s \<Rightarrow> nat \<Rightarrow> allocator \<Rightarrow> ('s \<times> nat \<times> allocator) option"
  assumes test_elems: "ok s \<Longrightarrow> test s i = Some (i \<in> elems s)"
    and add_elems: "ok s \<Longrightarrow> 0 < i \<Longrightarrow> i \<le> limit s \<Longrightarrow> \<exists>s' rc m'. add s i m = Some (s', rc, m') \<and>
      ok s' \<and> limit s' = limit s \<and> rc \<in> {0, SQLITE_NOMEM} \<and> elems s' \<subseteq> insert i (elems s) \<and>
      (rc = 0 \<longrightarrow> elems s' = insert i (elems s)) \<and> (False \<notin> set m \<longrightarrow> rc = 0 \<and> False \<notin> set m')"
begin

lemma add_ok:
  assumes "ok s" "0 < i" "i \<le> limit s" "add s i m = Some (s', rc, m')"
  shows "ok s'" "limit s' = limit s" "rc \<in> {0, SQLITE_NOMEM}"
  using add_elems [OF assms(1-3), of m] assms(4) by auto

lemma test_add:
  assumes "ok s" "0 < i" "i \<le> limit s" "add s i m = Some (s', 0, m')"
  shows "test s' j = Some (j = i \<or> test s j = Some True)"
  using add_elems [OF assms(1-3), of m] assms(1,4) by (auto simp: test_elems)

lemma test_add_False:
  assumes "ok s" "0 < i" "i \<le> limit s" "add s i m = Some (s', rc, m')" "j \<noteq> i" "test s j = Some False"
  shows "test s' j = Some False"
  using add_elems [OF assms(1-3), of m] assms(1,4-) by (auto simp: test_elems)

lemma add_total:
  assumes "ok s" "0 < i" "i \<le> limit s"
  shows "\<exists>s' rc m'. add s i m = Some (s', rc, m') \<and> (False \<notin> set m \<longrightarrow> rc = 0 \<and> False \<notin> set m')"
  using add_elems [OF assms, of m] by auto

end

definition vec_ok :: "bitvec option \<Rightarrow> bool" where
  "vec_ok v \<longleftrightarrow> (case v of None \<Rightarrow> False | Some p \<Rightarrow> bv_ok p \<and> iSize p < 2 ^ 32)"

definition vec_set :: "bitvec option \<Rightarrow> nat set" where
  "vec_set v = (case v of None \<Rightarrow> {} | Some p \<Rightarrow> bv_set p)"

lemma Set_elems:
  assumes "bv_ok p" "iSize p < 2 ^ 32" "0 < i" "i \<le> iSize p"
  shows "\<exists>p' rc m'. sqlite3BitvecSet (Some p) i m = Some (Some p', rc, m') \<and> bv_ok p' \<and> iSize p' = iSize p \<and>
    rc \<in> {0, SQLITE_NOMEM} \<and> bv_set p' \<subseteq> insert i (bv_set p) \<and>
    (rc = 0 \<longrightarrow> bv_set p' = insert i (bv_set p)) \<and> (False \<notin> set m \<longrightarrow> rc = 0 \<and> False \<notin> set m')"
proof -
  have "set_post p i m (bitvec_set 9 p i m)" by (rule set_fuel [of _ 4]) (use assms in auto)
  then show ?thesis unfolding set_post_def sqlite3BitvecSet_def by force
qed

lemma Test_elems: "bv_ok p \<Longrightarrow> sqlite3BitvecTest (Some p) i = Some (i \<in> bv_set p)"
  by (auto simp: sqlite3BitvecTest_def bv_set_def lookup_in_bv)

interpretation vec: page_set vec_ok "\<lambda>v. case v of None \<Rightarrow> 0 | Some p \<Rightarrow> iSize p" vec_set sqlite3BitvecTest
  sqlite3BitvecSet
proof
  fix v i assume "vec_ok v"
  then show "sqlite3BitvecTest v i = Some (i \<in> vec_set v)"
    by (auto simp: vec_ok_def vec_set_def Test_elems split: option.splits)
next
  fix v i m
  assume "vec_ok v" "0 < i" "i \<le> (case v of None \<Rightarrow> 0 | Some p \<Rightarrow> iSize p)"
  then obtain p where p: "v = Some p" "bv_ok p" "iSize p < 2 ^ 32" "0 < i" "i \<le> iSize p"
    by (auto simp: vec_ok_def split: option.splits)
  show "\<exists>s' rc m'. sqlite3BitvecSet v i m = Some (s', rc, m') \<and> vec_ok s' \<and>
      (case s' of None \<Rightarrow> 0 | Some p \<Rightarrow> iSize p) = (case v of None \<Rightarrow> 0 | Some p \<Rightarrow> iSize p) \<and> rc \<in> {0, SQLITE_NOMEM} \<and>
      vec_set s' \<subseteq> insert i (vec_set v) \<and> (rc = 0 \<longrightarrow> vec_set s' = insert i (vec_set v)) \<and>
      (False \<notin> set m \<longrightarrow> rc = 0 \<and> False \<notin> set m')"
    using Set_elems [OF p(2-), of m] p(1,3) by (fastforce simp: vec_ok_def vec_set_def)
qed

section \<open>Properties\<close>

text \<open>C11. A bit vector is a set. Creating one gives the empty set; setting a bit of a
  well-formed vector of any 32-bit size always returns, keeps it well formed, adds exactly
  that bit when it reports success and loses bits but invents none when it reports that
  memory ran out, which it does not while the allocator answers; whether the vector is a
  bitmap, a hash table, a table that this insertion splits, or a tree.\<close>

theorem sqlite3BitvecSet_refines:
  assumes "bv_ok p" "iSize p < 2 ^ 32" "0 < i" "i \<le> iSize p"
  shows "\<exists>p' rc m'. sqlite3BitvecSet (Some p) i m = Some (Some p', rc, m') \<and> bv_ok p' \<and> iSize p' = iSize p \<and>
    rc \<in> {0, SQLITE_NOMEM} \<and> bv_set p' \<subseteq> insert i (bv_set p) \<and>
    (rc = 0 \<longrightarrow> bv_set p' = insert i (bv_set p)) \<and> (False \<notin> set m \<longrightarrow> rc = 0 \<and> False \<notin> set m') \<and>
    bv_ok (bitvec_new (iSize p)) \<and> bv_set (bitvec_new (iSize p)) = {}"
  using Set_elems [OF assms, of m] by (simp only: bv_ok_new bv_set_new simp_thms)

lemma sqlite3BitvecSet_refines_witness:
  "\<exists>p' rc m'. sqlite3BitvecSet (Some (bitvec_new 5000)) 4000 [False] = Some (Some p', rc, m') \<and>
    rc \<in> {0, SQLITE_NOMEM} \<and> (rc = 0 \<longrightarrow> bv_set p' = {4000})"
proof -
  have "bv_ok (bitvec_new 5000)" "iSize (bitvec_new 5000) < 2 ^ 32" "(0 :: nat) < 4000" "4000 \<le> iSize (bitvec_new 5000)"
    by (simp_all add: bv_ok_new)
  from sqlite3BitvecSet_refines [OF this, of "[False]"] show ?thesis
    unfolding bv_set_new by (elim exE conjE) (intro exI conjI; assumption)
qed

text \<open>C22. Clearing a bit of a well-formed vector always returns: the loop that rebuilds the
  hash table finds a free slot for every value it keeps. After it, the membership test
  answers for every number as before, but for the cleared one, which is gone.\<close>

theorem sqlite3BitvecClear_removes:
  assumes "bv_ok p" "0 < i" "i \<le> iSize p"
  shows "\<exists>p'. sqlite3BitvecClear (Some p) i = Some (Some p') \<and> bv_ok p' \<and> sqlite3BitvecSize p' = sqlite3BitvecSize p \<and>
    (\<forall>j. sqlite3BitvecTest (Some p) j = Some (j \<in> bv_set p)) \<and>
    (\<forall>j. sqlite3BitvecTest (Some p') j = Some (j \<noteq> i \<and> j \<in> bv_set p))"
proof -
  obtain p' where p': "bitvec_clear p (i - 1) = Some p'" "bv_ok p'" "iSize p' = iSize p" "bv_set p' = bv_set p - {i}"
    using bitvec_clear_ok [OF assms] by blast
  show ?thesis
  proof (intro exI conjI allI)
    show "sqlite3BitvecClear (Some p) i = Some (Some p')" using p' by (simp add: sqlite3BitvecClear_def)
    show "sqlite3BitvecSize p' = sqlite3BitvecSize p" using p' by (simp add: sqlite3BitvecSize_def)
    show "sqlite3BitvecTest (Some p) j = Some (j \<in> bv_set p)" for j using Test_elems [OF assms(1)] .
    show "sqlite3BitvecTest (Some p') j = Some (j \<noteq> i \<and> j \<in> bv_set p)" for j
      using Test_elems [OF p'(2), of j] unfolding p'(4) by auto
  qed (rule p'(2))
qed

lemma sqlite3BitvecClear_removes_witness:
  "\<exists>p'. sqlite3BitvecClear (Some (bitvec_new 5000)) 7 = Some (Some p') \<and>
    sqlite3BitvecTest (Some p') 7 = Some False"
  using sqlite3BitvecClear_removes [of "bitvec_new 5000" 7] by (auto simp: bv_ok_new)

end
