(* ===== verification/PageSets.thy ===== *)
theory PageSets
  imports Bitvec
begin

text \<open>
  Two users of bit vectors: the savepoints of the pager, each with the set of pages it has a
  copy of (\<^verbatim>\<open>src/sqlite/src/pager.c\<close>), and the set of pages that became free-list leaves within
  a transaction of the B-tree (\<^verbatim>\<open>src/sqlite/src/btree.c\<close>). Both work with the laws of the
  locale \<^verbatim>\<open>page_set\<close> only.
\<close>

section \<open>The savepoints of the pager\<close>

text \<open>A savepoint keeps the pages it has a copy of, among the pages the database had when it
  was opened (\<^verbatim>\<open>src/sqlite/src/pager.c\<close>).\<close>

record PagerSavepoint =
  nOrig :: nat
  pInSavepoint :: "bitvec option"

fun subjRequiresPage :: "PagerSavepoint list \<Rightarrow> nat \<Rightarrow> bool option" where
  "subjRequiresPage [] pgno = Some False"
| "subjRequiresPage (p # aSavepoint) pgno =
     (if nOrig p \<ge> pgno then do {
        b \<leftarrow> sqlite3BitvecTest (pInSavepoint p) pgno;
        if \<not> b then Some True else subjRequiresPage aSavepoint pgno }
      else subjRequiresPage aSavepoint pgno)"

fun addToSavepointBitvecs :: "PagerSavepoint list \<Rightarrow> nat \<Rightarrow> nat \<Rightarrow> allocator \<Rightarrow> (PagerSavepoint list \<times> nat \<times> allocator) option" where
  "addToSavepointBitvecs [] pgno rc m = Some ([], rc, m)"
| "addToSavepointBitvecs (p # aSavepoint) pgno rc m =
     (if pgno \<le> nOrig p then do {
        (v, rc', m) \<leftarrow> sqlite3BitvecSet (pInSavepoint p) pgno m;
        (ps, rc, m) \<leftarrow> addToSavepointBitvecs aSavepoint pgno (rc OR rc') m;
        Some (p\<lparr>pInSavepoint := v\<rparr> # ps, rc, m) }
      else do {
        (ps, rc, m) \<leftarrow> addToSavepointBitvecs aSavepoint pgno rc m;
        Some (p # ps, rc, m) })"

section \<open>Pages with content, in the B-tree\<close>

text \<open>The vector of pages that became free-list leaves within the transaction
  (\<^verbatim>\<open>src/sqlite/src/btree.c\<close>).\<close>

record BtContent =
  nPage :: nat
  pHasContent :: "bitvec option"

definition btreeSetHasContent :: "BtContent \<Rightarrow> nat \<Rightarrow> allocator \<Rightarrow> (BtContent \<times> nat \<times> allocator) option" where
  "btreeSetHasContent pBt pgno m =
     (let (pBt, rc, m) =
        (if pHasContent pBt = None then
           (case sqlite3BitvecCreate (nPage pBt) m of (v, m) \<Rightarrow>
              (pBt\<lparr>pHasContent := v\<rparr>, if v = None then SQLITE_NOMEM else 0, m))
         else (pBt, 0, m))
      in if rc = 0 \<and> pgno \<le> (case pHasContent pBt of None \<Rightarrow> 0 | Some p \<Rightarrow> sqlite3BitvecSize p) then do {
           (v, rc, m) \<leftarrow> sqlite3BitvecSet (pHasContent pBt) pgno m;
           Some (pBt\<lparr>pHasContent := v\<rparr>, rc, m) }
         else Some (pBt, rc, m))"

definition btreeGetHasContent :: "BtContent \<Rightarrow> nat \<Rightarrow> bool option" where
  "btreeGetHasContent pBt pgno =
     (case pHasContent pBt of
        None \<Rightarrow> Some False
      | Some p \<Rightarrow> if pgno > sqlite3BitvecSize p then Some True else sqlite3BitvecTest (Some p) pgno)"

definition btreeClearHasContent :: "BtContent \<Rightarrow> BtContent" where
  "btreeClearHasContent pBt = pBt\<lparr>pHasContent := None\<rparr>"

section \<open>Correctness of the savepoints\<close>

definition saves_ok :: "PagerSavepoint list \<Rightarrow> bool" where
  "saves_ok ps \<longleftrightarrow> (\<forall>p \<in> set ps. \<exists>v. pInSavepoint p = Some v \<and> bv_ok v \<and> iSize v < 2 ^ 32 \<and> iSize v = nOrig p)"

lemma saves_ok_Cons:
  "saves_ok (p # ps) \<longleftrightarrow> (\<exists>v. pInSavepoint p = Some v \<and> vec_ok (Some v) \<and> iSize v = nOrig p) \<and> saves_ok ps"
  by (auto simp: saves_ok_def vec_ok_def)

lemma requires_total: "saves_ok ps \<Longrightarrow> \<exists>b. subjRequiresPage ps j = Some b"
  by (induction ps) (auto simp: saves_ok_Cons vec.test_elems)

lemma requires_Cons:
  assumes "saves_ok (p # ps)"
  shows "subjRequiresPage (p # ps) j = Some True \<longleftrightarrow>
    j \<le> nOrig p \<and> sqlite3BitvecTest (pInSavepoint p) j = Some False \<or> subjRequiresPage ps j = Some True"
  using assms by (auto simp: saves_ok_Cons vec.test_elems)

lemma addToSavepointBitvecs_spec:
  assumes "saves_ok ps" "0 < pgno" "rc \<in> {0, SQLITE_NOMEM}"
  shows "\<exists>ps' rc' m'. addToSavepointBitvecs ps pgno rc m = Some (ps', rc', m') \<and> saves_ok ps' \<and>
    rc' \<in> {0, SQLITE_NOMEM} \<and> (rc' = 0 \<longrightarrow> rc = 0) \<and>
    (\<forall>j. j \<noteq> pgno \<longrightarrow> subjRequiresPage ps j = Some True \<longrightarrow> subjRequiresPage ps' j = Some True) \<and>
    (rc' = 0 \<longrightarrow> (\<forall>j. subjRequiresPage ps' j = Some True \<longleftrightarrow> j \<noteq> pgno \<and> subjRequiresPage ps j = Some True))"
  using assms
proof (induction ps arbitrary: rc m)
  case (Cons p ps)
  then obtain v where v: "pInSavepoint p = Some v" "vec_ok (Some v)" "iSize v = nOrig p" and ps: "saves_ok ps"
    by (auto simp: saves_ok_Cons)
  show ?case
  proof (cases "pgno \<le> nOrig p")
    case False
    obtain ps' rc' m' where r: "addToSavepointBitvecs ps pgno rc m = Some (ps', rc', m')" "saves_ok ps'"
      "rc' \<in> {0, SQLITE_NOMEM}" "rc' = 0 \<longrightarrow> rc = 0"
      "\<forall>j. j \<noteq> pgno \<longrightarrow> subjRequiresPage ps j = Some True \<longrightarrow> subjRequiresPage ps' j = Some True"
      "rc' = 0 \<longrightarrow> (\<forall>j. subjRequiresPage ps' j = Some True \<longleftrightarrow> j \<noteq> pgno \<and> subjRequiresPage ps j = Some True)"
      using Cons.IH [OF ps Cons.prems(2,3), of m] by (elim exE conjE) (rule that; assumption)
    have ok: "saves_ok (p # ps')" using r(2) v by (auto simp: saves_ok_Cons)
    have e: "addToSavepointBitvecs (p # ps) pgno rc m = Some (p # ps', rc', m')" using False r(1) by simp
    have c: "subjRequiresPage (p # qs) j = Some True \<longleftrightarrow> j \<noteq> pgno \<and> j \<le> nOrig p \<and>
        sqlite3BitvecTest (Some v) j = Some False \<or> subjRequiresPage qs j = Some True"
      if "saves_ok (p # qs)" for qs j
      using requires_Cons [OF that, of j] False v(1) by auto
    show ?thesis
    proof (intro exI conjI)
      show "addToSavepointBitvecs (p # ps) pgno rc m = Some (p # ps', rc', m')" by (rule e)
      show "\<forall>j. j \<noteq> pgno \<longrightarrow> subjRequiresPage (p # ps) j = Some True \<longrightarrow> subjRequiresPage (p # ps') j = Some True"
        unfolding c [OF ok] c [OF Cons.prems(1)] using r(5) by blast
      show "rc' = 0 \<longrightarrow> (\<forall>j. subjRequiresPage (p # ps') j = Some True \<longleftrightarrow> j \<noteq> pgno \<and> subjRequiresPage (p # ps) j = Some True)"
        unfolding c [OF ok] c [OF Cons.prems(1)] using r(6) by blast
    qed (use ok r(3,4) in blast)+
  next
    case True
    obtain v' r1 m1 where a: "sqlite3BitvecSet (Some v) pgno m = Some (Some v', r1, m1)"
      using Set_elems [of v pgno m] v True Cons.prems(2) by (auto simp: vec_ok_def)
    have lim: "pgno \<le> (case Some v of None \<Rightarrow> 0 | Some p \<Rightarrow> iSize p)" using True v(3) by simp
    note ok1 = vec.add_ok [OF v(2) Cons.prems(2) lim a] and new = vec.test_add [OF v(2) Cons.prems(2) lim]
      and old = vec.test_add_False [OF v(2) Cons.prems(2) lim a]
    have or: "rc OR r1 \<in> {0, 7}" "rc OR r1 = 0 \<longleftrightarrow> rc = 0 \<and> r1 = 0" using Cons.prems(3) ok1(3) by auto
    obtain ps' rc' m' where r: "addToSavepointBitvecs ps pgno (rc OR r1) m1 = Some (ps', rc', m')" "saves_ok ps'"
      "rc' \<in> {0, SQLITE_NOMEM}" "rc' = 0 \<longrightarrow> rc OR r1 = 0"
      "\<forall>j. j \<noteq> pgno \<longrightarrow> subjRequiresPage ps j = Some True \<longrightarrow> subjRequiresPage ps' j = Some True"
      "rc' = 0 \<longrightarrow> (\<forall>j. subjRequiresPage ps' j = Some True \<longleftrightarrow> j \<noteq> pgno \<and> subjRequiresPage ps j = Some True)"
      using Cons.IH [OF ps Cons.prems(2) or(1), of m1] by (elim exE conjE) (rule that; assumption)
    let ?p = "p\<lparr>pInSavepoint := Some v'\<rparr>"
    have ok: "saves_ok (?p # ps')" using r(2) v ok1 by (auto simp: saves_ok_Cons)
    have e: "addToSavepointBitvecs (p # ps) pgno rc m = Some (?p # ps', rc', m')" using True r(1) v(1) a by simp
    have t: "sqlite3BitvecTest (Some v') j = Some False \<longleftrightarrow> j \<noteq> pgno \<and> sqlite3BitvecTest (Some v) j = Some False"
      if "r1 = 0" for j
      using new [of m "Some v'" m1 j] a that v(2) by (auto simp: vec.test_elems)
    have P: "pInSavepoint ?p = Some v'" "nOrig ?p = nOrig p" by simp_all
    have R: "subjRequiresPage (?p # ps') j = Some True \<longleftrightarrow>
        j \<le> nOrig p \<and> sqlite3BitvecTest (Some v') j = Some False \<or> subjRequiresPage ps' j = Some True" for j
      using requires_Cons [OF ok, of j] by simp
    have Q: "subjRequiresPage (p # ps) j = Some True \<longleftrightarrow>
        j \<le> nOrig p \<and> sqlite3BitvecTest (Some v) j = Some False \<or> subjRequiresPage ps j = Some True" for j
      using requires_Cons [OF Cons.prems(1), of j] v(1) by simp
    show ?thesis
    proof (intro exI conjI)
      show "addToSavepointBitvecs (p # ps) pgno rc m = Some (?p # ps', rc', m')" by (rule e)
      show "\<forall>j. j \<noteq> pgno \<longrightarrow> subjRequiresPage (p # ps) j = Some True \<longrightarrow> subjRequiresPage (?p # ps') j = Some True"
        unfolding R Q using r(5) old by blast
      show "rc' = 0 \<longrightarrow> (\<forall>j. subjRequiresPage (?p # ps') j = Some True \<longleftrightarrow> j \<noteq> pgno \<and> subjRequiresPage (p # ps) j = Some True)"
      proof (intro impI allI)
        fix j assume z: "rc' = 0"
        then have "r1 = 0" using r(4) or(2) by blast
        moreover have "subjRequiresPage ps' j = Some True \<longleftrightarrow> j \<noteq> pgno \<and> subjRequiresPage ps j = Some True"
          using r(6) z by blast
        ultimately show "subjRequiresPage (?p # ps') j = Some True \<longleftrightarrow> j \<noteq> pgno \<and> subjRequiresPage (p # ps) j = Some True"
          unfolding R Q using t [of j] by blast
      qed
      show "rc' = 0 \<longrightarrow> rc = 0" using r(4) or(2) by blast
    qed (use ok r(3) in blast)+
  qed
qed auto

section \<open>Properties\<close>

text \<open>C15. Recording a page in the savepoints loses no journalling duty. It always returns;
  when it reports success, exactly the recorded page no longer needs a copy in the
  sub-journal, and when memory runs out, every other page that some savepoint still needs
  is still needed.\<close>

theorem addToSavepointBitvecs_safe:
  assumes "saves_ok ps" "0 < pgno"
  shows "\<exists>ps' rc m'. addToSavepointBitvecs ps pgno 0 m = Some (ps', rc, m') \<and> saves_ok ps' \<and>
    rc \<in> {0, SQLITE_NOMEM} \<and>
    (\<forall>j. j \<noteq> pgno \<longrightarrow> subjRequiresPage ps j = Some True \<longrightarrow> subjRequiresPage ps' j = Some True) \<and>
    (rc = 0 \<longrightarrow> (\<forall>j. subjRequiresPage ps' j = Some True \<longleftrightarrow> j \<noteq> pgno \<and> subjRequiresPage ps j = Some True))"
  using addToSavepointBitvecs_spec [OF assms, of 0 m] by auto

lemma addToSavepointBitvecs_safe_witness:
  "\<exists>ps' rc m'. addToSavepointBitvecs [\<lparr>nOrig = 9, pInSavepoint = Some (bitvec_new 9)\<rparr>,
       \<lparr>nOrig = 5000, pInSavepoint = Some (bitvec_new 5000)\<rparr>] 30 0 [] = Some (ps', rc, m') \<and>
     (rc = 0 \<longrightarrow> subjRequiresPage ps' 30 \<noteq> Some True)"
  using addToSavepointBitvecs_safe [of "[\<lparr>nOrig = 9, pInSavepoint = Some (bitvec_new 9)\<rparr>,
       \<lparr>nOrig = 5000, pInSavepoint = Some (bitvec_new 5000)\<rparr>]" 30 "[]"]
  by (auto simp: saves_ok_def bv_ok_new)

definition content_ok :: "BtContent \<Rightarrow> bool" where
  "content_ok pBt \<longleftrightarrow> nPage pBt < 2 ^ 32 \<and> (\<forall>p. pHasContent pBt = Some p \<longrightarrow> vec_ok (Some p))"

lemma has_content_iff:
  "content_ok pBt \<Longrightarrow> btreeGetHasContent pBt j =
     Some (\<exists>p. pHasContent pBt = Some p \<and> (j > iSize p \<or> sqlite3BitvecTest (Some p) j = Some True))"
  by (auto simp: content_ok_def btreeGetHasContent_def sqlite3BitvecSize_def vec.test_elems split: option.splits)

text \<open>C23. A page that was moved to the free list in this transaction is never fetched
  without its content: once the B-tree has recorded it with success, the question whether
  it has content is answered yes, whatever other pages are recorded later with success, and
  a page past the end of the vector is always taken to have content.\<close>

theorem btreeSetHasContent_safe:
  assumes "content_ok pBt" "0 < pgno" "pgno \<le> nPage pBt"
  shows "\<exists>pBt' rc m'. btreeSetHasContent pBt pgno m = Some (pBt', rc, m') \<and> content_ok pBt' \<and>
    (False \<notin> set m \<longrightarrow> rc = 0) \<and> (rc = 0 \<longrightarrow> btreeGetHasContent pBt' pgno = Some True \<and>
      (\<forall>j. btreeGetHasContent pBt j = Some True \<longrightarrow> btreeGetHasContent pBt' j = Some True)) \<and>
    btreeGetHasContent (btreeClearHasContent pBt') pgno = Some False"
proof -
  obtain v m1 where v: "(if pHasContent pBt = None then sqlite3BitvecCreate (nPage pBt) m
      else (pHasContent pBt, m)) = (v, m1)" by (rule prod.exhaust)
  have m1: "False \<notin> set m \<Longrightarrow> v \<noteq> None \<and> False \<notin> set m1" 
    using v by (auto simp: sqlite3BitvecCreate_def sqlite3_malloc_def split: if_splits list.splits)
  have clear: "btreeGetHasContent (btreeClearHasContent b) pgno = Some False" for b
    by (simp add: btreeGetHasContent_def btreeClearHasContent_def)
  show ?thesis
  proof (cases v)
    case None
    then have "btreeSetHasContent pBt pgno m = Some (pBt\<lparr>pHasContent := None\<rparr>, 7, m1)"
      using v by (auto simp: btreeSetHasContent_def split: if_splits)
    then show ?thesis using m1 None assms(1) clear by (auto simp: content_ok_def)
  next
    case (Some p)
    have p: "vec_ok (Some p)" using v assms(1) Some
      by (auto simp: content_ok_def sqlite3BitvecCreate_def vec_ok_def bv_ok_new split: if_splits prod.splits)
    have old: "btreeGetHasContent pBt j = Some True \<Longrightarrow> j > iSize p \<or> sqlite3BitvecTest (Some p) j = Some True" for j
      using v Some has_content_iff [OF assms(1), of j] by (auto split: if_splits)
    have e: "btreeSetHasContent pBt pgno m = (if pgno \<le> iSize p then do {
        (v, rc, m) \<leftarrow> sqlite3BitvecSet (Some p) pgno m1; Some (pBt\<lparr>pHasContent := v\<rparr>, rc, m) }
      else Some (pBt\<lparr>pHasContent := Some p\<rparr>, 0, m1))"
      using v Some by (cases "pHasContent pBt")
        (auto simp: btreeSetHasContent_def sqlite3BitvecSize_def Let_def split: if_splits)
    show ?thesis
    proof (cases "pgno \<le> iSize p")
      case False
      have ok: "content_ok (pBt\<lparr>pHasContent := Some p\<rparr>)" using p assms(1) by (simp add: content_ok_def)
      show ?thesis using e False ok old m1 clear by (auto simp: has_content_iff)
    next
      case True
      obtain p' rc m2 where a: "sqlite3BitvecSet (Some p) pgno m1 = Some (Some p', rc, m2)" "iSize p' = iSize p"
        "False \<notin> set m1 \<longrightarrow> rc = 0"
        using Set_elems [of p pgno m1] p True assms(2) by (auto simp: vec_ok_def)
      have lim: "pgno \<le> (case Some p of None \<Rightarrow> 0 | Some p \<Rightarrow> iSize p)" using True by simp
      have ok: "content_ok (pBt\<lparr>pHasContent := Some p'\<rparr>)"
        using vec.add_ok(1) [OF p assms(2) lim a(1)] assms(1) by (simp add: content_ok_def)
      have "btreeGetHasContent (pBt\<lparr>pHasContent := Some p'\<rparr>) j = Some True \<longleftrightarrow>
          j > iSize p \<or> j = pgno \<or> sqlite3BitvecTest (Some p) j = Some True" if "rc = 0" for j
        using vec.test_add [OF p assms(2) lim, of m1 "Some p'" m2 j] a that has_content_iff [OF ok, of j] by auto
      moreover have "btreeSetHasContent pBt pgno m = Some (pBt\<lparr>pHasContent := Some p'\<rparr>, rc, m2)"
        using e True a(1) by simp
      ultimately show ?thesis using ok old m1 clear a(3) by blast
    qed
  qed
qed

lemma btreeSetHasContent_safe_witness:
  "\<exists>pBt' rc m'. btreeSetHasContent \<lparr>nPage = 5000, pHasContent = None\<rparr> 4000 [] = Some (pBt', rc, m') \<and> rc = 0 \<and>
     btreeGetHasContent pBt' 4000 = Some True"
  using btreeSetHasContent_safe [of "\<lparr>nPage = 5000, pHasContent = None\<rparr>" 4000 "[]"]
  by (auto simp: content_ok_def)

end
