(* ===== verification/UnixLock.thy ===== *)
theory UnixLock
  imports Prelude
begin

text \<open>
  The file locks of the Unix VFS (\<^verbatim>\<open>src/sqlite/src/os_unix.c\<close>): the five lock levels of a
  connection, kept per process in the \<^verbatim>\<open>unixInodeInfo\<close> that all its connections to a file
  share, and between processes in advisory locks on three byte ranges.

  The operating system is a parameter: \<^verbatim>\<open>fcntl\<close> with \<^verbatim>\<open>F_SETLK\<close> takes the state of the
  kernel, of any type, to the error number (0 for success) and the new state, and \<^verbatim>\<open>close\<close>
  takes a descriptor away. What is assumed of them is the locale of the next theory. A call
  runs under the mutex of its process, so it is a function of the kernel, the inode
  information and the connection. The assertions are those of a debug build and are not part
  of the model; the ones on the order of requests appear as conditions of the runs. The
  tracking of transaction counters is for debug builds as well, and the NFS variant of
  unlocking is compiled on one platform only.
\<close>

section \<open>Lock levels and byte ranges\<close>

abbreviation (input) NO_LOCK :: nat where "NO_LOCK \<equiv> 0"
abbreviation (input) SHARED_LOCK :: nat where "SHARED_LOCK \<equiv> 1"
abbreviation (input) RESERVED_LOCK :: nat where "RESERVED_LOCK \<equiv> 2"
abbreviation (input) PENDING_LOCK :: nat where "PENDING_LOCK \<equiv> 3"
abbreviation (input) EXCLUSIVE_LOCK :: nat where "EXCLUSIVE_LOCK \<equiv> 4"

definition PENDING_BYTE :: nat where "PENDING_BYTE = 0x40000000"
definition RESERVED_BYTE :: nat where "RESERVED_BYTE = PENDING_BYTE + 1"
definition SHARED_FIRST :: nat where "SHARED_FIRST = PENDING_BYTE + 2"
definition SHARED_SIZE :: nat where "SHARED_SIZE = 510"

datatype lock_type = F_UNLCK | F_RDLCK | F_WRLCK

record flock =
  l_type :: lock_type
  l_start :: nat
  l_len :: nat

text \<open>A length of zero stands for all bytes from the start on.\<close>

definition covers :: "flock \<Rightarrow> nat \<Rightarrow> bool" where
  "covers l b \<longleftrightarrow> l_start l \<le> b \<and> (l_len l = 0 \<or> b < l_start l + l_len l)"

type_synonym 'k fcntl = "'k \<Rightarrow> int \<Rightarrow> flock \<Rightarrow> nat \<times> 'k"

section \<open>Result codes\<close>

abbreviation (input) SQLITE_PERM :: nat where "SQLITE_PERM \<equiv> 3"
abbreviation (input) SQLITE_BUSY :: nat where "SQLITE_BUSY \<equiv> 5"
abbreviation (input) SQLITE_IOERR_UNLOCK :: nat where "SQLITE_IOERR_UNLOCK \<equiv> 2058"
abbreviation (input) SQLITE_IOERR_RDLOCK :: nat where "SQLITE_IOERR_RDLOCK \<equiv> 2314"
abbreviation (input) SQLITE_IOERR_CHECKRESERVEDLOCK :: nat where "SQLITE_IOERR_CHECKRESERVEDLOCK \<equiv> 3594"
abbreviation (input) SQLITE_IOERR_LOCK :: nat where "SQLITE_IOERR_LOCK \<equiv> 3850"

text \<open>The error numbers of Linux: \<^verbatim>\<open>EAGAIN\<close>, \<^verbatim>\<open>ETIMEDOUT\<close>, \<^verbatim>\<open>EBUSY\<close>, \<^verbatim>\<open>EINTR\<close> and \<^verbatim>\<open>ENOLCK\<close>
  are 11, 110, 16, 4 and 37, \<^verbatim>\<open>EACCES\<close> is 13 and \<^verbatim>\<open>EPERM\<close> 1.\<close>

definition sqliteErrorFromPosixError :: "nat \<Rightarrow> nat \<Rightarrow> nat" where
  "sqliteErrorFromPosixError posixError sqliteIOErr =
     (if posixError \<in> {11, 110, 16, 4, 37} then SQLITE_BUSY
      else if posixError = 13 then
        if sqliteIOErr = SQLITE_IOERR_LOCK \<or> sqliteIOErr = SQLITE_IOERR_UNLOCK \<or>
           sqliteIOErr = SQLITE_IOERR_RDLOCK \<or> sqliteIOErr = SQLITE_IOERR_CHECKRESERVEDLOCK
        then SQLITE_BUSY else SQLITE_PERM
      else if posixError = 1 then SQLITE_PERM
      else sqliteIOErr)"

section \<open>The state of a process\<close>

record unixInodeInfo =
  nShared :: int
  ino_eFileLock :: nat
  bProcessLock :: bool
  nRef :: int
  nLock :: int
  ino_pUnused :: "int list"

record unixFile =
  h :: int
  eFileLock :: nat
  ctrlFlags :: u16
  lastErrno :: nat

abbreviation (input) UNIXFILE_EXCL :: u16 where "UNIXFILE_EXCL \<equiv> 0x01"
abbreviation (input) UNIXFILE_RDONLY :: u16 where "UNIXFILE_RDONLY \<equiv> 0x02"

section \<open>Setting a lock of the operating system\<close>

definition unixFileLock :: "'k fcntl \<Rightarrow> 'k \<Rightarrow> unixInodeInfo \<Rightarrow> unixFile \<Rightarrow> flock \<Rightarrow> nat \<times> 'k \<times> unixInodeInfo" where
  "unixFileLock osFcntl k pInode pFile pLock =
     (if (ctrlFlags pFile AND UNIXFILE_EXCL \<noteq> 0 \<or> bProcessLock pInode) \<and> ctrlFlags pFile AND UNIXFILE_RDONLY = 0 then
        if \<not> bProcessLock pInode then
          (case osFcntl k (h pFile) \<lparr>l_type = F_WRLCK, l_start = SHARED_FIRST, l_len = SHARED_SIZE\<rparr> of (rc, k) \<Rightarrow>
             if rc \<noteq> 0 then (rc, k, pInode)
             else (rc, k, pInode\<lparr>bProcessLock := True, nLock := nLock pInode + 1\<rparr>))
        else (0, k, pInode)
      else (case osFcntl k (h pFile) pLock of (rc, k) \<Rightarrow> (rc, k, pInode)))"

section \<open>Raising a lock\<close>

text \<open>The results of a request: the code, the kernel, the inode information and the connection.\<close>

type_synonym 'k lock_result = "nat \<times> 'k \<times> unixInodeInfo \<times> unixFile"

definition note_errno :: "nat \<Rightarrow> nat \<Rightarrow> unixFile \<Rightarrow> unixFile" where
  "note_errno rc tErrno pFile = (if rc \<noteq> SQLITE_BUSY then pFile\<lparr>lastErrno := tErrno\<rparr> else pFile)"

text \<open>With the lock on the pending byte: the read lock on the shared range, and the release of
  the pending byte.\<close>

definition lock_shared :: "'k fcntl \<Rightarrow> 'k \<Rightarrow> unixInodeInfo \<Rightarrow> unixFile \<Rightarrow> 'k lock_result" where
  "lock_shared osFcntl k pInode pFile =
     (case unixFileLock osFcntl k pInode pFile \<lparr>l_type = F_RDLCK, l_start = SHARED_FIRST, l_len = SHARED_SIZE\<rparr> of
        (e1, k, pInode) \<Rightarrow>
      (case unixFileLock osFcntl k pInode pFile \<lparr>l_type = F_UNLCK, l_start = PENDING_BYTE, l_len = 1\<rparr> of
        (e2, k, pInode) \<Rightarrow>
        let rc1 = (if e1 \<noteq> 0 then sqliteErrorFromPosixError e1 SQLITE_IOERR_LOCK else 0);
            rc = (if e2 \<noteq> 0 \<and> rc1 = 0 then SQLITE_IOERR_UNLOCK else rc1);
            tErrno = (if e2 \<noteq> 0 \<and> rc1 = 0 then e2 else e1)
        in if rc \<noteq> 0 then (rc, k, pInode, note_errno rc tErrno pFile)
           else (0, k, pInode\<lparr>nLock := nLock pInode + 1, nShared := 1, ino_eFileLock := SHARED_LOCK\<rparr>,
                 pFile\<lparr>eFileLock := SHARED_LOCK\<rparr>)))"

text \<open>A reserved or exclusive lock, whose failure leaves a request for an exclusive lock pending.\<close>

definition lock_write :: "'k fcntl \<Rightarrow> 'k \<Rightarrow> unixInodeInfo \<Rightarrow> unixFile \<Rightarrow> nat \<Rightarrow> 'k lock_result" where
  "lock_write osFcntl k pInode pFile eLock =
     (let (rc, k, pInode, pFile) =
        (if eLock = EXCLUSIVE_LOCK \<and> nShared pInode > 1 then (SQLITE_BUSY, k, pInode, pFile)
         else
           (case unixFileLock osFcntl k pInode pFile
               (if eLock = RESERVED_LOCK then \<lparr>l_type = F_WRLCK, l_start = RESERVED_BYTE, l_len = 1\<rparr>
                else \<lparr>l_type = F_WRLCK, l_start = SHARED_FIRST, l_len = SHARED_SIZE\<rparr>) of
              (e, k, pInode) \<Rightarrow>
              if e \<noteq> 0 then
                let rc = sqliteErrorFromPosixError e SQLITE_IOERR_LOCK in (rc, k, pInode, note_errno rc e pFile)
              else (0, k, pInode, pFile)))
      in if rc = 0 then (rc, k, pInode\<lparr>ino_eFileLock := eLock\<rparr>, pFile\<lparr>eFileLock := eLock\<rparr>)
         else if eLock = EXCLUSIVE_LOCK then
           (rc, k, pInode\<lparr>ino_eFileLock := PENDING_LOCK\<rparr>, pFile\<lparr>eFileLock := PENDING_LOCK\<rparr>)
         else (rc, k, pInode, pFile))"

definition unixLock :: "'k fcntl \<Rightarrow> 'k \<Rightarrow> unixInodeInfo \<Rightarrow> unixFile \<Rightarrow> nat \<Rightarrow> 'k lock_result" where
  "unixLock osFcntl k pInode pFile eLock =
     (if eFileLock pFile \<ge> eLock then (0, k, pInode, pFile)
      else if eFileLock pFile \<noteq> ino_eFileLock pInode \<and>
          (ino_eFileLock pInode \<ge> PENDING_LOCK \<or> eLock > SHARED_LOCK) then (SQLITE_BUSY, k, pInode, pFile)
      else if eLock = SHARED_LOCK \<and> (ino_eFileLock pInode = SHARED_LOCK \<or> ino_eFileLock pInode = RESERVED_LOCK) then
        (0, k, pInode\<lparr>nShared := nShared pInode + 1, nLock := nLock pInode + 1\<rparr>, pFile\<lparr>eFileLock := SHARED_LOCK\<rparr>)
      else
        (case (if eLock = SHARED_LOCK \<or> eLock = EXCLUSIVE_LOCK \<and> eFileLock pFile < PENDING_LOCK then
                 unixFileLock osFcntl k pInode pFile
                   \<lparr>l_type = (if eLock = SHARED_LOCK then F_RDLCK else F_WRLCK), l_start = PENDING_BYTE, l_len = 1\<rparr>
               else (0, k, pInode)) of (e, k, pInode) \<Rightarrow>
         if e \<noteq> 0 then
           let rc = sqliteErrorFromPosixError e SQLITE_IOERR_LOCK in (rc, k, pInode, note_errno rc e pFile)
         else if eLock = SHARED_LOCK then lock_shared osFcntl k pInode pFile
         else lock_write osFcntl k pInode pFile eLock))"

section \<open>Lowering a lock\<close>

definition closePendingFds :: "('k \<Rightarrow> int \<Rightarrow> 'k) \<Rightarrow> 'k \<Rightarrow> unixInodeInfo \<Rightarrow> 'k \<times> unixInodeInfo" where
  "closePendingFds osClose k pInode = (foldl osClose k (ino_pUnused pInode), pInode\<lparr>ino_pUnused := []\<rparr>)"

text \<open>The count of shared locks goes down, and with the last one all locks of the process.\<close>

definition unlock_shared :: "'k fcntl \<Rightarrow> ('k \<Rightarrow> int \<Rightarrow> 'k) \<Rightarrow> 'k \<Rightarrow> unixInodeInfo \<Rightarrow> unixFile \<Rightarrow> 'k lock_result" where
  "unlock_shared osFcntl osClose k pInode pFile =
     (let pInode = pInode\<lparr>nShared := nShared pInode - 1\<rparr>;
          (rc, k, pInode, pFile) =
            (if nShared pInode = 0 then
               (case unixFileLock osFcntl k pInode pFile \<lparr>l_type = F_UNLCK, l_start = 0, l_len = 0\<rparr> of (e, k, pInode) \<Rightarrow>
                  if e = 0 then (0, k, pInode\<lparr>ino_eFileLock := NO_LOCK\<rparr>, pFile)
                  else (SQLITE_IOERR_UNLOCK, k, pInode\<lparr>ino_eFileLock := NO_LOCK\<rparr>,
                        pFile\<lparr>lastErrno := e, eFileLock := NO_LOCK\<rparr>))
             else (0, k, pInode, pFile));
          pInode = pInode\<lparr>nLock := nLock pInode - 1\<rparr>;
          (k, pInode) = (if nLock pInode = 0 then closePendingFds osClose k pInode else (k, pInode))
      in (rc, k, pInode, pFile))"

text \<open>From a level above shared: a lock on the shared range is turned into a read lock, and the
  pending and the reserved byte are released. The flag says whether to go on.\<close>

definition unlock_write :: "'k fcntl \<Rightarrow> 'k \<Rightarrow> unixInodeInfo \<Rightarrow> unixFile \<Rightarrow> nat \<Rightarrow> 'k lock_result" where
  "unlock_write osFcntl k pInode pFile eLock =
     (case (if eLock = SHARED_LOCK then
              unixFileLock osFcntl k pInode pFile \<lparr>l_type = F_RDLCK, l_start = SHARED_FIRST, l_len = SHARED_SIZE\<rparr>
            else (0, k, pInode)) of (e, k, pInode) \<Rightarrow>
      if e \<noteq> 0 then (SQLITE_IOERR_RDLOCK, k, pInode, pFile\<lparr>lastErrno := e\<rparr>)
      else
        (case unixFileLock osFcntl k pInode pFile \<lparr>l_type = F_UNLCK, l_start = PENDING_BYTE, l_len = 2\<rparr> of (e, k, pInode) \<Rightarrow>
           if e = 0 then (0, k, pInode\<lparr>ino_eFileLock := SHARED_LOCK\<rparr>, pFile)
           else (SQLITE_IOERR_UNLOCK, k, pInode, pFile\<lparr>lastErrno := e\<rparr>)))"

definition posixUnlock :: "'k fcntl \<Rightarrow> ('k \<Rightarrow> int \<Rightarrow> 'k) \<Rightarrow> 'k \<Rightarrow> unixInodeInfo \<Rightarrow> unixFile \<Rightarrow> nat \<Rightarrow> 'k lock_result" where
  "posixUnlock osFcntl osClose k pInode pFile eLock =
     (if eFileLock pFile \<le> eLock then (0, k, pInode, pFile)
      else
        (case (if eFileLock pFile > SHARED_LOCK then unlock_write osFcntl k pInode pFile eLock
               else (0, k, pInode, pFile)) of (rc, k, pInode, pFile) \<Rightarrow>
         if rc \<noteq> 0 then (rc, k, pInode, pFile)
         else
           (case (if eLock = NO_LOCK then unlock_shared osFcntl osClose k pInode pFile else (0, k, pInode, pFile)) of
              (rc, k, pInode, pFile) \<Rightarrow>
              (rc, k, pInode, if rc = 0 then pFile\<lparr>eFileLock := eLock\<rparr> else pFile))))"

definition unixUnlock :: "'k fcntl \<Rightarrow> ('k \<Rightarrow> int \<Rightarrow> 'k) \<Rightarrow> 'k \<Rightarrow> unixInodeInfo \<Rightarrow> unixFile \<Rightarrow> nat \<Rightarrow> 'k lock_result" where
  "unixUnlock osFcntl osClose k pInode pFile eLock = posixUnlock osFcntl osClose k pInode pFile eLock"

section \<open>Opening and closing\<close>

definition new_inode :: unixInodeInfo where
  "new_inode = \<lparr>nShared = 0, ino_eFileLock = NO_LOCK, bProcessLock = False, nRef = 1, nLock = 0, ino_pUnused = []\<rparr>"

text \<open>The inode information of the file, created when no connection of the process has it, which
  needs memory.\<close>

definition findInodeInfo :: "bool \<Rightarrow> unixInodeInfo option \<Rightarrow> unixInodeInfo option" where
  "findInodeInfo mem_ok pInode =
     (case pInode of
        None \<Rightarrow> if mem_ok then Some new_inode else None
      | Some pInode \<Rightarrow> Some (pInode\<lparr>nRef := nRef pInode + 1\<rparr>))"

definition setPendingFd :: "unixInodeInfo \<Rightarrow> unixFile \<Rightarrow> unixInodeInfo \<times> unixFile" where
  "setPendingFd pInode pFile = (pInode\<lparr>ino_pUnused := h pFile # ino_pUnused pInode\<rparr>, pFile\<lparr>h := -1\<rparr>)"

definition releaseInodeInfo :: "('k \<Rightarrow> int \<Rightarrow> 'k) \<Rightarrow> 'k \<Rightarrow> unixInodeInfo \<Rightarrow> 'k \<times> unixInodeInfo option" where
  "releaseInodeInfo osClose k pInode =
     (let pInode = pInode\<lparr>nRef := nRef pInode - 1\<rparr>
      in if nRef pInode = 0 then (fst (closePendingFds osClose k pInode), None) else (k, Some pInode))"

definition closeUnixFile :: "('k \<Rightarrow> int \<Rightarrow> 'k) \<Rightarrow> 'k \<Rightarrow> unixFile \<Rightarrow> 'k" where
  "closeUnixFile osClose k pFile = (if h pFile \<ge> 0 then osClose k (h pFile) else k)"

definition unixClose :: "'k fcntl \<Rightarrow> ('k \<Rightarrow> int \<Rightarrow> 'k) \<Rightarrow> 'k \<Rightarrow> unixInodeInfo \<Rightarrow> unixFile \<Rightarrow> 'k \<times> unixInodeInfo option" where
  "unixClose osFcntl osClose k pInode pFile =
     (case unixUnlock osFcntl osClose k pInode pFile NO_LOCK of (rc, k, pInode, pFile) \<Rightarrow>
      (case (if nLock pInode \<noteq> 0 then setPendingFd pInode pFile else (pInode, pFile)) of (pInode, pFile) \<Rightarrow>
       (case releaseInodeInfo osClose k pInode of (k, pInode) \<Rightarrow> (closeUnixFile osClose k pFile, pInode))))"

text \<open>Whether some connection holds a reserved lock: one of this process, or one of another
  process, as \<^verbatim>\<open>fcntl\<close> with \<^verbatim>\<open>F_GETLK\<close> tells, a function to the error number and the answer.\<close>

definition unixCheckReservedLock :: "('k \<Rightarrow> int \<Rightarrow> flock \<Rightarrow> nat \<times> bool) \<Rightarrow> 'k \<Rightarrow> unixInodeInfo \<Rightarrow> unixFile \<Rightarrow> nat \<times> bool" where
  "unixCheckReservedLock osGetlk k pInode pFile =
     (if ino_eFileLock pInode > SHARED_LOCK then (0, True)
      else if \<not> bProcessLock pInode then
        (case osGetlk k (h pFile) \<lparr>l_type = F_WRLCK, l_start = RESERVED_BYTE, l_len = 1\<rparr> of (e, busy) \<Rightarrow>
           if e \<noteq> 0 then (SQLITE_IOERR_CHECKRESERVEDLOCK, False) else (0, busy))
      else (0, False))"

end
