(* ===== verification/UnixLockInv.thy ===== *)
theory UnixLockInv
  imports UnixLock
begin

text \<open>
  Mutual exclusion of the locks of \<^verbatim>\<open>UnixLock\<close>: what is relied on of the operating system,
  the runs of one process among others, the invariant of its runs, and what follows for the
  lock levels that connections of one or of two processes hold at the same time.
\<close>

section \<open>What is relied on of the operating system\<close>

text \<open>Advisory locks as POSIX describes them. A write lock of one process excludes any lock of
  another on the same byte. A successful request replaces the locks of the process on the
  bytes it covers, and a failed one leaves them alone. Nothing is said of the locks of the
  other processes, which may come and go at any moment, and nothing of the locks that are
  left after closing a descriptor of the file.\<close>

locale posix_locks =
  fixes ok :: "'k \<Rightarrow> bool" and held :: "'k \<Rightarrow> 'p \<Rightarrow> nat \<Rightarrow> lock_type"
    and setlk :: "'p \<Rightarrow> 'k fcntl" and osClose :: "'p \<Rightarrow> 'k \<Rightarrow> int \<Rightarrow> 'k"
  assumes exclusive: "ok k \<Longrightarrow> p \<noteq> q \<Longrightarrow> held k p b = F_WRLCK \<Longrightarrow> held k q b = F_UNLCK"
    and setlk_ok: "ok k \<Longrightarrow> setlk p k fd l = (e, k') \<Longrightarrow> ok k'"
    and setlk_own: "ok k \<Longrightarrow> setlk p k fd l = (0, k') \<Longrightarrow>
      held k' p b = (if covers l b then l_type l else held k p b)"
    and setlk_fail: "ok k \<Longrightarrow> setlk p k fd l = (e, k') \<Longrightarrow> e \<noteq> 0 \<Longrightarrow> held k' p = held k p"
    and close_ok: "ok k \<Longrightarrow> ok (osClose p k fd)"

section \<open>The runs of a process\<close>

text \<open>A process has the inode information, if it has connections at all, and the connections
  to the file. The run of one process consists of requests of its connections, in any order
  the upper layers may make them, and of changes that the rest of the world makes to the
  kernel. After a failure to release the pending byte the upper layer no longer trusts the
  level of the connection, and the run ends.\<close>

record proc =
  inode :: "unixInodeInfo option"
  files :: "unixFile list"

definition may_open :: "unixFile \<Rightarrow> proc \<Rightarrow> bool" where
  "may_open f s \<longleftrightarrow> eFileLock f = NO_LOCK \<and>
     ((\<forall>ino. inode s = Some ino \<longrightarrow> \<not> bProcessLock ino) \<and> (\<forall>g \<in> set (f # files s). ctrlFlags g AND UNIXFILE_EXCL = 0) \<or>
      (\<forall>g \<in> set (f # files s). ctrlFlags g AND UNIXFILE_RDONLY = 0))"

inductive lock_run :: "('k \<Rightarrow> bool) \<Rightarrow> ('k \<Rightarrow> nat \<Rightarrow> lock_type) \<Rightarrow> 'k fcntl \<Rightarrow> ('k \<Rightarrow> int \<Rightarrow> 'k) \<Rightarrow> 'k \<Rightarrow> proc \<Rightarrow> bool"
  for ok own osFcntl osClose where
  start: "ok k \<Longrightarrow> lock_run ok own osFcntl osClose k \<lparr>inode = None, files = []\<rparr>"
| environment: "lock_run ok own osFcntl osClose k s \<Longrightarrow> ok k' \<Longrightarrow> own k' = own k \<Longrightarrow>
    lock_run ok own osFcntl osClose k' s"
| opened: "lock_run ok own osFcntl osClose k s \<Longrightarrow> may_open f s \<Longrightarrow>
    findInodeInfo mem_ok (inode s) = Some ino \<Longrightarrow>
    lock_run ok own osFcntl osClose k \<lparr>inode = Some ino, files = f # files s\<rparr>"
| lock: "lock_run ok own osFcntl osClose k \<lparr>inode = Some ino, files = xs @ f # ys\<rparr> \<Longrightarrow>
    eLock \<in> {SHARED_LOCK, RESERVED_LOCK, EXCLUSIVE_LOCK} \<Longrightarrow>
    eFileLock f \<noteq> NO_LOCK \<or> eLock = SHARED_LOCK \<Longrightarrow>
    unixLock osFcntl k ino f eLock = (rc, k', ino', f') \<Longrightarrow>
    lock_run ok own osFcntl osClose k' \<lparr>inode = Some ino', files = xs @ f' # ys\<rparr>"
| unlock: "lock_run ok own osFcntl osClose k \<lparr>inode = Some ino, files = xs @ f # ys\<rparr> \<Longrightarrow>
    eLock \<in> {NO_LOCK, SHARED_LOCK} \<Longrightarrow>
    unixUnlock osFcntl osClose k ino f eLock = (rc, k', ino', f') \<Longrightarrow>
    eLock = NO_LOCK \<or> rc \<noteq> SQLITE_IOERR_UNLOCK \<Longrightarrow>
    lock_run ok own osFcntl osClose k' \<lparr>inode = Some ino', files = xs @ f' # ys\<rparr>"
| closed: "lock_run ok own osFcntl osClose k \<lparr>inode = Some ino, files = xs @ f # ys\<rparr> \<Longrightarrow>
    unixClose osFcntl osClose k ino f = (k', ino') \<Longrightarrow>
    lock_run ok own osFcntl osClose k' \<lparr>inode = ino', files = xs @ ys\<rparr>"

section \<open>The invariant\<close>

definition shared_byte :: "nat \<Rightarrow> bool" where
  "shared_byte b \<longleftrightarrow> SHARED_FIRST \<le> b \<and> b < SHARED_FIRST + SHARED_SIZE"

text \<open>The locks that the level of the inode stands for.\<close>

definition level_held :: "nat \<Rightarrow> (nat \<Rightarrow> lock_type) \<Rightarrow> bool" where
  "level_held l own \<longleftrightarrow>
     (l \<ge> SHARED_LOCK \<longrightarrow> (\<forall>b. shared_byte b \<longrightarrow> own b \<noteq> F_UNLCK)) \<and>
     (l = RESERVED_LOCK \<longrightarrow> own RESERVED_BYTE = F_WRLCK) \<and>
     (l \<ge> PENDING_LOCK \<longrightarrow> own PENDING_BYTE = F_WRLCK) \<and>
     (l = EXCLUSIVE_LOCK \<longrightarrow> (\<forall>b. shared_byte b \<longrightarrow> own b = F_WRLCK))"

definition held_ok :: "unixInodeInfo \<Rightarrow> (nat \<Rightarrow> lock_type) \<Rightarrow> bool" where
  "held_ok ino own \<longleftrightarrow>
     (if bProcessLock ino then \<forall>b. shared_byte b \<longrightarrow> own b = F_WRLCK else level_held (ino_eFileLock ino) own)"

definition process_held :: "unixInodeInfo \<Rightarrow> (nat \<Rightarrow> lock_type) \<Rightarrow> bool" where
  "process_held ino own \<longleftrightarrow> (bProcessLock ino \<longrightarrow> (\<forall>b. shared_byte b \<longrightarrow> own b = F_WRLCK))"

lemma held_process: "held_ok ino own \<Longrightarrow> process_held ino own"
  by (simp add: held_ok_def process_held_def)

definition locked :: "unixFile list \<Rightarrow> int" where
  "locked fs = int (length (filter (\<lambda>f. eFileLock f > NO_LOCK) fs))"

definition writers :: "unixFile list \<Rightarrow> int" where
  "writers fs = int (length (filter (\<lambda>f. eFileLock f > SHARED_LOCK) fs))"

lemma locked_simps [simp]:
  "locked [] = 0" "locked (f # fs) = (if eFileLock f > 0 then 1 else 0) + locked fs"
  "locked (xs @ ys) = locked xs + locked ys" "locked fs \<ge> 0"
  by (auto simp: locked_def)

lemma writers_simps [simp]:
  "writers [] = 0" "writers (f # fs) = (if eFileLock f > 1 then 1 else 0) + writers fs"
  "writers (xs @ ys) = writers xs + writers ys" "writers fs \<ge> 0"
  by (auto simp: writers_def)

definition flags_ok :: "unixInodeInfo \<Rightarrow> unixFile list \<Rightarrow> bool" where
  "flags_ok ino fs \<longleftrightarrow>
     \<not> bProcessLock ino \<and> (\<forall>f \<in> set fs. ctrlFlags f AND UNIXFILE_EXCL = 0) \<or>
     (\<forall>f \<in> set fs. ctrlFlags f AND UNIXFILE_RDONLY = 0)"

definition counts_ok :: "unixInodeInfo \<Rightarrow> unixFile list \<Rightarrow> bool" where
  "counts_ok ino fs \<longleftrightarrow>
     locked fs \<le> nShared ino \<and> nShared ino + (if bProcessLock ino then 1 else 0) \<le> nLock ino \<and>
     (ino_eFileLock ino = NO_LOCK \<longleftrightarrow> nShared ino = 0) \<and> ino_eFileLock ino \<le> EXCLUSIVE_LOCK \<and>
     (ino_eFileLock ino = EXCLUSIVE_LOCK \<longrightarrow> nShared ino = 1) \<and>
     (\<forall>f \<in> set fs. eFileLock f > SHARED_LOCK \<longrightarrow> eFileLock f = ino_eFileLock ino) \<and>
     writers fs \<le> 1 \<and> nRef ino = int (length fs)"

text \<open>The invariant, for the locks a process has in the kernel.\<close>

definition proc_ok :: "(nat \<Rightarrow> lock_type) \<Rightarrow> proc \<Rightarrow> bool" where
  "proc_ok own s \<longleftrightarrow>
     (case inode s of None \<Rightarrow> files s = []
      | Some ino \<Rightarrow> held_ok ino own \<and> counts_ok ino (files s) \<and> flags_ok ino (files s) \<and> files s \<noteq> [])"

section \<open>One request keeps the invariant\<close>

text \<open>What a request for a lock of the operating system can do.\<close>

definition lock_effect :: "unixFile \<Rightarrow> flock \<Rightarrow> nat \<Rightarrow> unixInodeInfo \<Rightarrow> (nat \<Rightarrow> lock_type) \<Rightarrow> unixInodeInfo \<Rightarrow> (nat \<Rightarrow> lock_type) \<Rightarrow> bool" where
  "lock_effect f l e ino own ino' own' \<longleftrightarrow>
     (\<not> bProcessLock ino \<and> ino' = ino \<and> own' = (if e = 0 then (\<lambda>b. if covers l b then l_type l else own b) else own)) \<or>
     (e = 0 \<and> (bProcessLock ino \<or> ctrlFlags f AND UNIXFILE_EXCL \<noteq> 0) \<and> (\<forall>b. shared_byte b \<longrightarrow> own' b = F_WRLCK) \<and>
      ino' = ino\<lparr>bProcessLock := True, nLock := nLock ino + (if bProcessLock ino then 0 else 1)\<rparr>)"

lemma covers_shared: "covers \<lparr>l_type = t, l_start = SHARED_FIRST, l_len = SHARED_SIZE\<rparr> b = shared_byte b"
  by (simp add: covers_def shared_byte_def SHARED_SIZE_def)

lemma covers_byte: "covers \<lparr>l_type = t, l_start = s, l_len = 1\<rparr> b = (b = s)"
  by (auto simp: covers_def)

lemma covers_two: "covers \<lparr>l_type = t, l_start = s, l_len = 2\<rparr> b = (b = s \<or> b = s + 1)"
  by (auto simp: covers_def)

lemma covers_all: "covers \<lparr>l_type = t, l_start = 0, l_len = 0\<rparr> b"
  by (simp add: covers_def)

lemma not_shared_byte [simp]: "\<not> shared_byte PENDING_BYTE" "\<not> shared_byte RESERVED_BYTE"
  "PENDING_BYTE \<noteq> RESERVED_BYTE" "RESERVED_BYTE \<noteq> PENDING_BYTE" "\<not> shared_byte (PENDING_BYTE + 1)" "\<not> shared_byte (Suc PENDING_BYTE)" "shared_byte SHARED_FIRST"
  by (simp_all add: shared_byte_def SHARED_FIRST_def RESERVED_BYTE_def SHARED_SIZE_def)

lemmas covers_ranges = covers_shared covers_byte covers_byte [unfolded One_nat_def] covers_two covers_all

lemma effect_counts: "lock_effect f l e ino own ino' own' \<Longrightarrow> counts_ok ino fs \<Longrightarrow> counts_ok ino' fs"
  by (auto simp: lock_effect_def counts_ok_def)

lemma effect_flags: "lock_effect f l e ino own ino' own' \<Longrightarrow> flags_ok ino fs \<Longrightarrow> f \<in> set fs \<Longrightarrow> flags_ok ino' fs"
  by (auto simp: lock_effect_def flags_ok_def)

lemma effect_same: "lock_effect f l e ino own ino' own' \<Longrightarrow>
  ino_eFileLock ino' = ino_eFileLock ino \<and> nShared ino' = nShared ino \<and> ino_pUnused ino' = ino_pUnused ino"
  by (auto simp: lock_effect_def)

lemma effect_process: "lock_effect f l e ino own ino' own' \<Longrightarrow> bProcessLock ino' \<Longrightarrow> shared_byte b \<Longrightarrow> own' b = F_WRLCK"
  by (auto simp: lock_effect_def)

lemma effect_process_held: "lock_effect f l e ino own ino' own' \<Longrightarrow> process_held ino' own'"
  by (simp add: process_held_def effect_process)

lemma effect_plain: "lock_effect f l e ino own ino' own' \<Longrightarrow> \<not> bProcessLock ino' \<Longrightarrow>
  ino' = ino \<and> own' = (if e = 0 then (\<lambda>b. if covers l b then l_type l else own b) else own)"
  by (auto simp: lock_effect_def)

lemma effect_held: "lock_effect f l e ino own ino' own' \<Longrightarrow> held_ok ino own \<Longrightarrow> e \<noteq> 0 \<Longrightarrow> held_ok ino' own'"
  by (auto simp: lock_effect_def held_ok_def)

text \<open>The error codes of a failed request are never the one of success.\<close>

lemma error_nonzero [simp]: "0 < n \<Longrightarrow> sqliteErrorFromPosixError e n \<noteq> 0"
  by (simp add: sqliteErrorFromPosixError_def)

lemma note_errno_simps [simp]: "eFileLock (note_errno rc e f) = eFileLock f" "ctrlFlags (note_errno rc e f) = ctrlFlags f"
  "h (note_errno rc e f) = h f"
  by (simp_all add: note_errno_def)

text \<open>What the invariant says of a connection depends on its level and flags only.\<close>

lemma counts_nonneg: "counts_ok ino fs \<Longrightarrow> 0 \<le> nShared ino \<and> 0 \<le> nLock ino"
  using locked_simps(4) [of fs] by (simp only: counts_ok_def split: if_splits) linarith+

lemma counts_same: "eFileLock g = eFileLock f \<Longrightarrow> counts_ok ino (xs @ g # ys) = counts_ok ino (xs @ f # ys)"
  by (auto simp: counts_ok_def)

lemma flags_same: "ctrlFlags g = ctrlFlags f \<Longrightarrow> flags_ok ino (xs @ g # ys) = flags_ok ino (xs @ f # ys)"
  by (auto simp: flags_ok_def)

lemma no_writers:
  assumes "counts_ok ino (xs @ f # ys)" "eFileLock f > SHARED_LOCK"
  shows "writers xs = 0" "writers ys = 0" "\<forall>g \<in> set (xs @ ys). \<not> eFileLock g > SHARED_LOCK"
proof -
  have "writers xs + writers ys \<le> 0" "0 \<le> writers xs" "0 \<le> writers ys"
    using assms by (simp_all add: counts_ok_def)
  then show w: "writers xs = 0" "writers ys = 0" by linarith+
  have "writers (xs @ ys) = 0" unfolding writers_simps w by simp
  then show "\<forall>g \<in> set (xs @ ys). \<not> eFileLock g > SHARED_LOCK"
    unfolding writers_def by (simp only: of_nat_eq_0_iff length_0_conv filter_empty_conv)
qed

text \<open>With no lock outstanding there is nothing to hold.\<close>

lemma unlocked_held: "counts_ok ino fs \<Longrightarrow> nLock ino = 0 \<Longrightarrow> held_ok ino own"
  using counts_nonneg [of ino fs] by (auto simp: counts_ok_def held_ok_def level_held_def split: if_splits)

definition state_ok :: "(nat \<Rightarrow> lock_type) \<Rightarrow> unixInodeInfo \<Rightarrow> unixFile list \<Rightarrow> bool" where
  "state_ok own ino fs \<longleftrightarrow> held_ok ino own \<and> counts_ok ino fs \<and> flags_ok ino fs"

lemma state_ok_unused: "state_ok own (ino\<lparr>ino_pUnused := u\<rparr>) fs = state_ok own ino fs"
  by (simp add: state_ok_def held_ok_def counts_ok_def flags_ok_def)

lemma flags_rdonly: "flags_ok ino (xs @ f # ys) \<Longrightarrow> bProcessLock ino \<longrightarrow> ctrlFlags f AND UNIXFILE_RDONLY = 0"
  by (auto simp: flags_ok_def)

context posix_locks
begin

lemma file_lock_effect:
  assumes "unixFileLock (setlk p) k ino f l = (e, k', ino')" "ok k" "process_held ino (held k p)"
    and "bProcessLock ino \<longrightarrow> ctrlFlags f AND UNIXFILE_RDONLY = 0"
  shows "ok k'" "lock_effect f l e ino (held k p) ino' (held k' p)"
proof -
  let ?l = "\<lparr>l_type = F_WRLCK, l_start = SHARED_FIRST, l_len = SHARED_SIZE\<rparr>"
  obtain e1 k1 where 1: "setlk p k (h f) ?l = (e1, k1)" by (rule prod.exhaust)
  obtain e2 k2 where 2: "setlk p k (h f) l = (e2, k2)" by (rule prod.exhaust)
  note r = assms(1) [unfolded unixFileLock_def 1 2 prod.case]
  have own: "held k2 p = (if e2 = 0 then (\<lambda>b. if covers l b then l_type l else held k p b) else held k p)"
    using setlk_own [OF assms(2)] setlk_fail [OF assms(2) 2] 2 by (auto simp: fun_eq_iff)
  have own1: "e1 = 0 \<Longrightarrow> shared_byte b \<Longrightarrow> held k1 p b = F_WRLCK" for b
    using setlk_own [OF assms(2), of p "h f" ?l k1 b] 1 by (auto simp: covers_ranges)
  have own1': "e1 \<noteq> 0 \<Longrightarrow> held k1 p = held k p" using setlk_fail [OF assms(2) 1] by simp
  show "ok k'" using r setlk_ok [OF assms(2) 1] setlk_ok [OF assms(2) 2] assms(2) by (auto split: if_splits)
  show "lock_effect f l e ino (held k p) ino' (held k' p)"
  proof (cases "(ctrlFlags f AND UNIXFILE_EXCL \<noteq> 0 \<or> bProcessLock ino) \<and> ctrlFlags f AND UNIXFILE_RDONLY = 0")
    case False
    then have "\<not> bProcessLock ino" using assms(4) by blast
    then show ?thesis using r False own by (auto simp: lock_effect_def)
  next
    case True
    then show ?thesis using r own1 own1' assms(3) by (auto simp: lock_effect_def process_held_def split: if_splits)
  qed
qed

lemma lock_shared_ok:
  assumes "lock_shared (setlk p) k ino f = (rc, k', ino', f')" "ok k"
    and "held_ok ino (held k p)" "counts_ok ino (xs @ f # ys)" "flags_ok ino (xs @ f # ys)"
    and "ino_eFileLock ino = 0" "eFileLock f = 0"
  shows "ok k' \<and> state_ok (held k' p) ino' (xs @ f' # ys)"
proof -
  obtain e1 k1 i1 where 1: "unixFileLock (setlk p) k ino f \<lparr>l_type = F_RDLCK, l_start = SHARED_FIRST, l_len = SHARED_SIZE\<rparr> =
      (e1, k1, i1)" by (rule prod_cases3)
  obtain e2 k2 i2 where 2: "unixFileLock (setlk p) k1 i1 f \<lparr>l_type = F_UNLCK, l_start = PENDING_BYTE, l_len = 1\<rparr> =
      (e2, k2, i2)" by (rule prod_cases3)
  note E1 = file_lock_effect [OF 1 assms(2) held_process [OF assms(3)] flags_rdonly [OF assms(5)]]
  have h1: "held_ok i1 (held k1 p)"
    using effect_process [OF E1(2)] effect_same [OF E1(2)] assms(6) by (auto simp: held_ok_def level_held_def)
  have fl1: "flags_ok i1 (xs @ f # ys)" by (rule effect_flags [OF E1(2) assms(5)]) simp
  note E2 = file_lock_effect [OF 2 E1(1) effect_process_held [OF E1(2)] flags_rdonly [OF fl1]]
  have fl2: "flags_ok i2 (xs @ f # ys)" by (rule effect_flags [OF E2(2) fl1]) simp
  have c2: "counts_ok i2 (xs @ f # ys)" by (rule effect_counts [OF E2(2) effect_counts [OF E1(2) assms(4)]])
  have s2: "ino_eFileLock i2 = 0" using effect_same [OF E1(2)] effect_same [OF E2(2)] assms(6) by simp
  have h2: "held_ok i2 (held k2 p)"
    using effect_process [OF E2(2)] s2 by (auto simp: held_ok_def level_held_def)
  have got: "held_ok (i2\<lparr>nLock := n, nShared := m, ino_eFileLock := 1\<rparr>) (held k2 p)" if "e1 = 0" for n m
  proof (cases "bProcessLock i2")
    case True then show ?thesis using effect_process [OF E2(2)] by (simp add: held_ok_def)
  next
    case False
    then have "\<not> bProcessLock i1" using E2(2) by (auto simp: lock_effect_def)
    then have "held k1 p b = F_RDLCK" if "shared_byte b" for b
      using effect_plain [OF E1(2)] \<open>e1 = 0\<close> that by (simp add: covers_ranges)
    then have "held k2 p b = F_RDLCK" if "shared_byte b" for b
      using effect_plain [OF E2(2)] False that by (auto simp: covers_ranges)
    then show ?thesis using False by (simp add: held_ok_def level_held_def)
  qed
  have r: "(rc, k', ino', f') =
      (if e1 \<noteq> 0 \<or> e2 \<noteq> 0 then (rc, k2, i2, note_errno rc (if e1 = 0 then e2 else e1) f)
       else (0, k2, i2\<lparr>nLock := nLock i2 + 1, nShared := 1, ino_eFileLock := SHARED_LOCK\<rparr>, f\<lparr>eFileLock := SHARED_LOCK\<rparr>))"
    using assms(1) unfolding lock_shared_def 1 prod.case 2 Let_def
    by (cases "e1 = 0"; cases "e2 = 0") auto
  show ?thesis
  proof (cases "e1 \<noteq> 0 \<or> e2 \<noteq> 0")
    case True
    then have "k' = k2" "ino' = i2" "f' = note_errno rc (if e1 = 0 then e2 else e1) f"
      using r [unfolded if_P [OF True]] by blast+
    then show ?thesis using E2(1) h2 c2 fl2 counts_same [of f' f] flags_same [of f' f] by (simp add: state_ok_def)
  next
    case False
    have "locked xs + locked ys \<le> 0" using c2 assms(7) s2 by (simp add: counts_ok_def)
    then have "locked xs = 0" "locked ys = 0" using locked_simps(4) [of xs] locked_simps(4) [of ys] by linarith+
    then have "counts_ok (i2\<lparr>nLock := nLock i2 + 1, nShared := 1, ino_eFileLock := SHARED_LOCK\<rparr>)
        (xs @ f\<lparr>eFileLock := SHARED_LOCK\<rparr> # ys)"
      using c2 assms(7) s2 by (auto simp: counts_ok_def)
    moreover have "flags_ok (i2\<lparr>nLock := nLock i2 + 1, nShared := 1, ino_eFileLock := SHARED_LOCK\<rparr>)
        (xs @ f\<lparr>eFileLock := SHARED_LOCK\<rparr> # ys)"
      using fl2 by (auto simp: flags_ok_def)
    ultimately show ?thesis using False r E2(1) got by (simp add: state_ok_def)
  qed
qed

lemma lock_write_ok:
  assumes "lock_write (setlk p) k ino f eLock = (rc, k', ino', f')" "ok k"
    and "held_ok ino (held k p)" "counts_ok ino (xs @ f # ys)" "flags_ok ino (xs @ f # ys)"
    and "eFileLock f = ino_eFileLock ino" "eFileLock f > 0" "eLock > eFileLock f"
    and "eLock = RESERVED_LOCK \<or> eLock = EXCLUSIVE_LOCK \<and> (\<not> bProcessLock ino \<longrightarrow> held k p PENDING_BYTE = F_WRLCK)"
  shows "ok k' \<and> state_ok (held k' p) ino' (xs @ f' # ys)"
proof -
  let ?l = "if eLock = RESERVED_LOCK then \<lparr>l_type = F_WRLCK, l_start = RESERVED_BYTE, l_len = 1\<rparr>
    else \<lparr>l_type = F_WRLCK, l_start = SHARED_FIRST, l_len = SHARED_SIZE\<rparr>"
  have "0 \<le> locked xs" "0 \<le> locked ys" "1 + locked xs + locked ys \<le> nShared ino"
    using assms(4,7) by (simp_all add: counts_ok_def)
  then have others: "nShared ino \<ge> 1" by linarith
  have nw: "\<forall>g \<in> set (xs @ ys). \<not> eFileLock g > 1"
  proof (cases "eFileLock f > 1")
    case True then show ?thesis using no_writers [OF assms(4)] by blast
  next
    case False then show ?thesis using assms(4,6) by (auto simp: counts_ok_def)
  qed
  then have w: "writers xs + writers ys = 0" unfolding writers_def by (simp add: filter_empty_conv)
  have raise: "counts_ok (i\<lparr>ino_eFileLock := l\<rparr>) (xs @ g\<lparr>eFileLock := l\<rparr> # ys)"
    if "counts_ok i (xs @ f # ys)" "1 < l" "l \<le> 4" "l = 4 \<Longrightarrow> nShared i = 1" "nShared i \<ge> 1" for i g l
    using that w nw assms(7) by (auto simp: counts_ok_def)
  have fl: "flags_ok (i\<lparr>ino_eFileLock := l\<rparr>) (xs @ g # ys)" if "flags_ok i (xs @ f # ys)" "ctrlFlags g = ctrlFlags f" for i l g
    using that by (auto simp: flags_ok_def)
  show ?thesis
  proof (cases "eLock = EXCLUSIVE_LOCK \<and> nShared ino > 1")
    case True
    then have r: "k' = k" "ino' = ino\<lparr>ino_eFileLock := 3\<rparr>" "f' = f\<lparr>eFileLock := 3\<rparr>"
      using assms(1) by (auto simp: lock_write_def)
    have "held_ok ino' (held k p)" using assms(3,6,7,9) True r by (auto simp: held_ok_def level_held_def)
    then show ?thesis using raise [OF assms(4), of 3 f] others fl [OF assms(5), of "f\<lparr>eFileLock := 3\<rparr>"] r assms(2)
      by (simp add: state_ok_def)
  next
    case False
    obtain e k1 i1 where 1: "unixFileLock (setlk p) k ino f ?l = (e, k1, i1)" by (rule prod_cases3)
    note E = file_lock_effect [OF 1 assms(2) held_process [OF assms(3)] flags_rdonly [OF assms(5)]]
    have fl1: "flags_ok i1 (xs @ f # ys)" by (rule effect_flags [OF E(2) assms(5)]) simp
    have c1: "counts_ok i1 (xs @ f # ys)" by (rule effect_counts [OF E(2) assms(4)])
    have n1: "nShared i1 = nShared ino" "ino_eFileLock i1 = ino_eFileLock ino" using effect_same [OF E(2)] by simp_all
    have r: "(rc, k', ino', f') = (if e = 0 then (0, k1, i1\<lparr>ino_eFileLock := eLock\<rparr>, f\<lparr>eFileLock := eLock\<rparr>)
        else let g = note_errno (sqliteErrorFromPosixError e SQLITE_IOERR_LOCK) e f in
          if eLock = EXCLUSIVE_LOCK then (sqliteErrorFromPosixError e SQLITE_IOERR_LOCK, k1, i1\<lparr>ino_eFileLock := 3\<rparr>, g\<lparr>eFileLock := 3\<rparr>)
          else (sqliteErrorFromPosixError e SQLITE_IOERR_LOCK, k1, i1, g))"
      using assms(1) False unfolding lock_write_def by (auto simp: 1 Let_def split: if_splits)
    show ?thesis
    proof (cases "e = 0")
      case True
      have "held_ok (i1\<lparr>ino_eFileLock := eLock\<rparr>) (held k1 p)"
      proof (cases "bProcessLock i1")
        case True then show ?thesis using effect_process [OF E(2)] by (simp add: held_ok_def)
      next
        case False
        then have "\<not> bProcessLock ino" "held k1 p = (\<lambda>b. if covers ?l b then l_type ?l else held k p b)"
          using effect_plain [OF E(2)] \<open>e = 0\<close> by auto
        then show ?thesis using assms(3,6-9) False
          by (auto simp: held_ok_def level_held_def covers_ranges)
      qed
      moreover have "counts_ok (i1\<lparr>ino_eFileLock := eLock\<rparr>) (xs @ f\<lparr>eFileLock := eLock\<rparr> # ys)"
        by (rule raise [OF c1]) (use assms(7-9) n1 others False in auto)
      ultimately show ?thesis using r True E(1) fl [OF fl1, of "f\<lparr>eFileLock := eLock\<rparr>"] by (simp add: state_ok_def)
    next
      case e: False
      have h: "held_ok i1 (held k1 p)" by (rule effect_held [OF E(2) assms(3) e])
      let ?g = "note_errno (sqliteErrorFromPosixError e SQLITE_IOERR_LOCK) e f"
      show ?thesis
      proof (cases "eLock = EXCLUSIVE_LOCK")
        case False
        then show ?thesis using r e E(1) h c1 fl1 counts_same [of ?g f] flags_same [of ?g f]
          by (simp add: state_ok_def Let_def)
      next
        case True
        have "i1 = ino" "held k1 p = held k p" if "\<not> bProcessLock i1" using effect_plain [OF E(2) that] e by auto
        then have "held_ok (i1\<lparr>ino_eFileLock := 3\<rparr>) (held k1 p)"
          using h assms(6-9) n1 True by (auto simp: held_ok_def level_held_def)
        then show ?thesis using r e True E(1) fl [OF fl1, of "?g\<lparr>eFileLock := 3\<rparr>" 3] raise [OF c1, of 3 ?g] n1 others
          by (simp add: state_ok_def Let_def)
      qed
    qed
  qed
qed

lemma unixLock_ok:
  assumes "unixLock (setlk p) k ino f eLock = (rc, k', ino', f')" "ok k"
    and "state_ok (held k p) ino (xs @ f # ys)"
    and "eLock \<in> {SHARED_LOCK, RESERVED_LOCK, EXCLUSIVE_LOCK}" "eFileLock f \<noteq> NO_LOCK \<or> eLock = SHARED_LOCK"
  shows "ok k' \<and> state_ok (held k' p) ino' (xs @ f' # ys)"
proof -
  from assms(3) have S: "held_ok ino (held k p)" "counts_ok ino (xs @ f # ys)" "flags_ok ino (xs @ f # ys)"
    by (simp_all add: state_ok_def)
  show ?thesis
  proof (cases "eFileLock f \<ge> eLock \<or> eFileLock f \<noteq> ino_eFileLock ino \<and> (ino_eFileLock ino \<ge> PENDING_LOCK \<or> eLock > SHARED_LOCK)")
    case True
    then show ?thesis using assms(1-3) by (auto simp: unixLock_def split: if_splits)
  next
    case go: False
    show ?thesis
    proof (cases "eLock = SHARED_LOCK \<and> (ino_eFileLock ino = SHARED_LOCK \<or> ino_eFileLock ino = RESERVED_LOCK)")
      case True
      then have "ino' = ino\<lparr>nShared := nShared ino + 1, nLock := nLock ino + 1\<rparr>" "f' = f\<lparr>eFileLock := SHARED_LOCK\<rparr>" "k' = k"
        using assms(1) go by (auto simp: unixLock_def)
      moreover have "eFileLock f = 0" using go True by auto
      ultimately show ?thesis using S True assms(2) counts_nonneg [OF S(2)]
        by (auto simp: state_ok_def held_ok_def counts_ok_def flags_ok_def)
    next
      case own: False
      let ?P = "eLock = SHARED_LOCK \<or> eLock = EXCLUSIVE_LOCK \<and> eFileLock f < PENDING_LOCK"
      let ?l = "\<lparr>l_type = if eLock = SHARED_LOCK then F_RDLCK else F_WRLCK, l_start = PENDING_BYTE, l_len = 1\<rparr>"
      obtain e k1 i1 where 1: "(if ?P then unixFileLock (setlk p) k ino f ?l else (0, k, ino)) = (e, k1, i1)"
        by (rule prod_cases3)
      have r: "(rc, k', ino', f') =
          (if e \<noteq> 0 then (sqliteErrorFromPosixError e SQLITE_IOERR_LOCK, k1, i1, note_errno (sqliteErrorFromPosixError e SQLITE_IOERR_LOCK) e f)
           else if eLock = SHARED_LOCK then lock_shared (setlk p) k1 i1 f else lock_write (setlk p) k1 i1 f eLock)"
        using assms(1) go own unfolding unixLock_def 1 prod.case Let_def by (auto split: if_splits)
      have E: "ok k1" "counts_ok i1 (xs @ f # ys)" "flags_ok i1 (xs @ f # ys)" "held_ok i1 (held k1 p)"
        "ino_eFileLock i1 = ino_eFileLock ino"
        "e = 0 \<Longrightarrow> eLock = EXCLUSIVE_LOCK \<Longrightarrow> \<not> bProcessLock i1 \<Longrightarrow> held k1 p PENDING_BYTE = F_WRLCK"
      proof -
        consider (no) "\<not> ?P" "e = 0" "k1 = k" "i1 = ino" | (yes) "?P" "unixFileLock (setlk p) k ino f ?l = (e, k1, i1)"
          using 1 by (auto split: if_splits)
        then have "ok k1 \<and> counts_ok i1 (xs @ f # ys) \<and> flags_ok i1 (xs @ f # ys) \<and> held_ok i1 (held k1 p) \<and>
          ino_eFileLock i1 = ino_eFileLock ino \<and>
          (e = 0 \<longrightarrow> eLock = EXCLUSIVE_LOCK \<longrightarrow> \<not> bProcessLock i1 \<longrightarrow> held k1 p PENDING_BYTE = F_WRLCK)"
        proof cases
          case no
          then show ?thesis using S assms(2) go by (auto simp: held_ok_def level_held_def)
        next
          case yes
          note E = file_lock_effect [OF yes(2) assms(2) held_process [OF S(1)] flags_rdonly [OF S(3)]]
          have lvl: "ino_eFileLock ino < PENDING_LOCK" "eLock = SHARED_LOCK \<Longrightarrow> ino_eFileLock ino = 0"
            using yes(1) go own by auto
          have pend: "held k1 p = (if e = 0 then (\<lambda>b. if b = PENDING_BYTE then l_type ?l else held k p b) else held k p)"
            "\<not> bProcessLock ino" if "\<not> bProcessLock i1"
            using effect_plain [OF E(2) that] that by (auto simp: covers_ranges fun_eq_iff)
          have "held_ok i1 (held k1 p)"
            using effect_process [OF E(2)] effect_same [OF E(2)] pend S(1) lvl(1)
            by (auto simp: held_ok_def level_held_def)
          moreover have "flags_ok i1 (xs @ f # ys)" by (rule effect_flags [OF E(2) S(3)]) simp
          ultimately show ?thesis
            using E(1) effect_counts [OF E(2) S(2)] effect_same [OF E(2)] pend by auto
        qed
        then show "ok k1" "counts_ok i1 (xs @ f # ys)" "flags_ok i1 (xs @ f # ys)" "held_ok i1 (held k1 p)"
          "ino_eFileLock i1 = ino_eFileLock ino"
          "e = 0 \<Longrightarrow> eLock = EXCLUSIVE_LOCK \<Longrightarrow> \<not> bProcessLock i1 \<Longrightarrow> held k1 p PENDING_BYTE = F_WRLCK"
          by blast+
      qed
      show ?thesis
      proof (cases "e = 0")
        case False
        let ?g = "note_errno (sqliteErrorFromPosixError e SQLITE_IOERR_LOCK) e f"
        show ?thesis using r False E counts_same [of ?g f] flags_same [of ?g f] by (simp add: state_ok_def)
      next
        case True
        show ?thesis
        proof (cases "eLock = SHARED_LOCK")
          case sh: True
          have "eFileLock f = 0" "ino_eFileLock i1 = 0" using sh go own E(5) by auto
          then show ?thesis using lock_shared_ok [of p k1 i1 f rc k' ino' f' xs ys] r True sh E by simp
        next
          case False
          then show ?thesis
            using lock_write_ok [of p k1 i1 f eLock rc k' ino' f' xs ys] r True E go assms(4,5) by auto
        qed
      qed
    qed
  qed
qed

lemma unlock_write_ok:
  assumes "unlock_write (setlk p) k ino f eLock = (rc, k', ino', f')" "ok k"
    and "state_ok (held k p) ino (xs @ f # ys)" "eFileLock f > SHARED_LOCK"
  shows "ok k' \<and> eFileLock f' = eFileLock f \<and> ctrlFlags f' = ctrlFlags f \<and>
    (rc = 0 \<longrightarrow> state_ok (held k' p) ino' (xs @ f\<lparr>eFileLock := SHARED_LOCK\<rparr> # ys)) \<and>
    (rc \<noteq> 0 \<longrightarrow> eLock \<noteq> SHARED_LOCK \<or> rc \<noteq> SQLITE_IOERR_UNLOCK \<longrightarrow> state_ok (held k' p) ino' (xs @ f' # ys))"
proof -
  from assms(3) have S: "held_ok ino (held k p)" "counts_ok ino (xs @ f # ys)" "flags_ok ino (xs @ f # ys)"
    by (simp_all add: state_ok_def)
  let ?l = "\<lparr>l_type = F_RDLCK, l_start = SHARED_FIRST, l_len = SHARED_SIZE\<rparr>"
  let ?m = "\<lparr>l_type = F_UNLCK, l_start = PENDING_BYTE, l_len = 2\<rparr>"
  obtain e1 k1 i1 where 1: "(if eLock = SHARED_LOCK then unixFileLock (setlk p) k ino f ?l else (0, k, ino)) = (e1, k1, i1)"
    by (rule prod_cases3)
  have E1: "ok k1" "process_held i1 (held k1 p)" "counts_ok i1 (xs @ f # ys)" "flags_ok i1 (xs @ f # ys)"
    "ino_eFileLock i1 = ino_eFileLock ino"
    "e1 \<noteq> 0 \<or> eLock \<noteq> SHARED_LOCK \<Longrightarrow> held_ok i1 (held k1 p)"
    "\<not> bProcessLock i1 \<Longrightarrow> shared_byte b \<Longrightarrow> held k1 p b \<noteq> F_UNLCK" for b
  proof -
    have lvl: "ino_eFileLock ino > 1" using S(2) assms(4) by (auto simp: counts_ok_def)
    consider (no) "eLock \<noteq> SHARED_LOCK" "e1 = 0" "k1 = k" "i1 = ino"
      | (yes) "eLock = SHARED_LOCK" "unixFileLock (setlk p) k ino f ?l = (e1, k1, i1)"
      using 1 by (auto split: if_splits)
    then have "ok k1 \<and> process_held i1 (held k1 p) \<and> counts_ok i1 (xs @ f # ys) \<and> flags_ok i1 (xs @ f # ys) \<and>
      ino_eFileLock i1 = ino_eFileLock ino \<and> (e1 \<noteq> 0 \<or> eLock \<noteq> SHARED_LOCK \<longrightarrow> held_ok i1 (held k1 p)) \<and>
      (\<not> bProcessLock i1 \<longrightarrow> (\<forall>b. shared_byte b \<longrightarrow> held k1 p b \<noteq> F_UNLCK))"
    proof cases
      case no
      then show ?thesis using S assms(2) held_process [OF S(1)] lvl by (auto simp: held_ok_def level_held_def)
    next
      case yes
      note E = file_lock_effect [OF yes(2) assms(2) held_process [OF S(1)] flags_rdonly [OF S(3)]]
      have "\<forall>b. shared_byte b \<longrightarrow> held k1 p b \<noteq> F_UNLCK" if "\<not> bProcessLock i1"
        using effect_plain [OF E(2) that] that S(1) lvl by (auto simp: covers_ranges held_ok_def level_held_def)
      moreover have "flags_ok i1 (xs @ f # ys)" by (rule effect_flags [OF E(2) S(3)]) simp
      ultimately show ?thesis
        using E(1) effect_process_held [OF E(2)] effect_counts [OF E(2) S(2)] effect_same [OF E(2)]
          effect_held [OF E(2) S(1)] yes(1) by auto
    qed
    then show "ok k1" "process_held i1 (held k1 p)" "counts_ok i1 (xs @ f # ys)" "flags_ok i1 (xs @ f # ys)"
      "ino_eFileLock i1 = ino_eFileLock ino"
      "e1 \<noteq> 0 \<or> eLock \<noteq> SHARED_LOCK \<Longrightarrow> held_ok i1 (held k1 p)"
      "\<not> bProcessLock i1 \<Longrightarrow> shared_byte b \<Longrightarrow> held k1 p b \<noteq> F_UNLCK" for b
      by blast+
  qed
  obtain e2 k2 i2 where 2: "unixFileLock (setlk p) k1 i1 f ?m = (e2, k2, i2)" by (rule prod_cases3)
  note E2 = file_lock_effect [OF 2 E1(1,2) flags_rdonly [OF E1(4)]]
  have c2: "counts_ok i2 (xs @ f # ys)" "flags_ok i2 (xs @ f # ys)"
    using effect_counts [OF E2(2) E1(3)] effect_flags [OF E2(2) E1(4)] by auto
  have r: "(rc, k', ino', f') =
      (if e1 \<noteq> 0 then (SQLITE_IOERR_RDLOCK, k1, i1, f\<lparr>lastErrno := e1\<rparr>)
       else if e2 = 0 then (0, k2, i2\<lparr>ino_eFileLock := SHARED_LOCK\<rparr>, f)
       else (SQLITE_IOERR_UNLOCK, k2, i2, f\<lparr>lastErrno := e2\<rparr>))"
    using assms(1) unfolding unlock_write_def 1 prod.case 2 by auto
  consider "e1 \<noteq> 0" | "e1 = 0" "e2 = 0" | "e1 = 0" "e2 \<noteq> 0" by blast
  then show ?thesis
  proof cases
    case 1
    then show ?thesis using r E1 counts_same [of "f\<lparr>lastErrno := e1\<rparr>" f] flags_same [of "f\<lparr>lastErrno := e1\<rparr>" f]
      by (simp add: state_ok_def)
  next
    case 2
    have "held_ok (i2\<lparr>ino_eFileLock := SHARED_LOCK\<rparr>) (held k2 p)"
      using effect_process [OF E2(2)] effect_plain [OF E2(2)] E1(7)
      by (auto simp: held_ok_def level_held_def covers_ranges RESERVED_BYTE_def [symmetric])
    moreover have "counts_ok (i2\<lparr>ino_eFileLock := SHARED_LOCK\<rparr>) (xs @ f\<lparr>eFileLock := SHARED_LOCK\<rparr> # ys)"
      using c2 no_writers [OF c2(1) assms(4)] assms(4) counts_nonneg [OF c2(1)] by (auto simp: counts_ok_def)
    ultimately show ?thesis using r 2 E2(1) c2 by (auto simp: state_ok_def flags_ok_def)
  next
    case 3
    have "held_ok i2 (held k2 p)" if "eLock \<noteq> SHARED_LOCK" using effect_held [OF E2(2) E1(6) 3(2)] that by simp
    then show ?thesis using r 3 E2(1) c2 counts_same [of "f\<lparr>lastErrno := e2\<rparr>" f] flags_same [of "f\<lparr>lastErrno := e2\<rparr>" f]
      by (simp add: state_ok_def)
  qed
qed

lemma closePendingFds_ok: "ok k \<Longrightarrow> ok (foldl (osClose p) k fds)"
  by (induction fds arbitrary: k) (auto simp: close_ok)

lemma unlock_shared_ok:
  assumes "unlock_shared (setlk p) (osClose p) k ino f = (rc, k', ino', f')" "ok k"
    and "state_ok (held k p) ino (xs @ f\<lparr>eFileLock := SHARED_LOCK\<rparr> # ys)"
  shows "ok k' \<and> state_ok (held k' p) ino' (xs @ f'\<lparr>eFileLock := NO_LOCK\<rparr> # ys) \<and>
    (rc \<noteq> 0 \<longrightarrow> eFileLock f' = NO_LOCK)"
proof -
  let ?i = "ino\<lparr>nShared := nShared ino - 1\<rparr>"
  let ?l = "\<lparr>l_type = F_UNLCK, l_start = 0, l_len = 0\<rparr>"
  from assms(3) have S: "held_ok ino (held k p)" "counts_ok ino (xs @ f\<lparr>eFileLock := SHARED_LOCK\<rparr> # ys)"
    "flags_ok ino (xs @ f # ys)"
    using flags_same [of "f\<lparr>eFileLock := SHARED_LOCK\<rparr>" f] by (simp_all add: state_ok_def)
  have l0: "0 \<le> locked xs" "0 \<le> locked ys" "1 + locked xs + locked ys \<le> nShared ino"
    using S(2) by (simp_all add: counts_ok_def)
  obtain e k1 i1 where 1: "(if nShared ?i = 0 then unixFileLock (setlk p) k ?i f ?l else (0, k, ?i)) = (e, k1, i1)"
    by (rule prod_cases3)
  let ?i2 = "i1\<lparr>ino_eFileLock := (if nShared ?i = 0 then 0 else ino_eFileLock i1), nLock := nLock i1 - 1\<rparr>"
  have st: "ok k1 \<and> held_ok ?i2 (held k1 p) \<and> counts_ok ?i2 (xs @ f\<lparr>eFileLock := 0\<rparr> # ys) \<and> flags_ok ?i2 (xs @ f # ys)"
  proof (cases "nShared ino = 1")
    case False
    then have "e = 0" "k1 = k" "i1 = ?i" using 1 by auto
    then show ?thesis using S False assms(2) l0 by (auto simp: held_ok_def counts_ok_def flags_ok_def)
  next
    case True
    then have 2: "unixFileLock (setlk p) k ?i f ?l = (e, k1, i1)" using 1 by simp
    have ph: "process_held ?i (held k p)" using held_process [OF S(1)] by (simp add: process_held_def)
    have fl: "flags_ok ?i (xs @ f # ys)" using S(3) by (auto simp: flags_ok_def)
    note E = file_lock_effect [OF 2 assms(2) ph flags_rdonly [OF fl]]
    have "nLock i1 = nLock ino + (if bProcessLock i1 \<and> \<not> bProcessLock ino then 1 else 0)" "nShared i1 = 0" "nRef i1 = nRef ino"
      "bProcessLock ino \<Longrightarrow> bProcessLock i1"
      using E(2) True by (auto simp: lock_effect_def)
    moreover have "\<not> eFileLock g > 1" if "g \<in> set (xs @ ys)" for g
    proof -
      have "locked xs = 0" "locked ys = 0" using l0 True by linarith+
      then have "eFileLock g = 0" using that by (auto simp: locked_def filter_empty_conv)
      then show ?thesis by simp
    qed
    ultimately have "counts_ok ?i2 (xs @ f\<lparr>eFileLock := 0\<rparr> # ys)"
      using S(2) True l0 by (auto simp: counts_ok_def)
    moreover have "flags_ok ?i2 (xs @ f # ys)"
      using effect_flags [OF E(2) fl] by (auto simp: flags_ok_def)
    moreover have "held_ok ?i2 (held k1 p)"
      using effect_process [OF E(2)] True by (auto simp: held_ok_def level_held_def)
    ultimately show ?thesis using E(1) by blast
  qed
  have r: "ino' = (if nLock ?i2 = 0 then ?i2\<lparr>ino_pUnused := []\<rparr> else ?i2) \<and>
      k' = (if nLock ?i2 = 0 then foldl (osClose p) k1 (ino_pUnused ?i2) else k1) \<and>
      f' = (if e = 0 then f else f\<lparr>lastErrno := e, eFileLock := NO_LOCK\<rparr>) \<and> (rc \<noteq> 0 \<longrightarrow> e \<noteq> 0)"
    using assms(1) 1 unfolding unlock_shared_def Let_def
    by (auto simp: closePendingFds_def split: if_splits prod.splits)
  have F: "counts_ok i (xs @ f'\<lparr>eFileLock := 0\<rparr> # ys) = counts_ok i (xs @ f\<lparr>eFileLock := 0\<rparr> # ys)"
    "flags_ok i (xs @ f'\<lparr>eFileLock := 0\<rparr> # ys) = flags_ok i (xs @ f # ys)" for i
    using r by (auto simp: counts_ok_def flags_ok_def)
  show ?thesis
  proof (cases "nLock ?i2 = 0")
    case False
    then show ?thesis using r st F by (auto simp: state_ok_def)
  next
    case True
    from st have c: "counts_ok ?i2 (xs @ f\<lparr>eFileLock := 0\<rparr> # ys)" by blast
    have "held_ok (?i2\<lparr>ino_pUnused := []\<rparr>) own" for own
      by (rule unlocked_held [of _ "xs @ f\<lparr>eFileLock := 0\<rparr> # ys"]) (use c True in \<open>simp_all add: counts_ok_def\<close>)
    moreover have "counts_ok (?i2\<lparr>ino_pUnused := []\<rparr>) (xs @ f\<lparr>eFileLock := 0\<rparr> # ys)"
      "flags_ok (?i2\<lparr>ino_pUnused := []\<rparr>) (xs @ f # ys)"
      using st by (auto simp: counts_ok_def flags_ok_def)
    moreover have "ok k'" using r st closePendingFds_ok True by simp
    ultimately show ?thesis using r True F by (auto simp: state_ok_def)
  qed
qed

lemma posixUnlock_ok:
  assumes "posixUnlock (setlk p) (osClose p) k ino f eLock = (rc, k', ino', f')" "ok k"
    and "state_ok (held k p) ino (xs @ f # ys)" "eLock \<in> {NO_LOCK, SHARED_LOCK}"
    and "eLock = NO_LOCK \<or> rc \<noteq> SQLITE_IOERR_UNLOCK"
  shows "ok k' \<and> state_ok (held k' p) ino' (xs @ f' # ys)"
proof (cases "eFileLock f \<le> eLock")
  case True
  then show ?thesis using assms(1-3) by (auto simp: posixUnlock_def)
next
  case False
  obtain rc1 k1 i1 f1 where 1: "(if eFileLock f > SHARED_LOCK then unlock_write (setlk p) k ino f eLock else (0, k, ino, f)) =
      (rc1, k1, i1, f1)" by (rule prod_cases4)
  have w: "ok k1 \<and> eFileLock f1 = eFileLock f \<and> ctrlFlags f1 = ctrlFlags f \<and>
    (rc1 = 0 \<longrightarrow> state_ok (held k1 p) i1 (xs @ f\<lparr>eFileLock := SHARED_LOCK\<rparr> # ys)) \<and>
    (rc1 \<noteq> 0 \<longrightarrow> eLock \<noteq> SHARED_LOCK \<or> rc1 \<noteq> SQLITE_IOERR_UNLOCK \<longrightarrow> state_ok (held k1 p) i1 (xs @ f1 # ys))"
  proof (cases "eFileLock f > SHARED_LOCK")
    case True
    then show ?thesis using unlock_write_ok [OF _ assms(2,3) True] 1 by simp
  next
    case no: False
    then have "eFileLock f = 1" using False by auto
    then have "f\<lparr>eFileLock := SHARED_LOCK\<rparr> = f" by simp
    then show ?thesis using 1 no assms(2,3) by auto
  qed
  note r = assms(1) [unfolded posixUnlock_def 1 prod.case if_not_P [OF False]]
  show ?thesis
  proof (cases "rc1 = 0")
    case rc1: False
    then show ?thesis using r w assms(4,5) by auto
  next
    case rc1: True
    have st: "state_ok (held k1 p) i1 (xs @ f1\<lparr>eFileLock := SHARED_LOCK\<rparr> # ys)"
      using w rc1 counts_same [of "f1\<lparr>eFileLock := SHARED_LOCK\<rparr>" "f\<lparr>eFileLock := SHARED_LOCK\<rparr>"]
        flags_same [of "f1\<lparr>eFileLock := SHARED_LOCK\<rparr>" "f\<lparr>eFileLock := SHARED_LOCK\<rparr>"]
      by (simp add: state_ok_def)
    show ?thesis
    proof (cases "eLock = NO_LOCK")
      case sh: False
      then have "k' = k1" "ino' = i1" "f' = f1\<lparr>eFileLock := SHARED_LOCK\<rparr>" using r rc1 assms(4) by auto
      then show ?thesis using st w by simp
    next
      case True
      obtain rc2 k2 i2 f2 where 2: "unlock_shared (setlk p) (osClose p) k1 i1 f1 = (rc2, k2, i2, f2)"
        by (rule prod_cases4)
      have "ok k2 \<and> state_ok (held k2 p) i2 (xs @ f2\<lparr>eFileLock := NO_LOCK\<rparr> # ys) \<and> (rc2 \<noteq> 0 \<longrightarrow> eFileLock f2 = NO_LOCK)"
        by (rule unlock_shared_ok [OF 2 _ st]) (use w in blast)
      moreover have "k' = k2" "ino' = i2" "f' = (if rc2 = 0 then f2\<lparr>eFileLock := NO_LOCK\<rparr> else f2)"
        using r rc1 True 2 by auto
      moreover have "f2\<lparr>eFileLock := NO_LOCK\<rparr> = f2" if "eFileLock f2 = NO_LOCK" using that by simp
      ultimately show ?thesis by (cases "rc2 = 0") metis+
    qed
  qed
qed

lemma unixClose_ok:
  assumes "unixClose (setlk p) (osClose p) k ino f = (k', ino')" "ok k" "state_ok (held k p) ino (xs @ f # ys)"
  shows "ok k' \<and> proc_ok (held k' p) \<lparr>inode = ino', files = xs @ ys\<rparr>"
proof -
  obtain rc k1 i1 f1 where 1: "posixUnlock (setlk p) (osClose p) k ino f NO_LOCK = (rc, k1, i1, f1)" by (rule prod_cases4)
  have st: "ok k1" "state_ok (held k1 p) i1 (xs @ f1 # ys)" using posixUnlock_ok [OF 1 assms(2,3)] by simp_all
  obtain i2 f2 where 2: "(if nLock i1 \<noteq> 0 then setPendingFd i1 f1 else (i1, f1)) = (i2, f2)" by (rule prod.exhaust)
  let ?i = "i2\<lparr>nRef := nRef i2 - 1\<rparr>"
  have i2: "state_ok own i1 fs \<longleftrightarrow> state_ok own i2 fs" "nLock i2 = nLock i1" "nRef i2 = nRef i1" for own fs
    using 2 by (auto simp: setPendingFd_def state_ok_unused split: if_splits)
  have st2: "state_ok (held k1 p) i2 (xs @ f1 # ys)" using st(2) i2(1) by blast
  have c: "counts_ok ?i (xs @ ys)" "flags_ok ?i (xs @ ys)"
    using st2 by (auto simp: state_ok_def counts_ok_def flags_ok_def split: if_splits)
  have n: "nRef ?i = int (length (xs @ ys))" using c(1) by (simp add: counts_ok_def)
  note r = assms(1) [unfolded unixClose_def unixUnlock_def 1 prod.case 2 releaseInodeInfo_def Let_def]
  have closed: "ok k \<Longrightarrow> ok (closeUnixFile (osClose p) k f2)" for k by (simp add: closeUnixFile_def close_ok)
  show ?thesis
  proof (cases "nRef ?i = 0")
    case True
    then have "ino' = None" "k' = closeUnixFile (osClose p) (foldl (osClose p) k1 (ino_pUnused i2)) f2"
      using r by (auto simp: closePendingFds_def)
    moreover have "xs @ ys = []" using n [unfolded True] unfolding of_nat_0_eq_iff by (metis length_0_conv)
    ultimately show ?thesis using closed closePendingFds_ok st(1) by (simp add: proc_ok_def)
  next
    case False
    then have e: "ino' = Some ?i" "k' = closeUnixFile (osClose p) k1 f2" "xs @ ys \<noteq> []" using r n by auto
    have "held_ok ?i (held k' p)"
    proof (cases "nLock i1 = 0")
      case True
      then show ?thesis using unlocked_held [OF c(1)] i2(2) by simp
    next
      case False
      then have "h f2 = -1" using 2 by (auto simp: setPendingFd_def)
      then show ?thesis using st2 e(2) by (auto simp: closeUnixFile_def state_ok_def held_ok_def)
    qed
    then show ?thesis using e closed st(1) c by (simp add: proc_ok_def)
  qed
qed

text \<open>The invariant holds along every run.\<close>

lemma lock_run_ok:
  "lock_run ok (\<lambda>k. held k p) (setlk p) (osClose p) k s \<Longrightarrow> ok k \<and> proc_ok (held k p) s"
proof (induction rule: lock_run.induct)
  case (opened k s f mem_ok ino)
  have "held_ok new_inode own" "counts_ok new_inode [f]" "flags_ok new_inode [f]"
    if "may_open f s" for own
    using that by (auto simp: new_inode_def may_open_def held_ok_def level_held_def counts_ok_def flags_ok_def)
  moreover have "held_ok (i\<lparr>nRef := nRef i + 1\<rparr>) own = held_ok i own"
    "counts_ok i fs \<Longrightarrow> counts_ok (i\<lparr>nRef := nRef i + 1\<rparr>) (f # fs)"
    "flags_ok i (files s) \<Longrightarrow> flags_ok (i\<lparr>nRef := nRef i + 1\<rparr>) (f # files s)"
    if "may_open f s" "inode s = Some i" for i own fs
    using that by (auto simp: may_open_def held_ok_def counts_ok_def flags_ok_def)
  ultimately show ?case using opened
    by (cases "inode s") (auto simp: proc_ok_def findInodeInfo_def split: if_splits)
next
  case (lock k ino xs f ys eLock rc k' ino' f')
  then show ?case using unixLock_ok [of p k ino f eLock rc k' ino' f' xs ys] by (auto simp: proc_ok_def state_ok_def)
next
  case (unlock k ino xs f ys eLock rc k' ino' f')
  then show ?case using posixUnlock_ok [of p k ino f eLock rc k' ino' f' xs ys]
    by (auto simp: proc_ok_def state_ok_def unixUnlock_def)
next
  case (closed k ino xs f ys k' ino')
  then show ?case using unixClose_ok [of p k ino f k' ino' xs ys] by (auto simp: proc_ok_def state_ok_def)
qed (auto simp: proc_ok_def)

lemma level_of:
  assumes "proc_ok (held k p) s" "f \<in> set (files s)" "eFileLock f > SHARED_LOCK"
  shows "\<exists>ino. inode s = Some ino \<and> ino_eFileLock ino = eFileLock f \<and> held_ok ino (held k p)"
  using assms by (cases "inode s") (auto simp: proc_ok_def counts_ok_def)

lemma locked_member: "f \<in> set fs \<Longrightarrow> eFileLock f > 0 \<Longrightarrow> locked fs \<ge> 1"
  by (auto simp: in_set_conv_decomp add_increasing add_increasing2)

lemma some_lock:
  assumes "proc_ok (held k p) s" "f \<in> set (files s)" "eFileLock f > NO_LOCK"
  shows "held k p SHARED_FIRST \<noteq> F_UNLCK"
proof -
  obtain ino where i: "inode s = Some ino" "held_ok ino (held k p)" "counts_ok ino (files s)"
    using assms by (cases "inode s") (auto simp: proc_ok_def)
  have "nShared ino \<ge> 1" using locked_member [OF assms(2,3)] i(3) by (simp add: counts_ok_def)
  then have "ino_eFileLock ino \<ge> 1" using i(3) by (auto simp: counts_ok_def)
  then show ?thesis using i(2) by (auto simp: held_ok_def level_held_def split: if_splits)
qed

lemma between_processes:
  assumes "lock_run ok (\<lambda>k. held k p) (setlk p) (osClose p) k s" "f \<in> set (files s)"
    and "lock_run ok (\<lambda>k. held k q) (setlk q) (osClose q) k t" "g \<in> set (files t)" "p \<noteq> q"
  shows "eFileLock f = EXCLUSIVE_LOCK \<Longrightarrow> eFileLock g = NO_LOCK"
    "\<not> (eFileLock f \<ge> PENDING_LOCK \<and> eFileLock g \<ge> PENDING_LOCK)"
    "\<not> (eFileLock f = RESERVED_LOCK \<and> eFileLock g = RESERVED_LOCK)"
proof -
  have P: "ok k" "proc_ok (held k p) s" "proc_ok (held k q) t"
    using lock_run_ok [OF assms(1)] lock_run_ok [OF assms(3)] by simp_all
  have x: "\<not> (held k p b = F_WRLCK \<and> held k q b \<noteq> F_UNLCK)" for b
    using exclusive [OF P(1) assms(5), of b] by auto
  have w: "eFileLock f > 1 \<Longrightarrow> held k p SHARED_FIRST = F_WRLCK \<or> level_held (eFileLock f) (held k p)"
    using level_of [OF P(2) assms(2)] by (auto simp: held_ok_def split: if_splits)
  have v: "eFileLock g > 1 \<Longrightarrow> held k q SHARED_FIRST = F_WRLCK \<or> level_held (eFileLock g) (held k q)"
    using level_of [OF P(3) assms(4)] by (auto simp: held_ok_def split: if_splits)
  have f0: "eFileLock f > 0 \<Longrightarrow> held k p SHARED_FIRST \<noteq> F_UNLCK" by (rule some_lock [OF P(2) assms(2)])
  have g0: "eFileLock g > 0 \<Longrightarrow> held k q SHARED_FIRST \<noteq> F_UNLCK" by (rule some_lock [OF P(3) assms(4)])
  have s: "\<not> (held k q SHARED_FIRST = F_WRLCK \<and> held k p SHARED_FIRST \<noteq> F_UNLCK)"
    using exclusive [OF P(1), of q p SHARED_FIRST] assms(5) by auto
  have fl: "level_held (eFileLock f) (held k p)" if "eFileLock f > 1" "eFileLock g > 0" 
    using w that x [of SHARED_FIRST] g0 by auto
  have gl: "level_held (eFileLock g) (held k q)" if "eFileLock g > 1" "eFileLock f > 0" 
    using v that s f0 by auto
  show "eFileLock f = EXCLUSIVE_LOCK \<Longrightarrow> eFileLock g = NO_LOCK"
    using fl x [of SHARED_FIRST] g0 by (cases "eFileLock g") (auto simp: level_held_def)
  show "\<not> (eFileLock f \<ge> PENDING_LOCK \<and> eFileLock g \<ge> PENDING_LOCK)"
    using fl gl x [of PENDING_BYTE] by (auto simp: level_held_def)
  show "\<not> (eFileLock f = RESERVED_LOCK \<and> eFileLock g = RESERVED_LOCK)"
    using fl gl x [of RESERVED_BYTE] by (auto simp: level_held_def)
qed

lemma within_process:
  assumes "lock_run ok (\<lambda>k. held k p) (setlk p) (osClose p) k \<lparr>inode = io, files = xs @ f # ys\<rparr>"
    and "g \<in> set (xs @ ys)" "eFileLock f > SHARED_LOCK"
  shows "eFileLock g \<le> SHARED_LOCK" "eFileLock f = EXCLUSIVE_LOCK \<Longrightarrow> eFileLock g = NO_LOCK"
proof -
  obtain ino where c: "counts_ok ino (xs @ f # ys)"
    using lock_run_ok [OF assms(1)] by (cases io) (auto simp: proc_ok_def)
  show "eFileLock g \<le> SHARED_LOCK" using no_writers(3) [OF c assms(3)] assms(2) unfolding linorder_not_less by blast
  assume "eFileLock f = EXCLUSIVE_LOCK"
  then have "ino_eFileLock ino = EXCLUSIVE_LOCK" using c by (auto simp: counts_ok_def)
  then have "1 + locked (xs @ ys) \<le> 1" using c \<open>eFileLock f = EXCLUSIVE_LOCK\<close> by (simp add: counts_ok_def)
  then show "eFileLock g = NO_LOCK" using locked_member [OF assms(2)] by (cases "eFileLock g") auto
qed

end

section \<open>Seeing the reserved lock of another process\<close>

text \<open>\<^verbatim>\<open>F_GETLK\<close> misses no lock of another process that would stand in the way of a write lock.\<close>

locale posix_getlk = posix_locks ok held setlk osClose
  for ok :: "'k \<Rightarrow> bool" and held :: "'k \<Rightarrow> 'p \<Rightarrow> nat \<Rightarrow> lock_type" and setlk and osClose +
  fixes getlk :: "'p \<Rightarrow> 'k \<Rightarrow> int \<Rightarrow> flock \<Rightarrow> nat \<times> bool"
  assumes getlk_sees: "ok k \<Longrightarrow> getlk p k fd l = (0, busy) \<Longrightarrow> l_type l = F_WRLCK \<Longrightarrow> covers l b \<Longrightarrow> q \<noteq> p \<Longrightarrow>
      held k q b \<noteq> F_UNLCK \<Longrightarrow> busy"
begin

text \<open>A connection that holds a lock and asks is told of a reserved lock of another process.\<close>

lemma reserved_lock_seen:
  assumes "lock_run ok (\<lambda>k. held k p) (setlk p) (osClose p) k s" "inode s = Some ino" "f \<in> set (files s)"
    and "lock_run ok (\<lambda>k. held k q) (setlk q) (osClose q) k t" "g \<in> set (files t)" "p \<noteq> q"
    and "eFileLock f > NO_LOCK" "eFileLock g = RESERVED_LOCK"
    and "unixCheckReservedLock (getlk p) k ino f = (0, b)"
  shows b
proof -
  have P: "ok k" "proc_ok (held k p) s" "proc_ok (held k q) t"
    using lock_run_ok [OF assms(1)] lock_run_ok [OF assms(4)] by simp_all
  have f0: "held k p SHARED_FIRST \<noteq> F_UNLCK" by (rule some_lock [OF P(2) assms(3,7)])
  have g0: "held k q SHARED_FIRST \<noteq> F_UNLCK" by (rule some_lock [OF P(3) assms(5)]) (simp add: assms(8))
  obtain jno where j: "ino_eFileLock jno = RESERVED_LOCK" "held_ok jno (held k q)"
    using level_of [OF P(3) assms(5)] assms(8) by auto
  have "held k q SHARED_FIRST \<noteq> F_WRLCK" using exclusive [OF P(1), of q p SHARED_FIRST] assms(6) f0 by auto
  then have r: "held k q RESERVED_BYTE = F_WRLCK"
    using j by (auto simp: held_ok_def level_held_def split: if_splits)
  have "held k p SHARED_FIRST \<noteq> F_WRLCK" using exclusive [OF P(1) assms(6)] g0 by auto
  then have "\<not> bProcessLock ino" using P(2) assms(2) by (auto simp: proc_ok_def held_ok_def)
  moreover have "covers \<lparr>l_type = F_WRLCK, l_start = RESERVED_BYTE, l_len = 1\<rparr> RESERVED_BYTE" by (simp add: covers_def)
  ultimately show ?thesis
    using assms(9) getlk_sees [OF P(1), of p "h f" "\<lparr>l_type = F_WRLCK, l_start = RESERVED_BYTE, l_len = 1\<rparr>" _ RESERVED_BYTE q] r assms(6)
    by (auto simp: unixCheckReservedLock_def split: if_splits prod.splits)
qed

end

end
