(* ===== verification/UnixLockRun.thy ===== *)
theory UnixLockRun
  imports UnixLockInv
begin

text \<open>
  The properties of the file locks, the kernel table on which the locales of the previous
  theory are interpreted, and runs on it: one in which a connection becomes exclusive, and
  one that shows why read-only handles must not be mixed with the exclusive mode.
\<close>

section \<open>A kernel with advisory locks\<close>

text \<open>A kernel that keeps the locks of one file as a list of ranges, each with its process, its
  first byte, the byte after its last one and its type. A request gives up what the process
  holds in the range and then holds all of it.\<close>

type_synonym lock_table = "(nat \<times> nat \<times> nat \<times> lock_type) list"

definition nonempty :: "lock_table \<Rightarrow> lock_table" where
  "nonempty es = filter (\<lambda>(q, s, e, t). s < e) es"

definition cut :: "nat \<Rightarrow> flock \<Rightarrow> lock_table \<Rightarrow> lock_table" where
  "cut p l k = concat (map (\<lambda>(q, s, e, t).
     if q \<noteq> p then [(q, s, e, t)]
     else nonempty ((p, s, min e (l_start l), t) #
       (if l_len l = 0 then [] else [(p, max s (l_start l + l_len l), e, t)]))) k)"

definition conflict :: "nat \<Rightarrow> flock \<Rightarrow> nat \<times> nat \<times> nat \<times> lock_type \<Rightarrow> bool" where
  "conflict p l = (\<lambda>(q, s, e, t). q \<noteq> p \<and> l_start l < e \<and> s < l_start l + l_len l \<and>
     (t = F_WRLCK \<or> l_type l = F_WRLCK))"

definition table_setlk :: "nat \<Rightarrow> lock_table fcntl" where
  "table_setlk p k fd l =
     (if l_type l = F_UNLCK then (0, cut p l k)
      else if l_len l = 0 then (22, k)
      else if list_ex (conflict p l) k then (11, k)
      else (0, (p, l_start l, l_start l + l_len l, l_type l) # cut p l k))"

definition table_close :: "nat \<Rightarrow> lock_table \<Rightarrow> int \<Rightarrow> lock_table" where
  "table_close p k fd = filter (\<lambda>(q, _). q \<noteq> p) k"

fun table_held :: "lock_table \<Rightarrow> nat \<Rightarrow> nat \<Rightarrow> lock_type" where
  "table_held [] p b = F_UNLCK"
| "table_held ((q, s, e, t) # k) p b = (if q = p \<and> s \<le> b \<and> b < e then t else table_held k p b)"

definition table_ok :: "lock_table \<Rightarrow> bool" where
  "table_ok k \<longleftrightarrow> (\<forall>p q b. p \<noteq> q \<longrightarrow> table_held k p b = F_WRLCK \<longrightarrow> table_held k q b = F_UNLCK)"

lemma table_held_append: "table_held (es @ k) p b =
   (if \<exists>(q, s, e, t) \<in> set es. q = p \<and> s \<le> b \<and> b < e then table_held es p b else table_held k p b)"
proof (induction es)
  case (Cons x es)
  obtain r s e t where "x = (r, s, e, t)" by (rule prod_cases4)
  then show ?case using Cons by simp
qed simp

lemma cut_held: "table_held (cut p l k) q b = (if q = p \<and> covers l b then F_UNLCK else table_held k q b)"
proof (induction k)
  case (Cons x k)
  obtain r s e t where x: "x = (r, s, e, t)" by (rule prod_cases4)
  have "cut p l (x # k) = (if r \<noteq> p then [(r, s, e, t)] else nonempty ((p, s, min e (l_start l), t) #
       (if l_len l = 0 then [] else [(p, max s (l_start l + l_len l), e, t)]))) @ cut p l k"
    by (simp add: cut_def x)
  then show ?case using Cons by (auto simp: x nonempty_def covers_def table_held_append)
qed (simp add: cut_def)

lemma held_entry: "table_held k q b \<noteq> F_UNLCK \<Longrightarrow> \<exists>s e. (q, s, e, table_held k q b) \<in> set k \<and> s \<le> b \<and> b < e"
  by (induction k q b rule: table_held.induct) (auto split: if_splits)

lemma no_conflict:
  assumes "\<not> list_ex (conflict p l) k" "covers l b" "l_len l \<noteq> 0" "q \<noteq> p"
  shows "table_held k q b \<noteq> F_WRLCK" "l_type l = F_WRLCK \<Longrightarrow> table_held k q b = F_UNLCK"
proof -
  have "False" if "table_held k q b \<noteq> F_UNLCK" "table_held k q b = F_WRLCK \<or> l_type l = F_WRLCK"
    using held_entry [OF that(1)] that(2) assms by (auto simp: list_ex_iff conflict_def covers_def)
  then show "table_held k q b \<noteq> F_WRLCK" "l_type l = F_WRLCK \<Longrightarrow> table_held k q b = F_UNLCK" by auto
qed

lemma set_held: "table_setlk p k fd l = (e, k') \<Longrightarrow>
  table_held k' q b = (if e = 0 \<and> q = p \<and> covers l b then l_type l else table_held k q b)"
  by (auto simp: table_setlk_def cut_held covers_def split: if_splits)

lemma close_held: "table_held (table_close p k fd) q b = (if q = p then F_UNLCK else table_held k q b)"
proof (induction k)
  case (Cons x k)
  obtain r s e t where "x = (r, s, e, t)" by (rule prod_cases4)
  then show ?case using Cons by (cases "q = p") (auto simp: table_close_def)
qed (simp add: table_close_def)

interpretation kernel: posix_locks table_ok table_held table_setlk table_close
proof
  fix k p q b
  show "table_ok k \<Longrightarrow> p \<noteq> q \<Longrightarrow> table_held k p b = F_WRLCK \<Longrightarrow> table_held k q b = F_UNLCK"
    by (auto simp: table_ok_def)
next
  fix k p fd l e k' assume ok: "table_ok k" and r: "table_setlk p k fd l = (e, k')"
  show "table_ok k'"
  proof (cases "e = 0 \<and> l_type l \<noteq> F_UNLCK")
    case False
    then show ?thesis using ok unfolding table_ok_def set_held [OF r] by auto
  next
    case True
    then have "\<not> list_ex (conflict p l) k" "l_len l \<noteq> 0" using r by (auto simp: table_setlk_def split: if_splits)
    then show ?thesis using ok no_conflict [of p l k] unfolding table_ok_def set_held [OF r] by auto
  qed
next
  fix k p fd l k' b assume "table_setlk p k fd l = (0, k')"
  then show "table_held k' p b = (if covers l b then l_type l else table_held k p b)" by (simp add: set_held)
next
  fix k p fd l e k' assume "table_setlk p k fd l = (e, k')" "e \<noteq> 0"
  then show "table_held k' p = table_held k p" by (simp add: set_held fun_eq_iff)
next
  fix k p fd assume "table_ok k"
  then show "table_ok (table_close p k fd)" by (auto simp: table_ok_def close_held)
qed

text \<open>A run of process 1 with two connections, the first of which becomes exclusive.\<close>

abbreviation (input) ex_file :: "nat \<Rightarrow> unixFile" where
  "ex_file l \<equiv> \<lparr>h = 3, eFileLock = l, ctrlFlags = 0, lastErrno = 0\<rparr>"

abbreviation (input) ex_inode :: "int \<Rightarrow> nat \<Rightarrow> unixInodeInfo" where
  "ex_inode n l \<equiv> \<lparr>nShared = n, ino_eFileLock = l, bProcessLock = False, nRef = 2, nLock = n, ino_pUnused = []\<rparr>"

abbreviation (input) ex_proc :: "int \<Rightarrow> nat \<Rightarrow> proc" where
  "ex_proc n l \<equiv> \<lparr>inode = Some (ex_inode n l), files = [] @ ex_file l # [ex_file 0]\<rparr>"

abbreviation (input) table_run :: "nat \<Rightarrow> lock_table \<Rightarrow> proc \<Rightarrow> bool" where
  "table_run p \<equiv> lock_run table_ok (\<lambda>k. table_held k p) (table_setlk p) (table_close p)"

lemma example_open: "table_run p [] (ex_proc 0 0)"
proof -
  have "table_run p [] \<lparr>inode = None, files = []\<rparr>" by (rule lock_run.start) (simp add: table_ok_def)
  then have "table_run p [] \<lparr>inode = Some new_inode, files = ex_file 0 # files \<lparr>inode = None, files = []\<rparr>\<rparr>"
    by (rule lock_run.opened [where mem_ok = True]) (simp_all add: may_open_def findInodeInfo_def)
  then have "table_run p [] \<lparr>inode = Some new_inode, files = [ex_file 0]\<rparr>" by simp
  then have "table_run p [] \<lparr>inode = Some (ex_inode 0 0), files = ex_file 0 # files \<lparr>inode = Some new_inode, files = [ex_file 0]\<rparr>\<rparr>"
    by (rule lock_run.opened) (simp_all add: may_open_def new_inode_def findInodeInfo_def)
  then show ?thesis by simp
qed

lemmas evaluate_locks = unixLock_def unixFileLock_def lock_shared_def lock_write_def table_setlk_def cut_def nonempty_def
  conflict_def SHARED_FIRST_def SHARED_SIZE_def PENDING_BYTE_def

lemma example_run: "\<exists>k. table_run 1 k (ex_proc 1 4) \<and> table_run 2 k (ex_proc 0 0)"
proof -
  let ?k1 = "[(1, SHARED_FIRST, SHARED_FIRST + SHARED_SIZE, F_RDLCK)]"
  let ?k2 = "[(1, SHARED_FIRST, SHARED_FIRST + SHARED_SIZE, F_WRLCK), (1, PENDING_BYTE, PENDING_BYTE + 1, F_WRLCK)]"
  have 1: "unixLock (table_setlk 1) [] (ex_inode 0 0) (ex_file 0) SHARED_LOCK = (0, ?k1, ex_inode 1 1, ex_file 1)"
    by (simp add: evaluate_locks)
  have 2: "unixLock (table_setlk 1) ?k1 (ex_inode 1 1) (ex_file 1) EXCLUSIVE_LOCK = (0, ?k2, ex_inode 1 4, ex_file 4)"
    by (simp add: evaluate_locks)
  have r1: "table_run 1 ?k1 (ex_proc 1 1)" by (rule lock_run.lock [OF example_open _ _ 1]) auto
  have r2: "table_run 1 ?k2 (ex_proc 1 4)" by (rule lock_run.lock [OF r1 _ _ 2]) auto
  have own: "table_held ?k2 2 = table_held [] 2" by (simp add: fun_eq_iff)
  have r3: "table_run 2 ?k2 (ex_proc 0 0)"
    by (rule lock_run.environment [OF example_open _ own]) (use kernel.lock_run_ok [OF r2] in blast)
  show ?thesis using r2 r3 by blast
qed

definition table_getlk :: "nat \<Rightarrow> lock_table \<Rightarrow> int \<Rightarrow> flock \<Rightarrow> nat \<times> bool" where
  "table_getlk p k fd l = (0, list_ex (\<lambda>(q, s, e, t). q \<noteq> p \<and> l_start l < e \<and> (l_len l = 0 \<or> s < l_start l + l_len l)) k)"

interpretation kernel: posix_getlk table_ok table_held table_setlk table_close table_getlk
proof
  fix k p fd l busy b q
  assume "table_getlk p k fd l = (0, busy)" "covers l b" "q \<noteq> p" "table_held k q b \<noteq> F_UNLCK"
  then show busy using held_entry [of k q b] by (fastforce simp: table_getlk_def list_ex_iff covers_def)
qed

section \<open>Levels and result codes\<close>

lemma lock_shared_code:
  assumes "lock_shared osFcntl k ino f = (rc, k', ino', f')"
  shows "(rc = 0 \<longrightarrow> eFileLock f' = SHARED_LOCK) \<and> (rc \<noteq> 0 \<longrightarrow> eFileLock f' = eFileLock f)"
proof -
  obtain e1 k1 i1 where 1: "unixFileLock osFcntl k ino f \<lparr>l_type = F_RDLCK, l_start = SHARED_FIRST, l_len = SHARED_SIZE\<rparr> =
      (e1, k1, i1)" by (rule prod_cases3)
  obtain e2 k2 i2 where 2: "unixFileLock osFcntl k1 i1 f \<lparr>l_type = F_UNLCK, l_start = PENDING_BYTE, l_len = 1\<rparr> =
      (e2, k2, i2)" by (rule prod_cases3)
  show ?thesis using assms unfolding lock_shared_def 1 prod.case 2 Let_def
    by (cases "e1 = 0"; cases "e2 = 0") auto
qed

lemma lock_write_code:
  assumes "lock_write osFcntl k ino f eLock = (rc, k', ino', f')"
  shows "(rc = 0 \<longrightarrow> eFileLock f' = eLock) \<and>
    (rc \<noteq> 0 \<longrightarrow> eFileLock f' = eFileLock f \<or> eLock = EXCLUSIVE_LOCK \<and> eFileLock f' = PENDING_LOCK)"
  using assms unfolding lock_write_def Let_def by (auto split: if_splits prod.splits)

lemma unixLock_code:
  assumes "unixLock osFcntl k ino f eLock = (rc, k', ino', f')"
  shows "(rc = 0 \<longrightarrow> eFileLock f' = max (eFileLock f) eLock) \<and>
    (rc \<noteq> 0 \<longrightarrow> eFileLock f' = eFileLock f \<or> eLock = EXCLUSIVE_LOCK \<and> eFileLock f' = PENDING_LOCK)"
proof (cases "eFileLock f \<ge> eLock")
  case True then show ?thesis using assms by (auto simp: unixLock_def)
next
  case False
  then have m: "max (eFileLock f) eLock = eLock" by simp
  let ?P = "eLock = SHARED_LOCK \<or> eLock = EXCLUSIVE_LOCK \<and> eFileLock f < PENDING_LOCK"
  let ?l = "\<lparr>l_type = if eLock = SHARED_LOCK then F_RDLCK else F_WRLCK, l_start = PENDING_BYTE, l_len = 1\<rparr>"
  obtain e k1 i1 where 1: "(if ?P then unixFileLock osFcntl k ino f ?l else (0, k, ino)) = (e, k1, i1)"
    by (rule prod_cases3)
  note r = assms [unfolded unixLock_def 1 prod.case Let_def if_not_P [OF False]]
  consider "rc = SQLITE_BUSY" "f' = f" | "eLock = SHARED_LOCK" "rc = 0" "f' = f\<lparr>eFileLock := SHARED_LOCK\<rparr>"
    | "rc = sqliteErrorFromPosixError e SQLITE_IOERR_LOCK" "f' = note_errno rc e f"
    | "eLock = SHARED_LOCK" "lock_shared osFcntl k1 i1 f = (rc, k', ino', f')"
    | "lock_write osFcntl k1 i1 f eLock = (rc, k', ino', f')"
    using r by (auto split: if_splits)
  then show ?thesis
  proof cases
    case 4 then show ?thesis using lock_shared_code [OF 4(2)] unfolding m by simp
  next
    case 5 then show ?thesis unfolding m by (rule lock_write_code)
  qed (use m in \<open>auto simp: max_def\<close>)
qed

lemma unlock_write_code:
  "unlock_write osFcntl k ino f eLock = (rc, k', ino', f') \<Longrightarrow> eFileLock f' = eFileLock f"
  unfolding unlock_write_def by (auto split: if_splits prod.splits)

lemma unlock_shared_code:
  "unlock_shared osFcntl osClose k ino f = (rc, k', ino', f') \<Longrightarrow>
   eFileLock f' = eFileLock f \<or> rc \<noteq> 0 \<and> eFileLock f' = NO_LOCK"
  unfolding unlock_shared_def Let_def by (auto split: if_splits prod.splits)

lemma posixUnlock_code:
  assumes "posixUnlock osFcntl osClose k ino f eLock = (rc, k', ino', f')"
  shows "(rc = 0 \<longrightarrow> eFileLock f' = min (eFileLock f) eLock) \<and> eFileLock f' \<le> eFileLock f"
proof (cases "eFileLock f \<le> eLock")
  case True then show ?thesis using assms by (auto simp: posixUnlock_def)
next
  case False
  show ?thesis using assms False unfolding posixUnlock_def
    by (auto split: if_splits prod.splits dest!: unlock_write_code unlock_shared_code)
qed

section \<open>Properties\<close>

text \<open>C3. Locks exclude each other between processes. Take any two processes on the same file,
  each after any run of lock, unlock, open and close requests by any number of connections,
  with the rest of the world changing the kernel's locks at any moment. A connection of
  one with an exclusive lock leaves no lock to any connection of the other; they never both
  hold reserved locks, and never both pending or exclusive ones. This holds of runs
  in which the handles of a process do not mix read-only ones with the exclusive mode
  (\<open>may_open\<close>), without which it is false (\<open>exclusive_mode_undone\<close>); a run ends when a downgrade to
  the shared level fails with \<^verbatim>\<open>SQLITE_IOERR_UNLOCK\<close>, as the level of the connection is then not trusted.\<close>

theorem locks_exclude_processes:
  assumes "posix_locks ok held setlk osClose" "p \<noteq> q"
    and "lock_run ok (\<lambda>k. held k p) (setlk p) (osClose p) k s" "f \<in> set (files s)"
    and "lock_run ok (\<lambda>k. held k q) (setlk q) (osClose q) k t" "g \<in> set (files t)"
  shows "(eFileLock f = EXCLUSIVE_LOCK \<longrightarrow> eFileLock g = NO_LOCK) \<and>
    \<not> (eFileLock f \<ge> PENDING_LOCK \<and> eFileLock g \<ge> PENDING_LOCK) \<and>
    \<not> (eFileLock f = RESERVED_LOCK \<and> eFileLock g = RESERVED_LOCK)"
  using posix_locks.between_processes [OF assms(1,3-6,2)] by blast

lemma locks_exclude_processes_witness:
  "\<exists>k s t f g. table_run 1 k s \<and> f \<in> set (files s) \<and> table_run 2 k t \<and> g \<in> set (files t) \<and>
     eFileLock f = EXCLUSIVE_LOCK \<and> eFileLock g = NO_LOCK"
proof -
  obtain k where r: "table_run 1 k (ex_proc 1 4)" "table_run 2 k (ex_proc 0 0)" using example_run by blast
  have m: "ex_file 4 \<in> set (files (ex_proc 1 4))" "ex_file 0 \<in> set (files (ex_proc 0 0))" "(1 :: nat) \<noteq> 2"
    by simp_all
  note x = locks_exclude_processes [OF kernel.posix_locks_axioms m(3) r(1) m(1) r(2) m(2)]
  show ?thesis
  proof (intro exI conjI)
    show "ex_file 4 \<in> set (files (ex_proc 1 4))" by (rule m(1))
    show "ex_file 0 \<in> set (files (ex_proc 0 0))" by (rule m(2))
    show "eFileLock (ex_file 0) = NO_LOCK" using x by simp
  qed (rule r(1), rule r(2), simp)
qed

text \<open>C12. Locks exclude each other within a process, whose kernel locks do not: of the
  connections of one process at most one is above the shared level, and when one is
  exclusive the others hold nothing. (In runs with the restrictions that
  the exclusion between processes has: handles that are read-only are not mixed with the exclusive
  mode, and a run ends when a downgrade to the shared level fails with \<^verbatim>\<open>SQLITE_IOERR_UNLOCK\<close>.)\<close>

theorem locks_exclude_connections:
  assumes "posix_locks ok held setlk osClose"
    and "lock_run ok (\<lambda>k. held k p) (setlk p) (osClose p) k \<lparr>inode = io, files = xs @ f # ys\<rparr>"
    and "g \<in> set (xs @ ys)" "eFileLock f > SHARED_LOCK"
  shows "eFileLock g \<le> SHARED_LOCK \<and> (eFileLock f = EXCLUSIVE_LOCK \<longrightarrow> eFileLock g = NO_LOCK)"
  using posix_locks.within_process [OF assms] by blast

lemma locks_exclude_connections_witness:
  "\<exists>k. table_run 1 k (ex_proc 1 4) \<and> eFileLock (ex_file 0) = NO_LOCK"
proof -
  obtain k where r: "table_run 1 k (ex_proc 1 4)" using example_run by blast
  have "ex_file 0 \<in> set ([] @ [ex_file 0])" "eFileLock (ex_file 4) > SHARED_LOCK" by simp_all
  from locks_exclude_connections [OF kernel.posix_locks_axioms r this] r show ?thesis by auto
qed

text \<open>C25. The outcome of a request is what its result code says, whatever the operating system
  answers. A connection that asks for a lock and is told that it has it has at least that
  level; when it is told otherwise its level is unchanged, but for a request for an
  exclusive lock that got as far as the pending level. A connection that lowers its lock
  with success is at the level it asked for, and never ends above the level it had.\<close>

theorem lock_result_code:
  "(\<forall>rc k' ino' f'. unixLock osFcntl k ino f eLock = (rc, k', ino', f') \<longrightarrow>
      (rc = 0 \<longrightarrow> eFileLock f' = max (eFileLock f) eLock) \<and>
      (rc \<noteq> 0 \<longrightarrow> eFileLock f' = eFileLock f \<or> eLock = EXCLUSIVE_LOCK \<and> eFileLock f' = PENDING_LOCK)) \<and>
   (\<forall>rc k' ino' f'. unixUnlock osFcntl osClose k ino f eLock = (rc, k', ino', f') \<longrightarrow>
      (rc = 0 \<longrightarrow> eFileLock f' = min (eFileLock f) eLock) \<and> eFileLock f' \<le> eFileLock f)"
  unfolding unixUnlock_def
  by (rule conjI; (rule allI)+; rule impI) (erule unixLock_code posixUnlock_code)+

lemma lock_result_code_witness:
  "eFileLock (snd (snd (snd (unixLock (table_setlk 1) [] (ex_inode 0 0) (ex_file 0) SHARED_LOCK)))) = SHARED_LOCK"
proof -
  have e: "unixLock (table_setlk 1) [] (ex_inode 0 0) (ex_file 0) SHARED_LOCK =
      (0, [(1, SHARED_FIRST, SHARED_FIRST + SHARED_SIZE, F_RDLCK)], ex_inode 1 1, ex_file 1)"
    by (simp add: evaluate_locks)
  have "eFileLock (ex_file 1) = max (eFileLock (ex_file 0)) SHARED_LOCK"
    using lock_result_code [THEN conjunct1, THEN spec, THEN spec, THEN spec, THEN spec, THEN mp, OF e] by blast
  then show ?thesis unfolding e by simp
qed

section \<open>A read-only handle undoes the exclusive mode\<close>

text \<open>Why read-only handles and the exclusive mode must not be mixed. In a process with a
  connection in the exclusive mode and a read-only one, the read-only one passes its request
  for a read lock on to the kernel, which replaces the write lock of the process by it. The
  flag of the process lock stays, so the other connection becomes exclusive without asking
  the kernel, and a second process reads at the same time.\<close>

abbreviation (input) excl_file :: "nat \<Rightarrow> unixFile" where
  "excl_file l \<equiv> \<lparr>h = 3, eFileLock = l, ctrlFlags = UNIXFILE_EXCL, lastErrno = 0\<rparr>"

abbreviation (input) rdonly_file :: "nat \<Rightarrow> unixFile" where
  "rdonly_file l \<equiv> \<lparr>h = 4, eFileLock = l, ctrlFlags = UNIXFILE_RDONLY, lastErrno = 0\<rparr>"

abbreviation (input) excl_inode :: "int \<Rightarrow> int \<Rightarrow> nat \<Rightarrow> unixInodeInfo" where
  "excl_inode m n l \<equiv> \<lparr>nShared = m, ino_eFileLock = l, bProcessLock = True, nRef = 2, nLock = n, ino_pUnused = []\<rparr>"

lemma exclusive_mode_undone:
  "\<exists>k1 k3 k7.
     unixLock (table_setlk 1) [] (ex_inode 0 0) (excl_file 0) SHARED_LOCK = (0, k1, excl_inode 1 2 1, excl_file 1) \<and>
     unixUnlock (table_setlk 1) (table_close 1) k1 (excl_inode 1 2 1) (excl_file 1) NO_LOCK = (0, k1, excl_inode 0 1 0, excl_file 0) \<and>
     unixLock (table_setlk 1) k1 (excl_inode 0 1 0) (rdonly_file 0) SHARED_LOCK = (0, k3, excl_inode 1 2 1, rdonly_file 1) \<and>
     unixLock (table_setlk 1) k3 (excl_inode 1 2 1) (excl_file 0) SHARED_LOCK = (0, k3, excl_inode 2 3 1, excl_file 1) \<and>
     unixUnlock (table_setlk 1) (table_close 1) k3 (excl_inode 2 3 1) (rdonly_file 1) NO_LOCK = (0, k3, excl_inode 1 2 1, rdonly_file 0) \<and>
     unixLock (table_setlk 1) k3 (excl_inode 1 2 1) (excl_file 1) EXCLUSIVE_LOCK = (0, k3, excl_inode 1 2 4, excl_file 4) \<and>
     unixLock (table_setlk 2) k3 (ex_inode 0 0) (ex_file 0) SHARED_LOCK = (0, k7, ex_inode 1 1, ex_file 1)"
proof -
  let ?r = "\<lambda>p t. (p, SHARED_FIRST, SHARED_FIRST + SHARED_SIZE, t)"
  note defs = evaluate_locks posixUnlock_def unixUnlock_def unlock_shared_def unlock_write_def closePendingFds_def Let_def
  show ?thesis
    by (rule exI [of _ "[?r 1 F_WRLCK]"], rule exI [of _ "[?r 1 F_RDLCK]"], rule exI [of _ "[?r 2 F_RDLCK, ?r 1 F_RDLCK]"])
      (simp add: defs)
qed

end
