(* ===== verification/RowSet.thy ===== *)
theory RowSet
  imports Prelude "HOL-Library.Tree"
begin

text \<open>
  Row sets (\<^verbatim>\<open>src/sqlite/src/rowset.c\<close>): rowids are inserted in any order, asked for in
  batches and, at the end, extracted in increasing order.

  The entries of a row set are linked either into one list, through \<^verbatim>\<open>pRight\<close>, or into the
  search trees of the forest, and belong to one structure at a time; a list of entries is a
  list of rowids here, and a tree a binary tree of the library. The last entry of the list,
  for which the code keeps \<^verbatim>\<open>pLast\<close>, is the last element. Chunks of memory are counted.
  A rowid is compared only, so it is an \<^typ>\<open>int\<close>.
\<close>

section \<open>The structure\<close>

abbreviation (input) ROWSET_ENTRY_PER_CHUNK :: nat where "ROWSET_ENTRY_PER_CHUNK \<equiv> 42"
abbreviation (input) ROWSET_SORTED :: u16 where "ROWSET_SORTED \<equiv> 0x01"
abbreviation (input) ROWSET_NEXT :: u16 where "ROWSET_NEXT \<equiv> 0x02"

record RowSet =
  nChunk :: nat
  pEntry :: "int list"
  pForest :: "int tree list"
  nFresh :: nat
  rsFlags :: u16
  iBatch :: int

text \<open>The memory after the structure, of so many entries, is the first to be used.\<close>

definition sqlite3RowSetInit :: "nat \<Rightarrow> RowSet" where
  "sqlite3RowSetInit n =
     \<lparr>nChunk = 0, pEntry = [], pForest = [], nFresh = n mod 2 ^ 16, rsFlags = ROWSET_SORTED, iBatch = 0\<rparr>"

definition sqlite3RowSetClear :: "RowSet \<Rightarrow> RowSet" where
  "sqlite3RowSetClear p =
     p\<lparr>nChunk := 0, nFresh := 0, pEntry := [], pForest := [], rsFlags := ROWSET_SORTED\<rparr>"

definition rowSetEntryAlloc :: "RowSet \<Rightarrow> allocator \<Rightarrow> (bool \<times> RowSet \<times> allocator)" where
  "rowSetEntryAlloc p m =
     (if nFresh p = 0 then
        (case sqlite3_malloc m of (ok, m) \<Rightarrow>
           if \<not> ok then (False, p, m)
           else (True, p\<lparr>nChunk := nChunk p + 1, nFresh := ROWSET_ENTRY_PER_CHUNK - 1\<rparr>, m))
      else (True, p\<lparr>nFresh := nFresh p - 1\<rparr>, m))"

definition sqlite3RowSetInsert :: "RowSet \<Rightarrow> int \<Rightarrow> allocator \<Rightarrow> RowSet \<times> allocator" where
  "sqlite3RowSetInsert p rowid m =
     (case rowSetEntryAlloc p m of (ok, p, m) \<Rightarrow>
        if \<not> ok then (p, m)
        else
          (p\<lparr>rsFlags := (if pEntry p \<noteq> [] \<and> rsFlags p AND ROWSET_SORTED \<noteq> 0 \<and> rowid \<le> last (pEntry p)
                        then rsFlags p AND NOT ROWSET_SORTED else rsFlags p),
             pEntry := pEntry p @ [rowid]\<rparr>, m))"

section \<open>Sorting a list\<close>

fun rowSetEntryMerge :: "int list \<Rightarrow> int list \<Rightarrow> int list" where
  "rowSetEntryMerge [] pB = pB"
| "rowSetEntryMerge pA [] = pA"
| "rowSetEntryMerge (a # pA) (b # pB) =
     (if a < b then a # rowSetEntryMerge pA (b # pB)
      else if b < a then b # rowSetEntryMerge (a # pA) pB
      else rowSetEntryMerge pA (b # pB))"

text \<open>A list is merged into the buckets, an empty one standing for a free bucket; past the last
  bucket the code would write outside its array.\<close>

fun bucket_add :: "int list list \<Rightarrow> int list \<Rightarrow> int list list option" where
  "bucket_add [] pIn = None"
| "bucket_add (b # aBucket) pIn =
     (if b \<noteq> [] then map_option (Cons []) (bucket_add aBucket (rowSetEntryMerge b pIn))
      else Some (pIn # aBucket))"

fun buckets_fill :: "int list list \<Rightarrow> int list \<Rightarrow> int list list option" where
  "buckets_fill aBucket [] = Some aBucket"
| "buckets_fill aBucket (v # pIn) = Option.bind (bucket_add aBucket [v]) (\<lambda>aBucket. buckets_fill aBucket pIn)"

definition rowSetEntrySort :: "int list \<Rightarrow> int list option" where
  "rowSetEntrySort pIn =
     map_option (foldl rowSetEntryMerge []) (buckets_fill (replicate 40 []) pIn)"

section \<open>Trees\<close>

fun rowSetTreeToList :: "int tree \<Rightarrow> int list" where
  "rowSetTreeToList Leaf = []"
| "rowSetTreeToList (Node pLeft v pRight) =
     (if pLeft \<noteq> Leaf then rowSetTreeToList pLeft else []) @ v # (if pRight \<noteq> Leaf then rowSetTreeToList pRight else [])"

text \<open>The second argument is the depth less one.\<close>

fun rowSetNDeepTree :: "int list \<Rightarrow> nat \<Rightarrow> int tree \<times> int list" where
  "rowSetNDeepTree [] d = (Leaf, [])"
| "rowSetNDeepTree (v # pList) 0 = (Node Leaf v Leaf, pList)"
| "rowSetNDeepTree (v # pList) (Suc d) =
     (case rowSetNDeepTree (v # pList) d of
        (pLeft, []) \<Rightarrow> (pLeft, [])
      | (pLeft, p # pList) \<Rightarrow> (case rowSetNDeepTree pList d of (pRight, pList) \<Rightarrow> (Node pLeft p pRight, pList)))"

lemma NDeepTree_length: "length (snd (rowSetNDeepTree l d)) \<le> length l"
proof (induction l d rule: rowSetNDeepTree.induct)
  case (3 v pList d)
  obtain pl l1 where 1: "rowSetNDeepTree (v # pList) d = (pl, l1)" by (rule prod.exhaust)
  show ?case
  proof (cases l1)
    case Nil then show ?thesis using 1 by simp
  next
    case (Cons p l2)
    have "length (snd (rowSetNDeepTree l2 d)) \<le> length l2" by (rule 3(2) [OF 1 [symmetric] Cons])
    then show ?thesis using 3(1) 1 Cons by (auto split: prod.splits)
  qed
qed auto

function list_to_tree :: "int tree \<Rightarrow> int list \<Rightarrow> nat \<Rightarrow> int tree" where
  "list_to_tree p [] d = p"
| "list_to_tree p (v # pList) d =
     (case rowSetNDeepTree pList d of (pRight, pList) \<Rightarrow> list_to_tree (Node p v pRight) pList (Suc d))"
  by pat_completeness auto

termination
proof (relation "measure (\<lambda>(p, l, d). length l)")
  show "((Node p v r, l', Suc d), p, v # l, d) \<in> measure (\<lambda>(p, l, d). length l)"
    if "(r, l') = rowSetNDeepTree l d" for p v l d r l'
    using NDeepTree_length [of l d] by (simp flip: that)
qed simp

definition rowSetListToTree :: "int list \<Rightarrow> int tree option" where
  "rowSetListToTree pList =
     (case pList of [] \<Rightarrow> None | v # pList \<Rightarrow> Some (list_to_tree (Node Leaf v Leaf) pList 0))"

section \<open>Extracting in order\<close>

definition rowSetToList :: "RowSet \<Rightarrow> RowSet option" where
  "rowSetToList p =
     map_option (\<lambda>l. p\<lparr>pEntry := l, rsFlags := rsFlags p OR ROWSET_NEXT\<rparr>)
       (if rsFlags p AND ROWSET_SORTED = 0 then rowSetEntrySort (pEntry p) else Some (pEntry p))"

definition sqlite3RowSetNext :: "RowSet \<Rightarrow> (int option \<times> RowSet) option" where
  "sqlite3RowSetNext p =
     Option.bind (if rsFlags p AND ROWSET_NEXT = 0 then rowSetToList p else Some p) (\<lambda>p.
       Some (case pEntry p of
               [] \<Rightarrow> (None, p)
             | v # l \<Rightarrow> (Some v, if l = [] then sqlite3RowSetClear (p\<lparr>pEntry := l\<rparr>) else p\<lparr>pEntry := l\<rparr>)))"

section \<open>Asking for a rowid\<close>

text \<open>The sorted list of a batch goes into the first empty slot of the forest, together with the
  trees of the slots before it, which become empty. Without an empty slot the list is left.\<close>

fun forest_add :: "int list \<Rightarrow> int tree list \<Rightarrow> (int tree list \<times> int list option) option" where
  "forest_add p [] = Some ([], Some p)"
| "forest_add p (pTree # ts) =
     (if pTree = Leaf then map_option (\<lambda>t. (t # ts, None)) (rowSetListToTree p)
      else map_option (\<lambda>(ts, r). (Leaf # ts, r)) (forest_add (rowSetEntryMerge (rowSetTreeToList pTree) p) ts))"

definition new_batch :: "RowSet \<Rightarrow> int \<Rightarrow> allocator \<Rightarrow> (RowSet \<times> allocator) option" where
  "new_batch pRowSet b m =
     (if pEntry pRowSet \<noteq> [] then
        Option.bind (if rsFlags pRowSet AND ROWSET_SORTED = 0 then rowSetEntrySort (pEntry pRowSet)
                     else Some (pEntry pRowSet)) (\<lambda>p.
        Option.bind (forest_add p (pForest pRowSet)) (\<lambda>(forest, r).
        map_option (\<lambda>(pRowSet, m).
            (pRowSet\<lparr>pEntry := [], rsFlags := rsFlags pRowSet OR ROWSET_SORTED, iBatch := b\<rparr>, m))
          (case r of
             None \<Rightarrow> Some (pRowSet\<lparr>pForest := forest\<rparr>, m)
           | Some p \<Rightarrow>
               (case rowSetEntryAlloc pRowSet m of (ok, pRowSet, m) \<Rightarrow>
                  if ok then map_option (\<lambda>t. (pRowSet\<lparr>pForest := forest @ [t]\<rparr>, m)) (rowSetListToTree p)
                  else Some (pRowSet\<lparr>pForest := forest\<rparr>, m)))))
      else Some (pRowSet\<lparr>iBatch := b\<rparr>, m))"

fun tree_test :: "int tree \<Rightarrow> int \<Rightarrow> bool" where
  "tree_test Leaf iRowid = False"
| "tree_test (Node pLeft v pRight) iRowid =
     (if v < iRowid then tree_test pRight iRowid else if v > iRowid then tree_test pLeft iRowid else True)"

definition sqlite3RowSetTest :: "RowSet \<Rightarrow> int \<Rightarrow> int \<Rightarrow> allocator \<Rightarrow> (bool \<times> RowSet \<times> allocator) option" where
  "sqlite3RowSetTest pRowSet b iRowid m =
     map_option (\<lambda>(pRowSet, m). (list_ex (\<lambda>t. tree_test t iRowid) (pForest pRowSet), pRowSet, m))
       (if b \<noteq> iBatch pRowSet then new_batch pRowSet b m else Some (pRowSet, m))"

section \<open>Sorting is correct\<close>

abbreviation strict :: "int list \<Rightarrow> bool" where "strict \<equiv> sorted_wrt (<)"

lemma merge_set: "set (rowSetEntryMerge xs ys) = set xs \<union> set ys"
  by (induction xs ys rule: rowSetEntryMerge.induct) auto

lemma merge_strict: "strict xs \<Longrightarrow> strict ys \<Longrightarrow> strict (rowSetEntryMerge xs ys)"
  by (induction xs ys rule: rowSetEntryMerge.induct) (auto simp: merge_set)

lemma merge_Nil: "rowSetEntryMerge xs [] = xs"
  by (cases xs) auto

lemma merge_nonempty: "ys \<noteq> [] \<Longrightarrow> rowSetEntryMerge xs ys \<noteq> []"
  by (metis Un_empty merge_set set_empty)

text \<open>The buckets count in binary: the full ones are the ones of the number of lists added.\<close>

fun bucket_count :: "int list list \<Rightarrow> nat" where
  "bucket_count [] = 0"
| "bucket_count (b # bs) = (if b = [] then 0 else 1) + 2 * bucket_count bs"

lemma bucket_add_ok:
  assumes "bucket_count bs + 1 < 2 ^ length bs" "l \<noteq> []" "strict l" "\<forall>b \<in> set bs. strict b"
  shows "\<exists>bs'. bucket_add bs l = Some bs' \<and> bucket_count bs' = bucket_count bs + 1 \<and> length bs' = length bs \<and>
    (\<forall>b \<in> set bs'. strict b) \<and> \<Union> (set ` set bs') = set l \<union> \<Union> (set ` set bs)"
  using assms
proof (induction bs l rule: bucket_add.induct)
  case (2 b bs l)
  show ?case
  proof (cases "b = []")
    case True then show ?thesis using 2 by auto
  next
    case False
    have "\<exists>bs'. bucket_add bs (rowSetEntryMerge b l) = Some bs' \<and> bucket_count bs' = bucket_count bs + 1 \<and>
      length bs' = length bs \<and> (\<forall>b \<in> set bs'. strict b) \<and>
      \<Union> (set ` set bs') = set (rowSetEntryMerge b l) \<union> \<Union> (set ` set bs)"
      by (rule 2(1) [OF False]) (use 2(2-) False merge_strict merge_nonempty in auto)
    then show ?thesis using False by (auto simp: merge_set)
  qed
qed simp

lemma buckets_fill_ok:
  assumes "bucket_count bs + length xs < 2 ^ length bs" "\<forall>b \<in> set bs. strict b"
  shows "\<exists>bs'. buckets_fill bs xs = Some bs' \<and> (\<forall>b \<in> set bs'. strict b) \<and> \<Union> (set ` set bs') = set xs \<union> \<Union> (set ` set bs)"
  using assms
proof (induction bs xs rule: buckets_fill.induct)
  case (2 bs v xs)
  have "bucket_count bs + 1 < 2 ^ length bs" "[v] \<noteq> []" "strict [v]" "\<forall>b \<in> set bs. strict b" using 2 by auto
  from bucket_add_ok [OF this] obtain bs1 where 1: "bucket_add bs [v] = Some bs1" "bucket_count bs1 = bucket_count bs + 1"
    "length bs1 = length bs" "\<forall>b \<in> set bs1. strict b" "\<Union> (set ` set bs1) = set [v] \<union> \<Union> (set ` set bs)" by blast
  show ?case using 2(1) [OF 1(1)] 1 2(2) by auto
qed auto

lemma merge_all:
  "strict l \<Longrightarrow> \<forall>b \<in> set bs. strict b \<Longrightarrow>
   strict (foldl rowSetEntryMerge l bs) \<and> set (foldl rowSetEntryMerge l bs) = set l \<union> \<Union> (set ` set bs)"
  by (induction bs arbitrary: l) (auto simp: merge_set merge_strict)

lemma bucket_count_empty: "bucket_count (replicate n []) = 0"
  by (induction n) auto

lemma rowSetEntrySort_ok:
  assumes "length xs < 2 ^ 40"
  shows "\<exists>ys. rowSetEntrySort xs = Some ys \<and> strict ys \<and> set ys = set xs"
proof -
  obtain bs where bs: "buckets_fill (replicate 40 []) xs = Some bs" "\<forall>b \<in> set bs. strict b" "\<Union> (set ` set bs) = set xs"
    using buckets_fill_ok [of "replicate 40 []" xs] assms by (auto simp: bucket_count_empty)
  show ?thesis using merge_all [of "[]" bs] bs by (simp add: rowSetEntrySort_def)
qed

section \<open>Trees keep their elements\<close>

lemma TreeToList_inorder: "rowSetTreeToList t = inorder t"
  by (induction t) auto

lemma NDeepTree_inorder: "rowSetNDeepTree l d = (t, l') \<Longrightarrow> inorder t @ l' = l"
proof (induction l d arbitrary: t l' rule: rowSetNDeepTree.induct)
  case (3 v pList d)
  obtain pl l1 where 1: "rowSetNDeepTree (v # pList) d = (pl, l1)" by (rule prod.exhaust)
  note IH = 3(1) [OF 1]
  show ?case
  proof (cases l1)
    case Nil then show ?thesis using IH 1 3(3) by simp
  next
    case (Cons p l2)
    obtain pr l3 where 2: "rowSetNDeepTree l2 d = (pr, l3)" by (rule prod.exhaust)
    show ?thesis using IH 1 3(2) [OF 1 [symmetric] Cons 2] 3(3) Cons 2 by auto
  qed
qed auto

lemma list_to_tree_inorder: "inorder (list_to_tree p l d) = inorder p @ l"
proof (induction p l d rule: list_to_tree.induct)
  case (2 p v l d)
  obtain r l' where 1: "rowSetNDeepTree l d = (r, l')" by (rule prod.exhaust)
  show ?case using 2 [OF 1 [symmetric]] NDeepTree_inorder [OF 1] 1 by auto
qed simp

lemma ListToTree_ok: "l \<noteq> [] \<Longrightarrow> \<exists>t. rowSetListToTree l = Some t \<and> inorder t = l \<and> t \<noteq> Leaf"
proof (cases l)
  case (Cons v xs)
  then have "rowSetListToTree l = Some (list_to_tree (Node Leaf v Leaf) xs 0)" by (simp add: rowSetListToTree_def)
  moreover have "inorder (list_to_tree (Node Leaf v Leaf) xs 0) = l" by (simp add: list_to_tree_inorder Cons)
  ultimately show ?thesis using Cons by (metis inorder.simps(1) list.distinct(1))
qed simp

lemma tree_test_ok: "bst t \<Longrightarrow> tree_test t x \<longleftrightarrow> x \<in> set_tree t"
  by (induction t) auto

section \<open>Well-formed row sets\<close>

definition rs_ok :: "RowSet \<Rightarrow> bool" where
  "rs_ok p \<longleftrightarrow> rsFlags p \<in> {0, 1} \<and> (rsFlags p = 1 \<longrightarrow> strict (pEntry p)) \<and> (\<forall>t \<in> set (pForest p). bst t) \<and>
     length (pEntry p) < 2 ^ 40"

text \<open>The rowids of earlier batches and those of the current one.\<close>

definition forest_set :: "int tree list \<Rightarrow> int set" where
  "forest_set ts = \<Union> (set_tree ` set ts)"

lemma forest_set_simps [simp]: "forest_set [] = {}" "forest_set (t # ts) = set_tree t \<union> forest_set ts"
  "forest_set (ts @ us) = forest_set ts \<union> forest_set us"
  by (auto simp: forest_set_def)

lemma alloc_ok:
  "rowSetEntryAlloc p m = (ok, p', m') \<Longrightarrow> pEntry p' = pEntry p \<and> pForest p' = pForest p \<and> rsFlags p' = rsFlags p \<and>
     iBatch p' = iBatch p \<and> (False \<notin> set m \<longrightarrow> ok \<and> False \<notin> set m')"
  by (auto simp: rowSetEntryAlloc_def dest: malloc_never_fails split: if_splits prod.splits)

lemma strict_snoc: "strict xs \<Longrightarrow> xs = [] \<or> last xs < x \<Longrightarrow> strict (xs @ [x])"
  by (cases xs rule: rev_cases) (auto simp: sorted_wrt_append)

lemma sqlite3RowSetInsert_ok:
  assumes "rs_ok p" "length (pEntry p) + 1 < 2 ^ 40" "sqlite3RowSetInsert p x m = (p', m')"
  shows "rs_ok p' \<and> pForest p' = pForest p \<and> iBatch p' = iBatch p \<and>
    (pEntry p' = pEntry p @ [x] \<and> (False \<notin> set m \<longrightarrow> False \<notin> set m') \<or> pEntry p' = pEntry p \<and> False \<in> set m)"
proof -
  obtain ok p1 m1 where 1: "rowSetEntryAlloc p m = (ok, p1, m1)" by (rule prod_cases3)
  note a = alloc_ok [OF 1]
  show ?thesis
  proof (cases ok)
    case False
    then have "p' = p1" using assms(3) 1 by (simp add: sqlite3RowSetInsert_def)
    then show ?thesis using a assms(1) False by (auto simp: rs_ok_def)
  next
    case True
    let ?flags = "if pEntry p \<noteq> [] \<and> rsFlags p AND ROWSET_SORTED \<noteq> 0 \<and> x \<le> last (pEntry p)
      then rsFlags p AND NOT ROWSET_SORTED else rsFlags p"
    have e: "p' = p1\<lparr>rsFlags := ?flags, pEntry := pEntry p @ [x]\<rparr>" "m' = m1"
      using assms(3) 1 True a by (auto simp: sqlite3RowSetInsert_def)
    have fl: "?flags = (if rsFlags p = 1 \<and> (pEntry p = [] \<or> last (pEntry p) < x) then 1 else 0)"
      using assms(1) by (auto simp: rs_ok_def)
    have "rs_ok p'" unfolding e rs_ok_def fl using assms(1,2) a strict_snoc [of "pEntry p" x]
      by (auto simp: rs_ok_def)
    then show ?thesis using a e by simp
  qed
qed

lemma forest_add_ok:
  assumes "p \<noteq> []" "strict p" "\<forall>t \<in> set ts. bst t"
  shows "\<exists>f r. forest_add p ts = Some (f, r) \<and> (\<forall>t \<in> set f. bst t) \<and>
    (case r of None \<Rightarrow> forest_set f = set p \<union> forest_set ts
     | Some q \<Rightarrow> q \<noteq> [] \<and> strict q \<and> forest_set f = {} \<and> set q = set p \<union> forest_set ts)"
  using assms
proof (induction p ts rule: forest_add.induct)
  case (2 p t ts)
  show ?case
  proof (cases "t = Leaf")
    case True
    obtain u where u: "rowSetListToTree p = Some u" "inorder u = p" using ListToTree_ok [OF 2(2)] by blast
    then have "bst u" "set_tree u = set p" using 2(3) by (auto simp: bst_iff_sorted_wrt_less simp flip: set_inorder)
    then show ?thesis using True u 2(4) by simp
  next
    case False
    let ?q = "rowSetEntryMerge (rowSetTreeToList t) p"
    have q: "?q \<noteq> []" "strict ?q" "set ?q = set_tree t \<union> set p"
      using 2(2-4) merge_nonempty merge_strict by (auto simp: TreeToList_inorder merge_set bst_iff_sorted_wrt_less)
    show ?thesis using 2(1) [OF False q(1,2)] 2(4) False q(3) by (fastforce split: option.splits)
  qed
qed auto

lemma new_batch_ok:
  assumes "rs_ok p"
  shows "\<exists>p' m'. new_batch p b m = Some (p', m') \<and> rs_ok p' \<and> iBatch p' = b \<and> pEntry p' = [] \<and>
    forest_set (pForest p') \<subseteq> forest_set (pForest p) \<union> set (pEntry p) \<and>
    (False \<notin> set m \<longrightarrow> forest_set (pForest p') = forest_set (pForest p) \<union> set (pEntry p) \<and> False \<notin> set m')"
proof (cases "pEntry p = []")
  case True
  then show ?thesis using assms by (auto simp: new_batch_def rs_ok_def)
next
  case ne: False
  have "\<exists>l. (if rsFlags p AND ROWSET_SORTED = 0 then rowSetEntrySort (pEntry p) else Some (pEntry p)) = Some l \<and>
      strict l \<and> set l = set (pEntry p)"
    using rowSetEntrySort_ok [of "pEntry p"] assms by (auto simp: rs_ok_def)
  then obtain l where l: "(if rsFlags p AND ROWSET_SORTED = 0 then rowSetEntrySort (pEntry p) else Some (pEntry p)) = Some l"
    "strict l" "set l = set (pEntry p)" by blast
  have lne: "l \<noteq> []" using l(3) ne by auto
  obtain f r where f: "forest_add l (pForest p) = Some (f, r)" "\<forall>t \<in> set f. bst t"
    "case r of None \<Rightarrow> forest_set f = set l \<union> forest_set (pForest p)
     | Some q \<Rightarrow> q \<noteq> [] \<and> strict q \<and> forest_set f = {} \<and> set q = set l \<union> forest_set (pForest p)"
    using forest_add_ok [OF lne l(2), of "pForest p"] assms unfolding rs_ok_def by blast
  let ?fin = "\<lambda>p. p\<lparr>pEntry := [], rsFlags := rsFlags p OR ROWSET_SORTED, iBatch := b\<rparr>"
  have ok: "rs_ok (?fin (p1\<lparr>pForest := g\<rparr>))" if "rsFlags p1 = rsFlags p" "\<forall>t \<in> set g. bst t" for p1 g
    using that assms by (auto simp: rs_ok_def)
  show ?thesis
  proof (cases r)
    case None
    then have "new_batch p b m = Some (?fin (p\<lparr>pForest := f\<rparr>), m)" using ne l(1) f(1) by (simp add: new_batch_def)
    then show ?thesis using ok [of p f] f l(3) None by auto
  next
    case (Some q)
    obtain a p1 m1 where 1: "rowSetEntryAlloc p m = (a, p1, m1)" by (rule prod_cases3)
    note al = alloc_ok [OF 1]
    have q: "q \<noteq> []" "strict q" "forest_set f = {}" "set q = set l \<union> forest_set (pForest p)" using f(3) Some by auto
    obtain u where u: "rowSetListToTree q = Some u" "inorder u = q" using ListToTree_ok [OF q(1)] by blast
    have bu: "bst u" "set_tree u = set q" using u(2) q(2) by (auto simp: bst_iff_sorted_wrt_less simp flip: set_inorder)
    have e: "new_batch p b m = Some (?fin (p1\<lparr>pForest := (if a then f @ [u] else f)\<rparr>), m1)"
      using ne l(1) f(1) Some 1 u(1) by (simp add: new_batch_def)
    show ?thesis using e ok [of p1 "if a then f @ [u] else f"] al f(2) bu q l(3) by auto
  qed
qed

section \<open>Properties\<close>

text \<open>C26. A test tells whether a rowid was inserted in an earlier batch, the batch that the
  change of the batch number ends included. It always returns, keeps the row set well formed
  and moves a finished batch to the rowids of earlier batches; when memory runs out it may
  miss rowids, but never reports one that was not inserted.\<close>

theorem sqlite3RowSetTest_batches:
  assumes "rs_ok p"
  shows "\<exists>r p' m'. sqlite3RowSetTest p b x m = Some (r, p', m') \<and> rs_ok p' \<and> iBatch p' = b \<and>
    (r \<longrightarrow> x \<in> forest_set (pForest p) \<union> set (pEntry p)) \<and>
    (False \<notin> set m \<longrightarrow> False \<notin> set m' \<and>
      r = (x \<in> (if b = iBatch p then forest_set (pForest p) else forest_set (pForest p) \<union> set (pEntry p))) \<and>
      forest_set (pForest p') = (if b = iBatch p then forest_set (pForest p) else forest_set (pForest p) \<union> set (pEntry p)) \<and>
      pEntry p' = (if b = iBatch p then pEntry p else []))"
proof -
  have test: "list_ex (\<lambda>t. tree_test t x) (pForest q) \<longleftrightarrow> x \<in> forest_set (pForest q)" if "rs_ok q" for q
    using that tree_test_ok by (auto simp: rs_ok_def list_ex_iff forest_set_def)
  show ?thesis
  proof (cases "b = iBatch p")
    case True
    then show ?thesis using assms test [OF assms] by (simp add: sqlite3RowSetTest_def)
  next
    case False
    obtain p' m' where n: "new_batch p b m = Some (p', m')" "rs_ok p'" "iBatch p' = b" "pEntry p' = []"
      "forest_set (pForest p') \<subseteq> forest_set (pForest p) \<union> set (pEntry p)"
      "False \<notin> set m \<longrightarrow> forest_set (pForest p') = forest_set (pForest p) \<union> set (pEntry p) \<and> False \<notin> set m'"
      using new_batch_ok [OF assms, of b m] by blast
    have "sqlite3RowSetTest p b x m = Some (x \<in> forest_set (pForest p'), p', m')"
      using n(1) False test [OF n(2)] by (simp add: sqlite3RowSetTest_def)
    then show ?thesis using n(2-) False by auto
  qed
qed

lemma init_ok: "rs_ok (sqlite3RowSetInit n)" "pForest (sqlite3RowSetInit n) = []" "pEntry (sqlite3RowSetInit n) = []"
  by (simp_all add: rs_ok_def sqlite3RowSetInit_def)

lemma sqlite3RowSetTest_batches_witness:
  "\<exists>r p' m'. sqlite3RowSetTest (sqlite3RowSetInit 3) 7 5 [] = Some (r, p', m') \<and> \<not> r \<and> iBatch p' = 7"
  using sqlite3RowSetTest_batches [OF init_ok(1), of 3 7 5 "[]"] by (auto simp: init_ok)

fun insert_all :: "RowSet \<Rightarrow> int list \<Rightarrow> allocator \<Rightarrow> RowSet \<times> allocator" where
  "insert_all p [] m = (p, m)"
| "insert_all p (x # xs) m = (case sqlite3RowSetInsert p x m of (p, m) \<Rightarrow> insert_all p xs m)"

text \<open>Extracting until the row set is empty, with a bound on the number of calls.\<close>

fun extract_all :: "nat \<Rightarrow> RowSet \<Rightarrow> int list option" where
  "extract_all 0 p = None"
| "extract_all (Suc n) p =
     (case sqlite3RowSetNext p of
        None \<Rightarrow> None
      | Some (None, p) \<Rightarrow> Some []
      | Some (Some v, p) \<Rightarrow> map_option (Cons v) (extract_all n p))"

lemma insert_all_entries:
  assumes "rs_ok p" "length (pEntry p) + length xs < 2 ^ 40" "False \<notin> set m"
  shows "rs_ok (fst (insert_all p xs m)) \<and> pEntry (fst (insert_all p xs m)) = pEntry p @ xs \<and>
    pForest (fst (insert_all p xs m)) = pForest p"
  using assms
proof (induction xs arbitrary: p m)
  case (Cons x xs)
  obtain p1 m1 where 1: "sqlite3RowSetInsert p x m = (p1, m1)" by (rule prod.exhaust)
  have "length (pEntry p) + 1 < 2 ^ 40" using Cons.prems(2) by simp
  then have "rs_ok p1" "pEntry p1 = pEntry p @ [x]" "pForest p1 = pForest p" "False \<notin> set m1"
    using sqlite3RowSetInsert_ok [OF Cons.prems(1) _ 1] Cons.prems(3) by auto
  then show ?case using Cons.IH [of p1 m1] Cons.prems(2) 1 by simp
qed simp

lemma extract_sorted:
  assumes "rsFlags p AND ROWSET_NEXT \<noteq> 0" "length (pEntry p) < n"
  shows "extract_all n p = Some (pEntry p)"
  using assms
proof (induction "pEntry p" arbitrary: p n)
  case Nil
  then show ?case by (cases n) (auto simp: sqlite3RowSetNext_def)
next
  case (Cons v l)
  note e = Cons.hyps(2) [symmetric]
  obtain n' where n: "n = Suc n'" "length l < n'" using Cons.prems(2) by (cases n) (auto simp: e)
  show ?case
  proof (cases "l = []")
    case False
    then have "sqlite3RowSetNext p = Some (Some v, p\<lparr>pEntry := l\<rparr>)"
      using Cons.prems by (simp add: sqlite3RowSetNext_def e)
    moreover have "extract_all n' (p\<lparr>pEntry := l\<rparr>) = Some l" using Cons.hyps(1) [of "p\<lparr>pEntry := l\<rparr>" n'] Cons.prems(1) n by simp
    ultimately show ?thesis using n by (simp add: e)
  next
    case True
    then have "sqlite3RowSetNext p = Some (Some v, sqlite3RowSetClear (p\<lparr>pEntry := l\<rparr>))"
      using Cons.prems by (simp add: sqlite3RowSetNext_def e)
    moreover have "extract_all n' (sqlite3RowSetClear (p\<lparr>pEntry := l\<rparr>)) = Some []"
      using n True by (cases n') (auto simp: sqlite3RowSetNext_def sqlite3RowSetClear_def rowSetToList_def)
    ultimately show ?thesis using n True by (simp add: e)
  qed
qed

lemma rowSetToList_ok:
  assumes "rs_ok p"
  shows "\<exists>q. rowSetToList p = Some q \<and> strict (pEntry q) \<and> set (pEntry q) = set (pEntry p) \<and> rsFlags q AND ROWSET_NEXT \<noteq> 0"
proof -
  have "\<exists>l. (if rsFlags p AND ROWSET_SORTED = 0 then rowSetEntrySort (pEntry p) else Some (pEntry p)) = Some l \<and>
      strict l \<and> set l = set (pEntry p)"
    using rowSetEntrySort_ok [of "pEntry p"] assms by (auto simp: rs_ok_def)
  then show ?thesis using assms by (auto simp: rowSetToList_def rs_ok_def)
qed

text \<open>C13. A row set sorts. Rowids inserted in any order, with any duplicates, come out in
  increasing order and once each: extraction ends after as many calls as there are distinct
  rowids and one more, and the 40 buckets of the merge sort suffice for every list shorter
  than 2^40.\<close>

theorem rowset_sorts:
  assumes "length xs < 2 ^ 40" "False \<notin> set m" "card (set xs) < n"
  shows "extract_all n (fst (insert_all (sqlite3RowSetInit k) xs m)) = Some (sorted_list_of_set (set xs))"
proof -
  let ?p = "fst (insert_all (sqlite3RowSetInit k) xs m)"
  have p: "rs_ok ?p" "pEntry ?p = xs"
    using insert_all_entries [OF init_ok(1) _ assms(2), of k xs] assms(1) by (simp_all add: init_ok)
  obtain q where q: "rowSetToList ?p = Some q" "strict (pEntry q)" "set (pEntry q) = set xs" "rsFlags q AND ROWSET_NEXT \<noteq> 0"
    using rowSetToList_ok [OF p(1)] p(2) by auto
  have l: "pEntry q = sorted_list_of_set (set xs)"
    using q(2,3) by (metis sorted_list_of_set_unique strict_sorted_iff List.finite_set sorted_list_of_set.idem_if_sorted_distinct)
  have "extract_all n q = Some (pEntry q)"
    by (rule extract_sorted [OF q(4)]) (use assms(3) l in simp)
  moreover have "rsFlags ?p AND ROWSET_NEXT = 0" using p(1) by (auto simp: rs_ok_def)
  then have "sqlite3RowSetNext ?p = sqlite3RowSetNext q"
    using q(1,4) by (simp add: sqlite3RowSetNext_def)
  then have "extract_all n ?p = extract_all n q" using assms(3) by (cases n) auto
  ultimately show ?thesis using l by simp
qed

lemma rowset_sorts_witness:
  "extract_all 4 (fst (insert_all (sqlite3RowSetInit 1) [5, 2, 9, 2] [True, True])) = Some [2, 5, 9]"
proof -
  have "card (set [5, 2, 9, 2 :: int]) < 4" by (simp add: card_insert_if)
  then have "extract_all 4 (fst (insert_all (sqlite3RowSetInit 1) [5, 2, 9, 2] [True, True])) = Some (sorted_list_of_set (set [5, 2, 9, 2]))"
    by (intro rowset_sorts) simp_all
  then show ?thesis unfolding sorted_list_of_set_sort_remdups by simp
qed

end
