(* ===== verification/WalIndex.thy ===== *)
theory WalIndex
  imports Prelude
begin

text \<open>
  The wal-index (\<^verbatim>\<open>src/sqlite/src/wal.c\<close>): for every frame of the write-ahead log the page it
  holds, in blocks that each have an array of page numbers and a hash table over it, from
  which a reader finds the last frame of a page up to its snapshot.

  A block is a record of its two arrays; the array of page numbers, which the code indexes
  from 1, is a list from 0. The first block is shorter, because the header precedes it. The
  blocks lie in shared memory: what they hold before their first use is arbitrary, and the
  mapping of a block may fail, with the result code that the parameter \<^verbatim>\<open>walIndexPage\<close>
  gives.
\<close>

section \<open>Hash tables of frames\<close>

abbreviation (input) HASHTABLE_NPAGE :: nat where "HASHTABLE_NPAGE \<equiv> 4096"
abbreviation (input) HASHTABLE_NSLOT :: nat where "HASHTABLE_NSLOT \<equiv> 8192"
abbreviation (input) HASHTABLE_NPAGE_ONE :: nat where "HASHTABLE_NPAGE_ONE \<equiv> 4062"
abbreviation (input) SQLITE_CORRUPT :: nat where "SQLITE_CORRUPT \<equiv> 11"

record wi_block =
  aPgno :: "nat list"
  aHash :: "nat list"

text \<open>The header of the index, of which each connection keeps a copy. The salt values are the
  bytes that are also in the header of the log, and frame numbers are unbounded.\<close>

record WalIndexHdr =
  iVersion :: u32
  unused :: u32
  iChange :: u32
  isInit :: u8
  bigEndCksum :: u8
  hdr_szPage :: u16
  mxFrame :: nat
  nPage :: u32
  aFrameCksum :: "u32 \<times> u32"
  aSalt :: bytes
  aCksum :: "u32 \<times> u32"

record wal_index =
  apWiData :: "nat \<Rightarrow> wi_block"
  hdr :: WalIndexHdr

abbreviation (input) hdr_mxFrame :: "'a wal_index_scheme \<Rightarrow> nat" where "hdr_mxFrame w \<equiv> mxFrame (hdr w)"

definition walHash :: "nat \<Rightarrow> nat" where
  "walHash iPage = iPage * 383 mod 2 ^ 32 mod HASHTABLE_NSLOT"

definition walNextHash :: "nat \<Rightarrow> nat" where
  "walNextHash iPriorHash = (iPriorHash + 1) mod HASHTABLE_NSLOT"

definition block_size :: "nat \<Rightarrow> nat" where
  "block_size iHash = (if iHash = 0 then HASHTABLE_NPAGE_ONE else HASHTABLE_NPAGE)"

text \<open>The block and the number of the frame before its first one.\<close>

definition first_frame :: "nat \<Rightarrow> nat" where
  "first_frame iHash = (if iHash = 0 then 0 else HASHTABLE_NPAGE_ONE + (iHash - 1) * HASHTABLE_NPAGE)"

definition walHashGet :: "(nat \<Rightarrow> nat) \<Rightarrow> 'a wal_index_scheme \<Rightarrow> nat \<Rightarrow> nat \<times> wi_block \<times> nat" where
  "walHashGet walIndexPage pWal iHash = (walIndexPage iHash, apWiData pWal iHash, first_frame iHash)"

definition walFramePage :: "nat \<Rightarrow> nat" where
  "walFramePage iFrame = (iFrame + HASHTABLE_NPAGE - HASHTABLE_NPAGE_ONE - 1) div HASHTABLE_NPAGE"

definition walFramePgno :: "'a wal_index_scheme \<Rightarrow> nat \<Rightarrow> nat" where
  "walFramePgno pWal iFrame =
     (let iHash = walFramePage iFrame
      in if iHash = 0 then aPgno (apWiData pWal 0) ! (iFrame - 1)
         else aPgno (apWiData pWal iHash) ! ((iFrame - 1 - HASHTABLE_NPAGE_ONE) mod HASHTABLE_NPAGE))"

section \<open>Removing and adding frames\<close>

definition cleanup_block :: "nat \<Rightarrow> wi_block \<Rightarrow> wi_block" where
  "cleanup_block iLimit b =
     \<lparr>aPgno = take iLimit (aPgno b) @ replicate (length (aPgno b) - iLimit) 0,
      aHash = map (\<lambda>i. if i > iLimit then 0 else i) (aHash b)\<rparr>"

definition walCleanupHash :: "'a wal_index_scheme \<Rightarrow> 'a wal_index_scheme" where
  "walCleanupHash pWal =
     (if hdr_mxFrame pWal = 0 then pWal
      else
        let iHash = walFramePage (hdr_mxFrame pWal)
        in pWal\<lparr>apWiData := (apWiData pWal)(iHash := cleanup_block (hdr_mxFrame pWal - first_frame iHash) (apWiData pWal iHash))\<rparr>)"

text \<open>The first free slot from a key on, after as many collisions as the last argument at most.\<close>

fun free_key :: "nat list \<Rightarrow> nat \<Rightarrow> nat \<Rightarrow> nat option" where
  "free_key hs iKey nCollide =
     (if hs ! iKey = 0 then Some iKey
      else case nCollide of 0 \<Rightarrow> None | Suc n \<Rightarrow> free_key hs (walNextHash iKey) n)"

definition empty_block :: "nat \<Rightarrow> wi_block" where
  "empty_block iHash = \<lparr>aPgno = replicate (block_size iHash) 0, aHash = replicate HASHTABLE_NSLOT 0\<rparr>"

definition walIndexAppend :: "(nat \<Rightarrow> nat) \<Rightarrow> 'a wal_index_scheme \<Rightarrow> nat \<Rightarrow> nat \<Rightarrow> nat \<times> 'a wal_index_scheme" where
  "walIndexAppend walIndexPage pWal iFrame iPage =
     (let iHash = walFramePage iFrame
      in case walHashGet walIndexPage pWal iHash of (rc, _, iZero) \<Rightarrow>
        if rc \<noteq> 0 then (rc, pWal)
        else
          let idx = iFrame - iZero;
              pWal = (if idx = 1 then pWal\<lparr>apWiData := (apWiData pWal)(iHash := empty_block iHash)\<rparr> else pWal);
              pWal = (if aPgno (apWiData pWal iHash) ! (idx - 1) \<noteq> 0 then walCleanupHash pWal else pWal);
              b = apWiData pWal iHash
          in case free_key (aHash b) (walHash iPage) idx of
               None \<Rightarrow> (SQLITE_CORRUPT, pWal)
             | Some iKey \<Rightarrow>
                 (0, pWal\<lparr>apWiData := (apWiData pWal)(iHash :=
                     \<lparr>aPgno = (aPgno b)[idx - 1 := iPage], aHash = (aHash b)[iKey := idx]\<rparr>)\<rparr>))"

section \<open>Finding the last frame of a page\<close>

text \<open>One hash table; the frames of the page are met in increasing order.\<close>

fun find_key :: "wi_block \<Rightarrow> nat \<Rightarrow> nat \<Rightarrow> nat \<Rightarrow> nat \<Rightarrow> nat \<Rightarrow> nat \<Rightarrow> nat option" where
  "find_key b iZero iLast pgno iRead iKey nCollide =
     (if aHash b ! iKey = 0 then Some iRead
      else
        let iFrame = aHash b ! iKey + iZero;
            iRead = (if iFrame \<le> iLast \<and> aPgno b ! (aHash b ! iKey - 1) = pgno then iFrame else iRead)
        in case nCollide of 0 \<Rightarrow> None | Suc n \<Rightarrow> find_key b iZero iLast pgno iRead (walNextHash iKey) n)"

text \<open>The tables from the last one down to the first.\<close>

fun find_tables :: "(nat \<Rightarrow> nat) \<Rightarrow> 'a wal_index_scheme \<Rightarrow> nat \<Rightarrow> nat \<Rightarrow> nat \<Rightarrow> nat \<times> nat" where
  "find_tables walIndexPage pWal iLast pgno iHash =
     (case walHashGet walIndexPage pWal iHash of (rc, b, iZero) \<Rightarrow>
        if rc \<noteq> 0 then (rc, 0)
        else
          (case find_key b iZero iLast pgno 0 (walHash pgno) HASHTABLE_NSLOT of
             None \<Rightarrow> (SQLITE_CORRUPT, 0)
           | Some iRead \<Rightarrow>
               if iRead \<noteq> 0 then (0, iRead)
               else (case iHash of 0 \<Rightarrow> (0, 0) | Suc iHash \<Rightarrow> find_tables walIndexPage pWal iLast pgno iHash)))"

definition sqlite3WalFindFrame :: "(nat \<Rightarrow> nat) \<Rightarrow> 'a wal_index_scheme \<Rightarrow> int \<Rightarrow> nat \<Rightarrow> nat \<times> nat" where
  "sqlite3WalFindFrame walIndexPage pWal readLock pgno =
     (let iLast = hdr_mxFrame pWal
      in if iLast = 0 \<or> readLock = 0 then (0, 0)
         else find_tables walIndexPage pWal iLast pgno (walFramePage iLast))"

declare free_key.simps [simp del] find_key.simps [simp del] find_tables.simps [simp del]

section \<open>The last frame of a page in a list\<close>

text \<open>The specification: the log is the list of the pages of its frames.\<close>

fun last_frame :: "nat list \<Rightarrow> nat \<Rightarrow> nat" where
  "last_frame [] p = 0"
| "last_frame (q # qs) p =
     (if last_frame qs p \<noteq> 0 then Suc (last_frame qs p) else if q = p then 1 else 0)"

lemma last_frame_append:
  "last_frame (xs @ ys) p = (if last_frame ys p \<noteq> 0 then length xs + last_frame ys p else last_frame xs p)"
  by (induction xs) auto

lemma last_frame_0: "last_frame qs p = 0 \<longleftrightarrow> p \<notin> set qs"
  by (induction qs) auto

lemma last_frame_nth: "last_frame qs p = Suc r \<Longrightarrow> r < length qs \<and> qs ! r = p"
  by (induction qs arbitrary: r) (auto simp: nth_Cons split: if_splits nat.splits)

lemma last_frame_last: "i < length qs \<Longrightarrow> qs ! i = p \<Longrightarrow> i < last_frame qs p"
proof (induction qs arbitrary: i)
  case (Cons q qs)
  show ?case
  proof (cases i)
    case 0 then show ?thesis using Cons.prems by simp
  next
    case (Suc j)
    then have "j < last_frame qs p" using Cons.prems by (intro Cons.IH) auto
    then show ?thesis using Suc by simp
  qed
qed simp

lemma last_frame_eq:
  assumes "r < length qs" "qs ! r = p" "\<And>i. i < length qs \<Longrightarrow> qs ! i = p \<Longrightarrow> i \<le> r"
  shows "last_frame qs p = Suc r"
  using last_frame_last [OF assms(1,2)] last_frame_nth [of qs p] assms(3)
  by (cases "last_frame qs p") fastforce+

section \<open>Blocks\<close>

text \<open>The slot at a distance from a key, around the table.\<close>

definition slot :: "nat \<Rightarrow> nat \<Rightarrow> nat" where
  "slot h d = (h + d) mod HASHTABLE_NSLOT"

lemma slot_less [simp]: "slot h d < 8192" by (simp add: slot_def)

lemma next_slot: "walNextHash (slot h d) = slot h (Suc d)"
  by (simp add: walNextHash_def slot_def mod_Suc_eq)

lemma slot_walHash: "slot (walHash p) 0 = walHash p"
  by (simp add: slot_def walHash_def)

lemma slot_surj: "k < 8192 \<Longrightarrow> h < 8192 \<Longrightarrow> \<exists>d < 8192. slot h d = k"
proof -
  assume "k < 8192" "h < 8192"
  then have "h + (k + 8192 - h) = k + 8192" by simp
  then have "slot h ((k + 8192 - h) mod 8192) = k"
    unfolding slot_def mod_add_right_eq using \<open>k < 8192\<close> by simp
  moreover have "(k + 8192 - h) mod 8192 < 8192" by simp
  ultimately show ?thesis by blast
qed

lemma slot_inj:
  assumes "slot h x = slot h y" "x < 8192" "y < 8192"
  shows "x = y"
proof (rule ccontr)
  have le: "\<not> u < v" if "slot h u = slot h v" "v < 8192" for u v
  proof
    assume "u < v"
    then have "8192 dvd v - u" using that(1) mod_eq_dvd_iff_nat [of "h + u" "h + v" 8192] by (simp add: slot_def)
    then show False using \<open>u < v\<close> that(2) dvd_imp_le [of 8192 "v - u"] by linarith
  qed
  assume "x \<noteq> y"
  then show False using le [OF assms(1,3)] le [OF assms(1) [symmetric] assms(2)] by linarith
qed

text \<open>A block that holds the given pages. Every entry of the hash table can be reached from the
  hash of its page, over entries of earlier frames only.\<close>

definition key_of :: "nat list \<Rightarrow> nat \<Rightarrow> nat" where
  "key_of qs v = walHash (qs ! (v - 1))"

definition block_ok :: "nat \<Rightarrow> wi_block \<Rightarrow> nat list \<Rightarrow> bool" where
  "block_ok sz b qs \<longleftrightarrow>
     length (aPgno b) = sz \<and> length (aHash b) = 8192 \<and> length qs \<le> sz \<and> sz < 8192 \<and> 0 \<notin> set qs \<and>
     aPgno b = qs @ replicate (sz - length qs) 0 \<and>
     (\<forall>v \<in> set (aHash b). v \<le> length qs) \<and> (\<forall>v. 1 \<le> v \<and> v \<le> length qs \<longrightarrow> v \<in> set (aHash b)) \<and>
     (\<forall>v d. v \<noteq> 0 \<longrightarrow> d < 8192 \<longrightarrow> aHash b ! slot (key_of qs v) d = v \<longrightarrow>
        (\<forall>e < d. 0 < aHash b ! slot (key_of qs v) e \<and> aHash b ! slot (key_of qs v) e < v))"

lemma block_okD:
  assumes "block_ok sz b qs"
  shows "length (aPgno b) = sz" "length (aHash b) = 8192" "length qs \<le> sz" "sz < 8192" "0 \<notin> set qs"
    "aPgno b = qs @ replicate (sz - length qs) 0" "v \<in> set (aHash b) \<Longrightarrow> v \<le> length qs"
    "1 \<le> v \<Longrightarrow> v \<le> length qs \<Longrightarrow> v \<in> set (aHash b)"
  using assms unfolding block_ok_def by (elim conjE; simp)+

lemma key_less: "key_of qs v < 8192" by (simp add: key_of_def walHash_def)

lemma block_path:
  assumes "block_ok sz b qs" "aHash b ! slot (key_of qs v) d = v" "v \<noteq> 0" "d < 8192" "e < d"
  shows "0 < aHash b ! slot (key_of qs v) e" "aHash b ! slot (key_of qs v) e < v"
  using assms unfolding block_ok_def by blast+

lemma block_distinct:
  assumes "block_ok sz b qs" "k < 8192" "k' < 8192" "aHash b ! k = v" "aHash b ! k' = v" "v \<noteq> 0"
  shows "k = k'"
proof -
  obtain d d' where d: "d < 8192" "slot (key_of qs v) d = k" "d' < 8192" "slot (key_of qs v) d' = k'"
    using slot_surj assms(2,3) key_less by meson
  have e: "aHash b ! slot (key_of qs v) d = v" "aHash b ! slot (key_of qs v) d' = v" using assms(4,5) d by simp_all
  have "\<not> d < d'" using block_path(2) [OF assms(1) e(2) assms(6) d(3), of d] e(1) by auto
  moreover have "\<not> d' < d" using block_path(2) [OF assms(1) e(1) assms(6) d(1), of d'] e(2) by auto
  ultimately have "d = d'" by simp
  then show ?thesis using d by simp
qed

text \<open>From any key there is a first free slot, and not more entries before it than pages.\<close>

lemma first_free:
  assumes "block_ok sz b qs"
  shows "\<exists>D. D \<le> length qs \<and> aHash b ! slot h D = 0 \<and> (\<forall>e < D. aHash b ! slot h e \<noteq> 0)"
proof -
  let ?n = "length qs"
  have "\<exists>D \<le> ?n. aHash b ! slot h D = 0"
  proof (rule ccontr)
    assume "\<not> ?thesis"
    then have nz: "aHash b ! slot h e \<noteq> 0" if "e \<le> ?n" for e using that by simp
    have n: "?n < 8192" using block_okD(3,4) [OF assms] by linarith
    have inj: "inj_on (\<lambda>e. aHash b ! slot h e) {..?n}"
    proof (rule inj_onI)
      fix x y assume "x \<in> {..?n}" "y \<in> {..?n}" "aHash b ! slot h x = aHash b ! slot h y"
      then have xy: "x \<le> ?n" "y \<le> ?n" "aHash b ! slot h x = aHash b ! slot h y" by auto
      have "slot h x = slot h y" by (rule block_distinct [OF assms slot_less slot_less xy(3) refl nz [OF xy(2)]])
      then show "x = y" by (rule slot_inj) (use xy n in auto)
    qed
    have "(\<lambda>e. aHash b ! slot h e) ` {..?n} \<subseteq> {1..?n}"
    proof
      fix v assume "v \<in> (\<lambda>e. aHash b ! slot h e) ` {..?n}"
      then obtain e where e: "e \<le> ?n" "v = aHash b ! slot h e" by auto
      have "aHash b ! slot h e \<in> set (aHash b)" by (rule nth_mem) (simp add: block_okD(2) [OF assms])
      then have "v \<le> ?n" using block_okD(7) [OF assms] e(2) by simp
      moreover have "0 < v" using nz [OF e(1)] e(2) by simp
      ultimately show "v \<in> {1..?n}" by simp
    qed
    then have "card {..?n} \<le> card {1..?n}" using card_inj_on_le [OF inj] by blast
    then show False by simp
  qed
  then obtain D where D: "D \<le> ?n" "aHash b ! slot h D = 0" by blast
  show ?thesis
  proof (intro exI conjI allI impI)
    show "(LEAST D. aHash b ! slot h D = 0) \<le> ?n" using Least_le [of "\<lambda>D. aHash b ! slot h D = 0", OF D(2)] D(1) by simp
    show "aHash b ! slot h (LEAST D. aHash b ! slot h D = 0) = 0"
      using LeastI [of "\<lambda>D. aHash b ! slot h D = 0", OF D(2)] .
    show "aHash b ! slot h e \<noteq> 0" if "e < (LEAST D. aHash b ! slot h D = 0)" for e
      using not_less_Least [OF that] .
  qed
qed

lemma free_key_at:
  "hs ! slot h D = 0 \<Longrightarrow> \<forall>e < D. hs ! slot h e \<noteq> 0 \<Longrightarrow> j \<le> D \<Longrightarrow> D - j \<le> c \<Longrightarrow> free_key hs (slot h j) c = Some (slot h D)"
proof (induction c arbitrary: j)
  case 0
  then have "j = D" by simp
  then show ?case using 0 by (subst free_key.simps) simp
next
  case (Suc c)
  show ?case
  proof (cases "j = D")
    case True then show ?thesis using Suc by (subst free_key.simps) simp
  next
    case False
    then have nz: "hs ! slot h j \<noteq> 0" using Suc.prems by simp
    have "free_key hs (slot h j) (Suc c) = free_key hs (slot h (Suc j)) c"
      by (subst free_key.simps) (simp add: nz next_slot)
    then show ?thesis using Suc.IH [of "Suc j"] Suc.prems False by simp
  qed
qed


lemma block_okI:
  assumes "length (aPgno b) = sz" "length (aHash b) = 8192" "length qs \<le> sz" "sz < 8192" "0 \<notin> set qs"
    "aPgno b = qs @ replicate (sz - length qs) 0"
    "\<And>v. v \<in> set (aHash b) \<Longrightarrow> v \<le> length qs" "\<And>v. 1 \<le> v \<Longrightarrow> v \<le> length qs \<Longrightarrow> v \<in> set (aHash b)"
    "\<And>v d e. v \<noteq> 0 \<Longrightarrow> d < 8192 \<Longrightarrow> aHash b ! slot (key_of qs v) d = v \<Longrightarrow> e < d \<Longrightarrow>
       0 < aHash b ! slot (key_of qs v) e \<and> aHash b ! slot (key_of qs v) e < v"
  shows "block_ok sz b qs"
  unfolding block_ok_def using assms by (intro conjI allI impI ballI; blast)

lemma block_value:
  assumes "block_ok sz b qs" "k < 8192"
  shows "aHash b ! k \<le> length qs"
  by (rule block_okD(7) [OF assms(1)]) (simp add: nth_mem assms block_okD(2) [OF assms(1)])

lemma block_empty: "block_ok (block_size h) (empty_block h) []"
  by (rule block_okI) (auto simp: empty_block_def block_size_def)

text \<open>Adding a page to a block that is not full.\<close>

lemma block_insert:
  assumes ok: "block_ok sz b qs" and n: "length qs < sz" and p: "p \<noteq> 0"
  shows "\<exists>k. free_key (aHash b) (walHash p) (Suc (length qs)) = Some k \<and>
    block_ok sz \<lparr>aPgno = (aPgno b)[length qs := p], aHash = (aHash b)[k := Suc (length qs)]\<rparr> (qs @ [p])"
proof -
  let ?n = "length qs" and ?h = "walHash p" and ?hs = "aHash b"
  obtain D where D: "D \<le> ?n" "?hs ! slot ?h D = 0" "\<forall>e < D. ?hs ! slot ?h e \<noteq> 0"
    using first_free [OF ok, of ?h] by (elim exE conjE) (rule that; assumption)
  have n8: "?n < 8192" using n block_okD(4) [OF ok] by linarith
  define k where "k = slot ?h D"
  have k: "k < length ?hs" "?hs ! k = 0" using D(2) block_okD(2) [OF ok] by (simp_all add: k_def)
  have free: "free_key ?hs ?h (Suc ?n) = Some k"
    using free_key_at [OF D(2,3), of 0 "Suc ?n"] D(1) by (simp add: slot_walHash k_def)
  have other: "?hs[k := Suc ?n] ! i = ?hs ! i" if "i \<noteq> k" for i using that by simp
  have len: "\<And>x. slot x y < length ?hs" for y using block_okD(2) [OF ok] by simp
  have key_n: "key_of (qs @ [p]) (Suc ?n) = ?h" by (simp add: key_of_def)
  have key: "key_of (qs @ [p]) v = key_of qs v" if "v \<noteq> 0" "v \<le> ?n" for v
    using that by (auto simp: key_of_def nth_append)
  have pg: "aPgno b = qs @ replicate (sz - ?n) 0" by (rule block_okD(6) [OF ok])
  have "block_ok sz \<lparr>aPgno = (aPgno b)[?n := p], aHash = ?hs[k := Suc ?n]\<rparr> (qs @ [p])"
  proof (rule block_okI; (simp only: wi_block.simps)?)
    show "length ((aPgno b)[?n := p]) = sz" using block_okD(1) [OF ok] by simp
    show "length (?hs[k := Suc ?n]) = 8192" using block_okD(2) [OF ok] by simp
    show "length (qs @ [p]) \<le> sz" using n by simp
    show "sz < 8192" by (rule block_okD(4) [OF ok])
    show "0 \<notin> set (qs @ [p])" using p block_okD(5) [OF ok] by simp
    obtain m where "sz - ?n = Suc m" using n by (cases "sz - ?n") auto
    moreover from this have "sz - length (qs @ [p]) = m" by simp
    ultimately show "(aPgno b)[?n := p] = (qs @ [p]) @ replicate (sz - length (qs @ [p])) 0"
      unfolding pg by (simp add: list_update_append)
  next
    fix v assume "v \<in> set (?hs[k := Suc ?n])"
    then have "v = Suc ?n \<or> v \<in> set ?hs" using set_update_subset_insert [of ?hs k "Suc ?n"] by blast
    then show "v \<le> length (qs @ [p])" using block_okD(7) [OF ok, of v] by auto
  next
    fix v :: nat assume v: "1 \<le> v" "v \<le> length (qs @ [p])"
    show "v \<in> set (?hs[k := Suc ?n])"
    proof (cases "v = Suc ?n")
      case True then show ?thesis using k(1) by (simp add: set_update_memI)
    next
      case False
      then have "v \<in> set ?hs" using v by (intro block_okD(8) [OF ok]) auto
      then obtain i where i: "i < length ?hs" "?hs ! i = v" by (auto simp: in_set_conv_nth)
      have "i \<noteq> k" using i(2) k(2) v(1) by auto
      then have "?hs[k := Suc ?n] ! i = v" using other i(2) by simp
      then show ?thesis using i(1) by (metis length_list_update nth_mem)
    qed
  next
    fix v d e assume v: "v \<noteq> 0" "d < 8192" "?hs[k := Suc ?n] ! slot (key_of (qs @ [p]) v) d = v" "e < d"
    show "0 < ?hs[k := Suc ?n] ! slot (key_of (qs @ [p]) v) e \<and> ?hs[k := Suc ?n] ! slot (key_of (qs @ [p]) v) e < v"
    proof (cases "v = Suc ?n")
      case True
      then have h: "key_of (qs @ [p]) v = ?h" using key_n by simp
      have "slot ?h d = k"
      proof (rule ccontr)
        assume "slot ?h d \<noteq> k"
        then have "?hs ! slot ?h d = Suc ?n" using v(3) True other unfolding h by simp
        then show False using block_value [OF ok slot_less, of ?h d] by simp
      qed
      then have "d = D" using slot_inj [of ?h d D] v(2) D(1) n8 by (simp add: k_def)
      then have e: "e < D" "slot ?h e \<noteq> k" using v(4) slot_inj [of ?h e D] D(1) n8 by (auto simp: k_def)
      then show ?thesis using D(3) block_value [OF ok slot_less, of ?h e] True other [OF e(2)] unfolding h by simp
    next
      case False
      have "slot (key_of (qs @ [p]) v) d \<noteq> k" using v(3) False k(1) by auto
      then have hv: "?hs ! slot (key_of (qs @ [p]) v) d = v" using v(3) other by simp
      then have "v \<le> ?n" using block_value [OF ok slot_less, of "key_of (qs @ [p]) v" d] by simp
      then have h: "key_of (qs @ [p]) v = key_of qs v" using key v(1) by simp
      have path: "0 < ?hs ! slot (key_of qs v) e" "?hs ! slot (key_of qs v) e < v"
        using block_path [OF ok _ v(1,2,4)] hv unfolding h by simp_all
      then have "slot (key_of qs v) e \<noteq> k" using k(2) by auto
      then show ?thesis using path other unfolding h by simp
    qed
  qed
  then show ?thesis using free by blast
qed

text \<open>Removing the entries after a frame.\<close>

lemma block_cleanup:
  assumes ok: "block_ok sz b qs"
  shows "block_ok sz (cleanup_block L b) (take L qs)"
proof -
  let ?hs = "aHash b" and ?f = "\<lambda>i. if L < i then 0 else i"
  have at: "map ?f ?hs ! slot h d = ?f (?hs ! slot h d)" for h d using block_okD(2) [OF ok] by simp
  have key: "key_of (take L qs) v = key_of qs v" if "v \<le> L" "v \<noteq> 0" for v using that by (simp add: key_of_def)
  have pg: "aPgno b = qs @ replicate (sz - length qs) 0" by (rule block_okD(6) [OF ok])
  show ?thesis unfolding cleanup_block_def
  proof (rule block_okI; (simp only: wi_block.simps)?)
    show "length (take L (aPgno b) @ replicate (length (aPgno b) - L) 0) = sz" using block_okD(1) [OF ok] by simp
    show "length (map ?f ?hs) = 8192" using block_okD(2) [OF ok] by simp
    show "length (take L qs) \<le> sz" using block_okD(3) [OF ok] by simp
    show "sz < 8192" by (rule block_okD(4) [OF ok])
    show "0 \<notin> set (take L qs)" using block_okD(5) [OF ok] by (auto dest: in_set_takeD)
    show "take L (aPgno b) @ replicate (length (aPgno b) - L) 0 = take L qs @ replicate (sz - length (take L qs)) 0"
      unfolding pg using block_okD(3) [OF ok]
      by (auto simp: min_def replicate_add [symmetric])
  next
    fix v assume "v \<in> set (map ?f ?hs)"
    then show "v \<le> length (take L qs)" using block_okD(7) [OF ok] by auto
  next
    fix v :: nat assume v: "1 \<le> v" "v \<le> length (take L qs)"
    then have "v \<in> set ?hs" by (intro block_okD(8) [OF ok]) auto
    moreover have "?f v = v" using v by simp
    ultimately show "v \<in> set (map ?f ?hs)" unfolding set_map by (rule rev_image_eqI [OF _ sym])
  next
    fix v d e assume v: "v \<noteq> 0" "d < 8192" "map ?f ?hs ! slot (key_of (take L qs) v) d = v" "e < d"
    then have L: "v \<le> L" "?hs ! slot (key_of (take L qs) v) d = v" using at by (auto split: if_splits)
    then have h: "key_of (take L qs) v = key_of qs v" using key v(1) by simp
    have "0 < ?hs ! slot (key_of qs v) e" "?hs ! slot (key_of qs v) e < v"
      using block_path [OF ok _ v(1,2,4)] L(2) unfolding h by simp_all
    then show "0 < map ?f ?hs ! slot (key_of (take L qs) v) e \<and> map ?f ?hs ! slot (key_of (take L qs) v) e < v"
      using L(1) at unfolding h by simp
  qed
qed


text \<open>A walk along the entries from a key; the matching ones, and what has been found before a
  given distance.\<close>

definition matches :: "wi_block \<Rightarrow> nat \<Rightarrow> nat \<Rightarrow> nat \<Rightarrow> nat \<Rightarrow> bool" where
  "matches b z L p v \<longleftrightarrow> v + z \<le> L \<and> aPgno b ! (v - 1) = p"

definition found :: "wi_block \<Rightarrow> nat \<Rightarrow> nat \<Rightarrow> nat \<Rightarrow> nat \<Rightarrow> nat \<Rightarrow> bool" where
  "found b z L p j r \<longleftrightarrow>
     (\<forall>e < j. matches b z L p (aHash b ! slot (walHash p) e) \<longrightarrow> aHash b ! slot (walHash p) e + z \<le> r) \<and>
     (r = 0 \<or> (\<exists>e < j. matches b z L p (aHash b ! slot (walHash p) e) \<and> r = aHash b ! slot (walHash p) e + z))"

lemma block_page: "block_ok sz b qs \<Longrightarrow> i < length qs \<Longrightarrow> aPgno b ! i = qs ! i"
  using block_okD(6) [of sz b qs] by (simp add: nth_append)

lemma key_of_match:
  assumes "block_ok sz b qs" "v \<noteq> 0" "v \<le> length qs" "matches b z L p v"
  shows "key_of qs v = walHash p"
proof -
  have "aPgno b ! (v - 1) = qs ! (v - 1)" using assms(2,3) by (intro block_page [OF assms(1)]) auto
  then show ?thesis using assms(4) by (simp add: key_of_def matches_def)
qed

lemma found_step:
  assumes ok: "block_ok sz b qs" and f: "found b z L p j r" and j: "j < 8192" "aHash b ! slot (walHash p) j \<noteq> 0"
  shows "found b z L p (Suc j) (if matches b z L p (aHash b ! slot (walHash p) j) then aHash b ! slot (walHash p) j + z else r)"
proof (cases "matches b z L p (aHash b ! slot (walHash p) j)")
  case False
  then show ?thesis using f unfolding found_def by (auto simp: less_Suc_eq)
next
  case True
  let ?v = "aHash b ! slot (walHash p) j"
  have "key_of qs ?v = walHash p" by (rule key_of_match [OF ok j(2) block_value [OF ok slot_less] True])
  then have "aHash b ! slot (walHash p) e < ?v" if "e < j" for e
    using block_path(2) [OF ok _ j(2,1) that] by simp
  then show ?thesis using True unfolding found_def by (auto simp: less_Suc_eq intro: less_imp_le)
qed

lemma find_key_walk:
  assumes ok: "block_ok sz b qs" and D: "aHash b ! slot (walHash p) D = 0" "\<forall>e < D. aHash b ! slot (walHash p) e \<noteq> 0" "D < 8192"
  shows "j \<le> D \<Longrightarrow> D - j \<le> c \<Longrightarrow> found b z L p j r \<Longrightarrow>
    \<exists>r'. find_key b z L p r (slot (walHash p) j) c = Some r' \<and> found b z L p D r'"
proof (induction c arbitrary: j r)
  case 0
  then have "j = D" by simp
  then show ?case using 0 D by (subst find_key.simps) simp
next
  case (Suc c)
  show ?case
  proof (cases "j = D")
    case True then show ?thesis using Suc D by (subst find_key.simps) simp
  next
    case False
    then have nz: "aHash b ! slot (walHash p) j \<noteq> 0" using Suc.prems D(2) by simp
    let ?r = "if matches b z L p (aHash b ! slot (walHash p) j) then aHash b ! slot (walHash p) j + z else r"
    have "find_key b z L p r (slot (walHash p) j) (Suc c) = find_key b z L p ?r (slot (walHash p) (Suc j)) c"
      by (subst find_key.simps) (simp add: nz next_slot matches_def Let_def)
    moreover have "found b z L p (Suc j) ?r" using found_step [OF ok Suc.prems(3) _ nz] Suc.prems(1) False D(3) by simp
    ultimately show ?thesis using Suc.IH [of "Suc j" ?r] Suc.prems(1,2) False by simp
  qed
qed

lemma find_key_last:
  assumes ok: "block_ok sz b qs"
  shows "find_key b z L p 0 (walHash p) 8192 =
    Some (if last_frame (take (L - z) qs) p = 0 then 0 else z + last_frame (take (L - z) qs) p)"
proof -
  let ?hs = "aHash b" and ?qs = "take (L - z) qs"
  obtain D where D: "D \<le> length qs" "?hs ! slot (walHash p) D = 0" "\<forall>e < D. ?hs ! slot (walHash p) e \<noteq> 0"
    using first_free [OF ok, of "walHash p"] by (elim exE conjE) (rule that; assumption)
  have D8: "D < 8192" using D(1) block_okD(3,4) [OF ok] by linarith
  have "found b z L p 0 0" by (simp add: found_def)
  then obtain r where r: "find_key b z L p 0 (walHash p) 8192 = Some r" "found b z L p D r"
    using find_key_walk [OF ok D(2,3) D8, of 0 8192 z L 0] D8 by (auto simp: slot_walHash)
  have pg: "aPgno b ! (v - 1) = qs ! (v - 1)" if "v \<noteq> 0" "v \<le> length qs" for v
    using that by (intro block_page [OF ok]) auto
  have all: "Suc i + z \<le> r" if i: "i < length ?qs" "?qs ! i = p" for i
  proof -
    have m: "matches b z L p (Suc i)" "key_of qs (Suc i) = walHash p"
      using i pg [of "Suc i"] by (auto simp: matches_def key_of_def)
    have "Suc i \<in> set ?hs" using i by (intro block_okD(8) [OF ok]) auto
    then obtain k where k: "k < 8192" "?hs ! k = Suc i" using block_okD(2) [OF ok] by (auto simp: in_set_conv_nth)
    obtain d where d: "d < 8192" "slot (walHash p) d = k"
      using slot_surj [OF k(1), of "walHash p"] by (auto simp: walHash_def)
    have "\<not> D < d"
    proof
      assume "D < d"
      then have "0 < ?hs ! slot (walHash p) D" using block_path(1) [OF ok, of "Suc i" d D] d k(2) m(2) by simp
      then show False using D(2) by simp
    qed
    moreover have "d \<noteq> D" using d(2) k(2) D(2) by auto
    ultimately have "d < D" by simp
    then show ?thesis using r(2) d(2) k(2) m(1) unfolding found_def by auto
  qed
  show ?thesis
  proof (cases "r = 0")
    case True
    then have "p \<notin> set ?qs" using all by (auto simp: in_set_conv_nth)
    then show ?thesis using r(1) True by (simp add: last_frame_0)
  next
    case False
    then obtain e where e: "e < D" "matches b z L p (?hs ! slot (walHash p) e)" "r = ?hs ! slot (walHash p) e + z"
      using r(2) unfolding found_def by auto
    define i where "i = ?hs ! slot (walHash p) e - 1"
    have v: "?hs ! slot (walHash p) e = Suc i" "Suc i \<le> length qs"
      using e(1) D(3) block_value [OF ok slot_less, of "walHash p" e] by (simp_all add: i_def)
    then have i: "i < length ?qs" "?qs ! i = p" using e(2) pg [of "Suc i"] by (auto simp: matches_def)
    have "last_frame ?qs p = Suc i" by (rule last_frame_eq [OF i]) (use all e(3) v(1) in fastforce)
    then show ?thesis using r(1) e(3) v(1) by simp
  qed
qed


section \<open>The whole index\<close>

definition block_part :: "nat \<Rightarrow> nat list \<Rightarrow> nat list" where
  "block_part h ws = take (block_size h) (drop (first_frame h) ws)"

text \<open>The blocks hold the frames of the given pages; a block without frames may hold anything.\<close>

definition idx_ok :: "'a wal_index_scheme \<Rightarrow> nat list \<Rightarrow> bool" where
  "idx_ok w ws \<longleftrightarrow> 0 \<notin> set ws \<and>
     (\<forall>h. first_frame h < length ws \<longrightarrow> block_ok (block_size h) (apWiData w h) (block_part h ws))"

lemma idx_okD: "idx_ok w ws \<Longrightarrow> first_frame h < length ws \<Longrightarrow> block_ok (block_size h) (apWiData w h) (block_part h ws)"
  by (simp add: idx_ok_def)

lemma first_frame_Suc: "first_frame (Suc h) = first_frame h + block_size h"
  by (cases h) (auto simp: first_frame_def block_size_def)

lemma first_frame_mono: "h < h' \<Longrightarrow> first_frame h + block_size h \<le> first_frame h'"
  by (cases h; cases h') (auto simp: first_frame_def block_size_def)

lemma walFramePage_range:
  assumes "0 < f"
  shows "first_frame (walFramePage f) < f \<and> f \<le> first_frame (walFramePage f) + block_size (walFramePage f)"
proof -
  define h where "h = walFramePage f"
  have "h = (f + 33) div 4096" by (simp add: h_def walFramePage_def add.commute)
  then have "h * 4096 \<le> f + 33 \<and> f + 33 < h * 4096 + 4096"
    using div_mult_mod_eq [of "f + 33" 4096] mod_less_divisor [of 4096 "f + 33"] by linarith
  then show ?thesis unfolding h_def [symmetric] using assms by (cases h) (auto simp: first_frame_def block_size_def)
qed

lemma walFramePage_eq: "first_frame h < f \<Longrightarrow> f \<le> first_frame h + block_size h \<Longrightarrow> walFramePage f = h"
proof (rule ccontr)
  assume f: "first_frame h < f" "f \<le> first_frame h + block_size h" "walFramePage f \<noteq> h"
  then have r: "first_frame (walFramePage f) < f \<and> f \<le> first_frame (walFramePage f) + block_size (walFramePage f)"
    by (intro walFramePage_range) simp
  show False using f r first_frame_mono [of h "walFramePage f"] first_frame_mono [of "walFramePage f" h]
    by (cases "h < walFramePage f") auto
qed

lemma block_part_take: "block_part h (take n ws) = take (n - first_frame h) (block_part h ws)"
  by (simp add: block_part_def drop_take take_take min.commute)

lemma drop_take_append:
  "z \<le> n \<Longrightarrow> n \<le> length ws \<Longrightarrow> drop z (take n ws @ ys) = take (n - z) (drop z ws) @ ys \<and> length (take (n - z) (drop z ws)) = n - z"
  by (auto simp: drop_take min_def)

lemma block_part_whole:
  assumes "h < h'" "first_frame h' \<le> n" "n \<le> length ws"
  shows "block_part h (take n ws @ ys) = block_part h ws"
proof -
  have n: "first_frame h \<le> n" "block_size h \<le> n - first_frame h" using first_frame_mono [OF assms(1)] assms(2) by linarith+
  note d = drop_take_append [OF n(1) assms(3), of ys]
  show ?thesis unfolding block_part_def d [THEN conjunct1] take_append d [THEN conjunct2] take_take
    using n(2) by (simp add: min_def)
qed

lemma block_part_last:
  assumes "first_frame h \<le> n" "n < first_frame h + block_size h" "n \<le> length ws"
  shows "block_part h (take n ws @ [p]) = take (n - first_frame h) (block_part h ws) @ [p]"
proof -
  have n: "n - first_frame h < block_size h" using assms by linarith
  then obtain k where k: "block_size h - (n - first_frame h) = Suc k" by (cases "block_size h - (n - first_frame h)") auto
  note d = drop_take_append [OF assms(1,3), of "[p]"]
  show ?thesis unfolding block_part_def d [THEN conjunct1] take_append d [THEN conjunct2] take_take k
    using n by (simp add: min_def)
qed

lemma idx_ok_fields: "apWiData w = apWiData w' \<Longrightarrow> idx_ok w ws = idx_ok w' ws"
  by (simp add: idx_ok_def)

text \<open>After a frame, everything is removed from its block; the later blocks do not count.\<close>

lemma cleanup_idx_ok:
  assumes "idx_ok w ws" "hdr_mxFrame w \<le> length ws"
  shows "idx_ok (walCleanupHash w) (take (hdr_mxFrame w) ws)"
proof (cases "hdr_mxFrame w = 0")
  case True then show ?thesis by (simp add: idx_ok_def)
next
  case False
  let ?m = "hdr_mxFrame w" and ?h = "walFramePage (hdr_mxFrame w)"
  have r: "first_frame ?h < ?m" "?m \<le> first_frame ?h + block_size ?h" using walFramePage_range False by auto
  show ?thesis unfolding idx_ok_def
  proof (intro conjI allI impI)
    show "0 \<notin> set (take ?m ws)" using assms(1) by (auto simp: idx_ok_def dest: in_set_takeD)
    fix h assume h: "first_frame h < length (take ?m ws)"
    then have ok: "block_ok (block_size h) (apWiData w h) (block_part h ws)" by (intro idx_okD [OF assms(1)]) simp
    show "block_ok (block_size h) (apWiData (walCleanupHash w) h) (block_part h (take ?m ws))"
    proof (cases "h = ?h")
      case True
      then show ?thesis using block_cleanup [OF ok, of "?m - first_frame h"] False
        by (simp add: walCleanupHash_def Let_def block_part_take)
    next
      case False2: False
      have "h < ?h" using h r first_frame_mono [of ?h h] False2 by (cases "h < ?h") auto
      then have "block_part h (take ?m ws @ []) = block_part h ws"
        using r(1) assms(2) by (intro block_part_whole) auto
      then show ?thesis using ok False False2 by (simp add: walCleanupHash_def Let_def)
    qed
  qed
qed

lemma cleanup_fields: "hdr (walCleanupHash w) = hdr w" by (simp add: walCleanupHash_def Let_def)

text \<open>The search in the tables.\<close>

lemma find_tables_last:
  assumes ok: "idx_ok w ws" and L: "L \<le> length ws" and map: "\<And>h. pm h = 0"
  shows "first_frame h < L \<Longrightarrow> find_tables pm w L p h = (0, last_frame (take (min L (first_frame h + block_size h)) ws) p)"
proof (induction h)
  case 0
  have "block_ok (block_size 0) (apWiData w 0) (block_part 0 ws)" using 0 L by (intro idx_okD [OF ok]) simp
  from find_key_last [OF this, of 0 L p] show ?case
    by (subst find_tables.simps) (simp add: walHashGet_def map first_frame_def block_part_def)
next
  case (Suc h)
  let ?z = "first_frame (Suc h)"
  have h: "first_frame h < L" using Suc.prems first_frame_Suc [of h] by (simp add: first_frame_def block_size_def split: if_splits)
  have ok': "block_ok (block_size (Suc h)) (apWiData w (Suc h)) (block_part (Suc h) ws)"
    using Suc.prems L by (intro idx_okD [OF ok]) simp
  let ?t = "take (L - ?z) (block_part (Suc h) ws)"
  have split: "take (min L (?z + block_size (Suc h))) ws = take ?z ws @ ?t"
  proof -
    have "min L (?z + block_size (Suc h)) = ?z + min (L - ?z) (block_size (Suc h))" using Suc.prems by simp
    then show ?thesis by (simp add: take_add block_part_def)
  qed
  have z: "min (length ws) ?z = ?z" "min L (first_frame h + block_size h) = ?z"
    using Suc.prems L by (simp_all add: first_frame_Suc)
  show ?case
    using find_key_last [OF ok', of ?z L p] Suc.IH [OF h] 
    by (subst find_tables.simps) (simp add: walHashGet_def map [of "Suc h"] split last_frame_append z)
qed


text \<open>What the first part of \<^verbatim>\<open>walIndexAppend\<close> does to the block: clear it before its first
  frame, and remove what a dead writer has left behind.\<close>

definition append_room :: "nat \<Rightarrow> nat \<Rightarrow> 'a wal_index_scheme \<Rightarrow> 'a wal_index_scheme" where
  "append_room h f w =
     (let w = (if Suc f - first_frame h = 1 then w\<lparr>apWiData := (apWiData w)(h := empty_block h)\<rparr> else w)
      in if aPgno (apWiData w h) ! (Suc f - first_frame h - 1) \<noteq> 0 then walCleanupHash w else w)"

lemma walIndexAppend_room:
  "walIndexPage (walFramePage (Suc f)) = 0 \<Longrightarrow> walIndexAppend walIndexPage w (Suc f) p =
    (let h = walFramePage (Suc f); w = append_room h f w; b = apWiData w h; idx = Suc f - first_frame h
     in case free_key (aHash b) (walHash p) idx of
          None \<Rightarrow> (SQLITE_CORRUPT, w)
        | Some k \<Rightarrow> (0, w\<lparr>apWiData := (apWiData w)(h := \<lparr>aPgno = (aPgno b)[idx - 1 := p], aHash = (aHash b)[k := idx]\<rparr>)\<rparr>))"
  by (simp only: walIndexAppend_def walHashGet_def append_room_def Let_def prod.case simp_thms if_False)

lemma block_part_length: "f \<le> length ws \<Longrightarrow> first_frame h \<le> f \<Longrightarrow> f \<le> first_frame h + block_size h \<Longrightarrow>
    length (block_part h (take f ws)) = f - first_frame h"
  by (simp add: block_part_def)

lemma append_room_ok:
  assumes ok: "idx_ok w ws" and f: "f \<le> length ws" "f = length ws \<or> f = hdr_mxFrame w"
    and h: "first_frame h \<le> f" "f < first_frame h + block_size h"
  shows "idx_ok (append_room h f w) (take f ws) \<and> hdr (append_room h f w) = hdr w \<and>
    block_ok (block_size h) (apWiData (append_room h f w) h) (block_part h (take f ws))"
proof (cases "f = first_frame h")
  case True
  have w: "append_room h f w = w\<lparr>apWiData := (apWiData w)(h := empty_block h)\<rparr>"
    unfolding append_room_def using True by (simp add: empty_block_def block_size_def)
  have nil: "block_part h (take f ws) = []" using True by (simp add: block_part_def)
  have "idx_ok (append_room h f w) (take f ws)" unfolding idx_ok_def
  proof (intro conjI allI impI)
    show "0 \<notin> set (take f ws)" using ok by (auto simp: idx_ok_def dest: in_set_takeD)
    fix h' assume h': "first_frame h' < length (take f ws)"
    then have lt: "first_frame h' < length ws" "first_frame h' < first_frame h" using True by auto
    have "h' < h" using lt(2) first_frame_mono [of h h'] by (cases h h' rule: linorder_cases) auto
    then have "block_part h' (take f ws @ []) = block_part h' ws" using h(1) f(1) by (rule block_part_whole)
    then show "block_ok (block_size h') (apWiData (append_room h f w) h') (block_part h' (take f ws))"
      using idx_okD [OF ok lt(1)] \<open>h' < h\<close> by (simp add: w)
  qed
  then show ?thesis using block_empty [of h] by (simp add: w nil)
next
  case False
  then have z: "first_frame h < f" "Suc f - first_frame h \<noteq> 1" "Suc f - first_frame h - 1 = f - first_frame h"
    using h by auto
  have b: "block_ok (block_size h) (apWiData w h) (block_part h ws)" using z(1) f(1) by (intro idx_okD [OF ok]) simp
  have w: "append_room h f w = (if aPgno (apWiData w h) ! (f - first_frame h) \<noteq> 0 then walCleanupHash w else w)"
    unfolding append_room_def z(3) using z(2) by simp
  show ?thesis
  proof (cases "f = length ws")
    case True
    have "length (block_part h ws) = f - first_frame h" using block_part_length [of f ws h] True h by simp
    then have "aPgno (apWiData w h) ! (f - first_frame h) = 0"
      unfolding block_okD(6) [OF b] using h by (simp add: nth_append)
    then have e: "append_room h f w = w" by (simp add: w)
    show ?thesis unfolding e using b ok True by simp
  next
    case False
    then have m: "f = hdr_mxFrame w" "f < length ws" using f by auto
    have i: "f - first_frame h < length (block_part h ws)" "block_part h ws ! (f - first_frame h) = ws ! f"
      using m(2) h by (auto simp: block_part_def)
    have "ws ! f \<noteq> 0" using ok m(2) nth_mem [of f ws] unfolding idx_ok_def by metis
    then have w': "append_room h f w = walCleanupHash w" using block_page [OF b i(1)] i(2) by (simp add: w)
    have ok': "idx_ok (walCleanupHash w) (take f ws)" using cleanup_idx_ok [OF ok] m by simp
    show ?thesis unfolding w' using ok' idx_okD [OF ok', of h] z(1) f(1) by (simp add: cleanup_fields)
  qed
qed

lemma append_room_blocks: "\<exists>d. append_room h f w = w\<lparr>apWiData := d\<rparr>"
proof -
  have c: "\<exists>d. walCleanupHash v = v\<lparr>apWiData := d\<rparr>" for v :: "'a wal_index_scheme"
    unfolding walCleanupHash_def Let_def by (cases "hdr_mxFrame v = 0") (auto intro: exI [of _ "apWiData v"])
  obtain d where "walCleanupHash (if Suc f - first_frame h = 1 then w\<lparr>apWiData := (apWiData w)(h := empty_block h)\<rparr> else w) =
      (if Suc f - first_frame h = 1 then w\<lparr>apWiData := (apWiData w)(h := empty_block h)\<rparr> else w)\<lparr>apWiData := d\<rparr>"
    using c by blast
  then show ?thesis unfolding append_room_def Let_def by (auto intro: exI [of _ "apWiData w"])
qed

text \<open>A page is added to the blocks, and nothing else changes.\<close>

lemma walIndexAppend_ok:
  assumes "idx_ok w ws" "f \<le> length ws" "f = length ws \<or> f = hdr_mxFrame w" "p \<noteq> 0"
    and "walIndexPage (walFramePage (Suc f)) = 0"
  shows "\<exists>d. walIndexAppend walIndexPage w (Suc f) p = (0, w\<lparr>apWiData := d\<rparr>) \<and> idx_ok (w\<lparr>apWiData := d\<rparr>) (take f ws @ [p])"
proof -
  let ?h = "walFramePage (Suc f)"
  let ?w = "append_room ?h f w" and ?qs = "block_part ?h (take f ws)"
  have h: "first_frame ?h \<le> f" "f < first_frame ?h + block_size ?h" using walFramePage_range [of "Suc f"] by auto
  have w: "idx_ok ?w (take f ws)" "hdr ?w = hdr w" "block_ok (block_size ?h) (apWiData ?w ?h) ?qs"
    using append_room_ok [OF assms(1-3) h] by auto
  have len: "length ?qs = f - first_frame ?h" "Suc f - first_frame ?h = Suc (length ?qs)" "length ?qs < block_size ?h"
    using block_part_length [of f ws ?h] assms(2) h by auto
  let ?b = "\<lambda>k. \<lparr>aPgno = (aPgno (apWiData ?w ?h))[length ?qs := p], aHash = (aHash (apWiData ?w ?h))[k := Suc (length ?qs)]\<rparr>"
  obtain k where k: "free_key (aHash (apWiData ?w ?h)) (walHash p) (Suc (length ?qs)) = Some k"
    "block_ok (block_size ?h) (?b k) (?qs @ [p])"
    using block_insert [OF w(3) len(3) assms(4)] by (elim exE conjE) (rule that; assumption)
  let ?w' = "?w\<lparr>apWiData := (apWiData ?w)(?h := ?b k)\<rparr>"
  have "walIndexAppend walIndexPage w (Suc f) p = (0, ?w')"
    using k(1) unfolding walIndexAppend_room [of walIndexPage f, OF assms(5)] Let_def len(2) by simp
  moreover have "idx_ok ?w' (take f ws @ [p])" unfolding idx_ok_def
  proof (intro conjI allI impI)
    show "0 \<notin> set (take f ws @ [p])" using assms(4) w(1) by (auto simp: idx_ok_def)
    fix h' assume "first_frame h' < length (take f ws @ [p])"
    then have lt: "first_frame h' < Suc f" using assms(2) by simp
    then have le: "h' \<le> ?h" using h(2) first_frame_mono [of ?h h'] by (cases h' ?h rule: linorder_cases) auto
    have part: "block_part ?h (take f ws @ [p]) = ?qs @ [p]"
      using block_part_last [OF h assms(2), of p] by (simp add: block_part_take)
    show "block_ok (block_size h') (apWiData ?w' h') (block_part h' (take f ws @ [p]))"
    proof (cases "h' = ?h")
      case True
      show ?thesis unfolding True part using k(2) by simp
    next
      case False
      then have "h' < ?h" using le by simp
      then have p': "block_part h' (take f ws @ [p]) = block_part h' (take f ws)" "first_frame h' < f"
        using block_part_whole [OF _ h(1) assms(2), of h'] block_part_whole [OF _ h(1) assms(2), of h' "[]"]
          first_frame_mono [of h' ?h] h(1) by (auto simp: block_size_def split: if_splits)
      then show ?thesis using idx_okD [OF w(1), of h'] assms(2) False by simp
    qed
  qed
  moreover obtain d where "?w = w\<lparr>apWiData := d\<rparr>" using append_room_blocks [of ?h f w] by blast
  then have "?w' = w\<lparr>apWiData := (apWiData ?w)(?h := ?b k)\<rparr>" by simp
  ultimately show ?thesis by metis
qed

text \<open>C27. A page added to the index after frame \<^verbatim>\<open>f\<close>, where \<^verbatim>\<open>f\<close> is the last frame in the index, or
  the last committed one while a writer that has died left others behind it: the index then
  holds the frames up to \<^verbatim>\<open>f\<close> and the new one, and no others. The probing never runs out
  of slots: the only errors are those of mapping the block.\<close>

theorem walIndexAppend_appends:
  assumes "idx_ok w ws" "f \<le> length ws" "f = length ws \<or> f = hdr_mxFrame w" "p \<noteq> 0"
    and "walIndexPage (walFramePage (Suc f)) = 0"
  shows "\<exists>d. walIndexAppend walIndexPage w (Suc f) p = (0, w\<lparr>apWiData := d\<rparr>) \<and> idx_ok (w\<lparr>apWiData := d\<rparr>) (take f ws @ [p])"
  using assms by (rule walIndexAppend_ok)

lemma walIndexAppend_appends_witness:
  "let w = \<lparr>apWiData = empty_block,
      hdr = \<lparr>iVersion = 0, unused = 0, iChange = 0, isInit = 0, bigEndCksum = 0, hdr_szPage = 0, mxFrame = 0,
        nPage = 0, aFrameCksum = (0, 0), aSalt = [], aCksum = (0, 0)\<rparr>\<rparr>
   in \<exists>d. walIndexAppend (\<lambda>h. 0) w (Suc 0) 5 = (0, w\<lparr>apWiData := d\<rparr>) \<and> idx_ok (w\<lparr>apWiData := d\<rparr>) [5]"
proof -
  let ?w = "\<lparr>apWiData = empty_block,
      hdr = \<lparr>iVersion = 0, unused = 0, iChange = 0, isInit = 0, bigEndCksum = 0, hdr_szPage = 0, mxFrame = 0,
        nPage = 0, aFrameCksum = (0, 0), aSalt = [], aCksum = (0, 0)\<rparr>\<rparr>"
  have "idx_ok ?w []" by (simp add: idx_ok_def)
  from walIndexAppend_appends [OF this, of 0 5 "\<lambda>h. 0"] show ?thesis by (simp add: Let_def)
qed

text \<open>A reader with a snapshot of the log, its first \<^verbatim>\<open>mxFrame\<close> frames, finds the last of
  them that holds the page, or 0 when none does, whatever frames a writer has added since.
  It is an error only when a block cannot be mapped.\<close>

lemma sqlite3WalFindFrame_ok:
  assumes "idx_ok w ws" "hdr_mxFrame w \<le> length ws" "readLock \<noteq> 0" "\<forall>h. walIndexPage h = 0"
  shows "sqlite3WalFindFrame walIndexPage w readLock p = (0, last_frame (take (hdr_mxFrame w) ws) p)"
proof (cases "hdr_mxFrame w = 0")
  case False
  let ?h = "walFramePage (hdr_mxFrame w)"
  have "first_frame ?h < hdr_mxFrame w" "hdr_mxFrame w \<le> first_frame ?h + block_size ?h" using walFramePage_range False by auto
  then show ?thesis using find_tables_last [OF assms(1,2), of walIndexPage ?h p] assms(3,4) False
    by (simp add: sqlite3WalFindFrame_def min_def)
qed (simp add: sqlite3WalFindFrame_def)

end
