(* ===== verification/UnixShm.thy ===== *)
theory UnixShm
  imports Prelude
begin

text \<open>
  The locks of a shared-memory segment (\<^verbatim>\<open>src/sqlite/src/os_unix.c\<close>): the eight slots that the
  connections of a process and the processes of a machine lock shared or exclusively.

  The operating system is part of the node: the locks that this process has on the bytes of
  the file, those of the other processes, with which \<^verbatim>\<open>fcntl\<close> does not grant a conflicting
  one, and its answers, which may refuse a lock for any other reason; it grants what is asked
  for when the list is at its end. The assertions are conditions of the lemmas.
\<close>

abbreviation (input) SQLITE_BUSY :: nat where "SQLITE_BUSY \<equiv> 5"
abbreviation (input) SQLITE_SHM_UNLOCK :: nat where "SQLITE_SHM_UNLOCK \<equiv> 1"
abbreviation (input) SQLITE_SHM_LOCK :: nat where "SQLITE_SHM_LOCK \<equiv> 2"
abbreviation (input) SQLITE_SHM_SHARED :: nat where "SQLITE_SHM_SHARED \<equiv> 4"
abbreviation (input) SQLITE_SHM_EXCLUSIVE :: nat where "SQLITE_SHM_EXCLUSIVE \<equiv> 8"
abbreviation (input) SQLITE_SHM_NLOCK :: nat where "SQLITE_SHM_NLOCK \<equiv> 8"

definition UNIX_SHM_BASE :: nat where "UNIX_SHM_BASE = (22 + SQLITE_SHM_NLOCK) * 4"

section \<open>The locks of connections\<close>

datatype shm_lock = Unlocked | ReadLocked | WriteLocked

record unixShm =
  sharedMask :: u16
  exclMask :: u16

record unixShmNode =
  shmOpen :: bool
  pFirst :: "unixShm list"
  shmOwn :: "nat \<Rightarrow> shm_lock"
  shmOthers :: "nat \<Rightarrow> shm_lock"
  shmAnswers :: "bool list"

text \<open>A connection that is alone, with no locks.\<close>

definition shm_alone :: unixShmNode where
  "shm_alone = \<lparr>shmOpen = True, pFirst = [\<lparr>sharedMask = 0, exclMask = 0\<rparr>], shmOwn = (\<lambda>b. Unlocked), shmOthers = (\<lambda>b. Unlocked),
     shmAnswers = []\<rparr>"

definition unixShmSystemLock :: "unixShmNode \<Rightarrow> shm_lock \<Rightarrow> nat \<Rightarrow> nat \<Rightarrow> nat \<times> unixShmNode" where
  "unixShmSystemLock pShmNode lockType ofst n =
     (if shmOpen pShmNode then
        let refused = (\<exists>b \<in> {ofst..<ofst + n}. lockType = WriteLocked \<and> shmOthers pShmNode b \<noteq> Unlocked \<or>
              lockType = ReadLocked \<and> shmOthers pShmNode b = WriteLocked) \<or> (shmAnswers pShmNode \<noteq> [] \<and> \<not> hd (shmAnswers pShmNode));
            pShmNode = pShmNode\<lparr>shmAnswers := tl (shmAnswers pShmNode)\<rparr>
        in if refused then (SQLITE_BUSY, pShmNode)
           else (0, pShmNode\<lparr>shmOwn := \<lambda>b. if ofst \<le> b \<and> b < ofst + n then lockType else shmOwn pShmNode b\<rparr>)
      else (0, pShmNode))"

definition shm_mask :: "nat \<Rightarrow> nat \<Rightarrow> u16" where
  "shm_mask ofst n = push_bit (ofst + n) 1 - push_bit ofst 1"

text \<open>The shared locks of the siblings of the \<^verbatim>\<open>p\<close>-th connection; those of all connections, unless one
  of them has an exclusive lock.\<close>

definition sibling_shared :: "unixShm list \<Rightarrow> nat \<Rightarrow> u16" where
  "sibling_shared conns p = foldl (\<lambda>allMask i. if i = p then allMask else allMask OR sharedMask (conns ! i)) 0 [0..<length conns]"

fun all_shared :: "u16 \<Rightarrow> u16 \<Rightarrow> unixShm list \<Rightarrow> u16 option" where
  "all_shared lock_mask allShared [] = Some allShared"
| "all_shared lock_mask allShared (pX # conns) =
     (if exclMask pX AND lock_mask \<noteq> 0 then None else all_shared lock_mask (allShared OR sharedMask pX) conns)"

definition set_masks :: "(unixShm \<Rightarrow> unixShm) \<Rightarrow> nat \<Rightarrow> unixShmNode \<Rightarrow> unixShmNode" where
  "set_masks f p pShmNode = pShmNode\<lparr>pFirst := (pFirst pShmNode)[p := f (pFirst pShmNode ! p)]\<rparr>"

definition unixShmLock :: "unixShmNode \<Rightarrow> nat \<Rightarrow> nat \<Rightarrow> nat \<Rightarrow> nat \<Rightarrow> nat \<times> unixShmNode" where
  "unixShmLock pShmNode p ofst n flags =
     (let mask = shm_mask ofst n
      in if flags AND SQLITE_SHM_UNLOCK \<noteq> 0 then
           case (if mask AND sibling_shared (pFirst pShmNode) p = 0 then unixShmSystemLock pShmNode Unlocked (ofst + UNIX_SHM_BASE) n
                 else (0, pShmNode)) of (rc, pShmNode) \<Rightarrow>
             (rc, if rc = 0 then set_masks (\<lambda>x. x\<lparr>exclMask := exclMask x AND NOT mask, sharedMask := sharedMask x AND NOT mask\<rparr>) p pShmNode
                  else pShmNode)
         else if flags AND SQLITE_SHM_SHARED \<noteq> 0 then
           case all_shared mask 0 (pFirst pShmNode) of
             None \<Rightarrow> (SQLITE_BUSY, pShmNode)
           | Some allShared \<Rightarrow>
               case (if allShared AND mask = 0 then unixShmSystemLock pShmNode ReadLocked (ofst + UNIX_SHM_BASE) n
                     else (0, pShmNode)) of (rc, pShmNode) \<Rightarrow>
                 (rc, if rc = 0 then set_masks (\<lambda>x. x\<lparr>sharedMask := sharedMask x OR mask\<rparr>) p pShmNode else pShmNode)
         else if list_ex (\<lambda>pX. exclMask pX AND mask \<noteq> 0 \<or> sharedMask pX AND mask \<noteq> 0) (pFirst pShmNode) then (SQLITE_BUSY, pShmNode)
         else
           case unixShmSystemLock pShmNode WriteLocked (ofst + UNIX_SHM_BASE) n of (rc, pShmNode) \<Rightarrow>
             (rc, if rc = 0 then set_masks (\<lambda>x. x\<lparr>exclMask := exclMask x OR mask\<rparr>) p pShmNode else pShmNode))"

section \<open>Exclusion\<close>

definition shm_holds :: "unixShmNode \<Rightarrow> nat \<Rightarrow> nat \<Rightarrow> bool \<Rightarrow> bool" where
  "shm_holds nd p b excl \<longleftrightarrow> p < length (pFirst nd) \<and> bit ((if excl then exclMask else sharedMask) (pFirst nd ! p)) b"

text \<open>No one shares a slot that is locked exclusively, and the process has the locks of its connections,
  which those of the others do not conflict with.\<close>

definition shm_exclusive :: "unixShmNode \<Rightarrow> bool" where
  "shm_exclusive nd \<longleftrightarrow> (\<forall>p q b. b < SQLITE_SHM_NLOCK \<longrightarrow> shm_holds nd p b True \<longrightarrow>
     \<not> shm_holds nd q b False \<and> (shm_holds nd q b True \<longrightarrow> q = p))"

definition shm_backed :: "unixShmNode \<Rightarrow> bool" where
  "shm_backed nd \<longleftrightarrow> (shmOpen nd \<longrightarrow> (\<forall>p b. b < SQLITE_SHM_NLOCK \<longrightarrow>
     (shm_holds nd p b True \<longrightarrow> shmOwn nd (b + UNIX_SHM_BASE) = WriteLocked) \<and>
     (shm_holds nd p b False \<longrightarrow> shmOwn nd (b + UNIX_SHM_BASE) \<noteq> Unlocked)))"

definition shm_granted :: "unixShmNode \<Rightarrow> bool" where
  "shm_granted nd \<longleftrightarrow> (\<forall>b. (shmOwn nd b = WriteLocked \<longrightarrow> shmOthers nd b = Unlocked) \<and>
     (shmOwn nd b = ReadLocked \<longrightarrow> shmOthers nd b \<noteq> WriteLocked))"

definition shm_inv :: "unixShmNode \<Rightarrow> bool" where
  "shm_inv nd \<longleftrightarrow> shm_exclusive nd \<and> shm_backed nd \<and> shm_granted nd"

lemma bit_shm_mask:
  assumes "ofst + n < 16"
  shows "bit (shm_mask ofst n) b \<longleftrightarrow> ofst \<le> b \<and> b < ofst + n"
proof -
  have "shm_mask ofst n = push_bit ofst (mask n)"
    unfolding shm_mask_def by (simp add: push_bit_eq_mult mask_eq_exp_minus_1 power_add algebra_simps)
  then show ?thesis using assms by (auto simp: bit_simps)
qed

lemma and_shm_mask:
  assumes "ofst + n < 16"
  shows "x AND shm_mask ofst n = 0 \<longleftrightarrow> (\<forall>b. ofst \<le> b \<and> b < ofst + n \<longrightarrow> \<not> bit x b)"
proof -
  have "bit (x AND shm_mask ofst n) b \<longleftrightarrow> bit x b \<and> ofst \<le> b \<and> b < ofst + n" for b by (simp add: bit_and_iff bit_shm_mask [OF assms])
  moreover have "x AND shm_mask ofst n = 0 \<longleftrightarrow> (\<forall>b. \<not> bit (x AND shm_mask ofst n) b)"
    by (metis bit_0_eq bot_apply bot_bool_def bit_eq_iff bit_word_eqI)
  ultimately show ?thesis by blast
qed

lemma bit_sibling_shared: "bit (sibling_shared conns p) b \<longleftrightarrow> (\<exists>i < length conns. i \<noteq> p \<and> bit (sharedMask (conns ! i)) b)"
proof -
  have "bit (foldl (\<lambda>a i. if i = p then a else a OR sharedMask (conns ! i)) a is) b \<longleftrightarrow>
      bit a b \<or> (\<exists>i \<in> set is. i \<noteq> p \<and> bit (sharedMask (conns ! i)) b)" for a "is"
    by (induction "is" arbitrary: a) (auto simp: bit_or_iff)
  then show ?thesis by (auto simp: sibling_shared_def)
qed

lemma all_shared_Some:
  "all_shared m a conns = Some s \<Longrightarrow>
    (\<forall>x \<in> set conns. exclMask x AND m = 0) \<and> (bit s b \<longleftrightarrow> bit a b \<or> (\<exists>x \<in> set conns. bit (sharedMask x) b))"
  by (induction m a conns rule: all_shared.induct) (auto simp: bit_or_iff split: if_splits)

lemma holds_set_masks:
  "p < length (pFirst nd) \<Longrightarrow> shm_holds (set_masks f p nd) q b e \<longleftrightarrow>
    (if q = p then bit ((if e then exclMask else sharedMask) (f (pFirst nd ! p))) b else shm_holds nd q b e)"
  by (auto simp: shm_holds_def set_masks_def)

text \<open>What a call that succeeds does to the locks of the process and of the connection, and what it
  relies on.\<close>

lemma systemLock_ok:
  assumes "unixShmSystemLock nd t ofst n = (rc, nd')"
  shows "pFirst nd' = pFirst nd" "shmOpen nd' = shmOpen nd" "shmOthers nd' = shmOthers nd" "rc \<noteq> 0 \<Longrightarrow> shmOwn nd' = shmOwn nd"
    "shmOwn nd' = (if shmOpen nd \<and> rc = 0 then \<lambda>b. if ofst \<le> b \<and> b < ofst + n then t else shmOwn nd b else shmOwn nd)"
    "shmOpen nd \<Longrightarrow> rc = 0 \<Longrightarrow> ofst \<le> b \<Longrightarrow> b < ofst + n \<Longrightarrow>
      (t = WriteLocked \<longrightarrow> shmOthers nd b = Unlocked) \<and> (t = ReadLocked \<longrightarrow> shmOthers nd b \<noteq> WriteLocked)"
    "rc = 0 \<or> rc = SQLITE_BUSY"
  using assms by (auto simp: unixShmSystemLock_def Let_def split: if_splits)

definition shm_request :: "unixShmNode \<Rightarrow> nat \<Rightarrow> nat \<Rightarrow> nat \<Rightarrow> nat \<Rightarrow> bool" where
  "shm_request nd p ofst n flags \<longleftrightarrow> p < length (pFirst nd) \<and> 1 \<le> n \<and> ofst + n \<le> SQLITE_SHM_NLOCK \<and>
     (flags = SQLITE_SHM_LOCK + SQLITE_SHM_SHARED \<and> n = 1 \<or>
      flags = SQLITE_SHM_LOCK + SQLITE_SHM_EXCLUSIVE \<or>
      flags = SQLITE_SHM_UNLOCK + SQLITE_SHM_SHARED \<and> n = 1 \<and> shm_holds nd p ofst False \<or>
      flags = SQLITE_SHM_UNLOCK + SQLITE_SHM_EXCLUSIVE \<and> (\<forall>b. ofst \<le> b \<and> b < ofst + n \<longrightarrow> shm_holds nd p b True))"

text \<open>The locks of the others do not change, and a lock that is refused leaves everything as it is.\<close>

lemma systemLock_granted: "unixShmSystemLock nd t ofst n = (rc, nd') \<Longrightarrow> shm_granted nd \<Longrightarrow> shm_granted nd'"
  using systemLock_ok(3,5,6) [of nd t ofst n rc nd'] by (auto simp: shm_granted_def)

lemma systemLock_refused: "unixShmSystemLock nd t ofst n = (rc, nd') \<Longrightarrow> rc \<noteq> 0 \<Longrightarrow> shm_inv nd \<Longrightarrow> shm_inv nd'"
  using systemLock_ok(1-4) [of nd t ofst n rc nd']
  by (simp add: shm_inv_def shm_exclusive_def shm_backed_def shm_granted_def shm_holds_def)

lemma set_masks_granted: "shm_granted (set_masks f p nd) = shm_granted nd"
  by (simp add: shm_granted_def set_masks_def)

lemma shm_excl_ok:
  assumes p: "p < length (pFirst nd)" "ofst + n \<le> 8"
    and x: "unixShmLock nd p ofst n 10 = (rc, nd')" and inv: "shm_inv nd"
  shows "shm_inv nd' \<and> (rc = 0 \<longrightarrow> (\<forall>b. ofst \<le> b \<and> b < ofst + n \<longrightarrow> shm_holds nd' p b True))"
proof -
  let ?m = "shm_mask ofst n"
  obtain rc1 n1 where s: "unixShmSystemLock nd WriteLocked (ofst + UNIX_SHM_BASE) n = (rc1, n1)" by (rule prod.exhaust)
  note S = systemLock_ok [OF s]
  have m: "ofst + n < 16" using p(2) by simp
  consider (busy) "rc \<noteq> 0" "nd' = nd" | (refused) "rc \<noteq> 0" "nd' = n1" "rc1 \<noteq> 0" |
    (free) "rc = 0" "rc1 = 0" "nd' = set_masks (\<lambda>x. x\<lparr>exclMask := exclMask x OR ?m\<rparr>) p n1"
      "\<forall>x \<in> set (pFirst nd). exclMask x AND ?m = 0 \<and> sharedMask x AND ?m = 0"
    using x s by (auto simp: unixShmLock_def Let_def list_ex_iff split: if_splits)
  then show ?thesis
  proof cases
    case free
    have none: "\<not> shm_holds nd q b e" if "ofst \<le> b" "b < ofst + n" for q b e
      using free(4) that and_shm_mask [OF m] by (auto simp: shm_holds_def dest!: nth_mem)
    have h: "shm_holds nd' q b e \<longleftrightarrow> shm_holds nd q b e \<or> (q = p \<and> e \<and> ofst \<le> b \<and> b < ofst + n)" for q b e
      using holds_set_masks [of p n1 _ q b e] p(1) S(1) unfolding free(3)
      by (cases "q = p"; cases e) (simp_all add: bit_or_iff bit_shm_mask [OF m] shm_holds_def)
    have o: "shmOpen nd' = shmOpen nd"
      "shmOwn nd' = (if shmOpen nd then \<lambda>b. if ofst + UNIX_SHM_BASE \<le> b \<and> b < ofst + UNIX_SHM_BASE + n then WriteLocked else shmOwn nd b else shmOwn nd)"
      unfolding free(3) set_masks_def using S(2,5) free(2) by simp_all
    have "shm_exclusive nd'" unfolding shm_exclusive_def
    proof (intro allI impI)
      fix r q b assume b: "b < (8 :: nat)" "shm_holds nd' r b True"
      show "\<not> shm_holds nd' q b False \<and> (shm_holds nd' q b True \<longrightarrow> q = r)"
      proof (cases "ofst \<le> b \<and> b < ofst + n")
        case True
        then show ?thesis using none b(2) by (simp add: h)
      next
        case False
        then have "shm_holds nd r b True" "\<And>e. shm_holds nd' q b e \<longleftrightarrow> shm_holds nd q b e" using b(2) by (auto simp: h)
        then show ?thesis using inv b(1) unfolding shm_inv_def shm_exclusive_def by metis
      qed
    qed
    moreover have "shm_backed nd'" using inv unfolding shm_inv_def shm_backed_def h o by auto
    moreover have "shm_granted nd'"
      unfolding free(3) set_masks_granted using systemLock_granted [OF s] inv by (simp add: shm_inv_def)
    ultimately show ?thesis unfolding shm_inv_def h using free(1) by blast
  next
    case refused
    then show ?thesis using systemLock_refused [OF s _ inv] by simp
  qed (use inv in simp)
qed

lemma shm_shared_ok:
  assumes p: "p < length (pFirst nd)" "ofst < 8"
    and x: "unixShmLock nd p ofst 1 6 = (rc, nd')" and inv: "shm_inv nd"
  shows "shm_inv nd' \<and> (rc = 0 \<longrightarrow> shm_holds nd' p ofst False)"
proof -
  let ?m = "shm_mask ofst 1" and ?set = "set_masks (\<lambda>x. x\<lparr>sharedMask := sharedMask x OR shm_mask ofst 1\<rparr>) p"
  have m: "ofst + 1 < 16" using p(2) by simp
  show ?thesis
  proof (cases "all_shared ?m 0 (pFirst nd)")
    case None
    then show ?thesis using x inv by (simp add: unixShmLock_def Let_def)
  next
    case (Some s)
    note A = all_shared_Some [OF Some]
    have none: "\<not> shm_holds nd q ofst True" for q
      using A and_shm_mask [OF m] by (auto simp: shm_holds_def dest!: nth_mem)
    obtain rc1 n1 where s: "(if s AND ?m = 0 then unixShmSystemLock nd ReadLocked (ofst + UNIX_SHM_BASE) 1 else (0, nd)) = (rc1, n1)" by (rule prod.exhaust)
    have r: "rc = rc1" "nd' = (if rc1 = 0 then ?set n1 else n1)"
      using x s Some by (auto simp: unixShmLock_def Let_def simp del: One_nat_def)
    have n1: "pFirst n1 = pFirst nd" "shmOpen n1 = shmOpen nd" "shm_granted n1" "rc1 \<noteq> 0 \<Longrightarrow> shm_inv n1"
      "rc1 = 0 \<Longrightarrow> shmOpen nd \<Longrightarrow> shmOwn n1 (ofst + UNIX_SHM_BASE) \<noteq> Unlocked"
      "b \<noteq> ofst + UNIX_SHM_BASE \<Longrightarrow> shmOwn n1 b = shmOwn nd b" for b
    proof -
      have own: "shmOwn nd (ofst + UNIX_SHM_BASE) \<noteq> Unlocked" if "s AND ?m \<noteq> 0" "shmOpen nd"
      proof -
        have "bit s ofst" using that(1) and_shm_mask [OF m, of s] by (auto simp: less_Suc_eq_le dest: antisym)
        then obtain q where "shm_holds nd q ofst False" using A [of ofst] by (auto simp: shm_holds_def in_set_conv_nth)
        then show ?thesis using inv that(2) p(2) by (auto simp: shm_inv_def shm_backed_def)
      qed
      show "pFirst n1 = pFirst nd" "shmOpen n1 = shmOpen nd" "shm_granted n1" "rc1 \<noteq> 0 \<Longrightarrow> shm_inv n1"
        "rc1 = 0 \<Longrightarrow> shmOpen nd \<Longrightarrow> shmOwn n1 (ofst + UNIX_SHM_BASE) \<noteq> Unlocked"
        "b \<noteq> ofst + UNIX_SHM_BASE \<Longrightarrow> shmOwn n1 b = shmOwn nd b"
        using s own inv systemLock_ok [of nd ReadLocked "ofst + UNIX_SHM_BASE" 1 rc1 n1]
          systemLock_granted [of nd ReadLocked "ofst + UNIX_SHM_BASE" 1 rc1 n1] systemLock_refused [of nd ReadLocked "ofst + UNIX_SHM_BASE" 1 rc1 n1]
        by (auto simp: shm_inv_def split: if_splits)
    qed
    show ?thesis
    proof (cases "rc1 = 0")
      case True
      have h: "shm_holds nd' q b e \<longleftrightarrow> shm_holds nd q b e \<or> (q = p \<and> \<not> e \<and> b = ofst)" for q b e
        using holds_set_masks [of p n1 _ q b e] p(1) n1(1) True bit_shm_mask [OF m, of b] unfolding r(2)
        by (cases "q = p"; cases e) (auto simp: bit_or_iff shm_holds_def simp del: One_nat_def)
      have o: "shmOpen nd' = shmOpen nd" "shmOwn nd' = shmOwn n1" using r True n1 by (simp_all add: set_masks_def)
      have "shm_exclusive nd'" using inv none unfolding shm_inv_def shm_exclusive_def h by blast
      moreover have "shm_backed nd'" unfolding shm_backed_def h o
      proof (intro impI allI)
        fix q b assume a: "shmOpen nd" "b < (8 :: nat)"
        show "(shm_holds nd q b True \<or> q = p \<and> \<not> True \<and> b = ofst \<longrightarrow> shmOwn n1 (b + UNIX_SHM_BASE) = WriteLocked) \<and>
            (shm_holds nd q b False \<or> q = p \<and> \<not> False \<and> b = ofst \<longrightarrow> shmOwn n1 (b + UNIX_SHM_BASE) \<noteq> Unlocked)"
        proof (cases "b = ofst")
          case True
          then show ?thesis using none [of q] n1(5) [OF \<open>rc1 = 0\<close> a(1)] by simp
        next
          case False
          then show ?thesis using inv a n1(6) [of "b + UNIX_SHM_BASE"] by (simp add: shm_inv_def shm_backed_def)
        qed
      qed
      moreover have "shm_granted nd'" using r True n1(3) by (simp add: set_masks_granted)
      ultimately show ?thesis unfolding shm_inv_def h by blast
    qed (use r n1(4) in simp)
  qed
qed

lemma shm_unlock_ok:
  assumes p: "p < length (pFirst nd)" "ofst + n \<le> 8" and f: "flags = 5 \<or> flags = 9"
    and own: "\<And>b. ofst \<le> b \<Longrightarrow> b < ofst + n \<Longrightarrow> shm_holds nd p b (flags = 9)" and one: "flags = 5 \<Longrightarrow> n = 1"
    and x: "unixShmLock nd p ofst n flags = (rc, nd')" and inv: "shm_inv nd"
  shows "shm_inv nd' \<and> (rc = 0 \<longrightarrow> (\<forall>b e. ofst \<le> b \<and> b < ofst + n \<longrightarrow> \<not> shm_holds nd' p b e))"
proof -
  let ?m = "shm_mask ofst n"
  let ?set = "set_masks (\<lambda>x. x\<lparr>exclMask := exclMask x AND NOT ?m, sharedMask := sharedMask x AND NOT ?m\<rparr>) p"
  have m: "ofst + n < 16" using p(2) by simp
  obtain rc1 n1 where s: "(if ?m AND sibling_shared (pFirst nd) p = 0 then unixShmSystemLock nd Unlocked (ofst + UNIX_SHM_BASE) n else (0, nd)) = (rc1, n1)"
    by (rule prod.exhaust)
  have r: "rc = rc1" "nd' = (if rc1 = 0 then ?set n1 else n1)" using x s f by (auto simp: unixShmLock_def Let_def split: prod.splits)
  have n1: "pFirst n1 = pFirst nd" "shmOpen n1 = shmOpen nd" "shm_granted n1" "rc1 \<noteq> 0 \<Longrightarrow> shm_inv n1"
    "shmOwn n1 b = shmOwn nd b \<or> (\<exists>c. b = c + UNIX_SHM_BASE \<and> ofst \<le> c \<and> c < ofst + n \<and> (\<forall>q e. q \<noteq> p \<longrightarrow> \<not> shm_holds nd q c e))" for b
  proof -
    have free: "\<not> shm_holds nd q c e" if "?m AND sibling_shared (pFirst nd) p = 0" "ofst \<le> c" "c < ofst + n" "q \<noteq> p" for q c e
    proof (cases e)
      case True
      have "c < 8" using that(3) p(2) by simp
      moreover have "shm_exclusive nd" using inv by (simp add: shm_inv_def)
      ultimately show ?thesis using own [OF that(2,3)] that(4) True unfolding shm_exclusive_def by (cases "flags = 9") metis+
    next
      case False
      have "sibling_shared (pFirst nd) p AND ?m = 0" using that(1) by (simp add: and.commute)
      then show ?thesis using that False by (auto simp: and_shm_mask [OF m] bit_sibling_shared shm_holds_def)
    qed
    show "pFirst n1 = pFirst nd" "shmOpen n1 = shmOpen nd" "shm_granted n1" "rc1 \<noteq> 0 \<Longrightarrow> shm_inv n1"
      using s inv systemLock_ok [of nd Unlocked "ofst + UNIX_SHM_BASE" n rc1 n1]
        systemLock_granted [of nd Unlocked "ofst + UNIX_SHM_BASE" n rc1 n1] systemLock_refused [of nd Unlocked "ofst + UNIX_SHM_BASE" n rc1 n1]
      by (auto simp: shm_inv_def split: if_splits)
    have "shmOwn n1 b \<noteq> shmOwn nd b \<Longrightarrow> ?m AND sibling_shared (pFirst nd) p = 0 \<and> ofst + UNIX_SHM_BASE \<le> b \<and> b < ofst + UNIX_SHM_BASE + n"
      using s systemLock_ok(5) [of nd Unlocked "ofst + UNIX_SHM_BASE" n rc1 n1] by (auto split: if_splits)
    then show "shmOwn n1 b = shmOwn nd b \<or> (\<exists>c. b = c + UNIX_SHM_BASE \<and> ofst \<le> c \<and> c < ofst + n \<and> (\<forall>q e. q \<noteq> p \<longrightarrow> \<not> shm_holds nd q c e))"
      using free [of "b - UNIX_SHM_BASE"] by (cases "shmOwn n1 b = shmOwn nd b") (auto intro!: exI [of _ "b - UNIX_SHM_BASE"])
  qed
  show ?thesis
  proof (cases "rc1 = 0")
    case True
    have h: "shm_holds nd' q b e \<longleftrightarrow> shm_holds nd q b e \<and> \<not> (q = p \<and> ofst \<le> b \<and> b < ofst + n)" if "b < 8" for q b e
      using holds_set_masks [of p n1 _ q b e] p(1) n1(1) True that unfolding r(2)
      by (cases "q = p"; cases e) (auto simp: bit_and_iff bit_not_iff bit_shm_mask [OF m] shm_holds_def)
    have o: "shmOpen nd' = shmOpen nd" "shmOwn nd' = shmOwn n1" using r True n1 by (simp_all add: set_masks_def)
    have "shm_exclusive nd'" using inv h unfolding shm_inv_def shm_exclusive_def by blast
    moreover have "shm_backed nd'" unfolding shm_backed_def o
    proof (intro impI allI)
      fix q b assume a: "shmOpen nd" "b < (8 :: nat)"
      have k: "shmOwn n1 (b + UNIX_SHM_BASE) = shmOwn nd (b + UNIX_SHM_BASE)" if "shm_holds nd' q b e" for e
        using n1(5) [of "b + UNIX_SHM_BASE"] that h [OF a(2), of q e] by auto
      show "(shm_holds nd' q b True \<longrightarrow> shmOwn n1 (b + UNIX_SHM_BASE) = WriteLocked) \<and>
          (shm_holds nd' q b False \<longrightarrow> shmOwn n1 (b + UNIX_SHM_BASE) \<noteq> Unlocked)"
        using k [of True] k [of False] h [OF a(2), of q True] h [OF a(2), of q False] inv a
        unfolding shm_inv_def shm_backed_def by metis
    qed
    moreover have "shm_granted nd'" using r True n1(3) by (simp add: set_masks_granted)
    ultimately show ?thesis using h p(2) by (auto simp: shm_inv_def)
  qed (use r n1(4) in simp)
qed

lemma unixShmLock_ok:
  "shm_request nd p ofst n flags \<Longrightarrow> unixShmLock nd p ofst n flags = (rc, nd') \<Longrightarrow> shm_inv nd \<Longrightarrow> shm_inv nd'"
  using shm_excl_ok [of p nd ofst n rc nd'] shm_shared_ok [of p nd ofst rc nd'] shm_unlock_ok [of p nd ofst n flags rc nd']
  by (auto simp: shm_request_def less_Suc_eq_le dest: antisym)

text \<open>What a call leaves alone, and when it refuses an exclusive lock: a slot that any connection holds,
  this one included, or that another process does.\<close>

lemma unixShmLock_frame:
  assumes "unixShmLock nd p ofst n flags = (rc, nd')"
  shows "shmOpen nd' = shmOpen nd" "shmOthers nd' = shmOthers nd" "length (pFirst nd') = length (pFirst nd)"
    "q \<noteq> p \<Longrightarrow> pFirst nd' ! q = pFirst nd ! q"
  using assms systemLock_ok [of nd _ "ofst + UNIX_SHM_BASE" n]
  by (auto simp: unixShmLock_def Let_def set_masks_def split: if_splits option.splits prod.splits)

lemma unixShmLock_refused:
  assumes "shm_holds nd q b e" "ofst \<le> b" "b < ofst + n" "ofst + n < 16"
  shows "unixShmLock nd p ofst n (SQLITE_SHM_LOCK + SQLITE_SHM_EXCLUSIVE) = (SQLITE_BUSY, nd)"
proof -
  have "pFirst nd ! q \<in> set (pFirst nd)" "bit ((if e then exclMask else sharedMask) (pFirst nd ! q)) b"
    using assms(1) by (simp_all add: shm_holds_def)
  then have "list_ex (\<lambda>pX. exclMask pX AND shm_mask ofst n \<noteq> 0 \<or> sharedMask pX AND shm_mask ofst n \<noteq> 0) (pFirst nd)"
    using assms(2,3) and_shm_mask [OF assms(4)] by (cases e) (auto simp: list_ex_iff)
  then show ?thesis by (simp add: unixShmLock_def Let_def)
qed

lemma unixShmLock_others:
  assumes "shmOpen nd" "shmOthers nd (b + UNIX_SHM_BASE) \<noteq> Unlocked" "ofst \<le> b" "b < ofst + n"
    and "unixShmLock nd p ofst n (SQLITE_SHM_LOCK + SQLITE_SHM_EXCLUSIVE) = (rc, nd')"
  shows "rc \<noteq> 0"
proof
  assume "rc = 0"
  then obtain nd1 where "unixShmSystemLock nd WriteLocked (ofst + UNIX_SHM_BASE) n = (0, nd1)"
    using assms(5) by (auto simp: unixShmLock_def Let_def split: if_splits prod.splits)
  from systemLock_ok(6) [OF this assms(1) refl, of "b + UNIX_SHM_BASE"] show False using assms(2-4) by simp
qed

text \<open>Runs of the connections of a process, while the other processes take and drop locks that do not
  conflict with those of this one.\<close>

inductive shm_step :: "unixShmNode \<Rightarrow> unixShmNode \<Rightarrow> bool" where
  lock: "shm_request nd p ofst n flags \<Longrightarrow> unixShmLock nd p ofst n flags = (rc, nd') \<Longrightarrow> shm_step nd nd'"
| others: "shm_granted (nd\<lparr>shmOthers := f\<rparr>) \<Longrightarrow> shm_step nd (nd\<lparr>shmOthers := f\<rparr>)"
| connect: "shm_step nd (nd\<lparr>pFirst := pFirst nd @ [\<lparr>sharedMask = 0, exclMask = 0\<rparr>]\<rparr>)"

inductive_cases shm_stepE: "shm_step nd nd'"

lemma shm_step_ok: "shm_step nd nd' \<Longrightarrow> shm_inv nd \<Longrightarrow> shm_inv nd'"
proof (induction rule: shm_step.induct)
  case (lock nd p ofst n flags rc nd')
  then show ?case using unixShmLock_ok by blast
next
  case (others nd f)
  then show ?case by (simp add: shm_inv_def shm_exclusive_def shm_backed_def shm_holds_def)
next
  case (connect nd)
  have h: "shm_holds (nd\<lparr>pFirst := pFirst nd @ [\<lparr>sharedMask = 0, exclMask = 0\<rparr>]\<rparr>) q b e = shm_holds nd q b e" for q b e
    by (auto simp: shm_holds_def nth_append less_Suc_eq)
  from connect show ?case by (simp add: shm_inv_def shm_exclusive_def shm_backed_def shm_granted_def h)
qed

lemma shm_run_ok: "shm_step\<^sup>*\<^sup>* nd nd' \<Longrightarrow> shm_inv nd \<Longrightarrow> shm_inv nd'"
  by (induction rule: rtranclp_induct) (auto intro: shm_step_ok)

end
