(* ===== verification/UnixFile.thy ===== *)
theory UnixFile
  imports UnixShm
begin

text \<open>
  Reading and writing a file (\<^verbatim>\<open>src/sqlite/src/os_unix.c\<close>): the methods \<^verbatim>\<open>xRead\<close>, \<^verbatim>\<open>xWrite\<close>,
  \<^verbatim>\<open>xSync\<close>, \<^verbatim>\<open>xTruncate\<close> and \<^verbatim>\<open>xFileSize\<close> of the unix VFS, which repeat system calls that are
  interrupted or transfer less than asked for.

  The kernel is the list of its next answers, for the calls in their order: a call transfers a
  number of bytes, or fails with an error number. Once the list is used up every call does all
  that it is asked for. The part of a database file that is mapped into memory shows the
  content of the file. The last two fields are the connection's number among those of its
  segment of shared memory, and that segment.
\<close>

section \<open>Files\<close>

datatype syscall = Done nat | Fail int

record open_file =
  fContent :: bytes
  fMapped :: bool
  fMmapSize :: nat
  fMmapMax :: nat
  fFetchOut :: nat
  fChunk :: nat
  fBlkSize :: nat
  fDirSync :: bool
  fErrno :: int
  fAnswers :: "syscall list"
  fShm :: nat
  fShmNode :: unixShmNode

abbreviation (input) EINTR :: int where "EINTR \<equiv> 4"
abbreviation (input) ENOSPC :: int where "ENOSPC \<equiv> 28"
abbreviation (input) SQLITE_FULL :: nat where "SQLITE_FULL \<equiv> 13"
abbreviation (input) SQLITE_IOERR_READ :: nat where "SQLITE_IOERR_READ \<equiv> 266"
abbreviation (input) SQLITE_IOERR_SHORT_READ :: nat where "SQLITE_IOERR_SHORT_READ \<equiv> 522"
abbreviation (input) SQLITE_IOERR_WRITE :: nat where "SQLITE_IOERR_WRITE \<equiv> 778"
abbreviation (input) SQLITE_IOERR_FSYNC :: nat where "SQLITE_IOERR_FSYNC \<equiv> 1034"
abbreviation (input) SQLITE_IOERR_TRUNCATE :: nat where "SQLITE_IOERR_TRUNCATE \<equiv> 1546"
abbreviation (input) SQLITE_IOERR_FSTAT :: nat where "SQLITE_IOERR_FSTAT \<equiv> 1802"

text \<open>Bytes written beyond the end of a file leave zeros between.\<close>

definition file_patch :: "bytes \<Rightarrow> nat \<Rightarrow> bytes \<Rightarrow> bytes" where
  "file_patch f off d =
     (if d = [] then f else take off (f @ replicate (off - length f) 0) @ d @ drop (off + length d) f)"

section \<open>Reading\<close>

text \<open>The number of bytes that have been read, or -1, and the bytes.\<close>

fun seekAndRead_calls :: "syscall list \<Rightarrow> open_file \<Rightarrow> nat \<Rightarrow> nat \<Rightarrow> bytes \<Rightarrow> int \<times> bytes \<times> open_file" where
  "seekAndRead_calls [] pFile offset cnt buf =
     (let got = take cnt (drop offset (fContent pFile))
      in (int (length (buf @ got)), buf @ got, pFile\<lparr>fAnswers := []\<rparr>))"
| "seekAndRead_calls (Done n # k) pFile offset cnt buf =
     (let got = take (min n cnt) (drop offset (fContent pFile))
      in if length got = cnt \<or> got = [] then (int (length (buf @ got)), buf @ got, pFile\<lparr>fAnswers := k\<rparr>)
         else seekAndRead_calls k pFile (offset + length got) (cnt - length got) (buf @ got))"
| "seekAndRead_calls (Fail errno # k) pFile offset cnt buf =
     (if errno = EINTR then seekAndRead_calls k pFile offset cnt buf
      else (-1, buf, pFile\<lparr>fErrno := errno, fAnswers := k\<rparr>))"

definition seekAndRead :: "open_file \<Rightarrow> nat \<Rightarrow> nat \<Rightarrow> int \<times> bytes \<times> open_file" where
  "seekAndRead pFile offset cnt = seekAndRead_calls (fAnswers pFile) pFile offset (cnt mod 0x20000) []"

definition unixRead :: "open_file \<Rightarrow> nat \<Rightarrow> nat \<Rightarrow> nat \<times> bytes \<times> open_file" where
  "unixRead pFile amt offset =
     (if offset < fMmapSize pFile \<and> offset + amt \<le> fMmapSize pFile
      then (0, take amt (drop offset (fContent pFile)), pFile)
      else
        let nCopy = (if offset < fMmapSize pFile then fMmapSize pFile - offset else 0);
            buf = take nCopy (drop offset (fContent pFile));
            amt = amt - nCopy
        in case seekAndRead pFile (offset + nCopy) amt of (got, d, pFile) \<Rightarrow>
             if got = int amt then (0, buf @ d, pFile)
             else if got < 0 then (SQLITE_IOERR_READ, buf @ d, pFile)
             else (SQLITE_IOERR_SHORT_READ, buf @ d @ replicate (amt - nat got) 0, pFile\<lparr>fErrno := 0\<rparr>))"

section \<open>Writing\<close>

fun seekAndWriteFd :: "syscall list \<Rightarrow> open_file \<Rightarrow> nat \<Rightarrow> bytes \<Rightarrow> int \<times> open_file" where
  "seekAndWriteFd [] pFile iOff buf =
     (int (length buf), pFile\<lparr>fContent := file_patch (fContent pFile) iOff buf, fAnswers := []\<rparr>)"
| "seekAndWriteFd (Done n # k) pFile iOff buf =
     (int (min n (length buf)), pFile\<lparr>fContent := file_patch (fContent pFile) iOff (take n buf), fAnswers := k\<rparr>)"
| "seekAndWriteFd (Fail errno # k) pFile iOff buf =
     (if errno = EINTR then seekAndWriteFd k pFile iOff buf else (-1, pFile\<lparr>fErrno := errno, fAnswers := k\<rparr>))"

definition seekAndWrite :: "open_file \<Rightarrow> nat \<Rightarrow> bytes \<Rightarrow> int \<times> open_file" where
  "seekAndWrite pFile offset buf = seekAndWriteFd (fAnswers pFile) pFile offset (take (length buf mod 0x20000) buf)"

function unixWrite_loop :: "open_file \<Rightarrow> bytes \<Rightarrow> nat \<Rightarrow> int \<Rightarrow> int \<times> bytes \<times> open_file" where
  "unixWrite_loop pFile buf offset wrote =
     (if buf = [] then (wrote, buf, pFile)
      else
        case seekAndWrite pFile offset buf of (wrote, pFile) \<Rightarrow>
          if wrote > 0 then unixWrite_loop pFile (drop (nat wrote) buf) (offset + nat wrote) wrote
          else (wrote, buf, pFile))"
  by pat_completeness auto
termination by (relation "measure (\<lambda>(pFile, buf, offset, wrote). length buf)") auto

definition unixWrite :: "open_file \<Rightarrow> bytes \<Rightarrow> nat \<Rightarrow> nat \<times> open_file" where
  "unixWrite pFile buf offset =
     (if offset < fMmapSize pFile \<and> offset + length buf \<le> fMmapSize pFile
      then (0, pFile\<lparr>fContent := file_patch (fContent pFile) offset buf\<rparr>)
      else
        let nCopy = (if offset < fMmapSize pFile then fMmapSize pFile - offset else 0);
            pFile = pFile\<lparr>fContent := file_patch (fContent pFile) offset (take nCopy buf)\<rparr>
        in case unixWrite_loop pFile (drop nCopy buf) (offset + nCopy) 0 of (wrote, rest, pFile) \<Rightarrow>
             if rest \<noteq> [] then
               if wrote < 0 \<and> fErrno pFile \<noteq> ENOSPC then (SQLITE_IOERR_WRITE, pFile)
               else (SQLITE_FULL, pFile\<lparr>fErrno := 0\<rparr>)
             else (0, pFile))"

section \<open>Synchronizing, truncating, size\<close>

fun full_fsync :: "open_file \<Rightarrow> int option \<times> open_file" where
  "full_fsync pFile =
     (case fAnswers pFile of
        Fail errno # k \<Rightarrow> (Some errno, pFile\<lparr>fAnswers := k\<rparr>)
      | Done _ # k \<Rightarrow> (None, pFile\<lparr>fAnswers := k\<rparr>)
      | [] \<Rightarrow> (None, pFile))"

text \<open>The directory is synchronized once; an answer is the result of opening it, and failures to
  synchronize it are ignored.\<close>

definition unixSync :: "open_file \<Rightarrow> nat \<times> open_file" where
  "unixSync pFile =
     (case full_fsync pFile of
        (Some errno, pFile) \<Rightarrow> (SQLITE_IOERR_FSYNC, pFile\<lparr>fErrno := errno\<rparr>)
      | (None, pFile) \<Rightarrow>
        if fDirSync pFile then
          (case fAnswers pFile of
             Fail _ # k \<Rightarrow> (0, pFile\<lparr>fAnswers := k, fDirSync := False\<rparr>)
           | Done _ # k \<Rightarrow> (0, snd (full_fsync (pFile\<lparr>fAnswers := k\<rparr>))\<lparr>fDirSync := False\<rparr>)
           | [] \<Rightarrow> (0, pFile\<lparr>fDirSync := False\<rparr>))
        else (0, pFile))"

fun robust_ftruncate :: "syscall list \<Rightarrow> open_file \<Rightarrow> nat \<Rightarrow> int option \<times> open_file" where
  "robust_ftruncate [] pFile sz = (None, pFile\<lparr>fContent := take sz (fContent pFile) @ replicate (sz - length (fContent pFile)) 0, fAnswers := []\<rparr>)"
| "robust_ftruncate (Done _ # k) pFile sz =
     (None, pFile\<lparr>fContent := take sz (fContent pFile) @ replicate (sz - length (fContent pFile)) 0, fAnswers := k\<rparr>)"
| "robust_ftruncate (Fail errno # k) pFile sz =
     (if errno = EINTR then robust_ftruncate k pFile sz else (Some errno, pFile\<lparr>fAnswers := k\<rparr>))"

definition unixTruncate :: "open_file \<Rightarrow> nat \<Rightarrow> nat \<times> open_file" where
  "unixTruncate pFile nByte =
     (let nByte = (if fChunk pFile > 0 then (nByte + fChunk pFile - 1) div fChunk pFile * fChunk pFile else nByte)
      in case robust_ftruncate (fAnswers pFile) pFile nByte of
           (Some errno, pFile) \<Rightarrow> (SQLITE_IOERR_TRUNCATE, pFile\<lparr>fErrno := errno\<rparr>)
         | (None, pFile) \<Rightarrow> (0, if nByte < fMmapSize pFile then pFile\<lparr>fMmapSize := nByte\<rparr> else pFile))"

definition unixFileSize :: "open_file \<Rightarrow> nat \<times> nat \<times> open_file" where
  "unixFileSize pFile =
     (let size = (if length (fContent pFile) = 1 then 0 else length (fContent pFile))
      in case fAnswers pFile of
           Fail errno # k \<Rightarrow> (SQLITE_IOERR_FSTAT, 0, pFile\<lparr>fErrno := errno, fAnswers := k\<rparr>)
         | Done _ # k \<Rightarrow> (0, size, pFile\<lparr>fAnswers := k\<rparr>)
         | [] \<Rightarrow> (0, size, pFile))"

section \<open>Mapping into memory, and hints of the size\<close>

text \<open>A mapping is its usable size, which truncation may have made zero. As on Linux, an old mapping
  is extended by one call, which takes an answer of the kernel like the one that makes a new
  mapping; the calls that undo a mapping take none. Without a size the file is mapped as a whole.\<close>

definition unixUnmapfile :: "open_file \<Rightarrow> open_file" where
  "unixUnmapfile pFd = (if fMapped pFd then pFd\<lparr>fMapped := False, fMmapSize := 0\<rparr> else pFd)"

definition unixRemapfile :: "open_file \<Rightarrow> nat \<Rightarrow> open_file" where
  "unixRemapfile pFd nNew =
     (case fAnswers pFd of
        Fail _ # k \<Rightarrow> pFd\<lparr>fAnswers := k, fMmapMax := 0, fMapped := False, fMmapSize := 0\<rparr>
      | Done _ # k \<Rightarrow> pFd\<lparr>fAnswers := k, fMapped := True, fMmapSize := nNew\<rparr>
      | [] \<Rightarrow> pFd\<lparr>fMapped := True, fMmapSize := nNew\<rparr>)"

definition unixMapfile :: "open_file \<Rightarrow> nat option \<Rightarrow> nat \<times> open_file" where
  "unixMapfile pFd nByte =
     (if fFetchOut pFd > 0 then (0, pFd)
      else
        case (case nByte of
                Some n \<Rightarrow> (Some n, pFd)
              | None \<Rightarrow>
                  (case fAnswers pFd of
                     Fail _ # k \<Rightarrow> (None, pFd\<lparr>fAnswers := k\<rparr>)
                   | Done _ # k \<Rightarrow> (Some (length (fContent pFd)), pFd\<lparr>fAnswers := k\<rparr>)
                   | [] \<Rightarrow> (Some (length (fContent pFd)), pFd))) of
          (None, pFd) \<Rightarrow> (SQLITE_IOERR_FSTAT, pFd)
        | (Some nMap, pFd) \<Rightarrow>
            let nMap = (if nMap > fMmapMax pFd then fMmapMax pFd else nMap)
            in (0, if nMap \<noteq> fMmapSize pFd
                   then (if nMap > 0 then unixRemapfile pFd nMap else unixUnmapfile pFd) else pFd))"

text \<open>Whether the bytes can be read in the mapping; each reference to it is counted.\<close>

definition unixFetch :: "open_file \<Rightarrow> nat \<Rightarrow> nat \<Rightarrow> nat \<times> bool \<times> open_file" where
  "unixFetch pFd iOff nAmt =
     (if fMmapMax pFd > 0 then
        case (if \<not> fMapped pFd then unixMapfile pFd None else (0, pFd)) of (rc, pFd) \<Rightarrow>
          if rc \<noteq> 0 then (rc, False, pFd)
          else if fMmapSize pFd \<ge> iOff + nAmt then (0, True, pFd\<lparr>fFetchOut := fFetchOut pFd + 1\<rparr>)
          else (0, False, pFd)
      else (0, False, pFd))"

definition unixUnfetch :: "open_file \<Rightarrow> bool \<Rightarrow> nat \<times> open_file" where
  "unixUnfetch pFd p = (0, if p then pFd\<lparr>fFetchOut := fFetchOut pFd - 1\<rparr> else unixUnmapfile pFd)"

text \<open>A zero at the end of every block; the code relies on a block size that is not zero.\<close>

function write_blocks :: "open_file \<Rightarrow> nat \<Rightarrow> nat \<Rightarrow> nat \<Rightarrow> int \<Rightarrow> nat \<times> int \<times> open_file" where
  "write_blocks pFile iWrite nSize nBlk nWrite =
     (if iWrite < nSize \<and> 0 < nBlk then
        case seekAndWrite pFile iWrite [0] of (nWrite, pFile) \<Rightarrow>
          if nWrite \<noteq> 1 then (SQLITE_IOERR_WRITE, nWrite, pFile)
          else write_blocks pFile (iWrite + nBlk) nSize nBlk nWrite
      else (0, nWrite, pFile))"
  by pat_completeness auto
termination by (relation "measure (\<lambda>(pFile, iWrite, nSize, nBlk, nWrite). nSize - iWrite)") auto

declare write_blocks.simps [simp del]

definition extend_file :: "open_file \<Rightarrow> nat \<Rightarrow> nat \<times> open_file" where
  "extend_file pFile nSize =
     (let size = length (fContent pFile); nBlk = fBlkSize pFile; iWrite = (size + 2 * nBlk - 1) div nBlk * nBlk - 1
      in case write_blocks pFile iWrite nSize nBlk 0 of (rc, nWrite, pFile) \<Rightarrow>
           if rc \<noteq> 0 then (rc, pFile)
           else if nWrite = 0 \<or> nSize mod nBlk \<noteq> 0 then
             case seekAndWrite pFile (nSize - 1) [0] of (nWrite, pFile) \<Rightarrow> (if nWrite \<noteq> 1 then SQLITE_IOERR_WRITE else 0, pFile)
           else (0, pFile))"

definition fcntlSizeHint :: "open_file \<Rightarrow> nat \<Rightarrow> nat \<times> open_file" where
  "fcntlSizeHint pFile nByte =
     (case (if fChunk pFile > 0 then
              case (case fAnswers pFile of
                      Fail _ # k \<Rightarrow> (False, pFile\<lparr>fAnswers := k\<rparr>)
                    | Done _ # k \<Rightarrow> (True, pFile\<lparr>fAnswers := k\<rparr>)
                    | [] \<Rightarrow> (True, pFile)) of (known, pFile) \<Rightarrow>
                let nSize = (nByte + fChunk pFile - 1) div fChunk pFile * fChunk pFile
                in if \<not> known then (SQLITE_IOERR_FSTAT, pFile)
                   else if nSize > length (fContent pFile) then extend_file pFile nSize
                   else (0, pFile)
            else (0, pFile)) of (rc, pFile) \<Rightarrow>
        if rc \<noteq> 0 then (rc, pFile)
        else if fMmapMax pFile > 0 \<and> nByte > fMmapSize pFile then
          case (if fChunk pFile = 0 then robust_ftruncate (fAnswers pFile) pFile nByte else (None, pFile)) of
            (Some errno, pFile) \<Rightarrow> (SQLITE_IOERR_TRUNCATE, pFile\<lparr>fErrno := errno\<rparr>)
          | (None, pFile) \<Rightarrow> unixMapfile pFile (Some nByte)
        else (0, pFile))"

section \<open>What the methods do to the file\<close>

definition file_ok :: "open_file \<Rightarrow> bool" where
  "file_ok p \<longleftrightarrow> fMmapSize p \<le> length (fContent p)"

text \<open>A byte of a file, which is followed by zeros.\<close>

definition file_byte :: "bytes \<Rightarrow> nat \<Rightarrow> u8" where
  "file_byte f i = (if i < length f then f ! i else 0)"

lemma file_byte_zeros [simp]: "file_byte (f @ replicate k 0) i = file_byte f i"
  by (simp add: file_byte_def nth_append)

lemma file_byte_patch:
  "file_byte (file_patch f off d) i = (if off \<le> i \<and> i < off + length d then d ! (i - off) else file_byte f i)"
  by (cases "off \<le> length f") (auto simp: file_byte_def file_patch_def nth_append not_less)

lemma file_byte_take: "i < n \<Longrightarrow> file_byte (take n f) i = file_byte f i"
  by (simp add: file_byte_def)

lemma file_patch_Nil [simp]: "file_patch f off [] = f"
  by (simp add: file_patch_def)

lemma file_patch_length: "length (file_patch f off d) = (if d = [] then length f else max (length f) (off + length d))"
  by (auto simp: file_patch_def)

lemma file_patch_prefix: "off \<le> length f \<Longrightarrow> take off (file_patch f off d) = take off f"
  by (simp add: file_patch_def)

lemma file_patch_append: "file_patch (file_patch f off a) (off + length a) b = file_patch f off (a @ b)"
proof (cases "a = [] \<or> b = []")
  case False
  then show ?thesis unfolding file_patch_def by (cases "off \<le> length f") (auto simp: add_ac)
qed auto

lemma file_patch_take: "file_patch (file_patch f off (take n d)) (off + n) (drop n d) = file_patch f off d"
proof (cases "n < length d")
  case True
  then show ?thesis using file_patch_append [of f off "take n d" "drop n d"] by simp
qed simp

text \<open>Every write puts a prefix of the data into the file, all of it when there is no error.\<close>

definition write_post :: "open_file \<Rightarrow> nat \<Rightarrow> bytes \<Rightarrow> nat \<Rightarrow> open_file \<Rightarrow> bool" where
  "write_post p off d m p' \<longleftrightarrow>
     m \<le> length d \<and> fContent p' = file_patch (fContent p) off (take m d) \<and> fMmapSize p' = fMmapSize p"

definition undisturbed :: "open_file \<Rightarrow> bytes \<Rightarrow> nat \<Rightarrow> open_file \<Rightarrow> bool" where
  "undisturbed p d m p' \<longleftrightarrow> (fAnswers p = [] \<longrightarrow> m = length d \<and> fAnswers p' = [])"

lemma seekAndWriteFd_ok:
  "seekAndWriteFd k p off d = (r, p') \<Longrightarrow> k = [] \<or> fAnswers p \<noteq> [] \<Longrightarrow>
    (r < 0 \<or> r = int (nat r)) \<and> write_post p off d (nat r) p' \<and> undisturbed p d (nat r) p'"
proof (induction k p off d rule: seekAndWriteFd.induct)
  case (1 p off d)
  then show ?case by (auto simp: write_post_def undisturbed_def)
next
  case (2 n k p off d)
  then show ?case by (auto simp: write_post_def undisturbed_def min_def)
next
  case (3 e k p off d)
  then show ?case by (cases "e = EINTR") (auto simp: write_post_def undisturbed_def)
qed

lemma seekAndWrite_ok:
  assumes "seekAndWrite p off d = (r, p')" "length d < 0x20000"
  shows "write_post p off d (nat r) p'" "undisturbed p d (nat r) p'"
  using seekAndWriteFd_ok [of "fAnswers p" p off d r p'] assms by (auto simp: seekAndWrite_def)

lemma write_post_trans:
  assumes "write_post p off d m p1" "write_post p1 (off + m) (drop m d) n p2"
  shows "write_post p off d (m + n) p2"
proof -
  have "take n (drop m d) = drop m (take (m + n) d)" by (simp add: take_drop add.commute)
  moreover have "take m d = take m (take (m + n) d)" by simp
  ultimately have "fContent p2 = file_patch (fContent p) off (take (m + n) d)"
    using assms file_patch_take [of "fContent p" off m "take (m + n) d"] unfolding write_post_def by simp
  then show ?thesis using assms unfolding write_post_def by auto
qed

lemma unixWrite_loop_ok:
  "unixWrite_loop p d off w = (w', rest, p') \<Longrightarrow> length d < 0x20000 \<Longrightarrow>
    \<exists>m. rest = drop m d \<and> write_post p off d m p' \<and> undisturbed p d m p'"
proof (induction p d off w rule: unixWrite_loop.induct)
  case (1 p d off w)
  show ?case
  proof (cases "d = []")
    case True
    then show ?thesis using 1(2) by (auto simp: write_post_def undisturbed_def)
  next
    case False
    obtain r p1 where r: "seekAndWrite p off d = (r, p1)" by (rule prod.exhaust)
    note post = seekAndWrite_ok [OF r 1(3)]
    have rest: "unixWrite_loop p d off w = (if r > 0 then unixWrite_loop p1 (drop (nat r) d) (off + nat r) r else (r, d, p1))"
      using False r by (subst unixWrite_loop.simps) simp
    show ?thesis
    proof (cases "r > 0")
      case True
      have "\<exists>n. rest = drop n (drop (nat r) d) \<and> write_post p1 (off + nat r) (drop (nat r) d) n p' \<and> undisturbed p1 (drop (nat r) d) n p'"
        using "1.IH" [OF False r [symmetric]] True "1.prems" rest by simp
      then obtain n where n: "rest = drop n (drop (nat r) d)" "write_post p1 (off + nat r) (drop (nat r) d) n p'"
        "undisturbed p1 (drop (nat r) d) n p'" by blast
      have "rest = drop (nat r + n) d" using n(1) by (simp add: add.commute)
      moreover have "undisturbed p d (nat r + n) p'" using post(2) n(3) by (auto simp: undisturbed_def)
      ultimately show ?thesis using write_post_trans [OF post(1) n(2)] by blast
    next
      case r0: False
      then have "rest = drop 0 d" "write_post p off d 0 p'" "undisturbed p d 0 p'" using "1.prems"(1) rest post by auto
      then show ?thesis by blast
    qed
  qed
qed

lemma unixWrite_ok:
  assumes "unixWrite p d off = (rc, p')" "length d < 0x20000" "file_ok p"
  shows "file_ok p' \<and> (\<exists>m. write_post p off d m p' \<and> undisturbed p d m p' \<and> (rc = 0 \<longleftrightarrow> m = length d))"
proof (cases "off < fMmapSize p \<and> off + length d \<le> fMmapSize p")
  case True
  then have "rc = 0" "fContent p' = file_patch (fContent p) off d" "fMmapSize p' = fMmapSize p" "fAnswers p' = fAnswers p"
    using assms(1) by (auto simp: unixWrite_def)
  then show ?thesis using assms(3) by (auto simp: write_post_def undisturbed_def file_ok_def file_patch_length)
next
  case False
  define n where "n = (if off < fMmapSize p then fMmapSize p - off else 0)"
  let ?p = "p\<lparr>fContent := file_patch (fContent p) off (take n d)\<rparr>"
  obtain w rest p1 where l: "unixWrite_loop ?p (drop n d) (off + n) 0 = (w, rest, p1)" by (rule prod_cases3)
  have n: "n \<le> length d" using False by (auto simp: n_def)
  have r: "(rc, p') = (if rest \<noteq> [] then if w < 0 \<and> fErrno p1 \<noteq> ENOSPC then (SQLITE_IOERR_WRITE, p1) else (SQLITE_FULL, p1\<lparr>fErrno := 0\<rparr>) else (0, p1))"
    using assms(1) False l unfolding unixWrite_def n_def [symmetric] Let_def by simp
  have "length (drop n d) < 0x20000" using assms(2) by simp
  from unixWrite_loop_ok [OF l this] obtain m where m: "rest = drop m (drop n d)" "write_post ?p (off + n) (drop n d) m p1"
    "undisturbed ?p (drop n d) m p1" by blast
  have post: "write_post p off d (n + m) p1"
    by (rule write_post_trans [OF _ m(2)]) (use n in \<open>simp add: write_post_def\<close>)
  have p': "fContent p' = fContent p1" "fMmapSize p' = fMmapSize p1" "fAnswers p' = fAnswers p1" "rc = 0 \<longleftrightarrow> rest = []"
    using r by (auto split: if_splits)
  have post': "write_post p off d (n + m) p'" using post p' by (simp add: write_post_def)
  moreover have "undisturbed p d (n + m) p'" using m(3) p' n by (auto simp: undisturbed_def)
  moreover have "rc = 0 \<longleftrightarrow> n + m = length d" using p'(4) m(1,2) n by (auto simp: write_post_def)
  moreover have "file_ok p'" using post' assms(3) by (auto simp: write_post_def file_ok_def file_patch_length)
  ultimately show ?thesis by blast
qed

text \<open>A read without error returns the bytes of the file.\<close>

lemma take_length_take: "take (length (take a xs)) xs = take a xs"
  by (simp add: min_def)

lemma seekAndRead_calls_ok:
  "seekAndRead_calls k p off cnt buf = (r, d, p') \<Longrightarrow>
    fContent p' = fContent p \<and> fMmapSize p' = fMmapSize p \<and>
    (0 \<le> r \<longrightarrow> (\<exists>m \<le> cnt. d = buf @ take m (drop off (fContent p)) \<and> r = int (length d))) \<and>
    (k = [] \<longrightarrow> fAnswers p' = [] \<and> d = buf @ take cnt (drop off (fContent p)) \<and> r = int (length d))"
proof (induction k p off cnt buf rule: seekAndRead_calls.induct)
  case (1 p off cnt buf)
  then show ?case by (auto simp: Let_def)
next
  case (2 n k p off cnt buf)
  let ?got = "take (min n cnt) (drop off (fContent p))"
  have le: "length ?got \<le> cnt" by simp
  show ?case
  proof (cases "length ?got = cnt \<or> ?got = []")
    case True
    have e: "(int (length (buf @ ?got)), buf @ ?got, p\<lparr>fAnswers := k\<rparr>) = (r, d, p')"
      using "2.prems" unfolding seekAndRead_calls.simps Let_def if_P [OF True] .
    then have d: "d = buf @ ?got" and p': "p' = p\<lparr>fAnswers := k\<rparr>" by blast+
    have "r = int (length d)" using e unfolding d by blast
    then have "r = int (length d)" "d = buf @ ?got" "fContent p' = fContent p" "fMmapSize p' = fMmapSize p" using d p' by simp_all
    then show ?thesis by (intro conjI impI exI [of _ "min n cnt"]) simp_all
  next
    case False
    have e: "seekAndRead_calls k p (off + length ?got) (cnt - length ?got) (buf @ ?got) = (r, d, p')"
      using "2.prems" unfolding seekAndRead_calls.simps Let_def if_not_P [OF False] .
    have app: "?got @ take m (drop (off + length ?got) (fContent p)) = take (length ?got + m) (drop off (fContent p))" for m
      unfolding take_add take_length_take by (simp add: add.commute)
    have ih: "fContent p' = fContent p \<and> fMmapSize p' = fMmapSize p \<and>
        (0 \<le> r \<longrightarrow> (\<exists>m \<le> cnt - length ?got. d = (buf @ ?got) @ take m (drop (off + length ?got) (fContent p)) \<and> r = int (length d)))"
      using "2.IH" [OF refl False e] by (elim conjE) (intro conjI; assumption)
    have "\<exists>m \<le> cnt. d = buf @ take m (drop off (fContent p)) \<and> r = int (length d)" if r: "0 \<le> r"
    proof -
      from ih [THEN conjunct2, THEN conjunct2, THEN mp, OF r] obtain m where m: "m \<le> cnt - length ?got" "d = (buf @ ?got) @ take m (drop (off + length ?got) (fContent p))" "r = int (length d)"
        by (elim exE conjE) (rule that; assumption)
      have le': "length ?got + m \<le> cnt" using m(1) le by linarith
      have d: "d = buf @ take (length ?got + m) (drop off (fContent p))" unfolding m(2) append_assoc app ..
      show ?thesis by (rule exI [of _ "length ?got + m"]) (intro conjI le' d m(3))
    qed
    then show ?thesis using ih by (elim conjE) (intro conjI impI; (assumption | simp))
  qed
next
  case (3 e k p off cnt buf)
  then show ?case by (cases "e = EINTR") auto
qed


lemma unixRead_ok:
  assumes "unixRead p n off = (rc, d, p')" "n < 0x20000" "file_ok p"
  shows "fContent p' = fContent p \<and> file_ok p' \<and>
    (rc = 0 \<longrightarrow> d = take n (drop off (fContent p)) \<and> length d = n) \<and>
    (fAnswers p = [] \<longrightarrow> fAnswers p' = [] \<and> (off + n \<le> length (fContent p) \<longrightarrow> rc = 0))"
proof (cases "off < fMmapSize p \<and> off + n \<le> fMmapSize p")
  case True
  then show ?thesis using assms by (auto simp: unixRead_def file_ok_def)
next
  case False
  define c where "c = (if off < fMmapSize p then fMmapSize p - off else 0)"
  have c: "c \<le> n" "length (take c (drop off (fContent p))) = c"
    using False assms(3) by (auto simp: c_def file_ok_def)
  obtain g e p1 where r: "seekAndRead p (off + c) (n - c) = (g, e, p1)" by (rule prod_cases3)
  have rc: "(rc, d, p') = (if g = int (n - c) then (0, take c (drop off (fContent p)) @ e, p1)
      else if g < 0 then (SQLITE_IOERR_READ, take c (drop off (fContent p)) @ e, p1)
      else (SQLITE_IOERR_SHORT_READ, take c (drop off (fContent p)) @ e @ replicate (n - c - nat g) 0, p1\<lparr>fErrno := 0\<rparr>))"
    using assms(1) False r unfolding unixRead_def c_def [symmetric] Let_def by simp
  have read: "fContent p1 = fContent p" "fMmapSize p1 = fMmapSize p"
    "0 \<le> g \<Longrightarrow> \<exists>m \<le> n - c. e = take m (drop (off + c) (fContent p)) \<and> g = int (length e)"
    "fAnswers p = [] \<Longrightarrow> fAnswers p1 = [] \<and> e = take (n - c) (drop (off + c) (fContent p)) \<and> g = int (length e)"
    using seekAndRead_calls_ok [of "fAnswers p" p "off + c" "n - c" "[]" g e p1] r assms(2) by (simp_all add: seekAndRead_def)
  have whole: "take c (drop off (fContent p)) @ take (n - c) (drop (off + c) (fContent p)) = take n (drop off (fContent p))"
    using take_add [of c "n - c" "drop off (fContent p)"] c(1) by (simp add: add.commute)
  have ok: "rc = 0 \<longrightarrow> d = take n (drop off (fContent p)) \<and> length d = n"
  proof
    assume "rc = 0"
    then have g: "g = int (n - c)" "d = take c (drop off (fContent p)) @ e" using rc by (auto split: if_splits)
    then obtain m where m: "m \<le> n - c" "e = take m (drop (off + c) (fContent p))" "n - c = length e" using read(3) by auto
    then have "m = n - c" by simp
    then show "d = take n (drop off (fContent p)) \<and> length d = n" using g(2) m whole c by (metis le_add_diff_inverse length_append)
  qed
  have "fAnswers p = [] \<longrightarrow> fAnswers p' = [] \<and> (off + n \<le> length (fContent p) \<longrightarrow> rc = 0)"
    using read(4) rc c(1) by (auto split: if_splits)
  moreover have "fContent p' = fContent p" "fMmapSize p' = fMmapSize p" using rc read(1,2) by (auto split: if_splits)
  ultimately show ?thesis using assms(3) by (intro conjI ok) (simp_all add: file_ok_def)
qed

lemma full_fsync_ok: "full_fsync p = (e, p') \<Longrightarrow> fContent p' = fContent p \<and> fMmapSize p' = fMmapSize p \<and> (fAnswers p = [] \<longrightarrow> fAnswers p' = [] \<and> e = None)"
  by (auto split: list.splits syscall.splits)

lemma unixSync_ok:
  assumes "unixSync p = (rc, p')"
  shows "fContent p' = fContent p \<and> fMmapSize p' = fMmapSize p \<and> (fAnswers p = [] \<longrightarrow> fAnswers p' = [] \<and> rc = 0)"
proof -
  obtain e p1 where e: "full_fsync p = (e, p1)" by (rule prod.exhaust)
  obtain e2 p2 where e2: "full_fsync (p1\<lparr>fAnswers := tl (fAnswers p1)\<rparr>) = (e2, p2)" by (rule prod.exhaust)
  show ?thesis using assms full_fsync_ok [OF e] full_fsync_ok [OF e2] e2
    by (auto simp: unixSync_def e simp del: full_fsync.simps split: option.splits if_splits list.splits syscall.splits)
qed

lemma unixFileSize_ok:
  "unixFileSize p = (rc, n, p') \<Longrightarrow> fContent p' = fContent p \<and> fMmapSize p' = fMmapSize p \<and>
    (rc = 0 \<longrightarrow> n = (if length (fContent p) = 1 then 0 else length (fContent p))) \<and>
    (fAnswers p = [] \<longrightarrow> fAnswers p' = [] \<and> rc = 0)"
  by (auto simp: unixFileSize_def Let_def split: list.splits syscall.splits)

text \<open>Mapping a file does not change it; a hint of a size only adds zeros.\<close>

lemma unixMapfile_ok:
  assumes "unixMapfile p n = (rc, p')" "file_ok p" "case n of Some k \<Rightarrow> k \<le> length (fContent p) | None \<Rightarrow> True"
  shows "fContent p' = fContent p \<and> file_ok p' \<and> (fAnswers p = [] \<longrightarrow> fAnswers p' = [] \<and> rc = 0)"
  using assms by (auto simp: unixMapfile_def unixRemapfile_def unixUnmapfile_def Let_def file_ok_def
      split: if_splits option.splits list.splits syscall.splits)

lemma unixFetch_ok:
  assumes "unixFetch p off n = (rc, b, p')" "file_ok p"
  shows "fContent p' = fContent p \<and> file_ok p' \<and> (b \<longrightarrow> off + n \<le> length (fContent p))"
proof -
  obtain rc1 p1 where m: "(if \<not> fMapped p then unixMapfile p None else (0, p)) = (rc1, p1)" by (rule prod.exhaust)
  have "fContent p1 = fContent p \<and> file_ok p1"
    using m assms(2) unixMapfile_ok [of p None rc1 p1] by (auto split: if_splits)
  then show ?thesis using assms m by (auto simp: unixFetch_def file_ok_def split: if_splits)
qed

lemma unixUnfetch_ok: "unixUnfetch p b = (rc, p') \<Longrightarrow> file_ok p \<Longrightarrow> fContent p' = fContent p \<and> file_ok p' \<and> fAnswers p' = fAnswers p"
  by (auto simp: unixUnfetch_def unixUnmapfile_def file_ok_def split: if_splits)

definition extends_by_zeros :: "open_file \<Rightarrow> open_file \<Rightarrow> bool" where
  "extends_by_zeros p p' \<longleftrightarrow> (\<exists>n. fContent p' = fContent p @ replicate n 0) \<and> fMmapSize p' = fMmapSize p \<and>
     fChunk p' = fChunk p \<and> (fAnswers p = [] \<longrightarrow> fAnswers p' = [])"

lemma seekAndWriteFd_chunk: "fChunk (snd (seekAndWriteFd k p off d)) = fChunk p"
  by (induction k p off d rule: seekAndWriteFd.induct) auto

lemma extends_by_zeros_refl: "extends_by_zeros p p"
  unfolding extends_by_zeros_def by (intro conjI exI [of _ 0]) simp_all

lemma extends_by_zeros_trans: "extends_by_zeros p p1 \<Longrightarrow> extends_by_zeros p1 p2 \<Longrightarrow> extends_by_zeros p p2"
  unfolding extends_by_zeros_def by (auto simp: replicate_add [symmetric])

lemma file_patch_zero: "length f \<le> off \<Longrightarrow> file_patch f off [0] = f @ replicate (Suc off - length f) 0"
  by (simp add: file_patch_def Suc_diff_le replicate_append_same)

lemma seekAndWrite_zero:
  assumes "seekAndWrite p off [0] = (r, p')" "length (fContent p) \<le> off"
  shows "extends_by_zeros p p'" "fAnswers p = [] \<Longrightarrow> r = 1" "r = 1 \<Longrightarrow> length (fContent p') = Suc off"
proof -
  note w = seekAndWrite_ok [OF assms(1)]
  have c: "fContent p' = file_patch (fContent p) off (take (nat r) [0])" using w(1) by (simp add: write_post_def)
  have k: "fChunk p' = fChunk p"
    using seekAndWriteFd_chunk [of "fAnswers p" p off "take (length [0 :: u8] mod 0x20000) [0]"] assms(1) by (simp add: seekAndWrite_def)
  show "extends_by_zeros p p'"
  proof (cases "nat r")
    case 0
    then have "fContent p' = fContent p @ replicate 0 0" using c by simp
    then show ?thesis unfolding extends_by_zeros_def using w k by (auto simp: write_post_def undisturbed_def)
  next
    case (Suc n)
    then have "nat r = 1" using w(1) by (simp add: write_post_def)
    then have "fContent p' = fContent p @ replicate (Suc off - length (fContent p)) 0" using c file_patch_zero [OF assms(2)] by simp
    moreover have "fMmapSize p' = fMmapSize p" "fAnswers p = [] \<longrightarrow> fAnswers p' = []"
      using w by (simp_all add: write_post_def undisturbed_def)
    ultimately show ?thesis unfolding extends_by_zeros_def using k by blast
  qed
  show "r = 1" if "fAnswers p = []"
  proof -
    have "nat r = 1" using w(2) that by (simp add: undisturbed_def)
    then show ?thesis by linarith
  qed
  show "length (fContent p') = Suc off" if "r = 1" using c that file_patch_zero [OF assms(2)] assms(2) by simp
qed

lemma write_blocks_zero:
  "write_blocks p i n b w = (rc, w', p') \<Longrightarrow> 0 < b \<longrightarrow> length (fContent p) \<le> i \<and> Suc i mod b = 0 \<Longrightarrow> length (fContent p) \<le> n \<Longrightarrow>
    extends_by_zeros p p' \<and> (rc = 0 \<longrightarrow> (p' = p \<and> w' = w \<and> (0 < b \<longrightarrow> n \<le> i)) \<or>
      (w' = 1 \<and> length (fContent p') \<le> n \<and> n < length (fContent p') + b \<and> length (fContent p') mod b = 0)) \<and>
    (fAnswers p = [] \<longrightarrow> rc = 0)"
proof (induction p i n b w rule: write_blocks.induct)
  case (1 p i n b w)
  obtain r p1 where r: "seekAndWrite p i [0] = (r, p1)" by (rule prod.exhaust)
  have e: "write_blocks p i n b w = (if i < n \<and> 0 < b then if r \<noteq> 1 then (SQLITE_IOERR_WRITE, r, p1)
      else write_blocks p1 (i + b) n b r else (0, w, p))" using r by (subst write_blocks.simps) simp
  consider "i < n" "0 < b" "r = 1" | "i < n" "0 < b" "r \<noteq> 1" | "\<not> (i < n \<and> 0 < b)" by blast
  then show ?case
  proof cases
    case 1
    have i: "length (fContent p) \<le> i" "Suc i mod b = 0" using "1.prems"(2) 1(2) by auto
    note z = seekAndWrite_zero [OF r i(1)]
    have n: "length (fContent p1) = Suc i" "Suc (i + b) mod b = 0" using z(3) 1(3) i(2) mod_add_self2 [of "Suc i" b] by simp_all
    have "extends_by_zeros p1 p' \<and> (rc = 0 \<longrightarrow> (p' = p1 \<and> w' = r \<and> (0 < b \<longrightarrow> n \<le> i + b)) \<or>
          (w' = 1 \<and> length (fContent p') \<le> n \<and> n < length (fContent p') + b \<and> length (fContent p') mod b = 0)) \<and>
        (fAnswers p1 = [] \<longrightarrow> rc = 0)"
    proof (rule "1.IH" [OF conjI [OF 1(1,2)] r [symmetric]])
      show "write_blocks p1 (i + b) n b r = (rc, w', p')" using "1.prems"(1) 1 unfolding e by simp
      show "0 < b \<longrightarrow> length (fContent p1) \<le> i + b \<and> Suc (i + b) mod b = 0" using n by simp
      show "length (fContent p1) \<le> n" using n(1) 1(1) by simp
    qed (use 1 in simp)
    note ih = this
    show ?thesis
    proof (intro conjI impI disjI2)
      show "extends_by_zeros p p'" using extends_by_zeros_trans [OF z(1)] ih by blast
      show "rc = 0" if "fAnswers p = []" using ih z(1) that by (simp add: extends_by_zeros_def)
      assume "rc = 0"
      then have "p' = p1 \<and> w' = r \<and> n \<le> i + b \<or>
          w' = 1 \<and> length (fContent p') \<le> n \<and> n < length (fContent p') + b \<and> length (fContent p') mod b = 0"
        using ih 1(2) by simp
      then have "w' = 1 \<and> length (fContent p') \<le> n \<and> n < length (fContent p') + b \<and> length (fContent p') mod b = 0"
        by (elim disjE) (use 1 n(1) i(2) in simp_all)
      then show "w' = 1" "length (fContent p') \<le> n" "n < length (fContent p') + b" "length (fContent p') mod b = 0" by blast+
    qed
  next
    case 2
    then have "length (fContent p) \<le> i" using "1.prems"(2) by blast
    from seekAndWrite_zero(1,2) [OF r this] show ?thesis using "1.prems"(1) 2 unfolding e by auto
  next
    case 3
    then have "rc = 0" "p' = p" "w' = w" using "1.prems"(1) unfolding e by auto
    then show ?thesis using 3 by (auto simp: extends_by_zeros_refl)
  qed
qed

lemma extend_file_zero:
  assumes "extend_file p n = (rc, p')" "length (fContent p) < n"
  shows "extends_by_zeros p p'" "rc = 0 \<Longrightarrow> n \<le> length (fContent p')" "fAnswers p = [] \<Longrightarrow> rc = 0"
proof -
  let ?l = "length (fContent p)" and ?b = "fBlkSize p"
  define i where "i = (?l + 2 * ?b - 1) div ?b * ?b - 1"
  have i: "0 < ?b \<longrightarrow> ?l \<le> i \<and> Suc i mod ?b = 0"
  proof
    assume b: "0 < ?b"
    let ?q = "(?l + 2 * ?b - 1) div ?b"
    have q: "?l + ?b \<le> ?q * ?b" using div_mult_mod_eq [of "?l + 2 * ?b - 1" ?b] mod_less_divisor [OF b, of "?l + 2 * ?b - 1"] b by linarith
    then have "Suc i = ?q * ?b" using b unfolding i_def by linarith
    then show "?l \<le> i \<and> Suc i mod ?b = 0" using q b by simp
  qed
  obtain rc1 w p1 where b: "write_blocks p i n ?b 0 = (rc1, w, p1)" by (rule prod_cases3)
  note z = write_blocks_zero [OF b i less_imp_le [OF assms(2)]]
  obtain r p2 where r: "seekAndWrite p1 (n - 1) [0] = (r, p2)" by (rule prod.exhaust)
  have e: "(rc, p') = (if rc1 \<noteq> 0 then (rc1, p1) else if w = 0 \<or> n mod ?b \<noteq> 0 then (if r \<noteq> 1 then SQLITE_IOERR_WRITE else 0, p2) else (0, p1))"
    using assms(1) unfolding extend_file_def Let_def i_def [symmetric] b prod.case r by (rule sym)
  have l: "length (fContent p1) \<le> n - 1" if "rc1 = 0" "w = 0 \<or> n mod ?b \<noteq> 0"
  proof (cases "length (fContent p1) = n")
    case True
    then show ?thesis using z that assms(2) by auto
  next
    case False
    then show ?thesis using z that assms(2) by auto
  qed
  note w = seekAndWrite_zero [OF r l]
  show "extends_by_zeros p p'"
    using e z extends_by_zeros_trans [OF _ w(1)] by (auto split: if_splits)
  show "rc = 0" if "fAnswers p = []"
    using e z w(2) that by (auto simp: extends_by_zeros_def split: if_splits)
  show "n \<le> length (fContent p')" if "rc = 0"
  proof (cases "w = 0 \<or> n mod ?b \<noteq> 0")
    case True
    then have "rc1 = 0" "r = 1" "p' = p2" using e that by (auto split: if_splits)
    then show ?thesis using w(3) True by simp
  next
    case False
    then have "rc1 = 0" "p' = p1" "w \<noteq> 0" using e that by (auto split: if_splits)
    then have k: "length (fContent p1) \<le> n" "n < length (fContent p1) + ?b" "length (fContent p1) mod ?b = 0" using z by auto
    have "(n - length (fContent p1)) mod ?b = 0" using False k mod_eq_dvd_iff_nat [of "length (fContent p1)" n ?b] by (simp add: mod_eq_0_iff_dvd)
    moreover have "n - length (fContent p1) < ?b" using k by linarith
    ultimately show ?thesis using k(1) \<open>p' = p1\<close> by simp
  qed
qed

lemma robust_ftruncate_ok:
  "robust_ftruncate k p n = (e, p') \<Longrightarrow> k = [] \<or> fAnswers p \<noteq> [] \<Longrightarrow> fMmapSize p' = fMmapSize p \<and>
    (case e of None \<Rightarrow> fContent p' = take n (fContent p) @ replicate (n - length (fContent p)) 0 | Some _ \<Rightarrow> fContent p' = fContent p) \<and>
    (fAnswers p = [] \<longrightarrow> fAnswers p' = [])"
proof (induction k p n rule: robust_ftruncate.induct)
  case (3 x k p n)
  then show ?case by (cases "x = EINTR") auto
qed auto

text \<open>A hint of a size that the file does not exceed.\<close>

lemma fcntlSizeHint_ok:
  assumes "fcntlSizeHint p n = (rc, p')" "file_ok p" "length (fContent p) \<le> n"
  shows "file_ok p' \<and> (\<exists>k. fContent p' = fContent p @ replicate k 0) \<and> (fAnswers p = [] \<longrightarrow> fAnswers p' = [])"
proof -
  let ?k = "fChunk p"
  define m where "m = (n + ?k - 1) div ?k * ?k"
  have m: "n \<le> m" if "?k > 0"
  proof -
    have "n + ?k - 1 < (n + ?k - 1) div ?k * ?k + ?k"
      using div_mult_mod_eq [of "n + ?k - 1" ?k] mod_less_divisor [OF that, of "n + ?k - 1"] by linarith
    then show ?thesis using that by (simp add: m_def)
  qed
  define known p0 where "known = (case fAnswers p of Fail _ # k \<Rightarrow> False | _ \<Rightarrow> True)" and "p0 = p\<lparr>fAnswers := tl (fAnswers p)\<rparr>"
  have stat: "(case fAnswers p of Fail _ # k \<Rightarrow> (False, p\<lparr>fAnswers := k\<rparr>) | Done _ # k \<Rightarrow> (True, p\<lparr>fAnswers := k\<rparr>) | [] \<Rightarrow> (True, p)) =
      (known, p0)" by (cases p) (auto simp: known_def p0_def split: list.splits syscall.splits)
  obtain rc0 q where q: "extend_file p0 m = (rc0, q)" by (rule prod.exhaust)
  have p0: "fContent p0 = fContent p" "fMmapSize p0 = fMmapSize p" "fAnswers p = [] \<longrightarrow> fAnswers p0 = []" "fChunk p0 = fChunk p" by (simp_all add: p0_def)
  define rc1 p1 where "rc1 = (if ?k > 0 then if \<not> known then SQLITE_IOERR_FSTAT else if m > length (fContent p) then rc0 else 0 else 0)"
    and "p1 = (if ?k > 0 then if known \<and> m > length (fContent p) then q else p0 else p)"
  have l: "(if fChunk p > 0 then
              case (case fAnswers p of Fail _ # k \<Rightarrow> (False, p\<lparr>fAnswers := k\<rparr>) | Done _ # k \<Rightarrow> (True, p\<lparr>fAnswers := k\<rparr>) | [] \<Rightarrow> (True, p)) of (known, pFile) \<Rightarrow>
                let nSize = (n + fChunk pFile - 1) div fChunk pFile * fChunk pFile
                in if \<not> known then (SQLITE_IOERR_FSTAT, pFile)
                   else if nSize > length (fContent pFile) then extend_file pFile nSize
                   else (0, pFile)
            else (0, p)) = (rc1, p1)"
    unfolding stat prod.case Let_def p0 m_def [symmetric] q by (simp add: rc1_def p1_def)
  have z0: "extends_by_zeros p p0" unfolding extends_by_zeros_def using p0 by (intro conjI exI [of _ 0]) simp_all
  have 1: "extends_by_zeros p p1" "rc1 = 0 \<Longrightarrow> ?k > 0 \<Longrightarrow> n \<le> length (fContent p1)"
    using extend_file_zero [OF q] extends_by_zeros_trans [OF z0] z0 extends_by_zeros_refl m assms(3) p0
    by (auto simp: rc1_def p1_def split: if_splits)
  have ok1: "file_ok p1" "\<exists>k. fContent p1 = fContent p @ replicate k 0" "fAnswers p = [] \<longrightarrow> fAnswers p1 = []"
    using 1(1) assms(2) by (auto simp: extends_by_zeros_def file_ok_def)
  obtain e p2 where t: "(if fChunk p1 = 0 then robust_ftruncate (fAnswers p1) p1 n else (None, p1)) = (e, p2)" by (rule prod.exhaust)
  have c1: "fChunk p1 = ?k" using 1(1) by (simp add: extends_by_zeros_def)
  have t2: "file_ok p2 \<and> (\<exists>k. fContent p2 = fContent p @ replicate k 0) \<and> (fAnswers p = [] \<longrightarrow> fAnswers p2 = []) \<and>
      (e = None \<longrightarrow> n \<le> length (fContent p2))" if "rc1 = 0"
  proof (cases "?k = 0")
    case True
    then have p1: "p1 = p" by (simp add: p1_def)
    have "robust_ftruncate (fAnswers p) p n = (e, p2)" using t True p1 by simp
    note f = robust_ftruncate_ok [OF this]
    show ?thesis
    proof (cases e)
      case None
      then have "fContent p2 = fContent p @ replicate (n - length (fContent p)) 0" using f assms(3) by simp
      then show ?thesis using f assms by (auto simp: file_ok_def)
    next
      case (Some x)
      then have "fContent p2 = fContent p @ replicate 0 0" using f by simp
      then show ?thesis using f Some assms(2) unfolding file_ok_def by (intro conjI impI exI [of _ 0]) simp_all
    qed
  next
    case False
    then have "e = None" "p2 = p1" using t c1 by simp_all
    then show ?thesis using ok1 1(2) that False by simp
  qed
  have r: "(rc, p') = (if rc1 \<noteq> 0 then (rc1, p1)
      else if fMmapMax p1 > 0 \<and> n > fMmapSize p1 then
        (case e of Some errno \<Rightarrow> (SQLITE_IOERR_TRUNCATE, p2\<lparr>fErrno := errno\<rparr>) | None \<Rightarrow> unixMapfile p2 (Some n))
      else (0, p1))"
    using assms(1) unfolding fcntlSizeHint_def l prod.case t by (rule sym)
  consider "p' = p1" | "rc1 = 0" "\<exists>x. p' = p2\<lparr>fErrno := x\<rparr>" | "rc1 = 0" "e = None" "unixMapfile p2 (Some n) = (rc, p')"
    using r by (auto split: if_splits option.splits)
  then show ?thesis
  proof cases
    case 1
    then show ?thesis using ok1 by simp
  next
    case 2
    then show ?thesis using t2 by (auto simp: file_ok_def)
  next
    case 3
    have "n \<le> length (fContent p2)" "file_ok p2" using t2 3 by blast+
    then show ?thesis using unixMapfile_ok [OF 3(3)] t2 3(1) by simp
  qed
qed

text \<open>For a longer file the comment in the code promises that nothing is done. That holds unless the
  limit of mappings is below the size of the file: then the file is cut off.\<close>

lemma fcntlSizeHint_cuts_off:
  "fcntlSizeHint \<lparr>fContent = [1, 2, 3, 4], fMapped = True, fMmapSize = 1, fMmapMax = 1, fFetchOut = 0, fChunk = 0, fBlkSize = 4096,
      fDirSync = False, fErrno = 0, fAnswers = [], fShm = 0, fShmNode = shm_alone\<rparr> 2 =
    (0, \<lparr>fContent = [1, 2], fMapped = True, fMmapSize = 1, fMmapMax = 1, fFetchOut = 0, fChunk = 0, fBlkSize = 4096,
      fDirSync = False, fErrno = 0, fAnswers = [], fShm = 0, fShmNode = shm_alone\<rparr>)"
  by (simp add: fcntlSizeHint_def unixMapfile_def)

end
