(* ===== verification/WalFrame.thy ===== *)
theory WalFrame
  imports Varint WalIndex
begin

text \<open>
  The write-ahead log (\<^verbatim>\<open>src/sqlite/src/wal.c\<close>): the state of a connection, the checksums, and
  the frames of which the log consists.

  A 32-bit word in memory is its four bytes in the order of the host, big-endian or not; the
  first argument of the definitions that depend on it, \<^verbatim>\<open>be\<close>, is \<^verbatim>\<open>SQLITE_BIGENDIAN\<close>. The checksum
  of a log is over words in the order that its header names, whatever the host.
\<close>

section \<open>The state of a connection\<close>

record WalCkptInfo =
  nBackfill :: nat
  aReadMark :: "nat list"

text \<open>To the private state belongs the shared memory: the blocks of the index, the two copies of
  its header, and the marks of readers.\<close>

record 'k wal = wal_index +
  wal_szPage :: nat
  nCkpt :: u32
  pWalFd :: 'k
  pDbFd :: 'k
  aHdr :: "WalIndexHdr \<times> WalIndexHdr"
  pInfo :: WalCkptInfo
  readLock :: int
  writeLock :: bool
  ckptLock :: bool
  exclusiveMode :: nat
  shmReadOnly :: bool
  syncHeader :: bool
  padToSectorBoundary :: bool
  truncateOnCommit :: bool
  mxWalSize :: int
  iCallback :: nat

abbreviation (input) WAL_HDRSIZE :: nat where "WAL_HDRSIZE \<equiv> 32"
abbreviation (input) WAL_FRAME_HDRSIZE :: nat where "WAL_FRAME_HDRSIZE \<equiv> 24"
abbreviation (input) WAL_MAGIC :: u32 where "WAL_MAGIC \<equiv> 0x377f0682"
abbreviation (input) WAL_MAX_VERSION :: u32 where "WAL_MAX_VERSION \<equiv> 3007000"
abbreviation (input) WALINDEX_MAX_VERSION :: u32 where "WALINDEX_MAX_VERSION \<equiv> 3007000"
abbreviation (input) READMARK_NOT_USED :: nat where "READMARK_NOT_USED \<equiv> 0xffffffff"
abbreviation (input) WAL_NREADER :: nat where "WAL_NREADER \<equiv> 5"

abbreviation (input) set_cksum :: "u32 \<times> u32 \<Rightarrow> 'k wal \<Rightarrow> 'k wal" where
  "set_cksum c w \<equiv> w\<lparr>hdr := (hdr w)\<lparr>aFrameCksum := c\<rparr>\<rparr>"

section \<open>Checksums\<close>

definition word4 :: "u8 \<Rightarrow> u8 \<Rightarrow> u8 \<Rightarrow> u8 \<Rightarrow> u32" where
  "word4 a b c d = push_bit 24 (ucast a) OR push_bit 16 (ucast b) OR push_bit 8 (ucast c) OR ucast d"

definition load32 :: "bool \<Rightarrow> u8 \<Rightarrow> u8 \<Rightarrow> u8 \<Rightarrow> u8 \<Rightarrow> u32" where
  "load32 be a b c d = (if be then word4 a b c d else word4 d c b a)"

definition BYTESWAP32 :: "u32 \<Rightarrow> u32" where
  "BYTESWAP32 x = push_bit 24 (x AND 0x000000FF) + push_bit 8 (x AND 0x0000FF00)
     + drop_bit 8 (x AND 0x00FF0000) + drop_bit 24 (x AND 0xFF000000)"

fun walChecksum_loop :: "bool \<Rightarrow> bool \<Rightarrow> bytes \<Rightarrow> u32 \<Rightarrow> u32 \<Rightarrow> u32 \<times> u32" where
  "walChecksum_loop be native (a0 # a1 # a2 # a3 # b0 # b1 # b2 # b3 # a) s1 s2 =
     (let x = load32 be a0 a1 a2 a3;
          s1 = s1 + ((if native then x else BYTESWAP32 x) + s2);
          y = load32 be b0 b1 b2 b3;
          s2 = s2 + ((if native then y else BYTESWAP32 y) + s1)
      in walChecksum_loop be native a s1 s2)"
| "walChecksum_loop be native _ s1 s2 = (s1, s2)"

definition walChecksumBytes :: "bool \<Rightarrow> bool \<Rightarrow> bytes \<Rightarrow> u32 \<times> u32 \<Rightarrow> u32 \<times> u32" where
  "walChecksumBytes be nativeCksum a aIn = walChecksum_loop be nativeCksum a (fst aIn) (snd aIn)"

definition nativeCksum :: "bool \<Rightarrow> u8 \<Rightarrow> bool" where
  "nativeCksum be big \<longleftrightarrow> big = (if be then 1 else 0)"

section \<open>Frames\<close>

definition get4 :: "bytes \<Rightarrow> nat \<Rightarrow> u32" where
  "get4 p i = the (get4byte (drop i p))"

definition walEncodeFrame :: "bool \<Rightarrow> 'k wal \<Rightarrow> u32 \<Rightarrow> u32 \<Rightarrow> bytes \<Rightarrow> 'k wal \<times> bytes" where
  "walEncodeFrame be pWal iPage nTruncate aData =
     (let aFrame = put4byte iPage @ put4byte nTruncate @ aSalt (hdr pWal);
          native = nativeCksum be (bigEndCksum (hdr pWal));
          aCksum = walChecksumBytes be native (take 8 aFrame) (aFrameCksum (hdr pWal));
          aCksum = walChecksumBytes be native (take (wal_szPage pWal) aData) aCksum
      in (set_cksum aCksum pWal, aFrame @ put4byte (fst aCksum) @ put4byte (snd aCksum)))"

definition walDecodeFrame :: "bool \<Rightarrow> 'k wal \<Rightarrow> bytes \<Rightarrow> bytes \<Rightarrow> (u32 \<times> u32) option \<times> 'k wal" where
  "walDecodeFrame be pWal aData aFrame =
     (if aSalt (hdr pWal) \<noteq> take 8 (drop 8 aFrame) then (None, pWal)
      else
        let pgno = get4 aFrame 0
        in if pgno = 0 then (None, pWal)
           else
             let native = nativeCksum be (bigEndCksum (hdr pWal));
                 aCksum = walChecksumBytes be native (take 8 aFrame) (aFrameCksum (hdr pWal));
                 aCksum = walChecksumBytes be native (take (wal_szPage pWal) aData) aCksum;
                 pWal = set_cksum aCksum pWal
             in if fst aCksum \<noteq> get4 aFrame 16 \<or> snd aCksum \<noteq> get4 aFrame 20 then (None, pWal)
                else (Some (pgno, get4 aFrame 4), pWal))"

section \<open>The header of the index\<close>

text \<open>The header as it lies in memory, up to its own checksum.\<close>

definition store32 :: "bool \<Rightarrow> u32 \<Rightarrow> bytes" where
  "store32 be v = (if be then put4byte v else rev (put4byte v))"

definition hdr_bytes :: "bool \<Rightarrow> WalIndexHdr \<Rightarrow> bytes" where
  "hdr_bytes be h =
     store32 be (iVersion h) @ store32 be (unused h) @ store32 be (iChange h) @ [isInit h, bigEndCksum h] @
     (if be then [ucast (drop_bit 8 (hdr_szPage h)), ucast (hdr_szPage h)]
      else [ucast (hdr_szPage h), ucast (drop_bit 8 (hdr_szPage h))]) @
     store32 be (of_nat (mxFrame h)) @ store32 be (nPage h) @
     store32 be (fst (aFrameCksum h)) @ store32 be (snd (aFrameCksum h)) @ aSalt h"

text \<open>The second copy is stored first, then the first one; the barrier between the two stores keeps
  their order for others, who see no state between them that both copies agree on.\<close>

definition walIndexWriteHdr :: "bool \<Rightarrow> 'k wal \<Rightarrow> 'k wal" where
  "walIndexWriteHdr be pWal =
     (let h = (hdr pWal)\<lparr>isInit := 1, iVersion := WALINDEX_MAX_VERSION\<rparr>;
          h = h\<lparr>aCksum := walChecksumBytes be True (hdr_bytes be h) (0, 0)\<rparr>
      in pWal\<lparr>hdr := h, aHdr := (h, h)\<rparr>)"

section \<open>The format of the log\<close>

text \<open>The reference: the checksum by the byte order of the log, and the frame of a page.\<close>

fun cksum_ref :: "bool \<Rightarrow> bytes \<Rightarrow> u32 \<times> u32 \<Rightarrow> u32 \<times> u32" where
  "cksum_ref big (a0 # a1 # a2 # a3 # b0 # b1 # b2 # b3 # a) (s1, s2) =
     (let s1 = s1 + load32 big a0 a1 a2 a3 + s2; s2 = s2 + load32 big b0 b1 b2 b3 + s1
      in cksum_ref big a (s1, s2))"
| "cksum_ref big _ s = s"

type_synonym frame = "u32 \<times> u32 \<times> bytes"

fun frame_cksum :: "bool \<Rightarrow> nat \<Rightarrow> u32 \<times> u32 \<Rightarrow> frame \<Rightarrow> u32 \<times> u32" where
  "frame_cksum big sz c (pgno, nTruncate, d) = cksum_ref big (take sz d) (cksum_ref big (put4byte pgno @ put4byte nTruncate) c)"

fun frame_header :: "bool \<Rightarrow> nat \<Rightarrow> bytes \<Rightarrow> u32 \<times> u32 \<Rightarrow> frame \<Rightarrow> bytes" where
  "frame_header big sz salt c (pgno, nTruncate, d) =
     put4byte pgno @ put4byte nTruncate @ salt @
     put4byte (fst (frame_cksum big sz c (pgno, nTruncate, d))) @ put4byte (snd (frame_cksum big sz c (pgno, nTruncate, d)))"

lemma byte_masks:
  "(0x000000FF :: u32) = mask 8" "(0x0000FF00 :: u32) = push_bit 8 (mask 8)"
  "(0x00FF0000 :: u32) = push_bit 16 (mask 8)" "(0xFF000000 :: u32) = push_bit 24 (mask 8)"
  by (simp_all add: mask_eq_exp_minus_1 push_bit_eq_mult)

lemma bit_word4: "bit (word4 a b c d) n \<longleftrightarrow>
    n < 8 \<and> bit d n \<or> 8 \<le> n \<and> n < 16 \<and> bit c (n - 8) \<or> 16 \<le> n \<and> n < 24 \<and> bit b (n - 16) \<or> 24 \<le> n \<and> n < 32 \<and> bit a (n - 24)"
  by (auto simp: word4_def bit_simps dest: bit_imp_le_length)

lemma BYTESWAP32_word4: "BYTESWAP32 (word4 a b c d) = word4 d c b a"
proof -
  have or: "BYTESWAP32 x = push_bit 24 (x AND 0x000000FF) OR push_bit 8 (x AND 0x0000FF00)
     OR drop_bit 8 (x AND 0x00FF0000) OR drop_bit 24 (x AND 0xFF000000)" for x
  proof -
    define A B C D where parts: "A = push_bit 24 (x AND 0x000000FF)" "B = push_bit 8 (x AND 0x0000FF00)"
      "C = drop_bit 8 (x AND 0x00FF0000)" "D = drop_bit 24 (x AND 0xFF000000)"
    have bits: "bit A n \<Longrightarrow> 24 \<le> n" "bit B n \<Longrightarrow> 16 \<le> n \<and> n < 24" "bit C n \<Longrightarrow> 8 \<le> n \<and> n < 16" "bit D n \<Longrightarrow> n < 8" for n
      unfolding parts byte_masks by (auto simp: bit_simps)
    have d1: "\<not> bit A n \<or> \<not> bit B n" for n using bits(1,2) [of n] by auto
    have d2: "\<not> bit (A OR B) n \<or> \<not> bit C n" for n using bits(1-3) [of n] by (auto simp: bit_or_iff)
    have d3: "\<not> bit (A OR B OR C) n \<or> \<not> bit D n" for n using bits [of n] by (auto simp: bit_or_iff)
    have "A + B = A OR B" by (rule disjunctive_add [OF d1])
    moreover have "(A OR B) + C = A OR B OR C" unfolding or.assoc [symmetric] by (rule disjunctive_add [OF d2])
    moreover have "(A OR B OR C) + D = A OR B OR C OR D" using disjunctive_add [OF d3] by (simp only: or.assoc)
    ultimately show ?thesis unfolding BYTESWAP32_def parts [symmetric] by (simp only: or.assoc)
  qed
  show ?thesis unfolding or byte_masks
  proof (rule bit_word_eqI)
    fix n assume "n < LENGTH(32)"
    then have "n = n mod 8 \<or> n = 8 + n mod 8 \<or> n = 16 + n mod 8 \<or> n = 24 + n mod 8" by simp presburger
    then obtain k where k: "k < 8" "n = k \<or> n = 8 + k \<or> n = 16 + k \<or> n = 24 + k" by (metis mod_less_divisor zero_less_numeral)
    from k(2) show "bit (push_bit 24 (word4 a b c d AND mask 8) OR push_bit 8 (word4 a b c d AND push_bit 8 (mask 8)) OR
        drop_bit 8 (word4 a b c d AND push_bit 16 (mask 8)) OR drop_bit 24 (word4 a b c d AND push_bit 24 (mask 8))) n =
      bit (word4 d c b a) n"
      by (elim disjE; use k(1) in \<open>simp add: bit_simps bit_word4\<close>)
  qed
qed

lemma load32_swap: "BYTESWAP32 (load32 be a b c d) = load32 (\<not> be) a b c d"
  by (simp add: load32_def BYTESWAP32_word4)

text \<open>The checksum of the code is the one of the log's byte order, on every host.\<close>

lemma walChecksum_loop_ref: "walChecksum_loop be (E = be) a s1 s2 = cksum_ref E a (s1, s2)"
proof (induction be "E = be" a s1 s2 rule: walChecksum_loop.induct)
  case (1 be a0 a1 a2 a3 b0 b1 b2 b3 a s1 s2)
  then show ?case by (cases "E = be") (auto simp: load32_swap Let_def add.assoc)
qed simp_all

lemma walChecksumBytes_ref: "walChecksumBytes be (E = be) a s = cksum_ref E a s"
  by (simp add: walChecksumBytes_def walChecksum_loop_ref)

lemma nativeCksum_eq: "big \<le> 1 \<Longrightarrow> nativeCksum be big = ((big = 1) = be)"
proof -
  assume "big \<le> 1"
  then have "unat big = 0 \<or> unat big = 1" by (auto simp: word_le_nat_alt)
  then have "big = 0 \<or> big = 1" by (auto simp: word_unat_eq_iff)
  then show ?thesis by (auto simp: nativeCksum_def)
qed

lemma get4_put4 [simp]: "get4 (put4byte v @ r) 0 = v"
  by (simp add: get4_def get4byte_put4byte)

lemma get4_skip: "length p = n \<Longrightarrow> get4 (p @ r) (n + i) = get4 r i"
  by (simp add: get4_def)

text \<open>What one connection encodes, another decodes, on a host of either byte order.\<close>

lemma walEncodeFrame_eq:
  assumes "bigEndCksum (hdr w) \<le> 1" "length (aSalt (hdr w)) = 8"
  shows "walEncodeFrame be w pgno nt d =
    (set_cksum (frame_cksum (bigEndCksum (hdr w) = 1) (wal_szPage w) (aFrameCksum (hdr w)) (pgno, nt, d)) w,
     frame_header (bigEndCksum (hdr w) = 1) (wal_szPage w) (aSalt (hdr w)) (aFrameCksum (hdr w)) (pgno, nt, d))"
  using assms by (simp add: walEncodeFrame_def nativeCksum_eq walChecksumBytes_ref Let_def)

lemma walDecodeFrame_header:
  assumes "bigEndCksum (hdr w) \<le> 1" "length (aSalt (hdr w)) = 8" "pgno \<noteq> 0"
  shows "walDecodeFrame be w d (frame_header (bigEndCksum (hdr w) = 1) (wal_szPage w) (aSalt (hdr w)) (aFrameCksum (hdr w)) (pgno, nt, d)) =
    (Some (pgno, nt), set_cksum (frame_cksum (bigEndCksum (hdr w) = 1) (wal_szPage w) (aFrameCksum (hdr w)) (pgno, nt, d)) w)"
proof -
  let ?c = "frame_cksum (bigEndCksum (hdr w) = 1) (wal_szPage w) (aFrameCksum (hdr w)) (pgno, nt, d)"
  let ?f = "put4byte pgno @ put4byte nt @ aSalt (hdr w) @ put4byte (fst ?c) @ put4byte (snd ?c)"
  have g: "get4 ?f 0 = pgno" "get4 ?f 4 = nt" "get4 ?f 16 = fst ?c" "get4 ?f 20 = snd ?c"
    using assms(2) get4_put4 [of _ "[]"] by (simp_all add: get4_def get4byte_put4byte)
  show ?thesis
    using assms g by (simp add: walDecodeFrame_def nativeCksum_eq walChecksumBytes_ref Let_def)
qed

end
