(* ===== verification/WalRecover.thy ===== *)
theory WalRecover
  imports WalFrame UnixFile
begin

text \<open>
  Recovery of the index from the log (\<^verbatim>\<open>walIndexRecover\<close> in \<^verbatim>\<open>src/sqlite/src/wal.c\<close>), for any
  file, and for any operating system that keeps the contract stated by the locale \<^verbatim>\<open>wal_vfs\<close>.
\<close>

section \<open>The methods of the operating system\<close>

text \<open>The methods of an open file, which the code calls through a table of functions. The
  shared-memory locks and barriers act on the whole state of a connection: at these points
  others may change the shared memory.\<close>

record 'k vfs =
  xRead :: "'k \<Rightarrow> nat \<Rightarrow> nat \<Rightarrow> nat \<times> bytes \<times> 'k"
  xWrite :: "'k \<Rightarrow> bytes \<Rightarrow> nat \<Rightarrow> nat \<times> 'k"
  xTruncate :: "'k \<Rightarrow> nat \<Rightarrow> nat \<times> 'k"
  xSync :: "'k \<Rightarrow> nat \<Rightarrow> nat \<times> 'k"
  xFileSize :: "'k \<Rightarrow> nat \<times> nat \<times> 'k"
  xSectorSize :: "'k \<Rightarrow> nat"
  xSizeHint :: "'k \<Rightarrow> nat \<Rightarrow> 'k"
  xUnfetch :: "'k \<Rightarrow> 'k"
  xShmLock :: "'k wal \<Rightarrow> nat \<Rightarrow> nat \<Rightarrow> nat \<Rightarrow> nat \<times> 'k wal"
  xShmBarrier :: "'k wal \<Rightarrow> 'k wal"

abbreviation (input) SQLITE_NOMEM :: nat where "SQLITE_NOMEM \<equiv> 7"
abbreviation (input) SQLITE_CANTOPEN :: nat where "SQLITE_CANTOPEN \<equiv> 14"
abbreviation (input) WAL_ALL_BUT_WRITE :: nat where "WAL_ALL_BUT_WRITE \<equiv> 1"
abbreviation (input) SHM_LOCK_SHARED :: nat where "SHM_LOCK_SHARED \<equiv> 6"
abbreviation (input) SHM_UNLOCK_SHARED :: nat where "SHM_UNLOCK_SHARED \<equiv> 5"
abbreviation (input) SHM_LOCK_EXCLUSIVE :: nat where "SHM_LOCK_EXCLUSIVE \<equiv> 10"
abbreviation (input) SHM_UNLOCK_EXCLUSIVE :: nat where "SHM_UNLOCK_EXCLUSIVE \<equiv> 9"

definition walLockShared :: "'k vfs \<Rightarrow> 'k wal \<Rightarrow> nat \<Rightarrow> nat \<times> 'k wal" where
  "walLockShared io pWal lockIdx =
     (if exclusiveMode pWal \<noteq> 0 then (0, pWal) else xShmLock io pWal lockIdx 1 SHM_LOCK_SHARED)"

definition walUnlockShared :: "'k vfs \<Rightarrow> 'k wal \<Rightarrow> nat \<Rightarrow> 'k wal" where
  "walUnlockShared io pWal lockIdx =
     (if exclusiveMode pWal \<noteq> 0 then pWal else snd (xShmLock io pWal lockIdx 1 SHM_UNLOCK_SHARED))"

definition walLockExclusive :: "'k vfs \<Rightarrow> 'k wal \<Rightarrow> nat \<Rightarrow> nat \<Rightarrow> nat \<times> 'k wal" where
  "walLockExclusive io pWal lockIdx n =
     (if exclusiveMode pWal \<noteq> 0 then (0, pWal) else xShmLock io pWal lockIdx n SHM_LOCK_EXCLUSIVE)"

definition walUnlockExclusive :: "'k vfs \<Rightarrow> 'k wal \<Rightarrow> nat \<Rightarrow> nat \<Rightarrow> 'k wal" where
  "walUnlockExclusive io pWal lockIdx n =
     (if exclusiveMode pWal \<noteq> 0 then pWal else snd (xShmLock io pWal lockIdx n SHM_UNLOCK_EXCLUSIVE))"

section \<open>Recovery\<close>

definition zero_hdr :: WalIndexHdr where
  "zero_hdr = \<lparr>iVersion = 0, unused = 0, iChange = 0, isInit = 0, bigEndCksum = 0, hdr_szPage = 0, mxFrame = 0,
     nPage = 0, aFrameCksum = (0, 0), aSalt = replicate 8 0, aCksum = (0, 0)\<rparr>"

definition u16_szPage :: "nat \<Rightarrow> u16" where
  "u16_szPage szPage = of_nat ((szPage AND 0xff00) OR drop_bit 16 szPage)"

function recover_frames :: "bool \<Rightarrow> 'k vfs \<Rightarrow> (nat \<Rightarrow> nat) \<Rightarrow> nat \<Rightarrow> nat \<Rightarrow> nat \<Rightarrow> nat \<Rightarrow> u32 \<times> u32 \<Rightarrow> 'k wal \<Rightarrow>
    nat \<times> (u32 \<times> u32) \<times> 'k wal" where
  "recover_frames be io walIndexPage szPage nSize iOffset iFrame cksum pWal =
     (if iOffset + (szPage + WAL_FRAME_HDRSIZE) \<le> nSize then
        case xRead io (pWalFd pWal) (szPage + WAL_FRAME_HDRSIZE) iOffset of (rc, aFrame, fd) \<Rightarrow>
          let pWal = pWal\<lparr>pWalFd := fd\<rparr>; iFrame = iFrame + 1
          in if rc \<noteq> 0 then (rc, cksum, pWal)
             else
               (case walDecodeFrame be pWal (drop WAL_FRAME_HDRSIZE aFrame) aFrame of
                  (None, pWal) \<Rightarrow> (0, cksum, pWal)
                | (Some (pgno, nTruncate), pWal) \<Rightarrow>
                    (case walIndexAppend walIndexPage pWal iFrame (unat pgno) of (rc, pWal) \<Rightarrow>
                       if rc \<noteq> 0 then (rc, cksum, pWal)
                       else if nTruncate \<noteq> 0 then
                         recover_frames be io walIndexPage szPage nSize (iOffset + (szPage + WAL_FRAME_HDRSIZE)) iFrame
                           (aFrameCksum (hdr pWal))
                           (pWal\<lparr>hdr := (hdr pWal)\<lparr>mxFrame := iFrame, nPage := nTruncate, hdr_szPage := u16_szPage szPage\<rparr>\<rparr>)
                       else
                         recover_frames be io walIndexPage szPage nSize (iOffset + (szPage + WAL_FRAME_HDRSIZE)) iFrame cksum pWal))
      else (0, cksum, pWal))"
  by pat_completeness auto
termination by (relation "measure (\<lambda>(be, io, pg, szPage, nSize, iOffset, iFrame, c, w). nSize - iOffset)") auto

text \<open>The log file from its header on; the result code, the checksum after the last commit.\<close>

definition recover_log :: "bool \<Rightarrow> 'k vfs \<Rightarrow> (nat \<Rightarrow> nat) \<Rightarrow> bool \<Rightarrow> nat \<Rightarrow> 'k wal \<Rightarrow> nat \<times> (u32 \<times> u32) \<times> 'k wal" where
  "recover_log be io walIndexPage mem_ok nSize pWal =
     (case xRead io (pWalFd pWal) WAL_HDRSIZE 0 of (rc, aBuf, fd) \<Rightarrow>
        let pWal = pWal\<lparr>pWalFd := fd\<rparr>
        in if rc \<noteq> 0 then (rc, (0, 0), pWal)
           else
             let magic = get4 aBuf 0; szPage = get4 aBuf 8
             in if magic AND 0xFFFFFFFE \<noteq> WAL_MAGIC \<or> szPage AND (szPage - 1) \<noteq> 0 \<or> unat szPage > 65536 \<or> unat szPage < 512
                then (0, (0, 0), pWal)
                else
                  let big = ucast (magic AND 1);
                      c = walChecksumBytes be (nativeCksum be big) (take 24 aBuf) (0, 0);
                      pWal = pWal\<lparr>hdr := (hdr pWal)\<lparr>bigEndCksum := big, aSalt := take 8 (drop 16 aBuf), aFrameCksum := c\<rparr>,
                        wal_szPage := unat szPage, nCkpt := get4 aBuf 12\<rparr>
                  in if fst c \<noteq> get4 aBuf 24 \<or> snd c \<noteq> get4 aBuf 28 then (0, (0, 0), pWal)
                     else if get4 aBuf 4 \<noteq> WAL_MAX_VERSION then (SQLITE_CANTOPEN, (0, 0), pWal)
                     else if \<not> mem_ok then (SQLITE_NOMEM, (0, 0), pWal)
                     else recover_frames be io walIndexPage (unat szPage) nSize WAL_HDRSIZE 0 (0, 0) pWal)"

definition walIndexRecover :: "bool \<Rightarrow> 'k vfs \<Rightarrow> (nat \<Rightarrow> nat) \<Rightarrow> bool \<Rightarrow> 'k wal \<Rightarrow> nat \<times> 'k wal" where
  "walIndexRecover be io walIndexPage mem_ok pWal =
     (let iLock = WAL_ALL_BUT_WRITE + (if ckptLock pWal then 1 else 0); nLock = SQLITE_SHM_NLOCK - iLock
      in case walLockExclusive io pWal iLock nLock of (rc, pWal) \<Rightarrow>
           if rc \<noteq> 0 then (rc, pWal)
           else
             let pWal = pWal\<lparr>hdr := zero_hdr\<rparr>
             in case xFileSize io (pWalFd pWal) of (rc, nSize, fd) \<Rightarrow>
               let pWal = pWal\<lparr>pWalFd := fd\<rparr>
               in case (if rc \<noteq> 0 then (rc, (0, 0), pWal)
                        else if nSize > WAL_HDRSIZE then recover_log be io walIndexPage mem_ok nSize pWal
                        else (0, (0, 0), pWal)) of (rc, cksum, pWal) \<Rightarrow>
                 let pWal = (if rc \<noteq> 0 then pWal
                       else let pWal = walIndexWriteHdr be (set_cksum cksum pWal); mx = mxFrame (hdr pWal)
                            in pWal\<lparr>pInfo := \<lparr>nBackfill = 0,
                                 aReadMark = [0, if mx \<noteq> 0 then mx else READMARK_NOT_USED, READMARK_NOT_USED,
                                   READMARK_NOT_USED, READMARK_NOT_USED]\<rparr>\<rparr>)
                 in (rc, walUnlockExclusive io pWal iLock nLock))"

declare recover_frames.simps [simp del]


section \<open>The format of a log file\<close>

text \<open>The frames of a log: as long as there is a header that is the one of its page.\<close>

function log_frames :: "bool \<Rightarrow> nat \<Rightarrow> bytes \<Rightarrow> u32 \<times> u32 \<Rightarrow> bytes \<Rightarrow> frame list" where
  "log_frames big sz salt c f =
     (let fr = (get4 f 0, get4 f 4, take sz (drop WAL_FRAME_HDRSIZE f))
      in if WAL_FRAME_HDRSIZE + sz \<le> length f \<and> fst fr \<noteq> 0 \<and> take WAL_FRAME_HDRSIZE f = frame_header big sz salt c fr
         then fr # log_frames big sz salt (frame_cksum big sz c fr) (drop (WAL_FRAME_HDRSIZE + sz) f)
         else [])"
  by pat_completeness auto
termination by (relation "measure (\<lambda>(big, sz, salt, c, f). length f)") auto

declare log_frames.simps [simp del]

lemma log_frames_short: "length f < 24 + sz \<Longrightarrow> log_frames big sz salt c f = []"
  by (subst log_frames.simps) (simp add: Let_def del: frame_header.simps)

lemma log_frames_stop:
  "\<not> (get4 f 0 \<noteq> 0 \<and> take 24 f = frame_header big sz salt c (get4 f 0, get4 f 4, take sz (drop 24 f))) \<Longrightarrow>
    log_frames big sz salt c f = []"
  by (subst log_frames.simps) (auto simp: Let_def simp del: frame_header.simps)

lemma log_frames_step:
  "24 + sz \<le> length f \<Longrightarrow> get4 f 0 \<noteq> 0 \<Longrightarrow> take 24 f = frame_header big sz salt c (get4 f 0, get4 f 4, take sz (drop 24 f)) \<Longrightarrow>
    log_frames big sz salt c f = (get4 f 0, get4 f 4, take sz (drop 24 f)) #
      log_frames big sz salt (frame_cksum big sz c (get4 f 0, get4 f 4, take sz (drop 24 f))) (drop (24 + sz) f)"
  by (subst log_frames.simps) (simp add: Let_def del: frame_header.simps frame_cksum.simps)

text \<open>The header of the file. The same number is in its first four bytes and says how the
  checksums are computed.\<close>

fun log_header :: "bool \<Rightarrow> nat \<Rightarrow> u32 \<Rightarrow> bytes \<Rightarrow> bytes" where
  "log_header big sz ckpt salt =
     (let h = put4byte (WAL_MAGIC OR (if big then 1 else 0)) @ put4byte WAL_MAX_VERSION @ put4byte (of_nat sz) @ put4byte ckpt @ salt;
          c = cksum_ref big h (0, 0)
      in h @ put4byte (fst c) @ put4byte (snd c))"

definition valid_szPage :: "nat \<Rightarrow> bool" where
  "valid_szPage sz \<longleftrightarrow> sz \<in> {512, 1024, 2048, 4096, 8192, 16384, 32768, 65536}"

definition header_cksum :: "bool \<Rightarrow> nat \<Rightarrow> u32 \<Rightarrow> bytes \<Rightarrow> u32 \<times> u32" where
  "header_cksum big sz ckpt salt = cksum_ref big (take 24 (log_header big sz ckpt salt)) (0, 0)"

text \<open>The transactions in it end at frames with a database size.\<close>

definition last_commit :: "frame list \<Rightarrow> nat" where
  "last_commit fs = length (dropWhile (\<lambda>(p, n, d). n = 0) (rev fs))"

definition commit_size :: "frame list \<Rightarrow> u32" where
  "commit_size fs = (if last_commit fs = 0 then 0 else fst (snd (fs ! (last_commit fs - 1))))"

definition frames_cksum :: "bool \<Rightarrow> nat \<Rightarrow> u32 \<times> u32 \<Rightarrow> frame list \<Rightarrow> u32 \<times> u32" where
  "frames_cksum big sz c fs = foldl (frame_cksum big sz) c fs"

definition pages :: "frame list \<Rightarrow> nat list" where
  "pages fs = map (\<lambda>(p, n, d). unat p) fs"

text \<open>The bytes of frames, one after the other.\<close>

fun frames_bytes :: "bool \<Rightarrow> nat \<Rightarrow> bytes \<Rightarrow> u32 \<times> u32 \<Rightarrow> frame list \<Rightarrow> bytes" where
  "frames_bytes big sz salt c [] = []"
| "frames_bytes big sz salt c (fr # fs) =
     frame_header big sz salt c fr @ snd (snd fr) @ frames_bytes big sz salt (frame_cksum big sz c fr) fs"

definition frames_ok :: "nat \<Rightarrow> frame list \<Rightarrow> bool" where
  "frames_ok sz fs \<longleftrightarrow> (\<forall>(p, n, d) \<in> set fs. p \<noteq> 0 \<and> length d = sz)"

lemma frame_header_length: "length salt = 8 \<Longrightarrow> length (frame_header big sz salt c fr) = 24"
  by (cases fr) simp

lemma put4_get4: "4 \<le> length p \<Longrightarrow> put4byte (get4 p 0) = take 4 p"
proof -
  assume "4 \<le> length p"
  then obtain a b c d r where p: "p = a # b # c # d # r"
    by (cases p; cases "tl p"; cases "tl (tl p)"; cases "tl (tl (tl p))") auto
  have w: "get4 (a # b # c # d # r) 0 = word4 a b c d" by (simp add: get4_def get4byte_def word4_def)
  have "ucast (drop_bit 24 (word4 a b c d)) = a" "ucast (drop_bit 16 (word4 a b c d)) = b"
    "ucast (drop_bit 8 (word4 a b c d)) = c" "ucast (word4 a b c d) = d"
    by (rule bit_word_eqI, auto simp: bit_simps bit_word4 dest: bit_imp_le_length)+
  then show ?thesis unfolding p w by (simp add: put4byte_def)
qed

lemma put4_inj: "put4byte a = put4byte b \<longleftrightarrow> a = b"
  using get4_put4 [of a "[]"] get4_put4 [of b "[]"] by metis

text \<open>A frame is read back where it has been written, and nothing that follows is needed.\<close>

lemma log_frames_bytes:
  "length salt = 8 \<Longrightarrow> frames_ok sz fs \<Longrightarrow>
    log_frames big sz salt c (frames_bytes big sz salt c fs @ rest) = fs @ log_frames big sz salt (frames_cksum big sz c fs) rest"
proof (induction fs arbitrary: c)
  case Nil
  then show ?case by (simp add: frames_cksum_def)
next
  case (Cons fr fs)
  obtain p n d where fr: "fr = (p, n, d)" by (rule prod_cases3)
  have ok: "p \<noteq> 0" "length d = sz" "frames_ok sz fs" using Cons.prems(2) by (auto simp: frames_ok_def fr)
  have fst_fr: "fst fr = p" by (simp add: fr)
  let ?h = "frame_header big sz salt c fr" and ?r = "frames_bytes big sz salt (frame_cksum big sz c fr) fs @ rest"
  have h: "length ?h = 24" using Cons.prems(1) by (rule frame_header_length)
  have g: "get4 (?h @ d @ ?r) 0 = p" "get4 (?h @ d @ ?r) 4 = n"
    by (simp_all add: fr get4_def get4byte_put4byte)
  have e: "(get4 (?h @ d @ ?r) 0, get4 (?h @ d @ ?r) 4, take sz (drop 24 (?h @ d @ ?r))) = fr"
    unfolding g using h ok(2) by (simp add: fr)
  have "log_frames big sz salt c (?h @ d @ ?r) = fr # log_frames big sz salt (frame_cksum big sz c fr) ?r"
    by (subst log_frames.simps) (simp only: Let_def e, simp add: h ok(1,2) fst_fr del: frame_header.simps)
  then show ?case using Cons.IH [OF Cons.prems(1) ok(3)] by (simp add: fr frames_cksum_def)
qed


section \<open>Decoding follows the format\<close>

lemma take_24_split:
  assumes "24 \<le> length a"
  shows "take 24 a = put4byte (get4 a 0) @ put4byte (get4 a 4) @ take 8 (drop 8 a) @ put4byte (get4 a 16) @ put4byte (get4 a 20)"
proof -
  have g: "put4byte (get4 a i) = take 4 (drop i a)" if "i + 4 \<le> length a" for i
    using put4_get4 [of "drop i a"] that by (simp add: get4_def)
  have "take 24 a = take 4 (drop 0 a) @ take 4 (drop 4 a) @ take 8 (drop 8 a) @ take 4 (drop 16 a) @ take 4 (drop 20 a)"
    using take_add [of 4 20 a] take_add [of 4 16 "drop 4 a"] take_add [of 8 8 "drop 8 a"] take_add [of 4 4 "drop 16 a"] by simp
  then show ?thesis using g [of 0] g [of 4] g [of 16] g [of 20] assms by simp
qed

lemma walDecodeFrame_format:
  assumes w: "bigEndCksum (hdr w) \<le> 1" "length (aSalt (hdr w)) = 8" and a: "24 + wal_szPage w \<le> length a"
  defines "fr \<equiv> (get4 a 0, get4 a 4, take (wal_szPage w) (drop 24 a))"
    and "c \<equiv> frame_cksum (bigEndCksum (hdr w) = 1) (wal_szPage w) (aFrameCksum (hdr w)) (get4 a 0, get4 a 4, take (wal_szPage w) (drop 24 a))"
  shows "fst fr \<noteq> 0 \<and> take 24 a = frame_header (bigEndCksum (hdr w) = 1) (wal_szPage w) (aSalt (hdr w)) (aFrameCksum (hdr w)) fr \<Longrightarrow>
      walDecodeFrame be w (drop 24 a) a = (Some (get4 a 0, get4 a 4), set_cksum c w)"
    and "\<not> (fst fr \<noteq> 0 \<and> take 24 a = frame_header (bigEndCksum (hdr w) = 1) (wal_szPage w) (aSalt (hdr w)) (aFrameCksum (hdr w)) fr) \<Longrightarrow>
      \<exists>c'. walDecodeFrame be w (drop 24 a) a = (None, set_cksum c' w)"
proof -
  have t8: "take 8 a = put4byte (get4 a 0) @ put4byte (get4 a 4)"
    using arg_cong [OF take_24_split [of a], of "take 8"] a by simp
  have eq: "take 24 a = frame_header (bigEndCksum (hdr w) = 1) (wal_szPage w) (aSalt (hdr w)) (aFrameCksum (hdr w)) fr \<longleftrightarrow>
      take 8 (drop 8 a) = aSalt (hdr w) \<and> get4 a 16 = fst c \<and> get4 a 20 = snd c"
    unfolding fr_def c_def frame_header.simps using take_24_split [of a] a w(2) by (simp add: put4_inj)
  have d: "walDecodeFrame be w (drop 24 a) a = (if aSalt (hdr w) \<noteq> take 8 (drop 8 a) then (None, w)
      else if get4 a 0 = 0 then (None, w)
      else if fst c \<noteq> get4 a 16 \<or> snd c \<noteq> get4 a 20 then (None, set_cksum c w) else (Some (get4 a 0, get4 a 4), set_cksum c w))"
    unfolding walDecodeFrame_def Let_def t8 nativeCksum_eq [OF w(1)] walChecksumBytes_ref c_def by (simp add: take_take)
  have same: "set_cksum (aFrameCksum (hdr w)) w = w" by simp
  show "fst fr \<noteq> 0 \<and> take 24 a = frame_header (bigEndCksum (hdr w) = 1) (wal_szPage w) (aSalt (hdr w)) (aFrameCksum (hdr w)) fr \<Longrightarrow>
      walDecodeFrame be w (drop 24 a) a = (Some (get4 a 0, get4 a 4), set_cksum c w)"
    unfolding eq d by (auto simp: fr_def)
  show "\<exists>c'. walDecodeFrame be w (drop 24 a) a = (None, set_cksum c' w)"
    if "\<not> (fst fr \<noteq> 0 \<and> take 24 a = frame_header (bigEndCksum (hdr w) = 1) (wal_szPage w) (aSalt (hdr w)) (aFrameCksum (hdr w)) fr)"
  proof (cases "aSalt (hdr w) \<noteq> take 8 (drop 8 a) \<or> get4 a 0 = 0")
    case True
    then have "walDecodeFrame be w (drop 24 a) a = (None, set_cksum (aFrameCksum (hdr w)) w)" unfolding d same by simp
    then show ?thesis by (rule exI)
  next
    case False
    then have nc: "fst c \<noteq> get4 a 16 \<or> snd c \<noteq> get4 a 20" using that unfolding eq unfolding fr_def fst_conv by argo
    have "walDecodeFrame be w (drop 24 a) a = (None, set_cksum c w)"
      unfolding d using False by (simp only: nc if_True if_False de_Morgan_disj not_not simp_thms)
    then show ?thesis by (rule exI)
  qed
qed

section \<open>Recovery finds what is in the log\<close>

lemma last_commit_snoc: "last_commit (fs @ [(p, n, d)]) = (if n \<noteq> 0 then Suc (length fs) else last_commit fs)"
  by (simp add: last_commit_def)

lemma last_commit_le: "last_commit fs \<le> length fs"
  unfolding last_commit_def by (metis length_dropWhile_le length_rev)

lemma last_commit_Nil [simp]: "last_commit [] = 0" by (simp add: last_commit_def)

lemma pages_length [simp]: "length (pages fs) = length fs" by (simp add: pages_def)

lemma pages_snoc: "pages (fs @ [(p, n, d)]) = pages fs @ [unat p]" by (simp add: pages_def)

lemma frames_cksum_snoc: "frames_cksum big sz c (fs @ [fr]) = frame_cksum big sz (frames_cksum big sz c fs) fr"
  by (simp add: frames_cksum_def)

text \<open>A connection whose index agrees with the frames up to some point of the log.\<close>

definition recovered :: "bool \<Rightarrow> nat \<Rightarrow> u32 \<times> u32 \<Rightarrow> 'k wal \<Rightarrow> u32 \<times> u32 \<Rightarrow> frame list \<Rightarrow> bool" where
  "recovered big sz c0 w ck fs \<longleftrightarrow>
     idx_ok w (pages fs) \<and> mxFrame (hdr w) = last_commit fs \<and> nPage (hdr w) = commit_size fs \<and>
     hdr_szPage (hdr w) = (if last_commit fs = 0 then 0 else u16_szPage sz) \<and>
     ck = (if last_commit fs = 0 then (0, 0) else frames_cksum big sz c0 (take (last_commit fs) fs))"

lemma recovered_snoc:
  assumes "recovered big sz c0 w ck fs" "idx_ok w' (pages fs @ [unat p])" "hdr w' = hdr w"
  shows "n = 0 \<Longrightarrow> recovered big sz c0 w' ck (fs @ [(p, n, d)])"
    and "n \<noteq> 0 \<Longrightarrow> recovered big sz c0 (w'\<lparr>hdr := (hdr w')\<lparr>mxFrame := Suc (length fs), nPage := n, hdr_szPage := u16_szPage sz\<rparr>\<rparr>)
        (frames_cksum big sz c0 (fs @ [(p, n, d)])) (fs @ [(p, n, d)])"
  using assms last_commit_le [of fs]
  by (auto simp: recovered_def last_commit_snoc pages_snoc commit_size_def nth_append idx_ok_def)


lemma get4_take: "i + 4 \<le> n \<Longrightarrow> get4 (take n g) i = get4 g i"
proof -
  assume "i + 4 \<le> n"
  then have "rd (drop i (take n g)) j = rd (drop i g) j" if "j < 4" for j using that by (auto simp: rd_def drop_take)
  then have "get4byte (drop i (take n g)) = get4byte (drop i g)" by (simp add: get4byte_def)
  then show ?thesis by (simp add: get4_def)
qed

text \<open>The contract of the operating system. A write that fails may have written a part; an error
  does nothing else to a file. A file is \<^verbatim>\<open>reliable\<close> while its calls do not fail. Locks may
  let others change the shared memory, though not the index while the lock on writing is held.
  While the lock on checkpoints is held, others do not write to the database, and writers add to
  the log after the frames that are not yet backfilled.\<close>

definition shm_law :: "('k \<Rightarrow> bytes) \<Rightarrow> ('k \<Rightarrow> bool) \<Rightarrow> ('k \<Rightarrow> bool) \<Rightarrow> 'k wal \<Rightarrow> 'k wal \<Rightarrow> bool" where
  "shm_law content ok reliable w w' \<longleftrightarrow>
      w' = w\<lparr>apWiData := apWiData w', pWalFd := pWalFd w', pDbFd := pDbFd w', aHdr := aHdr w', pInfo := pInfo w'\<rparr> \<and>
      ok (pWalFd w') \<and> (ok (pDbFd w) \<longrightarrow> ok (pDbFd w')) \<and> content (pWalFd w') = content (pWalFd w) \<and> (reliable (pWalFd w) \<longrightarrow> reliable (pWalFd w')) \<and>
      (writeLock w \<longrightarrow> apWiData w' = apWiData w \<and> aHdr w' = aHdr w) \<and>
      (ckptLock w \<longrightarrow> content (pDbFd w') = content (pDbFd w) \<and>
        (\<forall>i. 0 < i \<and> i \<le> mxFrame (hdr w) \<longrightarrow> walFramePgno w' i = walFramePgno w i) \<and>
        (nBackfill (pInfo w) < mxFrame (hdr w) \<longrightarrow> nBackfill (pInfo w') = nBackfill (pInfo w) \<and>
          (mxFrame (hdr w) \<le> mxFrame (fst (aHdr w)) \<longrightarrow> mxFrame (hdr w) \<le> mxFrame (fst (aHdr w')))))"

locale wal_vfs =
  fixes io :: "'k vfs" and content :: "'k \<Rightarrow> bytes" and ok :: "'k \<Rightarrow> bool" and reliable :: "'k \<Rightarrow> bool"
  assumes vfs_read: "\<And>k n off rc d k'. ok k \<Longrightarrow> n < 0x20000 \<Longrightarrow> xRead io k n off = (rc, d, k') \<Longrightarrow>
      content k' = content k \<and> ok k' \<and> (rc = 0 \<longrightarrow> d = take n (drop off (content k)) \<and> length d = n) \<and>
      (reliable k \<longrightarrow> reliable k' \<and> (off + n \<le> length (content k) \<longrightarrow> rc = 0))"
    and vfs_write: "\<And>k d off rc k'. ok k \<Longrightarrow> length d < 0x20000 \<Longrightarrow> xWrite io k d off = (rc, k') \<Longrightarrow>
      ok k' \<and> (\<exists>m \<le> length d. content k' = file_patch (content k) off (take m d) \<and> (rc = 0 \<longrightarrow> m = length d)) \<and>
      (reliable k \<longrightarrow> reliable k' \<and> rc = 0)"
    and vfs_sync: "\<And>k f rc k'. ok k \<Longrightarrow> xSync io k f = (rc, k') \<Longrightarrow>
      content k' = content k \<and> ok k' \<and> (reliable k \<longrightarrow> reliable k' \<and> rc = 0)"
    and vfs_size: "\<And>k rc n k'. ok k \<Longrightarrow> xFileSize io k = (rc, n, k') \<Longrightarrow>
      content k' = content k \<and> ok k' \<and> (rc = 0 \<longrightarrow> n = (if length (content k) = 1 then 0 else length (content k))) \<and>
      (reliable k \<longrightarrow> reliable k' \<and> rc = 0)"
    and vfs_truncate: "\<And>k n rc k'. ok k \<Longrightarrow> xTruncate io k n = (rc, k') \<Longrightarrow>
      ok k' \<and> (n \<le> length (content k) \<longrightarrow> take n (content k') = take n (content k)) \<and>
      (\<forall>i < n. file_byte (content k') i = file_byte (content k) i) \<and> (reliable k \<longrightarrow> reliable k')"
    and vfs_hint: "\<And>k n. ok k \<Longrightarrow> length (content k) \<le> n \<Longrightarrow>
      ok (xSizeHint io k n) \<and> (\<exists>m. content (xSizeHint io k n) = content k @ replicate m 0) \<and> (reliable k \<longrightarrow> reliable (xSizeHint io k n))"
    and vfs_unfetch: "\<And>k. ok k \<Longrightarrow> ok (xUnfetch io k) \<and> content (xUnfetch io k) = content k \<and> (reliable k \<longrightarrow> reliable (xUnfetch io k))"
    and vfs_lock: "\<And>w i n f rc w'. ok (pWalFd w) \<Longrightarrow> xShmLock io w i n f = (rc, w') \<Longrightarrow> shm_law content ok reliable w w'"
    and vfs_barrier: "\<And>w. ok (pWalFd w) \<Longrightarrow> shm_law content ok reliable w (xShmBarrier io w)"

context wal_vfs
begin

definition reading :: "'k wal \<Rightarrow> bytes \<Rightarrow> bool \<Rightarrow> nat \<Rightarrow> bytes \<Rightarrow> bool" where
  "reading w f big sz salt \<longleftrightarrow> ok (pWalFd w) \<and> reliable (pWalFd w) \<and> content (pWalFd w) = f \<and> wal_szPage w = sz \<and>
     aSalt (hdr w) = salt \<and> bigEndCksum (hdr w) = (if big then 1 else 0)"

lemma recover_frames_ok:
  notes frame_header.simps [simp del] frame_cksum.simps [simp del]
  fixes w :: "'k wal"
  assumes sz: "sz + 24 < 0x20000" and salt: "length salt = 8" and pg: "\<And>h. pg h = 0" and n: "nSize = length f"
  shows "reading w f big sz salt \<Longrightarrow> aFrameCksum (hdr w) = frames_cksum big sz c0 fs \<Longrightarrow> off \<le> nSize \<Longrightarrow>
      recovered big sz c0 w ck fs \<Longrightarrow>
      \<exists>ck' w'. recover_frames be io pg sz nSize off (length fs) ck w = (0, ck', w') \<and> reading w' f big sz salt \<and>
        recovered big sz c0 w' ck' (fs @ log_frames big sz salt (frames_cksum big sz c0 fs) (drop off f)) \<and>
        writeLock w' = writeLock w \<and> exclusiveMode w' = exclusiveMode w"
proof (induction "nSize - off" arbitrary: off fs ck w rule: less_induct)
  case less
  let ?c = "frames_cksum big sz c0 fs"
  show ?case
  proof (cases "off + (sz + 24) \<le> nSize")
    case False
    then have "log_frames big sz salt ?c (drop off f) = []" using n by (intro log_frames_short) simp
    moreover have "recover_frames be io pg sz nSize off (length fs) ck w = (0, ck, w)" using False by (subst recover_frames.simps) simp
    ultimately show ?thesis using less.prems by simp
  next
    case True
    obtain rc a fd where rd: "xRead io (pWalFd w) (sz + 24) off = (rc, a, fd)" by (rule prod_cases3)
    have k: "ok (pWalFd w)" "reliable (pWalFd w)" "content (pWalFd w) = f" using less.prems(1) by (simp_all add: reading_def)
    have a: "rc = 0" "a = take (sz + 24) (drop off f)" "length a = sz + 24" "ok fd" "reliable fd" "content fd = f"
      using vfs_read [OF k(1) sz rd] k True n by simp_all
    let ?w = "w\<lparr>pWalFd := fd\<rparr>"
    have r: "reading ?w f big sz salt" using less.prems(1) a by (simp add: reading_def)
    have big: "bigEndCksum (hdr ?w) \<le> 1" "(bigEndCksum (hdr ?w) = 1) = big" using r by (simp_all add: reading_def)
    let ?g = "drop off f"
    let ?fr = "(get4 a 0, get4 a 4, take sz (drop 24 a))"
    have g: "get4 a 0 = get4 ?g 0" "get4 a 4 = get4 ?g 4" "take sz (drop 24 a) = take sz (drop 24 ?g)" "take 24 a = take 24 ?g"
      "24 + sz \<le> length ?g"
      unfolding a(2) using True n by (simp_all add: get4_take drop_take)
    have c: "aFrameCksum (hdr ?w) = ?c" using less.prems(2) by simp
    have sw: "aSalt (hdr ?w) = salt" "wal_szPage ?w = sz" using r by (simp_all add: reading_def)
    note format = walDecodeFrame_format [of ?w a be, unfolded sw c big(2), OF big(1) salt, unfolded fst_conv]
    let ?valid = "get4 a 0 \<noteq> 0 \<and> take 24 a = frame_header big sz salt ?c ?fr"
    have step: "recover_frames be io pg sz nSize off (length fs) ck w =
      (case walDecodeFrame be ?w (drop 24 a) a of
         (None, w) \<Rightarrow> (0, ck, w)
       | (Some (pgno, nt), w) \<Rightarrow> (case walIndexAppend pg w (Suc (length fs)) (unat pgno) of (rc, w) \<Rightarrow>
           if rc \<noteq> 0 then (rc, ck, w)
           else if nt \<noteq> 0 then recover_frames be io pg sz nSize (off + (sz + 24)) (Suc (length fs)) (aFrameCksum (hdr w))
             (w\<lparr>hdr := (hdr w)\<lparr>mxFrame := Suc (length fs), nPage := nt, hdr_szPage := u16_szPage sz\<rparr>\<rparr>)
           else recover_frames be io pg sz nSize (off + (sz + 24)) (Suc (length fs)) ck w))"
      using True rd a(1) by (subst recover_frames.simps) (simp add: Let_def)
    show ?thesis
    proof (cases ?valid)
      case False
      then have "log_frames big sz salt ?c ?g = []" unfolding g(1-4) by (rule log_frames_stop)
      moreover obtain c' where "walDecodeFrame be ?w (drop 24 a) a = (None, set_cksum c' ?w)"
        using format(2) False a(3) by auto
      ultimately show ?thesis using less.prems(4) r unfolding step by (auto simp: reading_def recovered_def idx_ok_def)
    next
      case valid: True
      have dec: "walDecodeFrame be ?w (drop 24 a) a = (Some (get4 a 0, get4 a 4), set_cksum (frame_cksum big sz ?c ?fr) ?w)"
        using format(1) valid a(3) by simp
      let ?w1 = "set_cksum (frame_cksum big sz ?c ?fr) ?w"
      let ?fs = "fs @ [?fr]"
      have log: "fs @ log_frames big sz salt ?c ?g = ?fs @ log_frames big sz salt (frames_cksum big sz c0 ?fs) (drop (off + (sz + 24)) f)"
        using log_frames_step [OF g(5), of big salt ?c] valid unfolding g(1-4) [symmetric] frames_cksum_snoc
        by (simp add: add_ac del: frame_header.simps frame_cksum.simps)
      have idx: "idx_ok ?w1 (pages fs)" using less.prems(4) by (simp add: recovered_def idx_ok_def)
      have p: "unat (get4 a 0) \<noteq> 0" using valid by (simp add: unat_eq_0)
      have "\<exists>d. walIndexAppend pg ?w1 (Suc (length fs)) (unat (get4 a 0)) = (0, ?w1\<lparr>apWiData := d\<rparr>) \<and>
          idx_ok (?w1\<lparr>apWiData := d\<rparr>) (take (length fs) (pages fs) @ [unat (get4 a 0)])"
        by (rule walIndexAppend_ok [OF idx _ _ p]) (simp_all add: pg)
      then obtain d where d: "walIndexAppend pg ?w1 (Suc (length fs)) (unat (get4 a 0)) = (0, ?w1\<lparr>apWiData := d\<rparr>)"
        "idx_ok (?w1\<lparr>apWiData := d\<rparr>) (pages fs @ [unat (get4 a 0)])" by auto
      let ?w2 = "?w1\<lparr>apWiData := d\<rparr>"
      let ?w3 = "if get4 a 4 \<noteq> 0 then ?w2\<lparr>hdr := (hdr ?w2)\<lparr>mxFrame := Suc (length fs), nPage := get4 a 4, hdr_szPage := u16_szPage sz\<rparr>\<rparr> else ?w2"
      let ?ck = "if get4 a 4 \<noteq> 0 then aFrameCksum (hdr ?w2) else ck"
      have rec: "recover_frames be io pg sz nSize off (length fs) ck w =
          recover_frames be io pg sz nSize (off + (sz + 24)) (length ?fs) ?ck ?w3"
        unfolding step dec option.case prod.case d(1) by simp
      have "recovered big sz c0 ?w1 ck fs" using less.prems(4) by (simp add: recovered_def idx_ok_def)
      note snoc = recovered_snoc [OF this d(2), of "get4 a 4" "take sz (drop 24 a)"]
      have r3: "recovered big sz c0 ?w3 ?ck ?fs"
        using snoc by (simp add: frames_cksum_snoc)
      have i: "reading ?w3 f big sz salt" "aFrameCksum (hdr ?w3) = frames_cksum big sz c0 ?fs"
        using r by (simp_all add: reading_def frames_cksum_snoc)
      have "\<exists>ck' w'. recover_frames be io pg sz nSize (off + (sz + 24)) (length ?fs) ?ck ?w3 = (0, ck', w') \<and> reading w' f big sz salt \<and>
        recovered big sz c0 w' ck' (?fs @ log_frames big sz salt (frames_cksum big sz c0 ?fs) (drop (off + (sz + 24)) f)) \<and>
        writeLock w' = writeLock ?w3 \<and> exclusiveMode w' = exclusiveMode ?w3"
        by (rule less.hyps [OF _ i _ r3]) (use True in auto)
      moreover have "writeLock ?w3 = writeLock w" "exclusiveMode ?w3 = exclusiveMode w" by simp_all
      ultimately show ?thesis unfolding rec log by simp
    qed
  qed
qed

abbreviation after_lock :: "'k wal \<Rightarrow> 'k wal \<Rightarrow> bool" where
  "after_lock \<equiv> shm_law content ok reliable"

lemmas after_lock_def = shm_law_def [of content ok reliable]

lemma after_lock_same: "ok (pWalFd w) \<Longrightarrow> after_lock w w"
  by (simp add: after_lock_def)

lemma after_walLock:
  assumes "ok (pWalFd w)"
  shows "walLockExclusive io w i n = (rc, w') \<Longrightarrow> after_lock w w'" "walLockShared io w j = (rc, w') \<Longrightarrow> after_lock w w'"
    "after_lock w (walUnlockExclusive io w i n)" "after_lock w (walUnlockShared io w j)"
  using assms vfs_lock [OF assms] after_lock_same [OF assms]
  by (auto simp: walLockExclusive_def walLockShared_def walUnlockExclusive_def walUnlockShared_def
      split: if_splits prod.splits) (metis prod.collapse)+

lemma after_lockD:
  assumes "after_lock w w'"
  shows "ok (pWalFd w')" "content (pWalFd w') = content (pWalFd w)" "reliable (pWalFd w) \<Longrightarrow> reliable (pWalFd w')"
    "writeLock w \<Longrightarrow> apWiData w' = apWiData w" "writeLock w \<Longrightarrow> aHdr w' = aHdr w" "hdr w' = hdr w" "writeLock w' = writeLock w"
    "exclusiveMode w' = exclusiveMode w" "ckptLock w' = ckptLock w" "wal_szPage w' = wal_szPage w"
proof -
  have e: "w' = w\<lparr>apWiData := apWiData w', pWalFd := pWalFd w', pDbFd := pDbFd w', aHdr := aHdr w', pInfo := pInfo w'\<rparr>"
    using assms by (simp add: after_lock_def)
  show "hdr w' = hdr w" "writeLock w' = writeLock w" "exclusiveMode w' = exclusiveMode w" "ckptLock w' = ckptLock w"
    "wal_szPage w' = wal_szPage w" by (subst e, simp)+
qed (use assms in \<open>auto simp: after_lock_def\<close>)

lemma idx_ok_Nil: "idx_ok w []"
  by (simp add: idx_ok_def)

lemma recover_log_ok:
  notes frame_header.simps [simp del] frame_cksum.simps [simp del] log_header.simps [simp del]
  fixes w :: "'k wal"
  assumes sz: "valid_szPage sz" and salt: "length salt = 8" and pg: "\<And>h. pg h = 0"
    and f: "f = log_header big sz ckpt salt @ tail"
    and w: "ok (pWalFd w)" "reliable (pWalFd w)" "content (pWalFd w) = f" "hdr w = zero_hdr"
  shows "\<exists>ck' w'. recover_log be io pg True (length f) w = (0, ck', w') \<and> reading w' f big sz salt \<and>
    recovered big sz (header_cksum big sz ckpt salt) w' ck' (log_frames big sz salt (header_cksum big sz ckpt salt) tail) \<and>
    writeLock w' = writeLock w \<and> exclusiveMode w' = exclusiveMode w"
proof -
  let ?h = "log_header big sz ckpt salt" and ?c = "header_cksum big sz ckpt salt"
  obtain rc a fd where rd: "xRead io (pWalFd w) 32 0 = (rc, a, fd)" by (rule prod_cases3)
  have h: "length ?h = 32" using salt by (simp add: log_header.simps Let_def)
  have a: "rc = 0" "a = ?h" "ok fd" "reliable fd" "content fd = f"
    using vfs_read [OF w(1) _ rd] w(2,3) h by (simp_all add: f)
  have g: "get4 ?h 0 = WAL_MAGIC OR (if big then 1 else 0)" "get4 ?h 4 = WAL_MAX_VERSION" "get4 ?h 8 = of_nat sz" "get4 ?h 12 = ckpt"
    "take 8 (drop 16 ?h) = salt" "get4 ?h 24 = fst ?c" "get4 ?h 28 = snd ?c"
    using salt by (simp_all add: log_header.simps header_cksum_def Let_def get4_def get4byte_put4byte get4byte_put4byte [of _ "[]", simplified])
  have magic: "(WAL_MAGIC OR (if big then 1 else 0)) AND 0xFFFFFFFE = WAL_MAGIC"
    "ucast ((WAL_MAGIC OR (if big then 1 else 0)) AND 1) = (if big then 1 else 0 :: u8)"
    by (cases big; simp)+
  have u: "unat (of_nat sz :: u32) = sz" "(of_nat sz :: u32) AND (of_nat sz - 1) = 0" "\<not> sz > 65536" "\<not> sz < 512"
    using sz by (auto simp: valid_szPage_def)
  have c: "walChecksumBytes be (nativeCksum be (if big then 1 else 0)) (take 24 ?h) (0, 0) = ?c"
    by (simp add: nativeCksum_eq walChecksumBytes_ref header_cksum_def)
  let ?w = "w\<lparr>pWalFd := fd, hdr := (hdr w)\<lparr>bigEndCksum := (if big then 1 else 0), aSalt := salt, aFrameCksum := ?c\<rparr>,
      wal_szPage := sz, nCkpt := ckpt\<rparr>"
  have step: "recover_log be io pg True (length f) w = recover_frames be io pg sz (length f) 32 (length ([] :: frame list)) (0, 0) ?w"
    unfolding recover_log_def rd prod.case a(1,2) Let_def g magic u(1) c using u(2-4) by simp
  have "\<exists>ck' w'. recover_frames be io pg sz (length f) 32 (length ([] :: frame list)) (0, 0) ?w = (0, ck', w') \<and> reading w' f big sz salt \<and>
        recovered big sz ?c w' ck' ([] @ log_frames big sz salt (frames_cksum big sz ?c []) (drop 32 f)) \<and>
        writeLock w' = writeLock ?w \<and> exclusiveMode w' = exclusiveMode ?w"
  proof (rule recover_frames_ok [OF _ salt pg refl])
    show "sz + 24 < 0x20000" using u(3) by simp
    show "reading ?w f big sz salt" using a by (simp add: reading_def)
    show "aFrameCksum (hdr ?w) = frames_cksum big sz ?c []" by (simp add: frames_cksum_def)
    show "32 \<le> length f" using h by (simp add: f)
    show "recovered big sz ?c ?w (0, 0) []"
      using w(4) by (simp add: recovered_def pages_def idx_ok_Nil commit_size_def zero_hdr_def)
  qed
  then show ?thesis unfolding step using h by (simp add: f frames_cksum_def)
qed

text \<open>Recovery as a whole. The lock on writing is held, so nobody changes the index in between.\<close>

lemma walIndexRecover_ok:
  notes frame_header.simps [simp del] frame_cksum.simps [simp del] log_header.simps [simp del]
  fixes w :: "'k wal"
  assumes sz: "valid_szPage sz" and salt: "length salt = 8" and pg: "\<And>h. pg h = 0"
    and f: "content (pWalFd w) = log_header big sz ckpt salt @ tail"
    and w: "ok (pWalFd w)" "reliable (pWalFd w)" "writeLock w"
    and lck: "fst (walLockExclusive io w (if ckptLock w then 2 else 1) (if ckptLock w then 6 else 7)) = 0"
  defines "fs \<equiv> log_frames big sz salt (header_cksum big sz ckpt salt) tail"
  shows "\<exists>w'. walIndexRecover be io pg True w = (0, w') \<and> idx_ok w' (pages fs) \<and> mxFrame (hdr w') = last_commit fs \<and>
    nPage (hdr w') = commit_size fs \<and> aHdr w' = (hdr w', hdr w') \<and> content (pWalFd w') = content (pWalFd w) \<and>
    ok (pWalFd w') \<and> reliable (pWalFd w') \<and> (last_commit fs \<noteq> 0 \<longrightarrow> hdr_szPage (hdr w') = u16_szPage sz)"
proof -
  let ?i = "if ckptLock w then 2 else 1 :: nat" and ?n = "if ckptLock w then 6 else 7 :: nat" and ?f = "content (pWalFd w)"
  obtain w1 where w1: "walLockExclusive io w ?i ?n = (0, w1)" using lck by (cases "walLockExclusive io w ?i ?n") auto
  have w1': "ok (pWalFd w1)" "reliable (pWalFd w1)" "content (pWalFd w1) = ?f" "writeLock w1" "exclusiveMode w1 = exclusiveMode w"
    using after_lockD [OF after_walLock(1) [OF w(1) w1]] w by simp_all
  obtain rc n fd where fs: "xFileSize io (pWalFd w1) = (rc, n, fd)" by (rule prod_cases3)
  have "length ?f \<noteq> 1" using salt by (simp add: f log_header.simps Let_def)
  then have fs': "rc = 0" "n = length ?f" "ok fd" "reliable fd" "content fd = ?f"
    using vfs_size [OF w1'(1) fs] w1'(2,3) by simp_all
  let ?w2 = "w1\<lparr>hdr := zero_hdr, pWalFd := fd\<rparr>"
  obtain ck w3 where w3: "(if length ?f > 32 then recover_log be io pg True (length ?f) ?w2 else (0, (0, 0), ?w2)) = (0, ck, w3)"
    "recovered big sz (header_cksum big sz ckpt salt) w3 ck fs" "content (pWalFd w3) = ?f" "ok (pWalFd w3)" "writeLock w3"
    "reliable (pWalFd w3)"
  proof (cases "length ?f > 32")
    case True
    have "ok (pWalFd ?w2)" "reliable (pWalFd ?w2)" "content (pWalFd ?w2) = ?f" "hdr ?w2 = zero_hdr" using fs' by simp_all
    from recover_log_ok [where pg = pg and be = be, OF sz salt pg f this] obtain ck w3 where
      "recover_log be io pg True (length ?f) ?w2 = (0, ck, w3)" "reading w3 ?f big sz salt"
      "recovered big sz (header_cksum big sz ckpt salt) w3 ck fs" "writeLock w3 = writeLock ?w2" unfolding fs_def by blast
    then show ?thesis using True w1'(4) by (intro that [of ck w3]) (simp_all add: reading_def)
  next
    case False
    then have "tail = []" using salt by (simp add: f log_header.simps Let_def)
    then have "fs = []" by (simp add: fs_def log_frames_short)
    moreover have "recovered big sz (header_cksum big sz ckpt salt) ?w2 (0, 0) []"
      by (simp add: recovered_def pages_def idx_ok_Nil commit_size_def zero_hdr_def)
    ultimately show ?thesis using False fs' w1'(4) by (intro that [of "(0, 0)" ?w2]) simp_all
  qed
  let ?w4 = "walIndexWriteHdr be (set_cksum ck w3)"
  let ?w5 = "?w4\<lparr>pInfo := \<lparr>nBackfill = 0, aReadMark = [0, if mxFrame (hdr ?w4) \<noteq> 0 then mxFrame (hdr ?w4) else READMARK_NOT_USED,
      READMARK_NOT_USED, READMARK_NOT_USED, READMARK_NOT_USED]\<rparr>\<rparr>"
  have r: "walIndexRecover be io pg True w = (0, walUnlockExclusive io ?w5 ?i ?n)"
  proof -
    have "1 + (if ckptLock w then 1 else 0) = ?i" "8 - ?i = ?n" by auto
    then show ?thesis unfolding walIndexRecover_def Let_def
      using w1 fs fs'(1,2) w3(1) by (simp del: One_nat_def cong: if_cong)
  qed
  have w4: "apWiData ?w5 = apWiData w3" "mxFrame (hdr ?w5) = mxFrame (hdr w3)" "nPage (hdr ?w5) = nPage (hdr w3)"
    "aHdr ?w5 = (hdr ?w5, hdr ?w5)" "pWalFd ?w5 = pWalFd w3" "writeLock ?w5 = writeLock w3"
    "hdr_szPage (hdr ?w5) = hdr_szPage (hdr w3)"
    by (simp_all add: walIndexWriteHdr_def Let_def)
  have "ok (pWalFd ?w5)" using w4(5) w3(4) by simp
  note l = after_lockD [OF after_walLock(3) [OF this, of ?i ?n]]
  have "writeLock ?w5" using w4(6) w3(5) by simp
  note l' = l(4) [OF this] l(5) [OF this]
  show ?thesis
  proof (rule exI, intro conjI)
    show "walIndexRecover be io pg True w = (0, walUnlockExclusive io ?w5 ?i ?n)" by (rule r)
    show "idx_ok (walUnlockExclusive io ?w5 ?i ?n) (pages fs)" using l'(1) w4(1) w3(2) by (simp add: recovered_def idx_ok_def)
    show "mxFrame (hdr (walUnlockExclusive io ?w5 ?i ?n)) = last_commit fs" "nPage (hdr (walUnlockExclusive io ?w5 ?i ?n)) = commit_size fs"
      unfolding l(6) w4 using w3(2) by (simp_all add: recovered_def)
    show "aHdr (walUnlockExclusive io ?w5 ?i ?n) = (hdr (walUnlockExclusive io ?w5 ?i ?n), hdr (walUnlockExclusive io ?w5 ?i ?n))"
      unfolding l'(2) l(6) by (rule w4(4))
    show "content (pWalFd (walUnlockExclusive io ?w5 ?i ?n)) = content (pWalFd w)" unfolding l(2) w4(5) by (rule w3(3))
    show "ok (pWalFd (walUnlockExclusive io ?w5 ?i ?n))" by (rule l(1))
    show "reliable (pWalFd (walUnlockExclusive io ?w5 ?i ?n))" by (rule l(3)) (simp only: w4(5) w3(6))
    show "last_commit fs \<noteq> 0 \<longrightarrow> hdr_szPage (hdr (walUnlockExclusive io ?w5 ?i ?n)) = u16_szPage sz"
      unfolding l(6) w4 using w3(2) by (simp add: recovered_def)
  qed
qed

end

end
