(* ===== verification/WalRead.thy ===== *)
theory WalRead
  imports WalRecover
begin

text \<open>
  Read transactions on the log (\<^verbatim>\<open>src/sqlite/src/wal.c\<close>): reading the header of the index without
  a lock, choosing a read mark, and retrying. The result of an attempt is \<^const>\<open>None\<close> for
  \<^verbatim>\<open>WAL_RETRY\<close>.
\<close>

abbreviation (input) SQLITE_PROTOCOL :: nat where "SQLITE_PROTOCOL \<equiv> 15"
abbreviation (input) SQLITE_BUSY_RECOVERY :: nat where "SQLITE_BUSY_RECOVERY \<equiv> 261"
abbreviation (input) SQLITE_READONLY_RECOVERY :: nat where "SQLITE_READONLY_RECOVERY \<equiv> 264"
abbreviation (input) SQLITE_READONLY_CANTLOCK :: nat where "SQLITE_READONLY_CANTLOCK \<equiv> 520"
abbreviation (input) WAL_WRITE_LOCK :: nat where "WAL_WRITE_LOCK \<equiv> 0"
abbreviation (input) WAL_RECOVER_LOCK :: nat where "WAL_RECOVER_LOCK \<equiv> 2"
abbreviation (input) WAL_READ_LOCK :: "nat \<Rightarrow> nat" where "WAL_READ_LOCK i \<equiv> 3 + i"
abbreviation (input) WAL_HEAPMEMORY_MODE :: nat where "WAL_HEAPMEMORY_MODE \<equiv> 2"

definition walShmBarrier :: "'k vfs \<Rightarrow> 'k wal \<Rightarrow> 'k wal" where
  "walShmBarrier io pWal = (if exclusiveMode pWal \<noteq> WAL_HEAPMEMORY_MODE then xShmBarrier io pWal else pWal)"

text \<open>The first copy of the header is read before the barrier, the second after it. The results:
  whether the header is bad, and whether it has changed.\<close>

definition walIndexTryHdr :: "bool \<Rightarrow> 'k vfs \<Rightarrow> 'k wal \<Rightarrow> bool \<times> bool \<times> 'k wal" where
  "walIndexTryHdr be io pWal =
     (let h1 = fst (aHdr pWal); pWal = walShmBarrier io pWal; h2 = snd (aHdr pWal)
      in if h1 \<noteq> h2 then (True, False, pWal)
         else if isInit h1 = 0 then (True, False, pWal)
         else if walChecksumBytes be True (hdr_bytes be h1) (0, 0) \<noteq> aCksum h1 then (True, False, pWal)
         else if hdr pWal \<noteq> h1 then
           (False, True, pWal\<lparr>hdr := h1,
              wal_szPage := unat (hdr_szPage h1 AND 0xfe00) + unat (hdr_szPage h1 AND 1) * 2 ^ 16\<rparr>)
         else (False, False, pWal))"

text \<open>The header of the index is in its page 0, which is present once \<^verbatim>\<open>walIndexPage\<close> has succeeded;
  a read-only shared memory that has no page 0 yet is not modelled.\<close>

definition walIndexReadHdr :: "bool \<Rightarrow> 'k vfs \<Rightarrow> (nat \<Rightarrow> nat) \<Rightarrow> bool \<Rightarrow> 'k wal \<Rightarrow> nat \<times> bool \<times> 'k wal" where
  "walIndexReadHdr be io walIndexPage mem_ok pWal =
     (if walIndexPage 0 \<noteq> 0 then (walIndexPage 0, False, pWal)
      else
        case walIndexTryHdr be io pWal of (badHdr, changed, pWal) \<Rightarrow>
        case (if \<not> badHdr then (0, False, changed, pWal)
              else if shmReadOnly pWal then
                (case walLockShared io pWal WAL_WRITE_LOCK of (rc, pWal) \<Rightarrow>
                   if rc = 0 then (SQLITE_READONLY_RECOVERY, True, changed, walUnlockShared io pWal WAL_WRITE_LOCK)
                   else (rc, True, changed, pWal))
              else
                (case walLockExclusive io pWal WAL_WRITE_LOCK 1 of (rc, pWal) \<Rightarrow>
                   if rc \<noteq> 0 then (rc, True, changed, pWal)
                   else
                     case walIndexTryHdr be io (pWal\<lparr>writeLock := True\<rparr>) of (badHdr, changed', pWal) \<Rightarrow>
                     case (if badHdr then walIndexRecover be io walIndexPage mem_ok pWal else (0, pWal)) of (rc, pWal) \<Rightarrow>
                       (rc, badHdr, changed \<or> changed' \<or> badHdr,
                        walUnlockExclusive io (pWal\<lparr>writeLock := False\<rparr>) WAL_WRITE_LOCK 1)))
        of (rc, badHdr, changed, pWal) \<Rightarrow>
          (if \<not> badHdr \<and> iVersion (hdr pWal) \<noteq> WALINDEX_MAX_VERSION then SQLITE_CANTOPEN else rc, changed, pWal))"

text \<open>The largest mark that is not beyond the snapshot, or else a mark that can be moved.\<close>

definition best_mark :: "'k wal \<Rightarrow> nat \<times> nat" where
  "best_mark pWal =
     foldl (\<lambda>(mxReadMark, mxI) i.
        if mxReadMark \<le> aReadMark (pInfo pWal) ! i \<and> aReadMark (pInfo pWal) ! i \<le> mxFrame (hdr pWal)
        then (aReadMark (pInfo pWal) ! i, i) else (mxReadMark, mxI)) (0, 0) [1..<WAL_NREADER]"

text \<open>The marks from the given ones on; the result code, and the mark that has been taken.\<close>

fun take_mark :: "'k vfs \<Rightarrow> nat list \<Rightarrow> 'k wal \<Rightarrow> nat \<times> nat option \<times> 'k wal" where
  "take_mark io [] pWal = (SQLITE_BUSY, None, pWal)"
| "take_mark io (i # is) pWal =
     (case walLockExclusive io pWal (WAL_READ_LOCK i) 1 of (rc, pWal) \<Rightarrow>
        if rc = 0 then
          let pWal = pWal\<lparr>pInfo := (pInfo pWal)\<lparr>aReadMark := (aReadMark (pInfo pWal))[i := mxFrame (hdr pWal)]\<rparr>\<rparr>
          in (0, Some i, walUnlockExclusive io pWal (WAL_READ_LOCK i) 1)
        else if rc \<noteq> SQLITE_BUSY then (rc, None, pWal)
        else take_mark io is pWal)"

text \<open>Reading from the log, with the header already read; the result code of the last lock is
  looked at again when no mark can be taken.\<close>

definition begin_with_mark :: "'k vfs \<Rightarrow> nat \<Rightarrow> 'k wal \<Rightarrow> nat option \<times> 'k wal" where
  "begin_with_mark io rc pWal =
     (case best_mark pWal of (mxReadMark, mxI) \<Rightarrow>
      case (if \<not> shmReadOnly pWal \<and> (mxReadMark < mxFrame (hdr pWal) \<or> mxI = 0)
            then take_mark io [1..<WAL_NREADER] pWal else (rc, None, pWal)) of (rc, taken, pWal) \<Rightarrow>
        if rc \<noteq> 0 \<and> rc \<noteq> SQLITE_BUSY then (Some rc, pWal)
        else
          case (case taken of Some i \<Rightarrow> (mxFrame (hdr pWal), i) | None \<Rightarrow> (mxReadMark, mxI)) of (mxReadMark, mxI) \<Rightarrow>
          if mxI = 0 then (if rc = SQLITE_BUSY then None else Some SQLITE_READONLY_CANTLOCK, pWal)
          else
            case walLockShared io pWal (WAL_READ_LOCK mxI) of (rc, pWal) \<Rightarrow>
              if rc \<noteq> 0 then (if rc = SQLITE_BUSY then None else Some rc, pWal)
              else
                let pWal = walShmBarrier io pWal
                in if aReadMark (pInfo pWal) ! mxI \<noteq> mxReadMark \<or> fst (aHdr pWal) \<noteq> hdr pWal
                   then (None, walUnlockShared io pWal (WAL_READ_LOCK mxI))
                   else (Some 0, pWal\<lparr>readLock := int mxI\<rparr>))"

definition walTryBeginRead :: "bool \<Rightarrow> 'k vfs \<Rightarrow> (nat \<Rightarrow> nat) \<Rightarrow> bool \<Rightarrow> bool \<Rightarrow> nat \<Rightarrow> 'k wal \<Rightarrow> nat option \<times> bool \<times> 'k wal" where
  "walTryBeginRead be io walIndexPage mem_ok useWal cnt pWal =
     (if cnt > 100 then (Some SQLITE_PROTOCOL, False, pWal)
      else
        case (if useWal then (Some 0, False, pWal)
              else
                case walIndexReadHdr be io walIndexPage mem_ok pWal of (rc, changed, pWal) \<Rightarrow>
                  if rc = SQLITE_BUSY then
                    if walIndexPage 0 \<noteq> 0 then (None, changed, pWal)
                    else
                      case walLockShared io pWal WAL_RECOVER_LOCK of (rc, pWal) \<Rightarrow>
                        if rc = 0 then (None, changed, walUnlockShared io pWal WAL_RECOVER_LOCK)
                        else (Some (if rc = SQLITE_BUSY then SQLITE_BUSY_RECOVERY else rc), changed, pWal)
                  else (Some rc, changed, pWal)) of (rc, changed, pWal) \<Rightarrow>
          if rc \<noteq> Some 0 then (rc, changed, pWal)
          else if \<not> useWal \<and> nBackfill (pInfo pWal) = mxFrame (hdr pWal) then
            case walLockShared io pWal (WAL_READ_LOCK 0) of (rc, pWal) \<Rightarrow>
              let pWal = walShmBarrier io pWal
              in if rc = 0 then
                   if fst (aHdr pWal) \<noteq> hdr pWal then (None, changed, walUnlockShared io pWal (WAL_READ_LOCK 0))
                   else (Some 0, changed, pWal\<lparr>readLock := 0\<rparr>)
                 else if rc \<noteq> SQLITE_BUSY then (Some rc, changed, pWal)
                 else case begin_with_mark io SQLITE_BUSY pWal of (rc, pWal) \<Rightarrow> (rc, changed, pWal)
          else case begin_with_mark io 0 pWal of (rc, pWal) \<Rightarrow> (rc, changed, pWal))"

text \<open>The attempts, from a given one on. The hundred and first gives up.\<close>

function begin_attempts :: "bool \<Rightarrow> 'k vfs \<Rightarrow> (nat \<Rightarrow> nat) \<Rightarrow> bool \<Rightarrow> bool \<Rightarrow> nat \<Rightarrow> bool \<Rightarrow> 'k wal \<Rightarrow> nat \<times> bool \<times> 'k wal" where
  "begin_attempts be io walIndexPage mem_ok useWal cnt changed pWal =
     (case walTryBeginRead be io walIndexPage mem_ok useWal cnt pWal of
        (Some rc, c, pWal) \<Rightarrow> (rc, changed \<or> c, pWal)
      | (None, c, pWal) \<Rightarrow> begin_attempts be io walIndexPage mem_ok useWal (cnt + 1) (changed \<or> c) pWal)"
  by pat_completeness auto
termination
  by (relation "measure (\<lambda>(be, io, pg, m, u, cnt, ch, w). 101 - cnt)")
    (auto simp: walTryBeginRead_def split: if_splits)

definition sqlite3WalBeginReadTransaction :: "bool \<Rightarrow> 'k vfs \<Rightarrow> (nat \<Rightarrow> nat) \<Rightarrow> bool \<Rightarrow> 'k wal \<Rightarrow> nat \<times> bool \<times> 'k wal" where
  "sqlite3WalBeginReadTransaction be io walIndexPage mem_ok pWal =
     begin_attempts be io walIndexPage mem_ok False 1 False pWal"

end
