(* ===== verification/WalWrite.thy ===== *)
theory WalWrite
  imports WalRead
begin

text \<open>
  Write transactions on the log (\<^verbatim>\<open>src/sqlite/src/wal.c\<close>): restarting the log, writing frames,
  rolling back. A page to write is its number and its content, and the list of pages is the one
  of the dirty pages. Random numbers are the parameter \<^verbatim>\<open>rnd\<close>, the bytes for a length.
\<close>

abbreviation (input) SQLITE_READONLY :: nat where "SQLITE_READONLY \<equiv> 8"
abbreviation (input) SQLITE_BUSY_SNAPSHOT :: nat where "SQLITE_BUSY_SNAPSHOT \<equiv> 517"
abbreviation (input) WAL_SYNC_TRANSACTIONS :: nat where "WAL_SYNC_TRANSACTIONS \<equiv> 0x20"
abbreviation (input) SQLITE_SYNC_MASK :: nat where "SQLITE_SYNC_MASK \<equiv> 0x13"
abbreviation (input) MAX_SECTOR_SIZE :: nat where "MAX_SECTOR_SIZE \<equiv> 0x10000"

type_synonym page = "u32 \<times> bytes"

section \<open>The lock on writing\<close>

definition sqlite3WalBeginWriteTransaction :: "'k vfs \<Rightarrow> bool \<Rightarrow> 'k wal \<Rightarrow> nat \<times> 'k wal" where
  "sqlite3WalBeginWriteTransaction io readOnly pWal =
     (if readOnly then (SQLITE_READONLY, pWal)
      else
        case walLockExclusive io pWal WAL_WRITE_LOCK 1 of (rc, pWal) \<Rightarrow>
          if rc \<noteq> 0 then (rc, pWal)
          else
            let pWal = pWal\<lparr>writeLock := True\<rparr>
            in if hdr pWal \<noteq> fst (aHdr pWal)
               then (SQLITE_BUSY_SNAPSHOT, (walUnlockExclusive io pWal WAL_WRITE_LOCK 1)\<lparr>writeLock := False\<rparr>)
               else (0, pWal))"

definition sqlite3WalEndWriteTransaction :: "'k vfs \<Rightarrow> 'k wal \<Rightarrow> 'k wal" where
  "sqlite3WalEndWriteTransaction io pWal =
     (if writeLock pWal
      then (walUnlockExclusive io pWal WAL_WRITE_LOCK 1)\<lparr>writeLock := False, truncateOnCommit := False\<rparr>
      else pWal)"

definition sqlite3WalEndReadTransaction :: "'k vfs \<Rightarrow> 'k wal \<Rightarrow> 'k wal" where
  "sqlite3WalEndReadTransaction io pWal =
     (let pWal = sqlite3WalEndWriteTransaction io pWal
      in if readLock pWal \<ge> 0
         then (walUnlockShared io pWal (WAL_READ_LOCK (nat (readLock pWal))))\<lparr>readLock := -1\<rparr>
         else pWal)"

section \<open>Restarting the log\<close>

definition walRestartHdr :: "bool \<Rightarrow> bytes \<Rightarrow> 'k wal \<Rightarrow> 'k wal" where
  "walRestartHdr be salt1 pWal =
     (let pWal = pWal\<lparr>nCkpt := nCkpt pWal + 1,
            hdr := (hdr pWal)\<lparr>mxFrame := 0, aSalt := put4byte (1 + get4 (aSalt (hdr pWal)) 0) @ salt1\<rparr>\<rparr>;
          pWal = walIndexWriteHdr be pWal
      in pWal\<lparr>pInfo := \<lparr>nBackfill = 0,
           aReadMark = [aReadMark (pInfo pWal) ! 0, 0, READMARK_NOT_USED, READMARK_NOT_USED, READMARK_NOT_USED]\<rparr>\<rparr>)"

definition walRestartLog :: "bool \<Rightarrow> 'k vfs \<Rightarrow> (nat \<Rightarrow> nat) \<Rightarrow> (nat \<Rightarrow> bytes) \<Rightarrow> bool \<Rightarrow> 'k wal \<Rightarrow> nat \<times> 'k wal" where
  "walRestartLog be io walIndexPage rnd mem_ok pWal =
     (if readLock pWal \<noteq> 0 then (0, pWal)
      else
        case (if nBackfill (pInfo pWal) > 0 then
                case walLockExclusive io pWal (WAL_READ_LOCK 1) (WAL_NREADER - 1) of (rc, pWal) \<Rightarrow>
                  if rc = 0 then (0, walUnlockExclusive io (walRestartHdr be (rnd 4) pWal) (WAL_READ_LOCK 1) (WAL_NREADER - 1))
                  else (rc, pWal)
              else (0, pWal)) of (rc, pWal) \<Rightarrow>
          if rc \<noteq> 0 \<and> rc \<noteq> SQLITE_BUSY then (rc, pWal)
          else
            case begin_attempts be io walIndexPage mem_ok True 1 False
                   ((walUnlockShared io pWal (WAL_READ_LOCK 0))\<lparr>readLock := -1\<rparr>) of (rc, _, pWal) \<Rightarrow> (rc, pWal))"

section \<open>Writing to the log\<close>

definition sqlite3SectorSize :: "'k vfs \<Rightarrow> 'k \<Rightarrow> nat" where
  "sqlite3SectorSize io pFile =
     (if xSectorSize io pFile < 32 then 512 else if xSectorSize io pFile > MAX_SECTOR_SIZE then MAX_SECTOR_SIZE
      else xSectorSize io pFile)"

definition walLimitSize :: "'k vfs \<Rightarrow> nat \<Rightarrow> 'k wal \<Rightarrow> 'k wal" where
  "walLimitSize io nMax pWal =
     (case xFileSize io (pWalFd pWal) of (rx, sz, fd) \<Rightarrow>
        pWal\<lparr>pWalFd := (if rx = 0 \<and> sz > nMax then snd (xTruncate io fd nMax) else fd)\<rparr>)"

definition walWriteToLog :: "'k vfs \<Rightarrow> nat \<Rightarrow> nat \<Rightarrow> 'k \<Rightarrow> bytes \<Rightarrow> nat \<Rightarrow> nat \<times> 'k" where
  "walWriteToLog io iSyncPoint syncFlags fd pContent iOffset =
     (if iOffset < iSyncPoint \<and> iOffset + length pContent \<ge> iSyncPoint then
        let iFirstAmt = iSyncPoint - iOffset
        in case xWrite io fd (take iFirstAmt pContent) iOffset of (rc, fd) \<Rightarrow>
             if rc \<noteq> 0 then (rc, fd)
             else
               case xSync io fd (syncFlags AND SQLITE_SYNC_MASK) of (rc, fd) \<Rightarrow>
                 if drop iFirstAmt pContent = [] \<or> rc \<noteq> 0 then (rc, fd)
                 else xWrite io fd (drop iFirstAmt pContent) (iOffset + iFirstAmt)
      else xWrite io fd pContent iOffset)"

definition walWriteOneFrame :: "bool \<Rightarrow> 'k vfs \<Rightarrow> nat \<Rightarrow> nat \<Rightarrow> nat \<Rightarrow> page \<Rightarrow> u32 \<Rightarrow> nat \<Rightarrow> 'k wal \<Rightarrow> nat \<times> 'k wal" where
  "walWriteOneFrame be io iSyncPoint syncFlags szPage pPage nTruncate iOffset pWal =
     (case walEncodeFrame be pWal (fst pPage) nTruncate (snd pPage) of (pWal, aFrame) \<Rightarrow>
      case walWriteToLog io iSyncPoint syncFlags (pWalFd pWal) aFrame iOffset of (rc, fd) \<Rightarrow>
        if rc \<noteq> 0 then (rc, pWal\<lparr>pWalFd := fd\<rparr>)
        else
          case walWriteToLog io iSyncPoint syncFlags fd (take szPage (snd pPage)) (iOffset + WAL_FRAME_HDRSIZE) of (rc, fd) \<Rightarrow>
            (rc, pWal\<lparr>pWalFd := fd\<rparr>))"

text \<open>All pages of the list, the last one with the size of the database in a commit.\<close>

fun write_frames :: "bool \<Rightarrow> 'k vfs \<Rightarrow> nat \<Rightarrow> nat \<Rightarrow> page list \<Rightarrow> u32 \<Rightarrow> nat \<Rightarrow> 'k wal \<Rightarrow> nat \<times> nat \<times> 'k wal" where
  "write_frames be io syncFlags szPage [] nCommit iOffset pWal = (0, iOffset, pWal)"
| "write_frames be io syncFlags szPage (p # ps) nCommit iOffset pWal =
     (case walWriteOneFrame be io 0 syncFlags szPage p (if ps = [] then nCommit else 0) iOffset pWal of (rc, pWal) \<Rightarrow>
        if rc \<noteq> 0 then (rc, iOffset, pWal)
        else write_frames be io syncFlags szPage ps nCommit (iOffset + (szPage + WAL_FRAME_HDRSIZE)) pWal)"

text \<open>The last page again and again, up to the end of a sector.\<close>

function pad_frames :: "bool \<Rightarrow> 'k vfs \<Rightarrow> nat \<Rightarrow> nat \<Rightarrow> nat \<Rightarrow> page \<Rightarrow> u32 \<Rightarrow> nat \<Rightarrow> nat \<Rightarrow> 'k wal \<Rightarrow> nat \<times> nat \<times> 'k wal" where
  "pad_frames be io iSyncPoint syncFlags szPage pLast nTruncate iOffset nExtra pWal =
     (if iOffset < iSyncPoint then
        case walWriteOneFrame be io iSyncPoint syncFlags szPage pLast nTruncate iOffset pWal of (rc, pWal) \<Rightarrow>
          if rc \<noteq> 0 then (rc, nExtra, pWal)
          else pad_frames be io iSyncPoint syncFlags szPage pLast nTruncate (iOffset + (szPage + WAL_FRAME_HDRSIZE)) (nExtra + 1) pWal
      else (0, nExtra, pWal))"
  by pat_completeness auto
termination by (relation "measure (\<lambda>(be, io, sp, fl, sz, p, n, off, e, w). sp - off)") auto

declare pad_frames.simps [simp del]

fun append_pages :: "(nat \<Rightarrow> nat) \<Rightarrow> nat \<Rightarrow> u32 list \<Rightarrow> 'k wal \<Rightarrow> nat \<times> nat \<times> 'k wal" where
  "append_pages walIndexPage iFrame [] pWal = (0, iFrame, pWal)"
| "append_pages walIndexPage iFrame (p # ps) pWal =
     (case walIndexAppend walIndexPage pWal (iFrame + 1) (unat p) of (rc, pWal) \<Rightarrow>
        if rc \<noteq> 0 then (rc, iFrame + 1, pWal) else append_pages walIndexPage (iFrame + 1) ps pWal)"

text \<open>The header of the file, when the first frame is written.\<close>

definition write_header :: "bool \<Rightarrow> 'k vfs \<Rightarrow> (nat \<Rightarrow> bytes) \<Rightarrow> nat \<Rightarrow> nat \<Rightarrow> 'k wal \<Rightarrow> nat \<times> 'k wal" where
  "write_header be io rnd szPage sync_flags pWal =
     (let salt = (if nCkpt pWal = 0 then rnd 8 else aSalt (hdr pWal));
          aWalHdr = put4byte (WAL_MAGIC OR (if be then 1 else 0)) @ put4byte WAL_MAX_VERSION @ put4byte (of_nat szPage) @
            put4byte (nCkpt pWal) @ salt;
          c = walChecksumBytes be True aWalHdr (0, 0);
          pWal = pWal\<lparr>wal_szPage := szPage, truncateOnCommit := True,
            hdr := (hdr pWal)\<lparr>aSalt := salt, bigEndCksum := (if be then 1 else 0), aFrameCksum := c\<rparr>\<rparr>
      in case xWrite io (pWalFd pWal) (aWalHdr @ put4byte (fst c) @ put4byte (snd c)) 0 of (rc, fd) \<Rightarrow>
           if rc \<noteq> 0 then (rc, pWal\<lparr>pWalFd := fd\<rparr>)
           else if syncHeader pWal \<and> sync_flags \<noteq> 0 then
             case xSync io fd (sync_flags AND SQLITE_SYNC_MASK) of (rc, fd) \<Rightarrow> (rc, pWal\<lparr>pWalFd := fd\<rparr>)
           else (0, pWal\<lparr>pWalFd := fd\<rparr>))"

definition walFrameOffset :: "nat \<Rightarrow> nat \<Rightarrow> nat" where
  "walFrameOffset iFrame szPage = WAL_HDRSIZE + (iFrame - 1) * (szPage + WAL_FRAME_HDRSIZE)"

text \<open>The end of a transaction: padding to a sector, or synchronizing; the number of additional
  frames.\<close>

definition end_transaction :: "bool \<Rightarrow> 'k vfs \<Rightarrow> nat \<Rightarrow> nat \<Rightarrow> page \<Rightarrow> u32 \<Rightarrow> nat \<Rightarrow> 'k wal \<Rightarrow> nat \<times> nat \<times> 'k wal" where
  "end_transaction be io sync_flags szPage pLast nTruncate iOffset pWal =
     (if sync_flags AND WAL_SYNC_TRANSACTIONS = 0 then (0, 0, pWal)
      else if padToSectorBoundary pWal then
        let sectorSize = sqlite3SectorSize io (pWalFd pWal)
        in pad_frames be io ((iOffset + sectorSize - 1) div sectorSize * sectorSize) sync_flags szPage pLast nTruncate iOffset 0 pWal
      else case xSync io (pWalFd pWal) (sync_flags AND SQLITE_SYNC_MASK) of (rc, fd) \<Rightarrow> (rc, 0, pWal\<lparr>pWalFd := fd\<rparr>))"

definition limit_log :: "'k vfs \<Rightarrow> nat \<Rightarrow> 'k wal \<Rightarrow> 'k wal" where
  "limit_log io iEnd pWal =
     (if truncateOnCommit pWal \<and> mxWalSize pWal \<ge> 0
      then (walLimitSize io (max (nat (mxWalSize pWal)) iEnd) pWal)\<lparr>truncateOnCommit := False\<rparr>
      else pWal)"

text \<open>The frames after the ones of the log, first in the file and then in the index.\<close>

definition append_frames :: "bool \<Rightarrow> 'k vfs \<Rightarrow> (nat \<Rightarrow> nat) \<Rightarrow> nat \<Rightarrow> page list \<Rightarrow> u32 \<Rightarrow> bool \<Rightarrow> nat \<Rightarrow> 'k wal \<Rightarrow> nat \<times> 'k wal" where
  "append_frames be io walIndexPage szPage pList nTruncate isCommit sync_flags pWal =
     (let iFrame = mxFrame (hdr pWal) in
      case write_frames be io sync_flags szPage pList (if isCommit then nTruncate else 0) (walFrameOffset (iFrame + 1) szPage) pWal
        of (rc, iOffset, pWal) \<Rightarrow>
      if rc \<noteq> 0 then (rc, pWal)
      else
      case (if isCommit then end_transaction be io sync_flags szPage (last pList) nTruncate iOffset pWal else (0, 0, pWal))
        of (rc, nExtra, pWal) \<Rightarrow>
      if rc \<noteq> 0 \<and> padToSectorBoundary pWal then (rc, pWal)
      else
      let pWal = (if isCommit then limit_log io (walFrameOffset (iFrame + length pList + nExtra + 1) szPage) pWal else pWal) in
      if rc \<noteq> 0 then (rc, pWal)
      else
      case append_pages walIndexPage iFrame (map fst pList @ replicate nExtra (fst (last pList))) pWal of (rc, iFrame, pWal) \<Rightarrow>
      if rc \<noteq> 0 then (rc, pWal)
      else
        let pWal = pWal\<lparr>hdr := (hdr pWal)\<lparr>hdr_szPage := u16_szPage szPage, mxFrame := iFrame\<rparr>\<rparr>
        in if isCommit then
             (0, (walIndexWriteHdr be (pWal\<lparr>hdr := (hdr pWal)\<lparr>iChange := iChange (hdr pWal) + 1, nPage := nTruncate\<rparr>\<rparr>))
                 \<lparr>iCallback := iFrame\<rparr>)
           else (0, pWal))"

definition sqlite3WalFrames :: "bool \<Rightarrow> 'k vfs \<Rightarrow> (nat \<Rightarrow> nat) \<Rightarrow> (nat \<Rightarrow> bytes) \<Rightarrow> bool \<Rightarrow> nat \<Rightarrow> page list \<Rightarrow> u32 \<Rightarrow> bool \<Rightarrow> nat \<Rightarrow>
    'k wal \<Rightarrow> nat \<times> 'k wal" where
  "sqlite3WalFrames be io walIndexPage rnd mem_ok szPage pList nTruncate isCommit sync_flags pWal =
     (case walRestartLog be io walIndexPage rnd mem_ok pWal of (rc, pWal) \<Rightarrow>
      if rc \<noteq> 0 then (rc, pWal)
      else
      case (if mxFrame (hdr pWal) = 0 then write_header be io rnd szPage sync_flags pWal else (0, pWal)) of (rc, pWal) \<Rightarrow>
      if rc \<noteq> 0 then (rc, pWal)
      else append_frames be io walIndexPage szPage pList nTruncate isCommit sync_flags pWal)"

section \<open>Rolling back\<close>

text \<open>Back to the end of the last transaction; the pages are handed to the callback \<^verbatim>\<open>xUndo\<close>, whose
  result codes are its argument here.\<close>

fun undo_pages :: "(nat \<Rightarrow> nat) \<Rightarrow> 'k wal \<Rightarrow> nat list \<Rightarrow> nat \<times> nat list" where
  "undo_pages xUndo pWal [] = (0, [])"
| "undo_pages xUndo pWal (iFrame # fs) =
     (let pgno = walFramePgno pWal iFrame; rc = xUndo pgno
      in if rc \<noteq> 0 then (rc, [pgno]) else case undo_pages xUndo pWal fs of (rc, ps) \<Rightarrow> (rc, pgno # ps))"

definition sqlite3WalUndo :: "(nat \<Rightarrow> nat) \<Rightarrow> 'k wal \<Rightarrow> nat \<times> nat list \<times> 'k wal" where
  "sqlite3WalUndo xUndo pWal =
     (if writeLock pWal then
        let iMax = mxFrame (hdr pWal);
            pWal = pWal\<lparr>hdr := fst (aHdr pWal)\<rparr>
        in case undo_pages xUndo pWal [mxFrame (hdr pWal) + 1..<iMax + 1] of (rc, ps) \<Rightarrow>
             (rc, ps, if iMax \<noteq> mxFrame (hdr pWal) then walCleanupHash pWal else pWal)
      else (0, [], pWal))"

definition sqlite3WalSavepoint :: "'k wal \<Rightarrow> nat \<times> (u32 \<times> u32) \<times> u32" where
  "sqlite3WalSavepoint pWal = (mxFrame (hdr pWal), aFrameCksum (hdr pWal), nCkpt pWal)"

definition sqlite3WalSavepointUndo :: "'k wal \<Rightarrow> nat \<times> (u32 \<times> u32) \<times> u32 \<Rightarrow> (nat \<times> (u32 \<times> u32) \<times> u32) \<times> 'k wal" where
  "sqlite3WalSavepointUndo pWal aWalData =
     (case aWalData of (mx, c, ckpt) \<Rightarrow>
      case (if ckpt \<noteq> nCkpt pWal then (0, nCkpt pWal) else (mx, ckpt)) of (mx, ckpt) \<Rightarrow>
        ((mx, c, ckpt),
         if mx < mxFrame (hdr pWal) then walCleanupHash (pWal\<lparr>hdr := (hdr pWal)\<lparr>mxFrame := mx, aFrameCksum := c\<rparr>\<rparr>) else pWal))"


section \<open>Reading a frame\<close>

definition sqlite3WalReadFrame :: "'k vfs \<Rightarrow> 'k wal \<Rightarrow> nat \<Rightarrow> nat \<Rightarrow> nat \<times> bytes \<times> 'k wal" where
  "sqlite3WalReadFrame io pWal iRead nOut =
     (let sz = unat (hdr_szPage (hdr pWal) AND 0xfe00) + unat (hdr_szPage (hdr pWal) AND 1) * 2 ^ 16
      in case xRead io (pWalFd pWal) (if nOut > sz then sz else nOut) (walFrameOffset iRead sz + WAL_FRAME_HDRSIZE) of
           (rc, pOut, fd) \<Rightarrow> (rc, pOut, pWal\<lparr>pWalFd := fd\<rparr>))"

section \<open>What is written\<close>

fun frame_list :: "page list \<Rightarrow> u32 \<Rightarrow> frame list" where
  "frame_list [] n = []"
| "frame_list (p # ps) n = (fst p, if ps = [] then n else 0, snd p) # frame_list ps n"

lemma file_patch_tail: "length pre = off \<Longrightarrow> file_patch (pre @ tail) off d = pre @ d @ drop (length d) tail"
  by (simp add: file_patch_def)

lemma frames_bytes_append:
  "frames_bytes big sz salt c (xs @ ys) = frames_bytes big sz salt c xs @ frames_bytes big sz salt (frames_cksum big sz c xs) ys"
  by (induction xs arbitrary: c) (auto simp: frames_cksum_def simp del: frame_header.simps frame_cksum.simps)

lemma frames_bytes_length:
  "length salt = 8 \<Longrightarrow> frames_ok sz fs \<Longrightarrow> length (frames_bytes big sz salt c fs) = length fs * (sz + 24)"
  by (induction fs arbitrary: c) (auto simp: frames_ok_def frame_header_length simp del: frame_header.simps frame_cksum.simps)

lemma frames_cksum_append: "frames_cksum big sz c (xs @ ys) = frames_cksum big sz (frames_cksum big sz c xs) ys"
  by (simp add: frames_cksum_def)

lemma frames_ok_append [simp]: "frames_ok sz (xs @ ys) \<longleftrightarrow> frames_ok sz xs \<and> frames_ok sz ys"
  unfolding frames_ok_def set_append ball_Un ..

lemma frame_list_length [simp]: "length (frame_list ps n) = length ps"
  by (induction ps) auto

text \<open>A file that begins in the given way.\<close>

definition file_begins :: "('k \<Rightarrow> bytes) \<Rightarrow> ('k \<Rightarrow> bool) \<Rightarrow> 'k \<Rightarrow> bytes \<Rightarrow> bool" where
  "file_begins content ok k pre \<longleftrightarrow> ok k \<and> (\<exists>tail. content k = pre @ tail)"

text \<open>The header fields that the frames depend on.\<close>

definition log_hdr :: "'k wal \<Rightarrow> bool \<Rightarrow> nat \<Rightarrow> bytes \<Rightarrow> bool" where
  "log_hdr w big sz salt \<longleftrightarrow> bigEndCksum (hdr w) = (if big then 1 else 0) \<and> wal_szPage w = sz \<and> aSalt (hdr w) = salt \<and>
     length salt = 8 \<and> sz + 24 < 0x20000"

context wal_vfs
begin

abbreviation at_end :: "'k \<Rightarrow> bytes \<Rightarrow> bool" where
  "at_end \<equiv> file_begins content ok"

lemmas at_end_def = file_begins_def [of content ok]

lemma at_endI: "ok k \<Longrightarrow> content k = pre @ tail \<Longrightarrow> at_end k pre"
  by (auto simp: at_end_def)

lemma at_end_append: "at_end k (pre @ d) \<Longrightarrow> at_end k pre"
  by (auto simp: at_end_def)

lemma xWrite_at:
  assumes k: "at_end k pre" and c: "length c < 0x20000" and x: "xWrite io k c (length pre) = (rc, k')"
  shows "at_end k' pre \<and> (rc = 0 \<longrightarrow> at_end k' (pre @ c)) \<and> (reliable k \<longrightarrow> reliable k' \<and> rc = 0)"
proof -
  obtain tail where t: "ok k" "content k = pre @ tail" using k by (auto simp: at_end_def)
  obtain m where m: "m \<le> length c" "content k' = file_patch (content k) (length pre) (take m c)" "rc = 0 \<longrightarrow> m = length c"
    and ok': "ok k'" "reliable k \<longrightarrow> reliable k' \<and> rc = 0" using vfs_write [OF t(1) c x] by blast
  have "content k' = pre @ take m c @ drop m tail" using m(1) unfolding m(2) t(2) by (subst file_patch_tail) (simp_all add: min_def)
  then show ?thesis using m(3) ok' by (auto simp: at_end_def)
qed

lemma walWriteToLog_at:
  assumes k: "at_end k pre" and c: "length c < 0x20000" and x: "walWriteToLog io sp fl k c (length pre) = (rc, k')"
  shows "at_end k' pre \<and> (rc = 0 \<longrightarrow> at_end k' (pre @ c)) \<and> (reliable k \<longrightarrow> reliable k' \<and> rc = 0)"
proof (cases "length pre < sp \<and> length pre + length c \<ge> sp")
  case False
  then have "xWrite io k c (length pre) = (rc, k')" using x by (auto simp: walWriteToLog_def)
  then show ?thesis by (rule xWrite_at [OF k c])
next
  case True
  let ?n = "sp - length pre"
  obtain rc1 k1 where w1: "xWrite io k (take ?n c) (length pre) = (rc1, k1)" by (rule prod.exhaust)
  have "length (take ?n c) < 0x20000" using c by simp
  note s1 = xWrite_at [OF k this w1]
  show ?thesis
  proof (cases "rc1 = 0")
    case False
    then show ?thesis using x True w1 s1 by (auto simp: walWriteToLog_def Let_def)
  next
    case rc1: True
    obtain rc2 k2 where w2: "xSync io k1 (fl AND SQLITE_SYNC_MASK) = (rc2, k2)" by (rule prod.exhaust)
    have a1: "at_end k1 (pre @ take ?n c)" using s1 rc1 by simp
    have s2: "at_end k2 (pre @ take ?n c)" "reliable k1 \<longrightarrow> reliable k2 \<and> rc2 = 0"
      using vfs_sync [OF _ w2] a1 by (auto simp: at_end_def)
    show ?thesis
    proof (cases "drop ?n c = [] \<or> rc2 \<noteq> 0")
      case True2: True
      then have r: "rc = rc2" "k' = k2" using x True w1 rc1 w2 by (auto simp: walWriteToLog_def Let_def)
      have "take ?n c = c" if "rc2 = 0" using True2 that by simp
      then show ?thesis using s1 s2 at_end_append [OF s2(1)] unfolding r by auto
    next
      case False
      have len: "length pre + ?n = length (pre @ take ?n c)" "length (drop ?n c) < 0x20000" using True c by auto
      have "xWrite io k2 (drop ?n c) (length (pre @ take ?n c)) = (rc, k')"
        using x True w1 rc1 w2 False unfolding len(1) [symmetric] by (auto simp: walWriteToLog_def Let_def)
      note s3 = xWrite_at [OF s2(1) len(2) this]
      have "(pre @ take ?n c) @ drop ?n c = pre @ c" by simp
      then show ?thesis using s1 s2 s3 at_end_append [of k' pre "take ?n c"] by auto
    qed
  qed
qed

text \<open>Writing changes the checksum and the file.\<close>

abbreviation written :: "'k wal \<Rightarrow> u32 \<times> u32 \<Rightarrow> 'k \<Rightarrow> 'k wal" where
  "written w c fd \<equiv> w\<lparr>hdr := (hdr w)\<lparr>aFrameCksum := c\<rparr>, pWalFd := fd\<rparr>"

lemma log_hdr_written [simp]: "log_hdr (written w c fd) big sz salt = log_hdr w big sz salt"
  by (simp add: log_hdr_def)

definition extends :: "'k wal \<Rightarrow> bytes \<Rightarrow> bytes \<Rightarrow> nat \<Rightarrow> u32 \<times> u32 \<Rightarrow> 'k wal \<Rightarrow> bool" where
  "extends w pre d rc c w' \<longleftrightarrow> (\<exists>c' fd. w' = written w c' fd \<and> at_end fd pre \<and> (rc = 0 \<longrightarrow> at_end fd (pre @ d) \<and> c' = c) \<and>
     (reliable (pWalFd w) \<longrightarrow> reliable fd \<and> rc = 0))"

lemma extendsI: "w' = written w c' fd \<Longrightarrow> at_end fd pre \<Longrightarrow> (rc = 0 \<Longrightarrow> at_end fd (pre @ d) \<and> c' = c) \<Longrightarrow>
    (reliable (pWalFd w) \<Longrightarrow> reliable fd \<and> rc = 0) \<Longrightarrow> extends w pre d rc c w'"
  unfolding extends_def by blast

lemma extends_refl: "at_end (pWalFd w) pre \<Longrightarrow> extends w pre [] 0 (aFrameCksum (hdr w)) w"
  by (rule extendsI [where c' = "aFrameCksum (hdr w)" and fd = "pWalFd w"]) simp_all

lemma extends_trans:
  assumes "extends w pre d1 0 c1 w1" "extends w1 (pre @ d1) d2 rc c2 w2"
  shows "extends w pre (d1 @ d2) rc c2 w2"
proof -
  obtain fd1 where 1: "w1 = written w c1 fd1" "reliable (pWalFd w) \<Longrightarrow> reliable fd1"
    using assms(1) by (auto simp: extends_def)
  obtain c fd where 2: "w2 = written w1 c fd" "at_end fd (pre @ d1)" "rc = 0 \<Longrightarrow> at_end fd ((pre @ d1) @ d2) \<and> c = c2"
    "reliable (pWalFd w1) \<Longrightarrow> reliable fd \<and> rc = 0" using assms(2) by (auto simp: extends_def)
  show ?thesis
    by (rule extendsI [where c' = "c" and fd = fd]) (use 1 2 at_end_append [OF 2(2)] in auto)
qed

lemma extends_error: "extends w pre d rc c w' \<Longrightarrow> rc \<noteq> 0 \<Longrightarrow> extends w pre d' rc c2 w'"
  by (auto simp: extends_def)

lemma extends_stop: "extends w pre d1 0 c1 w1 \<Longrightarrow> extends w1 (pre @ d1) d2 rc c2 w2 \<Longrightarrow> rc \<noteq> 0 \<Longrightarrow> extends w pre d3 rc c3 w2"
  using extends_error [OF extends_trans] .

lemma extends_at: "extends w pre d 0 c w' \<Longrightarrow> at_end (pWalFd w') (pre @ d) \<and> aFrameCksum (hdr w') = c"
  by (auto simp: extends_def)

lemma extends_hdr: "extends w pre d rc c w' \<Longrightarrow> log_hdr w' big sz salt = log_hdr w big sz salt"
  by (auto simp: extends_def)

lemma extends_fields: "extends w pre d rc c w' \<Longrightarrow> apWiData w' = apWiData w \<and> mxFrame (hdr w') = mxFrame (hdr w)"
  by (auto simp: extends_def)

lemma walWriteOneFrame_extends:
  assumes w: "log_hdr w big sz salt" "at_end (pWalFd w) pre" and p: "length (snd p) = sz"
    and x: "walWriteOneFrame be io sp fl sz p nt (length pre) w = (rc, w')"
  shows "extends w pre (frame_header big sz salt (aFrameCksum (hdr w)) (fst p, nt, snd p) @ snd p) rc
    (frame_cksum big sz (aFrameCksum (hdr w)) (fst p, nt, snd p)) w'"
proof -
  let ?h = "frame_header big sz salt (aFrameCksum (hdr w)) (fst p, nt, snd p)"
  let ?c = "frame_cksum big sz (aFrameCksum (hdr w)) (fst p, nt, snd p)"
  have h: "length ?h = 24" "length ?h < 0x20000" "length (take sz (snd p)) < 0x20000" "take sz (snd p) = snd p"
    using w(1) p frame_header_length [of salt big sz _ "(fst p, nt, snd p)"] by (auto simp: log_hdr_def)
  have enc: "walEncodeFrame be w (fst p) nt (snd p) = (set_cksum ?c w, ?h)"
    using walEncodeFrame_eq [of w be "fst p" nt "snd p"] w(1) by (auto simp: log_hdr_def simp del: frame_header.simps frame_cksum.simps)
  obtain rc1 k1 where l1: "walWriteToLog io sp fl (pWalFd w) ?h (length pre) = (rc1, k1)" by (rule prod.exhaust)
  note s1 = walWriteToLog_at [OF w(2) h(2) l1]
  show ?thesis
  proof (cases "rc1 = 0")
    case False
    then have "rc = rc1 \<and> w' = written w ?c k1" using x l1 unfolding walWriteOneFrame_def enc by auto
    then show ?thesis using s1 False by (intro extendsI [where c' = "?c" and fd = k1]) auto
  next
    case True
    obtain rc2 k2 where l2: "walWriteToLog io sp fl k1 (take sz (snd p)) (length (pre @ ?h)) = (rc2, k2)" by (rule prod.exhaust)
    have a: "at_end k1 (pre @ ?h)" using s1 True by simp
    note s2 = walWriteToLog_at [OF a h(3) l2]
    have "length pre + 24 = length (pre @ ?h)" using h(1) by simp
    then have "rc = rc2 \<and> w' = written w ?c k2"
      using x l1 l2 True unfolding walWriteOneFrame_def enc by (auto simp del: length_append frame_header.simps frame_cksum.simps)
    then show ?thesis using s1 s2 True at_end_append [of k2 pre ?h] h(4)
      by (intro extendsI [where c' = "?c" and fd = k2]) (auto simp del: frame_header.simps frame_cksum.simps)
  qed
qed

lemma write_frames_extends:
  assumes "log_hdr w big sz salt" "at_end (pWalFd w) pre" "\<forall>p \<in> set ps. length (snd p) = sz"
    and "write_frames be io fl sz ps n (length pre) w = (rc, off, w')"
  shows "extends w pre (frames_bytes big sz salt (aFrameCksum (hdr w)) (frame_list ps n)) rc
      (frames_cksum big sz (aFrameCksum (hdr w)) (frame_list ps n)) w' \<and> (rc = 0 \<longrightarrow> off = length pre + length ps * (sz + 24))"
  using assms
proof (induction ps arbitrary: pre w)
  case Nil
  then show ?case using extends_refl [OF Nil(2)] by (auto simp: frames_cksum_def)
next
  case (Cons p ps)
  let ?n = "if ps = [] then n else 0"
  let ?d = "frame_header big sz salt (aFrameCksum (hdr w)) (fst p, ?n, snd p) @ snd p"
  let ?c = "frame_cksum big sz (aFrameCksum (hdr w)) (fst p, ?n, snd p)"
  obtain rc1 w1 where l1: "walWriteOneFrame be io 0 fl sz p ?n (length pre) w = (rc1, w1)" by (rule prod.exhaust)
  have e1: "extends w pre ?d rc1 ?c w1" by (rule walWriteOneFrame_extends [OF Cons.prems(1,2) _ l1]) (use Cons.prems(3) in simp)
  show ?case
  proof (cases "rc1 = 0")
    case False
    then have "rc = rc1" "w' = w1" using Cons.prems(4) l1 by auto
    then show ?thesis using extends_error [OF e1 False] False by simp
  next
    case True
    have len: "length pre + (sz + 24) = length (pre @ ?d)"
      using Cons.prems(1,3) frame_header_length [of salt big sz _ "(fst p, ?n, snd p)"]
      by (auto simp: log_hdr_def simp del: frame_header.simps)
    have l2: "write_frames be io fl sz ps n (length (pre @ ?d)) w1 = (rc, off, w')"
      using Cons.prems(4) l1 True unfolding len [symmetric] by (simp add: add_ac)
    note e1' = e1 [unfolded True]
    have at: "at_end (pWalFd w1) (pre @ ?d)" "aFrameCksum (hdr w1) = ?c" "log_hdr w1 big sz salt"
      using extends_at [OF e1'] extends_hdr [OF e1'] Cons.prems(1) by auto
    have "\<forall>p \<in> set ps. length (snd p) = sz" using Cons.prems(3) by simp
    note e2 = Cons.IH [OF at(3,1) this l2]
    have "off = length pre + length (p # ps) * (sz + 24)" if "rc = 0" using e2 that unfolding len [symmetric] by simp
    moreover have "extends w pre (?d @ frames_bytes big sz salt ?c (frame_list ps n)) rc (frames_cksum big sz ?c (frame_list ps n)) w'"
      using extends_trans [OF e1'] e2 unfolding at(2) by blast
    ultimately show ?thesis by (simp add: frames_cksum_def del: frame_header.simps frame_cksum.simps)
  qed
qed

lemma pad_frames_extends:
  "log_hdr w big sz salt \<Longrightarrow> at_end (pWalFd w) pre \<Longrightarrow> length (snd p) = sz \<Longrightarrow>
    pad_frames be io sp fl sz p nt (length pre) e w = (rc, e', w') \<Longrightarrow>
    \<exists>m. e' = e + m \<and> extends w pre (frames_bytes big sz salt (aFrameCksum (hdr w)) (replicate m (fst p, nt, snd p))) rc
      (frames_cksum big sz (aFrameCksum (hdr w)) (replicate m (fst p, nt, snd p))) w'"
proof (induction "sp - length pre" arbitrary: pre e w rule: less_induct)
  case less
  note prems = less.prems
  show ?case
  proof (cases "length pre < sp")
    case False
    then have "rc = 0" "e' = e + 0" "w' = w" using prems(4) by (subst (asm) pad_frames.simps, simp)+
    then show ?thesis using extends_refl [OF prems(2)] by (intro exI [of _ 0]) (simp add: frames_cksum_def)
  next
    case True
    let ?fr = "(fst p, nt, snd p)"
    let ?d = "frame_header big sz salt (aFrameCksum (hdr w)) ?fr @ snd p"
    let ?c = "frame_cksum big sz (aFrameCksum (hdr w)) ?fr"
    obtain rc1 w1 where l1: "walWriteOneFrame be io sp fl sz p nt (length pre) w = (rc1, w1)" by (rule prod.exhaust)
    have e1: "extends w pre ?d rc1 ?c w1" by (rule walWriteOneFrame_extends [OF prems(1-3) l1])
    have step: "pad_frames be io sp fl sz p nt (length pre) e w =
        (if rc1 \<noteq> 0 then (rc1, e, w1) else pad_frames be io sp fl sz p nt (length pre + (sz + 24)) (e + 1) w1)"
      using True l1 by (subst pad_frames.simps) simp
    show ?thesis
    proof (cases "rc1 = 0")
      case False
      then have "rc = rc1" "w' = w1" "e' = e + 0" using prems(4) unfolding step by auto
      then show ?thesis using extends_error [OF e1 False] by blast
    next
      case rc1: True
      have len: "length pre + (sz + 24) = length (pre @ ?d)"
        using prems(1,3) frame_header_length [of salt big sz _ ?fr] by (auto simp: log_hdr_def simp del: frame_header.simps)
      have l2: "pad_frames be io sp fl sz p nt (length (pre @ ?d)) (e + 1) w1 = (rc, e', w')"
        using prems(4) rc1 unfolding step len [symmetric] by simp
      note e1' = e1 [unfolded rc1]
      have at: "at_end (pWalFd w1) (pre @ ?d)" "aFrameCksum (hdr w1) = ?c" "log_hdr w1 big sz salt"
        using extends_at [OF e1'] extends_hdr [OF e1'] prems(1) by auto
      have "sp - length (pre @ ?d) < sp - length pre" using True unfolding len [symmetric] by linarith
      from less.hyps [OF this at(3,1) prems(3) l2] obtain m where
        m: "e' = e + 1 + m" "extends w1 (pre @ ?d) (frames_bytes big sz salt (aFrameCksum (hdr w1)) (replicate m ?fr)) rc
            (frames_cksum big sz (aFrameCksum (hdr w1)) (replicate m ?fr)) w'" by blast
      have "extends w pre (?d @ frames_bytes big sz salt ?c (replicate m ?fr)) rc (frames_cksum big sz ?c (replicate m ?fr)) w'"
        using extends_trans [OF e1' m(2)] unfolding at(2) .
      then show ?thesis using m(1)
        by (intro exI [of _ "Suc m"]) (simp add: frames_cksum_def del: frame_header.simps frame_cksum.simps)
    qed
  qed
qed

lemma end_transaction_extends:
  assumes "log_hdr w big sz salt" "at_end (pWalFd w) pre" "length (snd p) = sz"
    and "end_transaction be io fl sz p nt (length pre) w = (rc, e, w')"
  shows "extends w pre (frames_bytes big sz salt (aFrameCksum (hdr w)) (replicate e (fst p, nt, snd p))) rc
      (frames_cksum big sz (aFrameCksum (hdr w)) (replicate e (fst p, nt, snd p))) w'"
proof -
  consider "fl AND WAL_SYNC_TRANSACTIONS = 0" | "fl AND WAL_SYNC_TRANSACTIONS \<noteq> 0" "padToSectorBoundary w"
    | "fl AND WAL_SYNC_TRANSACTIONS \<noteq> 0" "\<not> padToSectorBoundary w" by blast
  then show ?thesis
  proof cases
    case 1
    then show ?thesis using assms(4) extends_refl [OF assms(2)] by (auto simp: end_transaction_def frames_cksum_def)
  next
    case 2
    then obtain sp where "pad_frames be io sp fl sz p nt (length pre) 0 w = (rc, e, w')"
      using assms(4) by (auto simp: end_transaction_def Let_def)
    from pad_frames_extends [OF assms(1-3) this] show ?thesis by auto
  next
    case 3
    obtain rc1 fd where s: "xSync io (pWalFd w) (fl AND SQLITE_SYNC_MASK) = (rc1, fd)" by (rule prod.exhaust)
    then have r: "rc = rc1" "e = 0" "w' = written w (aFrameCksum (hdr w)) fd" using 3 assms(4) by (auto simp: end_transaction_def)
    have "at_end fd pre" "reliable (pWalFd w) \<Longrightarrow> reliable fd \<and> rc1 = 0"
      using vfs_sync [OF _ s] assms(2) by (auto simp: at_end_def)
    then show ?thesis unfolding r by (intro extendsI [where c' = "aFrameCksum (hdr w)" and fd = fd]) (auto simp: frames_cksum_def)
  qed
qed

text \<open>A log is cut off after its last frame only.\<close>

lemma limit_log_keeps:
  assumes "at_end (pWalFd w) pre" "limit_log io (length pre) w = w'"
  shows "at_end (pWalFd w') pre \<and> (\<exists>fd t. w' = w\<lparr>pWalFd := fd, truncateOnCommit := t\<rparr>) \<and> (reliable (pWalFd w) \<longrightarrow> reliable (pWalFd w'))"
proof (cases "truncateOnCommit w \<and> mxWalSize w \<ge> 0")
  case False
  then have e: "w' = w" using assms(2) by (auto simp: limit_log_def)
  have "w = w\<lparr>pWalFd := pWalFd w, truncateOnCommit := truncateOnCommit w\<rparr>" by simp
  then show ?thesis unfolding e using assms(1) by blast
next
  case True
  let ?n = "max (nat (mxWalSize w)) (length pre)"
  obtain rx sz fd where s: "xFileSize io (pWalFd w) = (rx, sz, fd)" by (rule prod_cases3)
  define fd' where "fd' = (if rx = 0 \<and> sz > ?n then snd (xTruncate io fd ?n) else fd)"
  have w': "w' = w\<lparr>pWalFd := fd', truncateOnCommit := False\<rparr>"
    using assms(2) True s by (simp add: limit_log_def walLimitSize_def fd'_def)
  obtain tail where t: "ok (pWalFd w)" "content (pWalFd w) = pre @ tail" using assms(1) by (auto simp: at_end_def)
  have fd: "ok fd" "content fd = pre @ tail" "reliable (pWalFd w) \<Longrightarrow> reliable fd"
    "rx = 0 \<Longrightarrow> sz \<le> length (pre @ tail)" using vfs_size [OF t(1) s] t(2) by auto
  have "at_end fd' pre \<and> (reliable (pWalFd w) \<longrightarrow> reliable fd')"
  proof (cases "rx = 0 \<and> sz > ?n")
    case False
    then show ?thesis using fd by (auto simp: fd'_def at_end_def)
  next
    case True
    obtain rc k where k: "xTruncate io fd ?n = (rc, k)" by (rule prod.exhaust)
    have le: "?n \<le> length (content fd)" using fd True by auto
    then have tk: "take ?n (content k) = take ?n (pre @ tail)" and okk: "ok k" "reliable fd \<longrightarrow> reliable k"
      using vfs_truncate [OF fd(1) k] fd(2) by auto
    from tk have "take (length pre) (take ?n (content k)) = pre" by simp
    then have "take (length pre) (content k) = pre" by (simp add: min_def split: if_splits)
    then have "content k = pre @ drop (length pre) (content k)" by (metis append_take_drop_id)
    then show ?thesis using True okk fd(3) k by (auto simp: fd'_def at_end_def)
  qed
  then show ?thesis unfolding w' by auto
qed

lemma write_header_extends:
  assumes k: "ok (pWalFd w)" and salt: "if nCkpt w = 0 then length (rnd 8) = 8 else length (aSalt (hdr w)) = 8" and sz: "valid_szPage sz"
    and x: "write_header be io rnd sz fl w = (rc, w')"
  defines "s \<equiv> if nCkpt w = 0 then rnd 8 else aSalt (hdr w)"
  shows "mxFrame (hdr w') = mxFrame (hdr w)" "apWiData w' = apWiData w" "ok (pWalFd w')" "reliable (pWalFd w) \<Longrightarrow> reliable (pWalFd w') \<and> rc = 0"
    "rc = 0 \<Longrightarrow> log_hdr w' be sz s \<and> at_end (pWalFd w') (log_header be sz (nCkpt w) s) \<and> aFrameCksum (hdr w') = header_cksum be sz (nCkpt w) s"
    "readLock w' = readLock w" "nCkpt w' = nCkpt w"
proof -
  let ?c = "header_cksum be sz (nCkpt w) s" and ?h = "log_header be sz (nCkpt w) s"
  let ?w = "w\<lparr>wal_szPage := sz, truncateOnCommit := True, hdr := (hdr w)\<lparr>aSalt := s, bigEndCksum := (if be then 1 else 0), aFrameCksum := ?c\<rparr>\<rparr>"
  have s8: "length s = 8" using salt by (simp add: s_def split: if_splits)
  have h: "length ?h = 32" using s8 by (simp add: Let_def)
  have c: "walChecksumBytes be True (put4byte (WAL_MAGIC OR (if be then 1 else 0)) @ put4byte WAL_MAX_VERSION @ put4byte (of_nat sz) @
            put4byte (nCkpt w) @ s) (0, 0) = ?c"
    using walChecksumBytes_ref [of be be] s8 by (simp add: header_cksum_def Let_def)
  have hd: "put4byte (WAL_MAGIC OR (if be then 1 else 0)) @ put4byte WAL_MAX_VERSION @ put4byte (of_nat sz) @
      put4byte (nCkpt w) @ s @ put4byte (fst ?c) @ put4byte (snd ?c) = ?h"
    using s8 by (simp add: header_cksum_def Let_def)
  obtain rc1 k1 where x1: "xWrite io (pWalFd w) ?h 0 = (rc1, k1)" by (rule prod.exhaust)
  have "at_end (pWalFd w) []" using k by (simp add: at_end_def)
  from xWrite_at [OF this _, of ?h rc1 k1] x1 h
  have s1: "at_end k1 []" "rc1 = 0 \<Longrightarrow> at_end k1 ?h" "reliable (pWalFd w) \<Longrightarrow> reliable k1 \<and> rc1 = 0" by auto
  obtain rc2 k2 where x2: "xSync io k1 (fl AND SQLITE_SYNC_MASK) = (rc2, k2)" by (rule prod.exhaust)
  have s2: "at_end k2 p = at_end k1 p" "reliable k1 \<Longrightarrow> reliable k2 \<and> rc2 = 0" for p
    using vfs_sync [OF _ x2] s1(1) by (auto simp: at_end_def)
  have w': "(rc, w') = (if rc1 \<noteq> 0 then (rc1, ?w\<lparr>pWalFd := k1\<rparr>) else if syncHeader w \<and> fl \<noteq> 0 then (rc2, ?w\<lparr>pWalFd := k2\<rparr>) else (0, ?w\<lparr>pWalFd := k1\<rparr>))"
    unfolding x [symmetric] write_header_def Let_def s_def [symmetric] c append_assoc hd
    using x1 x2 by simp
  have fd: "ok (pWalFd w')" "reliable (pWalFd w) \<Longrightarrow> reliable (pWalFd w') \<and> rc = 0" "rc = 0 \<Longrightarrow> at_end (pWalFd w') ?h"
    "w' = ?w\<lparr>pWalFd := pWalFd w'\<rparr>"
    using w' s1 s2 by (auto simp: at_end_def split: if_splits)
  show "ok (pWalFd w')" "reliable (pWalFd w) \<Longrightarrow> reliable (pWalFd w') \<and> rc = 0" using fd by auto
  show "mxFrame (hdr w') = mxFrame (hdr w)" "apWiData w' = apWiData w" "readLock w' = readLock w" "nCkpt w' = nCkpt w"
    by (subst fd(4), simp)+
  have "log_hdr w' be sz s \<and> aFrameCksum (hdr w') = ?c"
    by (subst (1 2) fd(4)) (use s8 sz in \<open>auto simp: log_hdr_def valid_szPage_def\<close>)
  then show "rc = 0 \<Longrightarrow> log_hdr w' be sz s \<and> at_end (pWalFd w') ?h \<and> aFrameCksum (hdr w') = ?c" using fd(3) by blast
qed

end

section \<open>Appending to a log\<close>

lemma append_pages_ok:
  assumes "\<And>h. pg h = 0" "\<forall>p \<in> set ps. p \<noteq> 0"
  shows "idx_ok w ws \<Longrightarrow> length ws = f \<Longrightarrow>
    \<exists>d. append_pages pg f ps w = (0, f + length ps, w\<lparr>apWiData := d\<rparr>) \<and> idx_ok (w\<lparr>apWiData := d\<rparr>) (ws @ map unat ps)"
  using assms(2)
proof (induction ps arbitrary: f w ws)
  case Nil
  then show ?case by (intro exI [of _ "apWiData w"]) simp
next
  case (Cons p ps)
  have "\<exists>d. walIndexAppend pg w (Suc f) (unat p) = (0, w\<lparr>apWiData := d\<rparr>) \<and> idx_ok (w\<lparr>apWiData := d\<rparr>) (take f ws @ [unat p])"
    by (rule walIndexAppend_ok [OF Cons.prems(1)]) (use Cons.prems assms(1) in \<open>simp_all add: unat_eq_0\<close>)
  then obtain d where d: "walIndexAppend pg w (Suc f) (unat p) = (0, w\<lparr>apWiData := d\<rparr>)" "idx_ok (w\<lparr>apWiData := d\<rparr>) (ws @ [unat p])"
    using Cons.prems(2) by auto
  have "\<forall>p \<in> set ps. p \<noteq> 0" "length (ws @ [unat p]) = Suc f" using Cons.prems by auto
  from Cons.IH [OF d(2) this(2,1)] d(1) show ?case by simp
qed

lemma append_pages_from:
  assumes pg: "\<And>h. pg h = 0" and ps: "\<forall>p \<in> set ps. p \<noteq> 0" "ps \<noteq> []"
    and idx: "idx_ok w ws" "f \<le> length ws" "f = mxFrame (hdr w)"
  shows "\<exists>d. append_pages pg f ps w = (0, f + length ps, w\<lparr>apWiData := d\<rparr>) \<and> idx_ok (w\<lparr>apWiData := d\<rparr>) (take f ws @ map unat ps)"
proof -
  obtain p qs where q: "ps = p # qs" using ps(2) by (cases ps) auto
  have "\<exists>d. walIndexAppend pg w (Suc f) (unat p) = (0, w\<lparr>apWiData := d\<rparr>) \<and> idx_ok (w\<lparr>apWiData := d\<rparr>) (take f ws @ [unat p])"
    by (rule walIndexAppend_ok [OF idx(1,2)]) (use ps(1) q idx pg in \<open>simp_all add: unat_eq_0\<close>)
  then obtain d where d: "walIndexAppend pg w (Suc f) (unat p) = (0, w\<lparr>apWiData := d\<rparr>)" "idx_ok (w\<lparr>apWiData := d\<rparr>) (take f ws @ [unat p])"
    by blast
  have "\<forall>p \<in> set qs. p \<noteq> 0" "length (take f ws @ [unat p]) = Suc f" using ps(1) q idx(2) by auto
  from append_pages_ok [OF pg this(1) d(2) this(2)] d(1) show ?thesis by (simp add: q)
qed

text \<open>The log of a writer: its file, and the index at least up to its last frame.\<close>

definition log_bytes :: "bool \<Rightarrow> nat \<Rightarrow> u32 \<Rightarrow> bytes \<Rightarrow> frame list \<Rightarrow> bytes" where
  "log_bytes big sz ckpt salt fs = log_header big sz ckpt salt @ frames_bytes big sz salt (header_cksum big sz ckpt salt) fs"

definition idx_holds :: "'k wal \<Rightarrow> frame list \<Rightarrow> bool" where
  "idx_holds w fs \<longleftrightarrow> (\<exists>ws. idx_ok w ws \<and> length fs \<le> length ws \<and> take (length fs) ws = pages fs)"

lemma log_bytes_length: "length salt = 8 \<Longrightarrow> frames_ok sz fs \<Longrightarrow> length (log_bytes big sz ckpt salt fs) = 32 + length fs * (sz + 24)"
  by (simp add: log_bytes_def frames_bytes_length Let_def)

lemma log_bytes_append:
  "log_bytes big sz ckpt salt (fs @ gs) =
    log_bytes big sz ckpt salt fs @ frames_bytes big sz salt (frames_cksum big sz (header_cksum big sz ckpt salt) fs) gs"
  by (simp add: log_bytes_def frames_bytes_append del: log_header.simps)

lemma pages_append [simp]: "pages (xs @ ys) = pages xs @ pages ys" by (simp add: pages_def)

lemma pages_frame_list [simp]: "pages (frame_list ps n) = map (unat \<circ> fst) ps"
  by (induction ps) (auto simp: pages_def)

lemma pages_replicate [simp]: "pages (replicate e (p, n, d)) = replicate e (unat p)"
  by (simp add: pages_def)

lemma frames_ok_frame_list [simp]: "frames_ok sz (frame_list ps n) \<longleftrightarrow> (\<forall>p \<in> set ps. fst p \<noteq> 0 \<and> length (snd p) = sz)"
  by (induction ps) (auto simp: frames_ok_def)

lemma frames_ok_replicate [simp]: "frames_ok sz (replicate e fr) \<longleftrightarrow> e = 0 \<or> frames_ok sz [fr]"
  by (auto simp: frames_ok_def)

definition writer_log :: "('k \<Rightarrow> bytes) \<Rightarrow> ('k \<Rightarrow> bool) \<Rightarrow> 'k wal \<Rightarrow> bool \<Rightarrow> nat \<Rightarrow> u32 \<Rightarrow> bytes \<Rightarrow> frame list \<Rightarrow> bool" where
  "writer_log content ok w big sz ckpt salt fs \<longleftrightarrow>
     log_hdr w big sz salt \<and> file_begins content ok (pWalFd w) (log_bytes big sz ckpt salt fs) \<and> frames_ok sz fs \<and>
     aFrameCksum (hdr w) = frames_cksum big sz (header_cksum big sz ckpt salt) fs \<and> mxFrame (hdr w) = length fs"

context wal_vfs
begin

abbreviation log_state :: "'k wal \<Rightarrow> bool \<Rightarrow> nat \<Rightarrow> u32 \<Rightarrow> bytes \<Rightarrow> frame list \<Rightarrow> bool" where
  "log_state \<equiv> writer_log content ok"

lemmas log_state_def = writer_log_def [of content ok]

lemma append_frames_ok:
  assumes w: "log_state w big sz ckpt salt fs" "idx_holds w fs" and pg: "\<And>h. pg h = 0"
    and ps: "ps \<noteq> []" "\<forall>p \<in> set ps. fst p \<noteq> 0 \<and> length (snd p) = sz"
    and x: "append_frames be io pg sz ps nT isC fl w = (rc, w')"
  shows "at_end (pWalFd w') (log_bytes big sz ckpt salt fs) \<and> (reliable (pWalFd w) \<longrightarrow> reliable (pWalFd w') \<and> rc = 0) \<and>
    (rc = 0 \<longrightarrow> (\<exists>e. let gs = fs @ frame_list ps (if isC then nT else 0) @ replicate e (fst (last ps), nT, snd (last ps))
       in log_state w' big sz ckpt salt gs \<and> idx_ok w' (pages gs) \<and>
          (if isC then aHdr w' = (hdr w', hdr w') \<and> nPage (hdr w') = nT else e = 0)))"
proof -
  let ?B = "log_bytes big sz ckpt salt" and ?n = "if isC then nT else 0" and ?m = "length fs"
  let ?c = "\<lambda>fs. frames_cksum big sz (header_cksum big sz ckpt salt) fs"
  let ?fl = "frame_list ps ?n"
  have lw: "log_hdr w big sz salt" "at_end (pWalFd w) (?B fs)" "frames_ok sz fs" "aFrameCksum (hdr w) = ?c fs" "mxFrame (hdr w) = ?m"
    "length salt = 8" using w(1) by (auto simp: log_state_def log_hdr_def)
  have len: "length (?B gs) = 32 + length gs * (sz + 24)" if "frames_ok sz gs" for gs using log_bytes_length [OF lw(6) that] .
  have off: "walFrameOffset (?m + 1) sz = length (?B fs)" using len [OF lw(3)] by (simp add: walFrameOffset_def)
  have okl: "frames_ok sz ?fl" "\<forall>p \<in> set ps. length (snd p) = sz" "length (snd (last ps)) = sz" using ps by auto
  obtain rc1 o1 w1 where l1: "write_frames be io fl sz ps ?n (length (?B fs)) w = (rc1, o1, w1)" by (rule prod_cases3)
  note e1 = write_frames_extends [OF lw(1,2) okl(2) l1]
  have step1: "append_frames be io pg sz ps nT isC fl w =
      (if rc1 \<noteq> 0 then (rc1, w1)
       else case (if isC then end_transaction be io fl sz (last ps) nT o1 w1 else (0, 0, w1)) of (rc, e, w) \<Rightarrow>
         if rc \<noteq> 0 \<and> padToSectorBoundary w then (rc, w)
         else let w = (if isC then limit_log io (walFrameOffset (?m + length ps + e + 1) sz) w else w) in
         if rc \<noteq> 0 then (rc, w)
         else case append_pages pg ?m (map fst ps @ replicate e (fst (last ps))) w of (rc, f, w) \<Rightarrow>
         if rc \<noteq> 0 then (rc, w)
         else let w = w\<lparr>hdr := (hdr w)\<lparr>hdr_szPage := u16_szPage sz, mxFrame := f\<rparr>\<rparr>
           in if isC then (0, (walIndexWriteHdr be (w\<lparr>hdr := (hdr w)\<lparr>iChange := iChange (hdr w) + 1, nPage := nT\<rparr>\<rparr>))\<lparr>iCallback := f\<rparr>)
              else (0, w))"
    unfolding append_frames_def Let_def lw(5) off l1 prod.case ..
  show ?thesis
  proof (cases "rc1 = 0")
    case False
    then have "rc = rc1" "w' = w1" using x unfolding step1 by auto
    then show ?thesis using e1 False by (auto simp: extends_def)
  next
    case rc1: True
    have at1: "at_end (pWalFd w1) (?B (fs @ ?fl))" "aFrameCksum (hdr w1) = ?c (fs @ ?fl)" "log_hdr w1 big sz salt"
      "reliable (pWalFd w) \<longrightarrow> reliable (pWalFd w1)"
      using e1 rc1 lw(1,4) extends_hdr [of w "?B fs" _ rc1 _ w1]
      by (auto simp: extends_def log_bytes_append frames_cksum_append)
    have o1: "o1 = length (?B (fs @ ?fl))" using e1 rc1 len [of "fs @ ?fl"] len [of fs] lw(3) okl(1) by (simp add: algebra_simps)
    obtain rc2 e w2 where l2: "(if isC then end_transaction be io fl sz (last ps) nT o1 w1 else (0, 0, w1)) = (rc2, e, w2)"
      by (rule prod_cases3)
    let ?pad = "replicate e (fst (last ps), nT, snd (last ps))"
    let ?gs = "fs @ ?fl @ ?pad"
    have e2: "extends w1 (?B (fs @ ?fl)) (frames_bytes big sz salt (?c (fs @ ?fl)) ?pad) rc2 (frames_cksum big sz (?c (fs @ ?fl)) ?pad) w2"
    proof (cases isC)
      case True
      then have "end_transaction be io fl sz (last ps) nT (length (?B (fs @ ?fl))) w1 = (rc2, e, w2)" using l2 o1 by simp
      from end_transaction_extends [OF at1(3,1) okl(3) this] show ?thesis unfolding at1(2) .
    next
      case False
      then have "rc2 = 0" "e = 0" "w2 = w1" using l2 by auto
      then show ?thesis using extends_refl [OF at1(1)] at1(2) by (simp add: frames_cksum_def)
    qed
    have "frames_ok sz [(fst (last ps), nT, snd (last ps))]" using ps by (simp add: frames_ok_def)
    then have okg: "frames_ok sz ?gs" using lw(3) okl(1) by simp
    have e0: "e = 0" if "rc2 \<noteq> 0" "\<not> padToSectorBoundary w2"
    proof (rule ccontr)
      assume "e \<noteq> 0"
      then have isC by (rule contrapos_np) (use l2 in auto)
      moreover have "padToSectorBoundary w2 = padToSectorBoundary w1" using e2 by (auto simp: extends_def)
      ultimately show False using l2 that \<open>e \<noteq> 0\<close> by (auto simp: end_transaction_def split: if_splits prod.splits)
    qed
    have at2: "at_end (pWalFd w2) (?B (fs @ ?fl))" "reliable (pWalFd w1) \<longrightarrow> reliable (pWalFd w2) \<and> rc2 = 0"
      "rc2 = 0 \<Longrightarrow> at_end (pWalFd w2) (?B ?gs) \<and> aFrameCksum (hdr w2) = ?c ?gs" "log_hdr w2 big sz salt"
    proof -
      have g: "?B ?gs = ?B (fs @ ?fl) @ frames_bytes big sz salt (?c (fs @ ?fl)) ?pad" "?c ?gs = frames_cksum big sz (?c (fs @ ?fl)) ?pad"
        using log_bytes_append [of big sz ckpt salt "fs @ ?fl" ?pad] frames_cksum_append [of big sz _ "fs @ ?fl" ?pad] by simp_all
      obtain c' fd where x2: "w2 = written w1 c' fd" "at_end fd (?B (fs @ ?fl))" "rc2 = 0 \<longrightarrow> at_end fd (?B ?gs) \<and> c' = ?c ?gs"
        "reliable (pWalFd w1) \<longrightarrow> reliable fd \<and> rc2 = 0" using e2 unfolding extends_def g by blast
      show "at_end (pWalFd w2) (?B (fs @ ?fl))" "reliable (pWalFd w1) \<longrightarrow> reliable (pWalFd w2) \<and> rc2 = 0"
        "rc2 = 0 \<Longrightarrow> at_end (pWalFd w2) (?B ?gs) \<and> aFrameCksum (hdr w2) = ?c ?gs" using x2 by simp_all
      show "log_hdr w2 big sz salt" using at1(3) extends_hdr [OF e2] by simp
    qed
    have keep: "at_end (pWalFd v) (?B fs)" if "at_end (pWalFd v) (?B (fs @ gs))" for v :: "'k wal" and gs
      using that at_end_append unfolding log_bytes_append by blast
    define w3 where "w3 = (if isC then limit_log io (walFrameOffset (?m + length ps + e + 1) sz) w2 else w2)"
    have limit: "walFrameOffset (?m + length ps + e + 1) sz = length (?B ?gs)"
      using len [OF okg] by (simp add: walFrameOffset_def)
    have w3: "at_end (pWalFd w3) pre \<and> (\<exists>fd t. w3 = w2\<lparr>pWalFd := fd, truncateOnCommit := t\<rparr>) \<and> (reliable (pWalFd w2) \<longrightarrow> reliable (pWalFd w3))"
      if "at_end (pWalFd w2) pre" "length pre = length (?B ?gs)" for pre
    proof (cases isC)
      case True
      then show ?thesis using limit_log_keeps [OF that(1), of w3] that(2) limit by (simp add: w3_def)
    next
      case False
      have "w2 = w2\<lparr>pWalFd := pWalFd w2, truncateOnCommit := truncateOnCommit w2\<rparr>" by simp
      then show ?thesis unfolding w3_def if_not_P [OF False] using that(1) by blast
    qed
    show ?thesis
    proof (cases "rc2 = 0")
      case False
      show ?thesis
      proof (cases "padToSectorBoundary w2")
        case True
        then have "rc = rc2" "w' = w2" using x False rc1 l2 unfolding step1 by auto
        then show ?thesis using False at1 at2 keep by auto
      next
        case np: False
        then have "rc = rc2" "w' = w3" using x False rc1 l2 unfolding step1 w3_def by auto
        moreover have "at_end (pWalFd w3) (?B (fs @ ?fl))" using w3 [OF at2(1)] e0 [OF False np] by simp
        ultimately show ?thesis using False at1 at2 keep by auto
      qed
    next
      case rc2: True
      note at2' = at2(3) [OF rc2]
      have a3: "at_end (pWalFd w3) (?B ?gs)" "reliable (pWalFd w2) \<longrightarrow> reliable (pWalFd w3)"
        using w3 [of "?B ?gs"] at2' by auto
      obtain fd t where w3w2: "w3 = w2\<lparr>pWalFd := fd, truncateOnCommit := t\<rparr>" using w3 [of "?B ?gs"] at2' by auto
      have h3: "log_hdr w3 big sz salt" "aFrameCksum (hdr w3) = ?c ?gs" "apWiData w3 = apWiData w" "mxFrame (hdr w3) = ?m"
      proof -
        have f: "apWiData w2 = apWiData w" "mxFrame (hdr w2) = ?m"
          using extends_fields [OF conjunct1 [OF e1]] extends_fields [OF e2] lw(5) by simp_all
        show "log_hdr w3 big sz salt" using at2(4) by (simp add: w3w2 log_hdr_def)
        show "aFrameCksum (hdr w3) = ?c ?gs" "apWiData w3 = apWiData w" "mxFrame (hdr w3) = ?m" using at2' f by (simp_all add: w3w2)
      qed
      let ?ids = "map fst ps @ replicate e (fst (last ps))"
      obtain ws where ws: "idx_ok w ws" "?m \<le> length ws" "take ?m ws = pages fs" using w(2) by (auto simp: idx_holds_def)
      have ids: "\<forall>p \<in> set ?ids. p \<noteq> 0" "?ids \<noteq> []" using ps by auto
      have "idx_ok w3 ws" using ws(1) h3(3) by (simp add: idx_ok_def)
      from append_pages_from [where pg = pg, OF pg ids this ws(2) h3(4) [symmetric]] obtain d where
        d: "append_pages pg ?m ?ids w3 = (0, ?m + length ?ids, w3\<lparr>apWiData := d\<rparr>)" "idx_ok (w3\<lparr>apWiData := d\<rparr>) (pages fs @ map unat ?ids)"
        unfolding ws(3) by blast
      let ?w4 = "w3\<lparr>apWiData := d, hdr := (hdr w3)\<lparr>hdr_szPage := u16_szPage sz, mxFrame := ?m + length ?ids\<rparr>\<rparr>"
      let ?w5 = "if isC then (walIndexWriteHdr be (?w4\<lparr>hdr := (hdr ?w4)\<lparr>iChange := iChange (hdr ?w4) + 1, nPage := nT\<rparr>\<rparr>))\<lparr>iCallback := ?m + length ?ids\<rparr> else ?w4"
      have "append_frames be io pg sz ps nT isC fl w = (0, ?w5)"
        using rc1 rc2 l2 d(1) unfolding step1 Let_def by (simp add: w3_def [symmetric])
      then have r: "rc = 0" "w' = ?w5" using x by simp_all
      have pgs: "pages ?gs = pages fs @ map unat ?ids" by simp
      have f5: "apWiData w' = d" "pWalFd w' = pWalFd w3" "aFrameCksum (hdr w') = aFrameCksum (hdr w3)" "mxFrame (hdr w') = length ?gs"
        "log_hdr w' big sz salt" "isC \<Longrightarrow> aHdr w' = (hdr w', hdr w') \<and> nPage (hdr w') = nT"
        using h3(1) unfolding r(2) by (auto simp: walIndexWriteHdr_def Let_def log_hdr_def)
      have "log_state w' big sz ckpt salt ?gs"
        unfolding log_state_def f5(2-4) using f5(5) a3(1) okg h3(2) by (intro conjI) auto
      moreover have "idx_ok w' (pages ?gs)" using d(2) f5(1) unfolding pgs by (simp add: idx_ok_def)
      moreover have "\<not> isC \<Longrightarrow> e = 0" using l2 by auto
      moreover have "at_end (pWalFd w') (?B fs)" unfolding f5(2) by (rule keep [OF a3(1)])
      moreover have "reliable (pWalFd w) \<longrightarrow> reliable (pWalFd w')" using f5(2) at1(4) at2(2) a3(2) by auto
      ultimately show ?thesis using r(1) f5(6) unfolding Let_def by (intro conjI impI exI [of _ e]) auto
    qed
  qed
qed

end

end
