(* ===== verification/WalDurable.thy ===== *)
theory WalDurable
  imports WalWrite
begin

text \<open>
  The log on files of the unix VFS: what a crash leaves in the file, recovery finds.
\<close>

section \<open>The methods of the unix VFS\<close>

text \<open>The methods of \<^verbatim>\<open>os_unix.c\<close>; the locks in shared memory, its barrier and the size of a
  sector are parameters.\<close>

definition unix_io :: "(open_file wal \<Rightarrow> nat \<Rightarrow> nat \<Rightarrow> nat \<Rightarrow> nat \<times> open_file wal) \<Rightarrow> (open_file wal \<Rightarrow> open_file wal) \<Rightarrow> nat \<Rightarrow>
    open_file vfs" where
  "unix_io lk barrier sector =
     \<lparr>xRead = unixRead, xWrite = unixWrite, xTruncate = unixTruncate, xSync = (\<lambda>fd flags. unixSync fd),
      xFileSize = unixFileSize, xSectorSize = (\<lambda>fd. sector),
      xSizeHint = (\<lambda>fd n. snd (fcntlSizeHint fd n)), xUnfetch = (\<lambda>fd. snd (unixUnfetch fd False)), xShmLock = lk, xShmBarrier = barrier\<rparr>"

definition quiet :: "open_file \<Rightarrow> bool" where
  "quiet p \<longleftrightarrow> fAnswers p = []"

definition shm_contract :: "(open_file wal \<Rightarrow> nat \<Rightarrow> nat \<Rightarrow> nat \<Rightarrow> nat \<times> open_file wal) \<Rightarrow> (open_file wal \<Rightarrow> open_file wal) \<Rightarrow> bool" where
  "shm_contract lk barrier \<longleftrightarrow>
     (\<forall>w i n f. file_ok (pWalFd w) \<longrightarrow> shm_law fContent file_ok quiet w (snd (lk w i n f))) \<and>
     (\<forall>w. file_ok (pWalFd w) \<longrightarrow> shm_law fContent file_ok quiet w (barrier w))"

lemma unixTruncate_ok:
  assumes "unixTruncate p n = (rc, p')" "file_ok p"
  shows "file_ok p' \<and> (n \<le> length (fContent p) \<longrightarrow> take n (fContent p') = take n (fContent p)) \<and>
    (\<forall>i < n. file_byte (fContent p') i = file_byte (fContent p) i) \<and> (quiet p \<longrightarrow> quiet p')"
proof -
  define m where "m = (if fChunk p > 0 then (n + fChunk p - 1) div fChunk p * fChunk p else n)"
  have m: "n \<le> m"
  proof (cases "fChunk p > 0")
    case True
    have "n + fChunk p - 1 < (n + fChunk p - 1) div fChunk p * fChunk p + fChunk p"
      using div_mult_mod_eq [of "n + fChunk p - 1" "fChunk p"] mod_less_divisor [OF True, of "n + fChunk p - 1"] by linarith
    then show ?thesis using True by (simp add: m_def)
  qed (simp add: m_def)
  obtain e p1 where t: "robust_ftruncate (fAnswers p) p m = (e, p1)" by (rule prod.exhaust)
  note r = robust_ftruncate_ok [OF t]
  show ?thesis
  proof (cases e)
    case None
    then have "p' = (if m < fMmapSize p1 then p1\<lparr>fMmapSize := m\<rparr> else p1)"
      using assms(1) t by (auto simp: unixTruncate_def m_def [symmetric])
    then show ?thesis using r None m assms(2) by (auto simp: file_ok_def quiet_def file_byte_take)
  next
    case (Some x)
    then have "p' = p1\<lparr>fErrno := x\<rparr>" using assms(1) t by (auto simp: unixTruncate_def m_def [symmetric])
    then show ?thesis using r Some assms(2) by (auto simp: file_ok_def quiet_def)
  qed
qed

lemma unix_contract:
  assumes "shm_contract lk barrier"
  shows "wal_vfs (unix_io lk barrier sector) fContent file_ok quiet"
proof (unfold_locales, goal_cases)
  case (1 k n off rc d k')
  then show ?case using unixRead_ok [of k n off rc d k'] by (auto simp: unix_io_def quiet_def)
next
  case (2 k d off rc k')
  from 2 unixWrite_ok [of k d off rc k'] obtain m where
    m: "file_ok k'" "write_post k off d m k'" "undisturbed k d m k'" "rc = 0 \<longleftrightarrow> m = length d" by (auto simp: unix_io_def)
  then have "m \<le> length d \<and> fContent k' = file_patch (fContent k) off (take m d)" by (simp add: write_post_def)
  then show ?case using m by (auto simp: undisturbed_def quiet_def)
next
  case (3 k f rc k')
  then show ?case using unixSync_ok [of k rc k'] by (auto simp: unix_io_def quiet_def file_ok_def)
next
  case (4 k rc n k')
  then show ?case using unixFileSize_ok [of k rc n k'] by (auto simp: unix_io_def quiet_def file_ok_def)
next
  case (5 k n rc k')
  then show ?case using unixTruncate_ok [of k n rc k'] by (auto simp: unix_io_def)
next
  case (6 k n)
  then show ?case using fcntlSizeHint_ok [of k n "fst (fcntlSizeHint k n)" "snd (fcntlSizeHint k n)"] by (auto simp: unix_io_def quiet_def)
next
  case (7 k)
  then show ?case using unixUnfetch_ok [of k False "fst (unixUnfetch k False)" "snd (unixUnfetch k False)"] by (auto simp: unix_io_def quiet_def)
next
  case (8 w i n f rc w')
  then show ?case using assms by (auto simp: unix_io_def shm_contract_def) (metis snd_conv)
next
  case (9 w)
  then show ?case using assms by (auto simp: unix_io_def shm_contract_def)
qed

text \<open>A connection that is alone gets every lock.\<close>

definition alone_lock :: "open_file wal \<Rightarrow> nat \<Rightarrow> nat \<Rightarrow> nat \<Rightarrow> nat \<times> open_file wal" where
  "alone_lock w i n f = (0, w)"

definition alone_barrier :: "open_file wal \<Rightarrow> open_file wal" where
  "alone_barrier w = w"

lemma alone_contract: "shm_contract alone_lock alone_barrier"
  by (simp add: shm_contract_def alone_lock_def alone_barrier_def shm_law_def)

interpretation alone: wal_vfs "unix_io alone_lock alone_barrier 4096" fContent file_ok quiet
  by (rule unix_contract [OF alone_contract])


section \<open>Frames where the log has them\<close>

lemma log_frames_data:
  "i < length (log_frames big sz salt c f) \<Longrightarrow>
    snd (snd (log_frames big sz salt c f ! i)) = take sz (drop (i * (sz + 24) + 24) f) \<and> i * (sz + 24) + 24 + sz \<le> length f"
proof (induction "length f" arbitrary: f c i rule: less_induct)
  case less
  let ?fr = "(get4 f 0, get4 f 4, take sz (drop 24 f))"
  show ?case
  proof (cases "24 + sz \<le> length f \<and> get4 f 0 \<noteq> 0 \<and> take 24 f = frame_header big sz salt c ?fr")
    case False
    then have "log_frames big sz salt c f = []" using log_frames_short [of f sz] log_frames_stop [of f big sz salt c] by fastforce
    then show ?thesis using less.prems by simp
  next
    case True
    let ?g = "drop (24 + sz) f"
    have e: "log_frames big sz salt c f = ?fr # log_frames big sz salt (frame_cksum big sz c ?fr) ?g"
      using True by (intro log_frames_step) auto
    show ?thesis
    proof (cases i)
      case 0
      then show ?thesis using True unfolding e by simp
    next
      case (Suc j)
      have "j < length (log_frames big sz salt (frame_cksum big sz c ?fr) ?g)" using less.prems Suc unfolding e by simp
      moreover have "length ?g < length f" using conjunct1 [OF True] unfolding length_drop by linarith
      ultimately have ih: "snd (snd (log_frames big sz salt (frame_cksum big sz c ?fr) ?g ! j)) = take sz (drop (j * (sz + 24) + 24) ?g) \<and>
          j * (sz + 24) + 24 + sz \<le> length ?g" by (intro less.hyps)
      moreover have "j * (sz + 24) + 24 + (24 + sz) = i * (sz + 24) + 24" by (simp add: Suc algebra_simps)
      ultimately show ?thesis using conjunct1 [OF True] unfolding e Suc nth_Cons_Suc drop_drop length_drop
        by (simp add: algebra_simps le_diff_conv2)
    qed
  qed
qed

lemma u16_szPage_value: "valid_szPage sz \<Longrightarrow> unat (u16_szPage sz AND 0xfe00) + unat (u16_szPage sz AND 1) * 2 ^ 16 = sz"
  unfolding valid_szPage_def by (elim insertE emptyE) (simp_all add: u16_szPage_def)

text \<open>A connection that serves what is committed in a log: it finds the last committed frame of every
  page, and reads its content.\<close>

definition serves_log :: "'k vfs \<Rightarrow> (nat \<Rightarrow> nat) \<Rightarrow> 'k wal \<Rightarrow> nat \<Rightarrow> frame list \<Rightarrow> bool" where
  "serves_log io walIndexPage w sz fs \<longleftrightarrow>
     mxFrame (hdr w) = last_commit fs \<and> nPage (hdr w) = commit_size fs \<and>
     (\<forall>p lock i. lock \<noteq> 0 \<longrightarrow> i = last_frame (take (last_commit fs) (pages fs)) p \<longrightarrow>
        sqlite3WalFindFrame walIndexPage w lock p = (0, i) \<and>
        (i \<noteq> 0 \<longrightarrow> (\<exists>w'. sqlite3WalReadFrame io w i sz = (0, snd (snd (fs ! (i - 1))), w'))))"

context wal_vfs
begin

lemma recover_serves:
  assumes sz: "valid_szPage sz" and salt: "length salt = 8" and pg: "\<And>h. pg h = 0"
    and f: "content (pWalFd w) = log_header big sz ckpt salt @ tail"
    and w: "ok (pWalFd w)" "reliable (pWalFd w)" "writeLock w"
    and lck: "fst (walLockExclusive io w (if ckptLock w then 2 else 1) (if ckptLock w then 6 else 7)) = 0"
  shows "\<exists>w'. walIndexRecover be io pg True w = (0, w') \<and>
    serves_log io pg w' sz (log_frames big sz salt (header_cksum big sz ckpt salt) tail)"
proof -
  let ?fs = "log_frames big sz salt (header_cksum big sz ckpt salt) tail"
  obtain w' where r: "walIndexRecover be io pg True w = (0, w')" "idx_ok w' (pages ?fs)" "mxFrame (hdr w') = last_commit ?fs"
    "nPage (hdr w') = commit_size ?fs" "content (pWalFd w') = content (pWalFd w)" "ok (pWalFd w')" "reliable (pWalFd w')"
    "last_commit ?fs \<noteq> 0 \<longrightarrow> hdr_szPage (hdr w') = u16_szPage sz"
    using walIndexRecover_ok [where pg = pg and be = be, OF sz salt pg f w lck] by blast
  have "mxFrame (hdr w') \<le> length (pages ?fs)" using last_commit_le [of ?fs] r(3) by simp
  note find = sqlite3WalFindFrame_ok [OF r(2) this]
  have "sqlite3WalReadFrame io w' i sz = (0, snd (snd (?fs ! (i - 1))), w'\<lparr>pWalFd := snd (snd (xRead io (pWalFd w') sz (walFrameOffset i sz + 24)))\<rparr>)"
    if i: "i = last_frame (take (last_commit ?fs) (pages ?fs)) p" "i \<noteq> 0" for i p
  proof -
    obtain j where j: "i = Suc j" using i(2) by (cases i) auto
    have l: "j < last_commit ?fs" "j < length ?fs" using last_frame_nth [of "take (last_commit ?fs) (pages ?fs)" p j] i(1) j by auto
    then have s: "hdr_szPage (hdr w') = u16_szPage sz" using r(8) by simp
    obtain rc d k where x: "xRead io (pWalFd w') sz (walFrameOffset i sz + 24) = (rc, d, k)" by (rule prod_cases3)
    note data = log_frames_data [OF l(2)]
    have h: "length (log_header big sz ckpt salt) = 32" using salt by (simp add: Let_def)
    have off: "walFrameOffset i sz + 24 = length (log_header big sz ckpt salt) + (j * (sz + 24) + 24)"
      unfolding h by (simp add: walFrameOffset_def j)
    have c: "content (pWalFd w') = log_header big sz ckpt salt @ tail" using r(5) f by simp
    have "sz < 0x20000" using sz by (auto simp: valid_szPage_def)
    from vfs_read [OF r(6) this x] have "rc = 0" "d = take sz (drop (walFrameOffset i sz + 24) (content (pWalFd w')))"
      using r(7) data unfolding c off by (simp_all add: h)
    then have "rc = 0" "d = snd (snd (?fs ! j))" using data unfolding c off by simp_all
    then show ?thesis using x unfolding sqlite3WalReadFrame_def s u16_szPage_value [OF sz] Let_def by (simp add: j)
  qed
  then have "serves_log io pg w' sz ?fs"
    unfolding serves_log_def using find pg r(3,4) by (intro conjI allI impI) auto
  then show ?thesis using r(1) by blast
qed

text \<open>A log to which a connection may append: its frames so far, or none in a new log.\<close>

end

definition log_ready :: "('k \<Rightarrow> bytes) \<Rightarrow> ('k \<Rightarrow> bool) \<Rightarrow> (nat \<Rightarrow> bytes) \<Rightarrow> 'k wal \<Rightarrow> nat \<Rightarrow> frame list \<Rightarrow> bool" where
  "log_ready content ok rnd w sz fs \<longleftrightarrow>
     valid_szPage sz \<and> ok (pWalFd w) \<and> idx_holds w fs \<and>
     (if fs = [] then mxFrame (hdr w) = 0 \<and> length (if nCkpt w = 0 then rnd 8 else aSalt (hdr w)) = 8
      else \<exists>big ckpt salt. writer_log content ok w big sz ckpt salt fs)"

context wal_vfs
begin

lemma idx_holds_same: "apWiData w' = apWiData w \<Longrightarrow> idx_holds w' fs = idx_holds w fs"
  by (simp add: idx_holds_def idx_ok_def)

lemma log_started:
  assumes w: "log_ready content ok rnd w sz fs"
    and l: "(if mxFrame (hdr w) = 0 then write_header be io rnd sz fl w else (0, w)) = (rc, w1)"
  shows "(rc = 0 \<longrightarrow> (\<exists>big ckpt salt. log_state w1 big sz ckpt salt fs) \<and> idx_holds w1 fs) \<and> (fs \<noteq> [] \<longrightarrow> rc = 0) \<and>
    (reliable (pWalFd w) \<longrightarrow> rc = 0 \<and> reliable (pWalFd w1))"
proof (cases "fs = []")
  case True
  have sz: "valid_szPage sz" using w by (simp add: log_ready_def)
  have k: "mxFrame (hdr w) = 0" "ok (pWalFd w)" "if nCkpt w = 0 then length (rnd 8) = 8 else length (aSalt (hdr w)) = 8" "idx_holds w fs"
    using w True by (auto simp: log_ready_def split: if_splits)
  have "write_header be io rnd sz fl w = (rc, w1)" using l k(1) by simp
  note h = write_header_extends [OF k(2,3) sz this]
  let ?s = "if nCkpt w = 0 then rnd 8 else aSalt (hdr w)"
  have "log_state w1 be sz (nCkpt w) ?s []" if "rc = 0"
    using h(1,5) that k(1) by (simp add: writer_log_def log_bytes_def frames_ok_def frames_cksum_def)
  moreover have "idx_holds w1 fs" using k(4) idx_holds_same [OF h(2)] by simp
  ultimately show ?thesis using True h(4) by blast
next
  case False
  then obtain big ckpt salt where s: "log_state w big sz ckpt salt fs" using w by (auto simp: log_ready_def)
  then have "mxFrame (hdr w) \<noteq> 0" using False by (simp add: writer_log_def)
  then have "rc = 0" "w1 = w" using l by auto
  then show ?thesis using s w by (auto simp: log_ready_def)
qed

lemma sqlite3WalFrames_log:
  assumes w: "log_ready content ok rnd w sz fs" "readLock w \<noteq> 0" and pg: "\<And>h. pg h = 0"
    and ps: "ps \<noteq> []" "\<forall>p \<in> set ps. fst p \<noteq> 0 \<and> length (snd p) = sz"
    and x: "sqlite3WalFrames be io pg rnd m sz ps nT isC fl w = (rc, w')"
    and rc: "reliable (pWalFd w) \<or> rc = 0 \<or> fs \<noteq> []"
  defines "new \<equiv> if rc = 0 then frame_list ps (if isC then nT else 0) else []"
  shows "(\<exists>big ckpt salt more. length salt = 8 \<and> frames_ok sz (fs @ new @ more) \<and>
      file_begins content ok (pWalFd w') (log_bytes big sz ckpt salt (fs @ new @ more))) \<and> (reliable (pWalFd w) \<longrightarrow> rc = 0)"
proof -
  obtain rc1 w1 where l1: "(if mxFrame (hdr w) = 0 then write_header be io rnd sz fl w else (0, w)) = (rc1, w1)" by (rule prod.exhaust)
  have r: "sqlite3WalFrames be io pg rnd m sz ps nT isC fl w =
      (if rc1 \<noteq> 0 then (rc1, w1) else append_frames be io pg sz ps nT isC fl w1)"
    unfolding sqlite3WalFrames_def walRestartLog_def if_P [OF w(2)] prod.case by (simp add: l1)
  note start = log_started [OF w(1) l1]
  have rc1: "rc1 = 0"
  proof (rule ccontr)
    assume "rc1 \<noteq> 0"
    then have "rc = rc1" using x unfolding r by simp
    then show False using rc start \<open>rc1 \<noteq> 0\<close> by blast
  qed
  then obtain big ckpt salt where s: "log_state w1 big sz ckpt salt fs" "idx_holds w1 fs" using start by blast
  have salt: "length salt = 8" "frames_ok sz fs" using s(1) by (auto simp: writer_log_def log_hdr_def)
  have "append_frames be io pg sz ps nT isC fl w1 = (rc, w')" using x rc1 unfolding r by simp
  note a = append_frames_ok [where pg = pg, OF s pg ps this]
  have "\<exists>big ckpt salt more. length salt = 8 \<and> frames_ok sz (fs @ new @ more) \<and>
      file_begins content ok (pWalFd w') (log_bytes big sz ckpt salt (fs @ new @ more))"
  proof (cases "rc = 0")
    case True
    then obtain e where "log_state w' big sz ckpt salt (fs @ new @ replicate e (fst (last ps), nT, snd (last ps)))"
      using a unfolding new_def Let_def by auto
    then have "frames_ok sz (fs @ new @ replicate e (fst (last ps), nT, snd (last ps)))"
      "file_begins content ok (pWalFd w') (log_bytes big sz ckpt salt (fs @ new @ replicate e (fst (last ps), nT, snd (last ps))))"
      by (simp_all only: writer_log_def)
    then show ?thesis using salt(1) by blast
  next
    case False
    then have "fs @ new @ [] = fs" by (simp add: new_def)
    then show ?thesis using a salt by metis
  qed
  then show ?thesis using a start by blast
qed

text \<open>Recovery, by a connection on another host too, finds at least what has been written.\<close>

lemma frames_recovered:
  assumes w: "log_ready content ok rnd w sz fs" "readLock w \<noteq> 0" and pg: "\<And>h. pg h = 0"
    and ps: "ps \<noteq> []" "\<forall>p \<in> set ps. fst p \<noteq> 0 \<and> length (snd p) = sz"
    and x: "sqlite3WalFrames be io pg rnd m sz ps nT isC fl w = (rc, w')" and rc: "reliable (pWalFd w) \<or> rc = 0 \<or> fs \<noteq> []"
    and r: "content (pWalFd r) = content (pWalFd w')" "ok (pWalFd r)" "reliable (pWalFd r)" "writeLock r"
    and lck: "fst (walLockExclusive io r (if ckptLock r then 2 else 1) (if ckptLock r then 6 else 7)) = 0"
  defines "new \<equiv> if rc = 0 then frame_list ps (if isC then nT else 0) else []"
  shows "\<exists>more r'. walIndexRecover be' io pg True r = (0, r') \<and> serves_log io pg r' sz (fs @ new @ more) \<and>
    (reliable (pWalFd w) \<longrightarrow> rc = 0)"
proof -
  obtain big ckpt salt more where s: "length salt = 8" "frames_ok sz (fs @ new @ more)"
    "file_begins content ok (pWalFd w') (log_bytes big sz ckpt salt (fs @ new @ more))"
    and rc0: "reliable (pWalFd w) \<longrightarrow> rc = 0"
    using sqlite3WalFrames_log [where pg = pg, OF w pg ps x rc] unfolding new_def by blast
  let ?gs = "fs @ new @ more" and ?c = "header_cksum big sz ckpt salt"
  obtain tail where "content (pWalFd w') = log_bytes big sz ckpt salt ?gs @ tail" using s(3) by (auto simp: file_begins_def)
  then have f: "content (pWalFd r) = log_header big sz ckpt salt @ (frames_bytes big sz salt ?c ?gs @ tail)"
    unfolding r(1) log_bytes_def append_assoc .
  have sz: "valid_szPage sz" using w(1) by (simp add: log_ready_def)
  from recover_serves [where pg = pg and be = be', OF sz s(1) pg f r(2-4) lck] log_frames_bytes [OF s(1,2), of big ?c tail]
  obtain r' where "walIndexRecover be' io pg True r = (0, r')"
    "serves_log io pg r' sz (?gs @ log_frames big sz salt (frames_cksum big sz ?c ?gs) tail)" by auto
  then show ?thesis using rc0 unfolding append_assoc by blast
qed

end

text \<open>A log with a commit at its end does not lose it when frames follow.\<close>

lemma last_commit_append: "last_commit ys \<noteq> 0 \<Longrightarrow> last_commit (xs @ ys) = length xs + last_commit ys"
  unfolding last_commit_def by (auto simp: dropWhile_append)


lemma last_commit_mono: "last_commit xs \<le> last_commit (xs @ ys)"
proof (cases "last_commit ys = 0")
  case True
  then have "dropWhile (\<lambda>(p, n, d). n = 0) (rev ys) = []" by (simp add: last_commit_def)
  then show ?thesis unfolding last_commit_def dropWhile_eq_Nil_conv rev_append by (subst dropWhile_append2) auto
next
  case False
  then show ?thesis using last_commit_append [OF False, of xs] last_commit_le [of xs] by linarith
qed

lemma last_commit_frame_list: "ps \<noteq> [] \<Longrightarrow> n \<noteq> 0 \<Longrightarrow> last_commit (frame_list ps n) = length ps"
proof (induction ps)
  case (Cons p ps)
  show ?case
  proof (cases "ps = []")
    case True
    then show ?thesis using Cons.prems by (simp add: last_commit_def)
  next
    case False
    then have "last_commit (frame_list ps n) = length ps" using Cons by simp
    then show ?thesis using last_commit_append [of "frame_list ps n" "[(fst p, 0, snd p)]"] False by simp
  qed
qed simp

text \<open>C5. Commits survive crashes. Frames are written after a log \<^verbatim>\<open>fs\<close>, and the process may die at any
  time after that; only the file remains. Whoever then recovers the index from the file,
  on a host of either byte order, serves a log that begins with the old frames and, unless the
  writing has failed, the new ones: it finds the last committed frame of every page and reads
  its content. What was committed before is in it even after a failure, and the new frames
  when they are a commit.\<close>

theorem commit_survives_crash:
  assumes "shm_contract lk barrier" "\<forall>h. walIndexPage h = 0"
    and "log_ready fContent file_ok rnd w sz fs" "readLock w \<noteq> 0" "ps \<noteq> []" "\<forall>p \<in> set ps. fst p \<noteq> 0 \<and> length (snd p) = sz"
    and "sqlite3WalFrames be (unix_io lk barrier sector) walIndexPage rnd m sz ps nT isC fl w = (rc, w')" "quiet (pWalFd w) \<or> rc = 0 \<or> fs \<noteq> []"
    and "fContent (pWalFd r) = fContent (pWalFd w')" "file_ok (pWalFd r)" "quiet (pWalFd r)" "writeLock r"
    and "fst (walLockExclusive (unix_io lk barrier sector) r (if ckptLock r then 2 else 1) (if ckptLock r then 6 else 7)) = 0"
  shows "\<exists>log r'. walIndexRecover be' (unix_io lk barrier sector) walIndexPage True r = (0, r') \<and>
    serves_log (unix_io lk barrier sector) walIndexPage r' sz log \<and> take (length fs) log = fs \<and>
    (quiet (pWalFd w) \<longrightarrow> rc = 0) \<and> last_commit fs \<le> mxFrame (hdr r') \<and>
    (rc = 0 \<longrightarrow> take (length ps) (drop (length fs) log) = frame_list ps (if isC then nT else 0)) \<and>
    (rc = 0 \<and> isC \<and> nT \<noteq> 0 \<longrightarrow> length fs + length ps \<le> mxFrame (hdr r'))"
proof -
  let ?new = "if rc = 0 then frame_list ps (if isC then nT else 0) else []"
  have pg: "\<And>h. walIndexPage h = 0" using assms(2) by blast
  obtain more r' where r: "walIndexRecover be' (unix_io lk barrier sector) walIndexPage True r = (0, r')"
    "serves_log (unix_io lk barrier sector) walIndexPage r' sz (fs @ ?new @ more)" "quiet (pWalFd w) \<longrightarrow> rc = 0"
    using wal_vfs.frames_recovered [where pg = walIndexPage, OF unix_contract [OF assms(1)] assms(3,4) pg assms(5-13)] by blast
  have mx: "mxFrame (hdr r') = last_commit (fs @ ?new @ more)" using r(2) by (simp add: serves_log_def)
  have new: "length fs + length ps \<le> last_commit (fs @ ?new @ more)" if "rc = 0" isC "nT \<noteq> 0"
  proof -
    have c: "last_commit ?new = length ps" using last_commit_frame_list [OF assms(5) that(3)] that by simp
    then have "last_commit (fs @ ?new) = length fs + length ps" using last_commit_append [of ?new fs] assms(5) by simp
    then show ?thesis using last_commit_mono [of "fs @ ?new" more] by simp
  qed
  show ?thesis
  proof (rule exI [of _ "fs @ ?new @ more"], rule exI [of _ r'], intro conjI impI)
    show "last_commit fs \<le> mxFrame (hdr r')" unfolding mx by (rule last_commit_mono)
    show "length fs + length ps \<le> mxFrame (hdr r')" if "rc = 0 \<and> isC \<and> nT \<noteq> 0" unfolding mx using new that by blast
  qed (use r in simp_all)
qed


definition example_file :: "bytes \<Rightarrow> open_file" where
  "example_file f = \<lparr>fContent = f, fMapped = False, fMmapSize = 0, fMmapMax = 0, fFetchOut = 0, fChunk = 0, fBlkSize = 4096,
      fDirSync = True, fErrno = 0, fAnswers = [], fShm = 0, fShmNode = shm_alone\<rparr>"

definition example_wal :: "bytes \<Rightarrow> open_file wal" where
  "example_wal f =
     \<lparr>apWiData = empty_block, hdr = zero_hdr, wal_szPage = 0, nCkpt = 0,
      pWalFd = example_file f, pDbFd = example_file [],
      aHdr = (zero_hdr, zero_hdr), pInfo = \<lparr>nBackfill = 0, aReadMark = [0, 0, 0, 0, 0]\<rparr>, readLock = 1, writeLock = True,
      ckptLock = False, exclusiveMode = 0, shmReadOnly = False, syncHeader = True, padToSectorBoundary = True,
      truncateOnCommit = False, mxWalSize = -1, iCallback = 0\<rparr>"

lemma commit_survives_crash_witness:
  "let io = unix_io alone_lock alone_barrier 4096;
       w' = snd (sqlite3WalFrames False io (\<lambda>h. 0) (\<lambda>n. replicate n 7) True 512 [(2, replicate 512 1), (1, replicate 512 5)] 2 True 0x22 (example_wal []))
   in \<exists>log r'. walIndexRecover True io (\<lambda>h. 0) True (example_wal (fContent (pWalFd w'))) = (0, r') \<and> serves_log io (\<lambda>h. 0) r' 512 log \<and>
        take 2 log = [(2, 0, replicate 512 1), (1, 2, replicate 512 5)] \<and> 2 \<le> mxFrame (hdr r')"
proof -
  let ?io = "unix_io alone_lock alone_barrier 4096" and ?ps = "[(2, replicate 512 1), (1, replicate 512 5)] :: page list"
  let ?x = "sqlite3WalFrames False ?io (\<lambda>h. 0) (\<lambda>n. replicate n 7) True 512 ?ps 2 True 0x22 (example_wal [])"
  let ?r = "example_wal (fContent (pWalFd (snd ?x)))"
  have ready: "log_ready fContent file_ok (\<lambda>n. replicate n 7) (example_wal []) 512 []"
    by (simp add: log_ready_def valid_szPage_def example_wal_def example_file_def file_ok_def idx_holds_def idx_ok_def pages_def zero_hdr_def)
      (intro exI [of _ "[]"], simp)
  have "\<exists>log r'. walIndexRecover True ?io (\<lambda>h. 0) True ?r = (0, r') \<and> serves_log ?io (\<lambda>h. 0) r' 512 log \<and>
    take (length ([] :: frame list)) log = [] \<and> (quiet (pWalFd (example_wal [])) \<longrightarrow> fst ?x = 0) \<and> last_commit [] \<le> mxFrame (hdr r') \<and>
    (fst ?x = 0 \<longrightarrow> take (length ?ps) (drop (length ([] :: frame list)) log) = frame_list ?ps (if True then 2 else 0)) \<and>
    (fst ?x = 0 \<and> True \<and> (2 :: u32) \<noteq> 0 \<longrightarrow> length ([] :: frame list) + length ?ps \<le> mxFrame (hdr r'))"
    by (rule commit_survives_crash [OF alone_contract _ ready, where ps = ?ps and be = False and isC = True and m = True and fl = "0x22" and rc = "fst ?x" and w' = "snd ?x"])
      (simp_all add: example_wal_def example_file_def quiet_def file_ok_def walLockExclusive_def unix_io_def alone_lock_def)
  moreover have "quiet (pWalFd (example_wal []))" by (simp add: quiet_def example_wal_def example_file_def)
  ultimately show ?thesis unfolding Let_def by (auto simp: numeral_2_eq_2)
qed

end
