(* ===== verification/WalRun.thy ===== *)
theory WalRun
  imports WalDurable
begin

text \<open>
  Writers and readers of one log. The writers follow each other; each may write frames, commit,
  roll back, or die in the middle of anything, and system calls may fail. A reader keeps the
  copy of the header it has begun with, and looks up pages in the index that the writers
  change meanwhile.
\<close>

section \<open>What each operation does to the index\<close>

text \<open>Writing to the file changes neither the index nor the position in it.\<close>

definition same_index :: "'k wal \<Rightarrow> 'k wal \<Rightarrow> bool" where
  "same_index w w' \<longleftrightarrow> apWiData w' = apWiData w \<and> mxFrame (hdr w') = mxFrame (hdr w) \<and> aHdr w' = aHdr w"

lemma same_index_refl: "same_index w w" by (simp add: same_index_def)

lemma same_index_trans: "same_index w w1 \<Longrightarrow> same_index w1 w2 \<Longrightarrow> same_index w w2" by (simp add: same_index_def)

lemma walWriteOneFrame_index: "walWriteOneFrame be io sp fl sz p n off w = (rc, w') \<Longrightarrow> same_index w w'"
  by (auto simp: walWriteOneFrame_def walEncodeFrame_def Let_def same_index_def split: prod.splits if_splits)

lemma write_frames_index: "write_frames be io fl sz ps n off w = (rc, off', w') \<Longrightarrow> same_index w w'"
proof (induction ps arbitrary: off w)
  case Nil
  then show ?case by (simp add: same_index_refl)
next
  case (Cons p ps)
  obtain rc1 w1 where l: "walWriteOneFrame be io 0 fl sz p (if ps = [] then n else 0) off w = (rc1, w1)" by (rule prod.exhaust)
  note s = walWriteOneFrame_index [OF l]
  show ?case
  proof (cases "rc1 = 0")
    case True
    then have "write_frames be io fl sz ps n (off + (sz + 24)) w1 = (rc, off', w')" using Cons.prems l by simp
    then show ?thesis using same_index_trans [OF s Cons.IH] by blast
  qed (use Cons.prems l s in simp)
qed

lemma pad_frames_index: "pad_frames be io sp fl sz p n off e w = (rc, e', w') \<Longrightarrow> same_index w w'"
proof (induction "sp - off" arbitrary: off e w rule: less_induct)
  case less
  obtain rc1 w1 where l: "walWriteOneFrame be io sp fl sz p n off w = (rc1, w1)" by (rule prod.exhaust)
  note s = walWriteOneFrame_index [OF l]
  have step: "pad_frames be io sp fl sz p n off e w = (if off < sp then if rc1 \<noteq> 0 then (rc1, e, w1)
      else pad_frames be io sp fl sz p n (off + (sz + 24)) (e + 1) w1 else (0, e, w))"
    using l by (subst pad_frames.simps) simp
  consider "\<not> off < sp" | "off < sp" "rc1 \<noteq> 0" | "off < sp" "rc1 = 0" by blast
  then show ?case
  proof cases
    case 1 then show ?thesis using less.prems unfolding step by (simp add: same_index_refl)
  next
    case 2 then show ?thesis using less.prems s unfolding step by simp
  next
    case 3
    then have "pad_frames be io sp fl sz p n (off + (sz + 24)) (e + 1) w1 = (rc, e', w')" using less.prems unfolding step by simp
    moreover have "sp - (off + (sz + 24)) < sp - off" using 3(1) by linarith
    ultimately show ?thesis using same_index_trans [OF s less.hyps] by blast
  qed
qed

lemma end_transaction_index: "end_transaction be io fl sz p n off w = (rc, e, w') \<Longrightarrow> same_index w w'"
  by (auto simp: end_transaction_def Let_def same_index_refl split: if_splits prod.splits dest: pad_frames_index)
    (simp_all add: same_index_def)

lemma limit_log_index: "same_index w (limit_log io n w)"
  by (simp add: limit_log_def walLimitSize_def same_index_def split: prod.splits)

lemma write_header_index: "write_header be io rnd sz fl w = (rc, w') \<Longrightarrow> same_index w w'"
  by (auto simp: write_header_def Let_def same_index_def split: if_splits prod.splits)

lemma idx_ok_same: "same_index w w' \<Longrightarrow> idx_ok w' ws = idx_ok w ws"
  by (simp add: same_index_def idx_ok_def)

text \<open>Pages that are added, until a block cannot be mapped.\<close>

lemma walIndexAppend_fails:
  "pg (walFramePage (Suc f)) \<noteq> 0 \<Longrightarrow> walIndexAppend pg w (Suc f) p = (pg (walFramePage (Suc f)), w)"
  by (simp add: walIndexAppend_def walHashGet_def Let_def)

lemma append_pages_index:
  assumes "\<forall>p \<in> set ps. p \<noteq> 0"
  shows "idx_ok w ws \<Longrightarrow> f \<le> length ws \<Longrightarrow> f = length ws \<or> f = mxFrame (hdr w) \<Longrightarrow> append_pages pg f ps w = (rc, f', w') \<Longrightarrow>
    \<exists>d ws'. w' = w\<lparr>apWiData := d\<rparr> \<and> idx_ok w' ws' \<and> f \<le> f' \<and> f \<le> length ws' \<and> take f ws' = take f ws \<and> (rc = 0 \<longrightarrow> f' \<le> length ws')"
  using assms
proof (induction ps arbitrary: f w ws)
  case Nil
  then show ?case by (intro exI [of _ "apWiData w"] exI [of _ ws]) simp
next
  case (Cons p ps)
  show ?case
  proof (cases "pg (walFramePage (Suc f)) = 0")
    case False
    then have "w' = w \<and> rc \<noteq> 0 \<and> f' = Suc f" using Cons.prems(4) by (simp add: walIndexAppend_fails) blast
    then show ?thesis using Cons.prems by (intro exI [of _ "apWiData w"] exI [of _ ws]) simp
  next
    case True
    have "unat p \<noteq> 0" using Cons.prems(5) by (simp add: unat_eq_0)
    from walIndexAppend_ok [of w ws f "unat p" pg, OF Cons.prems(1-3) this True] obtain d where
      d: "walIndexAppend pg w (Suc f) (unat p) = (0, w\<lparr>apWiData := d\<rparr>)" "idx_ok (w\<lparr>apWiData := d\<rparr>) (take f ws @ [unat p])" by blast
    let ?ws = "take f ws @ [unat p]"
    have l: "length ?ws = Suc f" using Cons.prems(2) by simp
    have "append_pages pg (Suc f) ps (w\<lparr>apWiData := d\<rparr>) = (rc, f', w')" using Cons.prems(4) d(1) by simp
    then have "\<exists>d' ws'. w' = w\<lparr>apWiData := d\<rparr>\<lparr>apWiData := d'\<rparr> \<and> idx_ok w' ws' \<and> Suc f \<le> f' \<and> Suc f \<le> length ws' \<and>
        take (Suc f) ws' = take (Suc f) ?ws \<and> (rc = 0 \<longrightarrow> f' \<le> length ws')"
      by (intro Cons.IH [OF d(2)]) (use l Cons.prems(5) in auto)
    then obtain d' ws' where r: "w' = w\<lparr>apWiData := d\<rparr>\<lparr>apWiData := d'\<rparr>" "idx_ok w' ws'" "Suc f \<le> f'" "Suc f \<le> length ws'"
        "take (Suc f) ws' = take (Suc f) ?ws" "rc = 0 \<longrightarrow> f' \<le> length ws'" by blast
    have "take f ws' = take f (take (Suc f) ws')" by simp
    also have "\<dots> = take f ?ws" unfolding r(5) by simp
    also have "\<dots> = take f ws" using Cons.prems(2) by simp
    finally have "take f ws' = take f ws" .
    then show ?thesis using r by (intro exI [of _ d'] exI [of _ ws']) simp
  qed
qed


text \<open>The index covers the position of the writer, which is not before the last commit.\<close>

definition writer_index :: "'k wal \<Rightarrow> nat list \<Rightarrow> bool" where
  "writer_index w ws \<longleftrightarrow> idx_ok w ws \<and> mxFrame (fst (aHdr w)) \<le> mxFrame (hdr w) \<and> mxFrame (hdr w) \<le> length ws"

text \<open>An operation that keeps the frames up to the last commit, and does not go back behind it.\<close>

definition keeps_commits :: "'k wal \<Rightarrow> nat list \<Rightarrow> 'k wal \<Rightarrow> bool" where
  "keeps_commits w ws w' \<longleftrightarrow> (\<exists>ws'. writer_index w' ws' \<and> mxFrame (fst (aHdr w)) \<le> mxFrame (fst (aHdr w')) \<and>
     take (mxFrame (fst (aHdr w))) ws' = take (mxFrame (fst (aHdr w))) ws)"

lemma writer_index_same: "same_index w w' \<Longrightarrow> writer_index w' ws = writer_index w ws"
  by (simp add: writer_index_def idx_ok_same) (simp add: same_index_def)

lemma keeps_same: "writer_index w ws \<Longrightarrow> same_index w w' \<Longrightarrow> keeps_commits w ws w'"
  unfolding keeps_commits_def using writer_index_same [of w w'] by (intro exI [of _ ws]) (simp add: same_index_def)

lemma keeps_from_same: "same_index w w1 \<Longrightarrow> keeps_commits w1 ws w' \<Longrightarrow> keeps_commits w ws w'"
  by (simp add: keeps_commits_def same_index_def)

lemma append_frames_keeps:
  assumes w: "writer_index w ws" and ps: "\<forall>p \<in> set ps. fst p \<noteq> 0" "ps \<noteq> []"
    and x: "append_frames be io pg sz ps nT isC fl w = (rc, w')"
  shows "keeps_commits w ws w'"
proof -
  let ?m = "mxFrame (hdr w)"
  obtain rc1 o1 w1 where l1: "write_frames be io fl sz ps (if isC then nT else 0) (walFrameOffset (?m + 1) sz) w = (rc1, o1, w1)"
    by (rule prod_cases3)
  obtain rc2 e w2 where l2: "(if isC then end_transaction be io fl sz (last ps) nT o1 w1 else (0, 0, w1)) = (rc2, e, w2)"
    by (rule prod_cases3)
  define w3 where "w3 = (if isC then limit_log io (walFrameOffset (?m + length ps + e + 1) sz) w2 else w2)"
  let ?ids = "map fst ps @ replicate e (fst (last ps))"
  obtain rc4 f w4 where l4: "append_pages pg ?m ?ids w3 = (rc4, f, w4)" by (rule prod_cases3)
  have s1: "same_index w w1" by (rule write_frames_index [OF l1])
  have s2: "same_index w w2"
  proof (cases isC)
    case True
    then have "end_transaction be io fl sz (last ps) nT o1 w1 = (rc2, e, w2)" using l2 by simp
    from same_index_trans [OF s1 end_transaction_index [OF this]] show ?thesis .
  qed (use l2 s1 in simp)
  have s3: "same_index w w3" using same_index_trans [OF s2 limit_log_index] s2 by (simp add: w3_def)
  have w3: "idx_ok w3 ws" "?m \<le> length ws" "mxFrame (hdr w3) = ?m" "aHdr w3 = aHdr w"
    using w idx_ok_same [OF s3] s3 by (auto simp: writer_index_def same_index_def)
  have "\<forall>p \<in> set ?ids. p \<noteq> 0" using ps by auto
  from append_pages_index [OF this w3(1,2) _ l4] w3(3) obtain d ws' where
    d: "w4 = w3\<lparr>apWiData := d\<rparr>" "idx_ok w4 ws'" "?m \<le> f" "?m \<le> length ws'" "take ?m ws' = take ?m ws" "rc4 = 0 \<longrightarrow> f \<le> length ws'"
    by auto
  let ?w5 = "w4\<lparr>hdr := (hdr w4)\<lparr>hdr_szPage := u16_szPage sz, mxFrame := f\<rparr>\<rparr>"
  let ?w6 = "(walIndexWriteHdr be (?w5\<lparr>hdr := (hdr ?w5)\<lparr>iChange := iChange (hdr ?w5) + 1, nPage := nT\<rparr>\<rparr>))\<lparr>iCallback := f\<rparr>"
  have r: "(rc, w') = (if rc1 \<noteq> 0 then (rc1, w1) else if rc2 \<noteq> 0 \<and> padToSectorBoundary w2 then (rc2, w2)
      else if rc2 \<noteq> 0 then (rc2, w3) else if rc4 \<noteq> 0 then (rc4, w4) else if isC then (0, ?w6) else (0, ?w5))"
    using x unfolding append_frames_def Let_def l1 prod.case l2 w3_def [symmetric] l4 prod.case by (rule sym)
  have mx: "mxFrame (fst (aHdr w)) \<le> ?m" using w by (simp add: writer_index_def)
  have tk: "take (mxFrame (fst (aHdr w))) ws' = take (mxFrame (fst (aHdr w))) ws"
    using arg_cong [OF d(5), of "take (mxFrame (fst (aHdr w)))"] mx by (simp add: min_def)
  consider "rc1 \<noteq> 0" "w' = w1" | "w' = w2" | "w' = w3" | "w' = w4" | "rc4 = 0" "w' = ?w6" | "rc4 = 0" "w' = ?w5"
    using r by (auto split: if_splits)
  then show ?thesis
  proof cases
    case 4
    have "writer_index w4 ws'" using d w3 mx by (simp add: writer_index_def)
    then show ?thesis unfolding 4 keeps_commits_def using tk d(1) w3(4) by (intro exI [of _ ws']) simp
  next
    case 5
    have "apWiData ?w6 = d" "mxFrame (hdr ?w6) = f" "fst (aHdr ?w6) = hdr ?w6" by (simp_all add: walIndexWriteHdr_def Let_def d(1))
    then have "writer_index w' ws'" "mxFrame (fst (aHdr w')) = f" using d 5 by (simp_all add: writer_index_def idx_ok_def)
    then show ?thesis unfolding keeps_commits_def using tk mx d(3) by (intro exI [of _ ws']) simp
  next
    case 6
    have "apWiData ?w5 = d" "mxFrame (hdr ?w5) = f" "aHdr ?w5 = aHdr w" using w3(4) by (simp_all add: d(1))
    then have "writer_index w' ws'" "aHdr w' = aHdr w" using d 6 mx by (simp_all add: writer_index_def idx_ok_def)
    then show ?thesis unfolding keeps_commits_def using tk by (intro exI [of _ ws']) simp
  qed (use keeps_same [OF w] s1 s2 s3 in auto)
qed

lemma sqlite3WalFrames_keeps:
  assumes w: "writer_index w ws" and ps: "\<forall>p \<in> set ps. fst p \<noteq> 0" "ps \<noteq> []" and lck: "readLock w \<noteq> 0"
  shows "keeps_commits w ws (snd (sqlite3WalFrames be io pg rnd m sz ps nT isC fl w))"
proof -
  obtain rc1 w1 where l1: "(if mxFrame (hdr w) = 0 then write_header be io rnd sz fl w else (0, w)) = (rc1, w1)" by (rule prod.exhaust)
  have s1: "same_index w w1" using l1 write_header_index by (cases "mxFrame (hdr w) = 0") (auto simp: same_index_refl)
  obtain rc w' where l2: "append_frames be io pg sz ps nT isC fl w1 = (rc, w')" by (rule prod.exhaust)
  have r: "sqlite3WalFrames be io pg rnd m sz ps nT isC fl w = (if rc1 \<noteq> 0 then (rc1, w1) else (rc, w'))"
    unfolding sqlite3WalFrames_def walRestartLog_def if_P [OF lck] prod.case by (simp add: l1 l2)
  have "writer_index w1 ws" using writer_index_same [OF s1] w by simp
  from append_frames_keeps [OF this ps l2] show ?thesis
    unfolding r using keeps_same [OF w s1] keeps_from_same [OF s1] by simp
qed

text \<open>Rolling back removes frames after the last commit only.\<close>

lemma cleanup_keeps:
  assumes ws: "idx_ok w ws" "mxFrame (hdr w) \<le> length ws" "c \<le> mxFrame (hdr w)" "c = mxFrame (fst (aHdr w))"
  shows "\<exists>ws'. writer_index (walCleanupHash w) ws' \<and> take c ws' = take c ws"
proof -
  have f: "hdr (walCleanupHash w) = hdr w" "aHdr (walCleanupHash w) = aHdr w" by (simp_all add: walCleanupHash_def Let_def)
  have "writer_index (walCleanupHash w) (take (mxFrame (hdr w)) ws)"
    using cleanup_idx_ok [OF ws(1,2)] ws by (simp add: writer_index_def f)
  moreover have "take c (take (mxFrame (hdr w)) ws) = take c ws" using ws(3) by (simp add: min_def)
  ultimately show ?thesis by blast
qed

lemma sqlite3WalUndo_keeps:
  assumes w: "writer_index w ws"
  shows "keeps_commits w ws (snd (snd (sqlite3WalUndo xUndo w)))"
proof (cases "writeLock w")
  case False
  then show ?thesis using keeps_same [OF w same_index_refl] by (simp add: sqlite3WalUndo_def)
next
  case True
  let ?c = "mxFrame (fst (aHdr w))" and ?w = "w\<lparr>hdr := fst (aHdr w)\<rparr>"
  have c: "?c \<le> mxFrame (hdr w)" "mxFrame (hdr w) \<le> length ws" "idx_ok ?w ws" using w by (simp_all add: writer_index_def idx_ok_def)
  have r: "snd (snd (sqlite3WalUndo xUndo w)) = (if mxFrame (hdr w) \<noteq> ?c then walCleanupHash ?w else ?w)"
    using True by (simp add: sqlite3WalUndo_def Let_def split: prod.splits)
  have f: "aHdr (walCleanupHash ?w) = aHdr w" by (simp add: walCleanupHash_def Let_def)
  have "\<exists>ws'. writer_index (walCleanupHash ?w) ws' \<and> take ?c ws' = take ?c ws"
    by (rule cleanup_keeps [OF c(3)]) (use c in simp_all)
  moreover have "writer_index ?w ws" using c by (simp add: writer_index_def)
  ultimately show ?thesis unfolding r keeps_commits_def using f by auto
qed

lemma sqlite3WalSavepointUndo_keeps:
  assumes w: "writer_index w ws" and mx: "mxFrame (fst (aHdr w)) \<le> mx"
  shows "keeps_commits w ws (snd (sqlite3WalSavepointUndo w (mx, c, nCkpt w)))"
proof (cases "mx < mxFrame (hdr w)")
  case False
  then show ?thesis using keeps_same [OF w same_index_refl] by (simp add: sqlite3WalSavepointUndo_def)
next
  case True
  let ?c = "mxFrame (fst (aHdr w))" and ?w = "w\<lparr>hdr := (hdr w)\<lparr>mxFrame := mx, aFrameCksum := c\<rparr>\<rparr>"
  have i: "idx_ok ?w ws" "mx \<le> length ws" using w True by (simp_all add: writer_index_def idx_ok_def)
  have r: "snd (sqlite3WalSavepointUndo w (mx, c, nCkpt w)) = walCleanupHash ?w" using True by (simp add: sqlite3WalSavepointUndo_def)
  have f: "aHdr (walCleanupHash ?w) = aHdr w" by (simp add: walCleanupHash_def Let_def)
  have "\<exists>ws'. writer_index (walCleanupHash ?w) ws' \<and> take ?c ws' = take ?c ws"
    by (rule cleanup_keeps [OF i(1)]) (use i mx in simp_all)
  then show ?thesis unfolding r keeps_commits_def using f by auto
qed

section \<open>Runs of writers\<close>

text \<open>A step of the connection that holds the lock on writing, or its takeover by another one, which
  begins with the header in shared memory; the old one may have died at any point. The lock
  that a reader of the log holds keeps the log from being restarted.\<close>

inductive writer_step :: "'k wal \<Rightarrow> 'k wal \<Rightarrow> bool" where
  frames: "readLock w \<noteq> 0 \<Longrightarrow> ps \<noteq> [] \<Longrightarrow> \<forall>p \<in> set ps. fst p \<noteq> 0 \<Longrightarrow>
    writer_step w (snd (sqlite3WalFrames be io pg rnd m sz ps nT isC fl w))"
| undo: "writer_step w (snd (snd (sqlite3WalUndo xUndo w)))"
| savepoint: "mxFrame (fst (aHdr w)) \<le> mx \<Longrightarrow> writer_step w (snd (sqlite3WalSavepointUndo w (mx, c, nCkpt w)))"
| takeover: "apWiData w' = apWiData w \<Longrightarrow> aHdr w' = aHdr w \<Longrightarrow> hdr w' = fst (aHdr w) \<Longrightarrow> writer_step w w'"

inductive writer_run :: "'k wal \<Rightarrow> 'k wal \<Rightarrow> bool" where
  refl: "writer_run w w"
| step: "writer_run w w1 \<Longrightarrow> writer_step w1 w2 \<Longrightarrow> writer_run w w2"

lemma writer_step_keeps: "writer_step w w' \<Longrightarrow> writer_index w ws \<Longrightarrow> keeps_commits w ws w'"
proof (induction rule: writer_step.induct)
  case (frames w ps be io pg rnd m sz nT isC fl)
  then show ?case by (intro sqlite3WalFrames_keeps)
next
  case (undo w xUndo)
  then show ?case by (rule sqlite3WalUndo_keeps)
next
  case (savepoint w mx c)
  then show ?case by (intro sqlite3WalSavepointUndo_keeps)
next
  case (takeover w' w)
  then have "writer_index w' ws" by (auto simp: writer_index_def idx_ok_def)
  then show ?case unfolding keeps_commits_def using takeover by auto
qed

lemma writer_run_keeps: "writer_run w w' \<Longrightarrow> writer_index w ws \<Longrightarrow> keeps_commits w ws w'"
proof (induction rule: writer_run.induct)
  case (refl w)
  then show ?case by (rule keeps_same [OF _ same_index_refl])
next
  case (step w w1 w2)
  let ?c = "mxFrame (fst (aHdr w))"
  obtain ws1 where 1: "writer_index w1 ws1" "?c \<le> mxFrame (fst (aHdr w1))" "take ?c ws1 = take ?c ws"
    using step by (auto simp: keeps_commits_def)
  obtain ws2 where 2: "writer_index w2 ws2" "mxFrame (fst (aHdr w1)) \<le> mxFrame (fst (aHdr w2))"
    "take (mxFrame (fst (aHdr w1))) ws2 = take (mxFrame (fst (aHdr w1))) ws1"
    using writer_step_keeps [OF step.hyps(2) 1(1)] by (auto simp: keeps_commits_def)
  have "take ?c ws2 = take ?c ws" using arg_cong [OF 2(3), of "take ?c"] 1(2,3) by (simp add: min_def)
  then show ?case unfolding keeps_commits_def using 1(2) 2(1,2) by (intro exI [of _ ws2]) simp
qed

text \<open>C9. Readers are isolated from writers: a reader that has begun after some commit finds, for
  every page, the last of the frames of its snapshot that holds the page, whatever later
  writers do, commit, roll back, fail or die.\<close>

theorem readers_keep_their_snapshot:
  assumes "writer_index w ws" "n \<le> mxFrame (fst (aHdr w))" "writer_run w w'"
    and "apWiData r = apWiData w'" "mxFrame (hdr r) = n" "readLock r \<noteq> 0" "\<forall>h. walIndexPage h = 0"
  shows "sqlite3WalFindFrame walIndexPage r (readLock r) p = (0, last_frame (take n ws) p)"
proof -
  obtain ws' where ws': "writer_index w' ws'" "mxFrame (fst (aHdr w)) \<le> mxFrame (fst (aHdr w'))"
    "take (mxFrame (fst (aHdr w))) ws' = take (mxFrame (fst (aHdr w))) ws"
    using writer_run_keeps [OF assms(3,1)] by (auto simp: keeps_commits_def)
  have "idx_ok r ws'" "mxFrame (hdr r) \<le> length ws'"
    using ws'(1,2) assms(2,4,5) by (auto simp: writer_index_def idx_ok_def)
  note find = sqlite3WalFindFrame_ok [OF this assms(6,7), of p]
  have "take n ws' = take n ws" using arg_cong [OF ws'(3), of "take n"] assms(2) by (simp add: min_def)
  then show ?thesis using find by (simp add: assms(5))
qed


lemma readers_keep_their_snapshot_witness:
  "\<exists>w :: open_file wal. mxFrame (fst (aHdr w)) = 1 \<and>
     (let w' = snd (sqlite3WalFrames False (unix_io alone_lock alone_barrier 4096) (\<lambda>h. 0) (\<lambda>n. []) True 512
                 [(5, replicate 512 3)] 9 True 0 w)
      in sqlite3WalFindFrame (\<lambda>h. 0) (w\<lparr>apWiData := apWiData w'\<rparr>) 1 5 = (0, 1))"
proof -
  let ?h = "zero_hdr\<lparr>mxFrame := 1\<rparr>"
  have "idx_ok (example_wal []) []" by (simp add: idx_ok_def)
  from walIndexAppend_ok [OF this, of 0 5 "\<lambda>h. 0"] obtain d where "idx_ok (example_wal []\<lparr>apWiData := d\<rparr>) [5]" by auto
  let ?w = "example_wal []\<lparr>apWiData := d, hdr := ?h, aHdr := (?h, ?h)\<rparr>"
  let ?w' = "snd (sqlite3WalFrames False (unix_io alone_lock alone_barrier 4096) (\<lambda>h. 0) (\<lambda>n. []) True 512
                 [(5, replicate 512 3)] 9 True 0 ?w)"
  have wi: "writer_index ?w [5]" using \<open>idx_ok (example_wal []\<lparr>apWiData := d\<rparr>) [5]\<close> by (simp add: writer_index_def idx_ok_def)
  have run: "writer_run ?w ?w'"
    by (rule writer_run.step [OF writer_run.refl writer_step.frames]) (simp_all add: example_wal_def)
  have "sqlite3WalFindFrame (\<lambda>h. 0) (?w\<lparr>apWiData := apWiData ?w'\<rparr>) (readLock (?w\<lparr>apWiData := apWiData ?w'\<rparr>)) 5
      = (0, last_frame (take 1 [5]) 5)"
    by (rule readers_keep_their_snapshot [where n = 1, OF wi _ run]) (simp_all add: example_wal_def)
  then have "sqlite3WalFindFrame (\<lambda>h. 0) (?w\<lparr>apWiData := apWiData ?w'\<rparr>) 1 5 = (0, 1)" by (simp add: example_wal_def)
  then show ?thesis unfolding Let_def by (intro exI [of _ ?w] conjI) simp_all
qed

end
