(* ===== verification/WalIter.thy ===== *)
theory WalIter
  imports WalRead
begin

text \<open>
  The iterator of the write-ahead log (\<^verbatim>\<open>src/sqlite/src/wal.c\<close>), with which a checkpoint meets
  every page once, in increasing order, and its last frame. The frames of each block of the index
  are sorted by their page, and of the frames of a page only the last one is kept; the blocks are
  then merged as they are read.

  The sublists that the sort merges lie one after the other in one array, and the result is
  written over the left one; here each is a list of its own.
\<close>

section \<open>Sorting\<close>

text \<open>The left list without its head, when that is an entry of the page.\<close>

definition skip_page :: "(nat \<Rightarrow> nat) \<Rightarrow> nat \<Rightarrow> nat list \<Rightarrow> nat list" where
  "skip_page aContent dbpage aLeft =
     (case aLeft of [] \<Rightarrow> [] | l # ls \<Rightarrow> if aContent l = dbpage then ls else aLeft)"

lemma skip_page_length: "length (skip_page c d ls) \<le> length ls"
  by (cases ls) (auto simp: skip_page_def)

function walMerge :: "(nat \<Rightarrow> nat) \<Rightarrow> nat list \<Rightarrow> nat list \<Rightarrow> nat list" where
  "walMerge aContent [] [] = []"
| "walMerge aContent (l # aLeft) [] = l # walMerge aContent (skip_page aContent (aContent l) aLeft) []"
| "walMerge aContent [] (r # aRight) = r # walMerge aContent [] aRight"
| "walMerge aContent (l # aLeft) (r # aRight) =
     (if aContent l < aContent r then l # walMerge aContent (skip_page aContent (aContent l) aLeft) (r # aRight)
      else r # walMerge aContent (skip_page aContent (aContent r) (l # aLeft)) aRight)"
  by pat_completeness auto
termination
proof (relation "measure (\<lambda>(c, ls, rs). length ls + length rs)", goal_cases)
  case (2 c l ls)
  then show ?case using skip_page_length [of c "c l" ls] by simp
next
  case (4 c l ls r rs)
  then show ?case using skip_page_length [of c "c l" ls] by simp
next
  case (5 c l ls r rs)
  then show ?case using skip_page_length [of c "c r" "l # ls"] by simp
qed simp_all

text \<open>The lists that end where the new entry begins, from the short ones on.\<close>

function merge_sublists :: "(nat \<Rightarrow> nat) \<Rightarrow> (nat \<Rightarrow> nat list) \<Rightarrow> nat \<Rightarrow> nat \<Rightarrow> nat list \<Rightarrow> nat list \<times> nat" where
  "merge_sublists aContent aSub iList iSub aMerge =
     (if bit iList iSub then merge_sublists aContent aSub iList (iSub + 1) (walMerge aContent (aSub iSub) aMerge)
      else (aMerge, iSub))"
  by pat_completeness auto
termination
proof (relation "measure (\<lambda>(c, aSub, iList, iSub, m). iList - iSub)", goal_cases)
  case (2 c aSub iList iSub m)
  then have "iList div 2 ^ iSub \<noteq> 0" by (cases "iList div 2 ^ iSub = 0") (auto simp: bit_iff_odd)
  then have "2 ^ iSub \<le> iList" by (simp add: div_eq_0_iff)
  then have "iSub < iList" using less_exp [of iSub] by linarith
  then show ?case by simp
qed simp

declare merge_sublists.simps [simp del]

fun sort_entries :: "(nat \<Rightarrow> nat) \<Rightarrow> nat list \<Rightarrow> (nat \<Rightarrow> nat list) \<Rightarrow> nat \<Rightarrow> nat list \<Rightarrow> nat \<Rightarrow> (nat \<Rightarrow> nat list) \<times> nat list \<times> nat" where
  "sort_entries aContent [] aSub iList aMerge iSub = (aSub, aMerge, iSub)"
| "sort_entries aContent (x # xs) aSub iList aMerge iSub =
     (case merge_sublists aContent aSub iList 0 [x] of (aMerge, iSub) \<Rightarrow>
        sort_entries aContent xs (aSub(iSub := aMerge)) (iList + 1) aMerge iSub)"

definition walMergesort :: "(nat \<Rightarrow> nat) \<Rightarrow> nat list \<Rightarrow> nat list" where
  "walMergesort aContent aList =
     (case sort_entries aContent aList (\<lambda>i. []) 0 [] 0 of (aSub, aMerge, iSub) \<Rightarrow>
        foldl (\<lambda>aMerge iSub. if bit (length aList) iSub then walMerge aContent (aSub iSub) aMerge else aMerge)
          aMerge [iSub + 1..<13])"

section \<open>The iterator\<close>

text \<open>Of a segment, the number of its block is kept for the pointer into it.\<close>

record wal_segment =
  iNext :: nat
  aIndex :: "nat list"
  seg_block :: nat
  seg_iZero :: nat

record wal_iterator =
  iPrior :: nat
  aSegment :: "wal_segment list"

definition seg_pgno :: "'k wal \<Rightarrow> nat \<Rightarrow> nat \<Rightarrow> nat" where
  "seg_pgno pWal iBlock j = aPgno (apWiData pWal iBlock) ! j"

fun init_segments :: "(nat \<Rightarrow> nat) \<Rightarrow> 'k wal \<Rightarrow> nat \<Rightarrow> nat \<Rightarrow> nat list \<Rightarrow> nat \<times> wal_segment list" where
  "init_segments walIndexPage pWal nSegment iLast [] = (0, [])"
| "init_segments walIndexPage pWal nSegment iLast (i # is) =
     (case walHashGet walIndexPage pWal i of (rc, _, iZero) \<Rightarrow>
        if rc \<noteq> 0 then (rc, [])
        else
          let nEntry = (if i + 1 = nSegment then iLast - iZero else block_size i);
              aIx = walMergesort (seg_pgno pWal i) [0..<nEntry]
          in case init_segments walIndexPage pWal nSegment iLast is of (rc, segs) \<Rightarrow>
               (rc, \<lparr>iNext = 0, aIndex = aIx, seg_block = i, seg_iZero = iZero + 1\<rparr> # segs))"

text \<open>Memory is for the iterator and for the sort.\<close>

definition walIteratorInit :: "(nat \<Rightarrow> nat) \<Rightarrow> bool \<Rightarrow> bool \<Rightarrow> 'k wal \<Rightarrow> nat \<times> wal_iterator" where
  "walIteratorInit walIndexPage mem_iter mem_tmp pWal =
     (let iLast = mxFrame (hdr pWal); nSegment = walFramePage iLast + 1
      in if \<not> mem_iter \<or> \<not> mem_tmp then (SQLITE_NOMEM, \<lparr>iPrior = 0, aSegment = []\<rparr>)
         else case init_segments walIndexPage pWal nSegment iLast [0..<nSegment] of (rc, segs) \<Rightarrow>
           (rc, \<lparr>iPrior = 0, aSegment = segs\<rparr>))"

text \<open>The first entry of a segment after a page.\<close>

function seg_advance :: "(nat \<Rightarrow> nat) \<Rightarrow> nat \<Rightarrow> nat list \<Rightarrow> nat \<Rightarrow> nat" where
  "seg_advance pg iMin aIx iNx =
     (if iNx < length aIx \<and> pg (aIx ! iNx) \<le> iMin then seg_advance pg iMin aIx (iNx + 1) else iNx)"
  by pat_completeness auto
termination by (relation "measure (\<lambda>(c, iMin, aIx, iNx). length aIx - iNx)") auto

declare seg_advance.simps [simp del]

text \<open>The segments from the last to the first: the least page and its frame.\<close>

fun next_page :: "'k wal \<Rightarrow> nat \<Rightarrow> nat \<Rightarrow> wal_segment list \<Rightarrow> nat \<times> nat \<times> wal_segment list" where
  "next_page pWal iMin piFrame [] = (0xFFFFFFFF, piFrame, [])"
| "next_page pWal iMin piFrame (s # segs) =
     (case next_page pWal iMin piFrame segs of (iRet, iFrame, segs) \<Rightarrow>
        let c = seg_pgno pWal (seg_block s);
            s = s\<lparr>iNext := seg_advance c iMin (aIndex s) (iNext s)\<rparr>
        in if iNext s < length (aIndex s) \<and> c (aIndex s ! iNext s) < iRet
           then (c (aIndex s ! iNext s), seg_iZero s + aIndex s ! iNext s, s # segs)
           else (iRet, iFrame, s # segs))"

definition walIteratorNext :: "'k wal \<Rightarrow> wal_iterator \<Rightarrow> nat \<Rightarrow> bool \<times> nat \<times> nat \<times> wal_iterator" where
  "walIteratorNext pWal p piFrame =
     (case next_page pWal (iPrior p) piFrame (aSegment p) of (iRet, iFrame, segs) \<Rightarrow>
        (iRet = 0xFFFFFFFF, iRet, iFrame, \<lparr>iPrior = iRet, aSegment = segs\<rparr>))"

section \<open>The sort keeps the last frame of every page\<close>

definition best :: "(nat \<Rightarrow> nat) \<Rightarrow> nat set \<Rightarrow> nat set" where
  "best c A = {j \<in> A. \<forall>i \<in> A. c i = c j \<longrightarrow> i \<le> j}"

definition sorts :: "(nat \<Rightarrow> nat) \<Rightarrow> nat set \<Rightarrow> nat list \<Rightarrow> bool" where
  "sorts c A ys \<longleftrightarrow> sorted_wrt (\<lambda>i j. c i < c j) ys \<and> set ys = best c A"

lemma skip_page_set:
  "sorted_wrt (\<lambda>i j. c i < c j) ls \<Longrightarrow> \<forall>l \<in> set ls. d \<le> c l \<Longrightarrow>
    set (skip_page c d ls) = {l \<in> set ls. c l \<noteq> d} \<and> sorted_wrt (\<lambda>i j. c i < c j) (skip_page c d ls)"
  by (cases ls) (auto simp: skip_page_def)

lemma walMerge_set:
  "sorted_wrt (\<lambda>i j. c i < c j) ls \<Longrightarrow> sorted_wrt (\<lambda>i j. c i < c j) rs \<Longrightarrow>
    set (walMerge c ls rs) = set rs \<union> {l \<in> set ls. c l \<notin> c ` set rs} \<and> sorted_wrt (\<lambda>i j. c i < c j) (walMerge c ls rs)"
proof (induction c ls rs rule: walMerge.induct)
  case (2 c l ls)
  have "skip_page c (c l) ls = ls" using 2(2) by (cases ls) (auto simp: skip_page_def)
  then show ?case using 2 by auto
next
  case (4 c l ls r rs)
  show ?case
  proof (cases "c l < c r")
    case True
    have s: "skip_page c (c l) ls = ls" using 4(3) by (cases ls) (auto simp: skip_page_def)
    have ih: "set (walMerge c ls (r # rs)) = set (r # rs) \<union> {l \<in> set ls. c l \<notin> c ` set (r # rs)}"
      "sorted_wrt (\<lambda>i j. c i < c j) (walMerge c ls (r # rs))" using 4 True s by auto
    then show ?thesis using 4(3,4) True s by (auto simp: image_iff)
  next
    case False
    have "\<forall>i \<in> set (l # ls). c r \<le> c i" using 4(3) False by force
    note skip = skip_page_set [OF 4(3) this]
    have k: "set (skip_page c (c r) (l # ls)) = {i \<in> set (l # ls). c i \<noteq> c r}" "sorted_wrt (\<lambda>i j. c i < c j) (skip_page c (c r) (l # ls))"
      using skip by blast+
    have ih: "set (walMerge c (skip_page c (c r) (l # ls)) rs) = set rs \<union> {i \<in> set (l # ls). c i \<noteq> c r \<and> c i \<notin> c ` set rs}"
      "sorted_wrt (\<lambda>i j. c i < c j) (walMerge c (skip_page c (c r) (l # ls)) rs)"
      using 4(2) False 4(4) k by auto
    show ?thesis using ih 4(3,4) False by (auto simp: image_iff)
  qed
qed auto

lemma best_sub: "best c A \<subseteq> A"
  by (auto simp: best_def)

lemma best_exists: "finite A \<Longrightarrow> j \<in> A \<Longrightarrow> \<exists>i \<in> best c A. c i = c j"
proof -
  assume A: "finite A" "j \<in> A"
  let ?B = "{i \<in> A. c i = c j}"
  have "Max ?B \<in> ?B" using A by (intro Max_in) auto
  moreover have "\<forall>i \<in> ?B. i \<le> Max ?B" using A by auto
  ultimately show ?thesis by (auto simp: best_def intro!: bexI [of _ "Max ?B"])
qed

lemma sorts_merge:
  assumes l: "sorts c A ls" and r: "sorts c B rs" and ab: "\<forall>a \<in> A. \<forall>b \<in> B. a < b" and fin: "finite B"
  shows "sorts c (A \<union> B) (walMerge c ls rs)"
proof -
  have m: "set (walMerge c ls rs) = best c B \<union> {i \<in> best c A. c i \<notin> c ` best c B}" "sorted_wrt (\<lambda>i j. c i < c j) (walMerge c ls rs)"
    using walMerge_set [of c ls rs] l r by (auto simp: sorts_def)
  have img: "c ` best c B = c ` B" using best_exists [OF fin] best_sub [of c B] by (auto simp: image_iff) (metis)+
  have "best c (A \<union> B) = best c B \<union> {i \<in> best c A. c i \<notin> c ` B}"
  proof (intro set_eqI iffI)
    fix j assume j: "j \<in> best c (A \<union> B)"
    show "j \<in> best c B \<union> {i \<in> best c A. c i \<notin> c ` B}"
    proof (cases "j \<in> B")
      case True
      then show ?thesis using j by (simp add: best_def)
    next
      case False
      then have "j \<in> A" using j by (simp add: best_def)
      moreover have "c j \<noteq> c b" if "b \<in> B" for b
      proof
        assume e: "c j = c b"
        have "b \<le> j" using j that e by (simp add: best_def)
        moreover have "j < b" using ab \<open>j \<in> A\<close> that by blast
        ultimately show False by simp
      qed
      ultimately show ?thesis using j by (auto simp: best_def)
    qed
  next
    fix j assume "j \<in> best c B \<union> {i \<in> best c A. c i \<notin> c ` B}"
    then consider "j \<in> best c B" | "j \<in> best c A" "c j \<notin> c ` B" by blast
    then show "j \<in> best c (A \<union> B)"
    proof cases
      case 1
      then show ?thesis using ab by (auto simp: best_def less_imp_le)
    next
      case 2
      have "c i \<noteq> c j" if "i \<in> B" for i using 2(2) that by (metis imageI)
      then show ?thesis using 2(1) by (auto simp: best_def)
    qed
  qed
  then show ?thesis using m img by (simp add: sorts_def)
qed

text \<open>A sublist holds the entries of the block of its bit.\<close>

definition bit_block :: "nat \<Rightarrow> nat \<Rightarrow> nat set" where
  "bit_block n i = {n div 2 ^ Suc i * 2 ^ Suc i..<n div 2 ^ i * 2 ^ i}"

lemma div_pow_step: "(n :: nat) div 2 ^ i * 2 ^ i = n div 2 ^ Suc i * 2 ^ Suc i + (if bit n i then 2 ^ i else 0)"
proof -
  have "n div 2 ^ Suc i = n div 2 ^ i div 2" by (simp only: power_Suc2 div_mult2_eq)
  moreover have "x = 2 * (x div 2) + (if odd x then 1 else 0)" for x :: nat by presburger
  ultimately have "n div 2 ^ i = 2 * (n div 2 ^ Suc i) + (if odd (n div 2 ^ i) then 1 else 0)" by metis
  then have "n div 2 ^ i * 2 ^ i = (2 * (n div 2 ^ Suc i) + (if odd (n div 2 ^ i) then 1 else 0)) * 2 ^ i" by presburger
  then show ?thesis by (simp add: bit_iff_odd algebra_simps)
qed

lemma low_ones: "\<forall>i < s. bit n i \<Longrightarrow> n mod 2 ^ s = 2 ^ s - (1 :: nat)"
proof (induction s)
  case (Suc s)
  then have "n mod 2 ^ s = 2 ^ s - 1" "bit n s" by auto
  then show ?case using take_bit_Suc_from_most [of s n] by (simp add: take_bit_eq_mod)
qed simp

lemma bit_block_carry:
  assumes "\<forall>i < s. bit n i" "\<not> bit n s"
  shows "bit (Suc n) i \<longleftrightarrow> i = s \<or> s < i \<and> bit n i"
    and "s < i \<Longrightarrow> bit_block (Suc n) i = bit_block n i" and "bit_block (Suc n) s = {Suc n - 2 ^ s..<Suc n}"
    and "Suc n mod 2 ^ s = 0"
proof -
  have m: "n mod 2 ^ s = 2 ^ s - 1" by (rule low_ones [OF assms(1)])
  have m1: "n mod 2 ^ Suc s = 2 ^ s - 1" using take_bit_Suc_from_most [of s n] assms(2) m by (simp add: take_bit_eq_mod)
  have low: "Suc n mod 2 ^ i = 0" if "i \<le> s" for i
  proof -
    have "n mod 2 ^ i = 2 ^ i - 1" using low_ones [of i n] assms(1) that by simp
    then show ?thesis using mod_Suc [of n "2 ^ i"] by simp
  qed
  have high: "Suc n mod 2 ^ Suc s = 2 ^ s" using mod_Suc [of n "2 ^ Suc s"] m1 by simp
  have d: "Suc n div 2 ^ i = n div 2 ^ i" if "s < i" for i
  proof -
    have "Suc n mod 2 ^ i mod 2 ^ Suc s = 2 ^ s"
      using high mod_mod_cancel [of "2 ^ Suc s" "2 ^ i" "Suc n"] that by (simp add: le_imp_power_dvd del: power_Suc)
    then have "Suc n mod 2 ^ i \<noteq> 0" by (metis mod_0 power_not_zero zero_neq_numeral)
    then show ?thesis by (simp add: div_Suc)
  qed
  show "bit (Suc n) i \<longleftrightarrow> i = s \<or> s < i \<and> bit n i"
  proof (cases "s < i")
    case True
    then show ?thesis using d [OF True] by (simp add: bit_iff_odd)
  next
    case False
    show ?thesis
    proof (cases "i = s")
      case True
      have "Suc n mod 2 ^ Suc s = (if bit (Suc n) s then 2 ^ s else 0) + Suc n mod 2 ^ s"
        using take_bit_Suc_from_most [of s "Suc n"] by (simp add: take_bit_eq_mod)
      then show ?thesis using high low [of s] True by (simp split: if_splits)
    next
      case False
      then have "Suc n mod 2 ^ Suc i = 0" using low [of "Suc i"] \<open>\<not> s < i\<close> by simp
      moreover have "Suc n mod 2 ^ Suc i = (if bit (Suc n) i then 2 ^ i else 0) + Suc n mod 2 ^ i"
        using take_bit_Suc_from_most [of i "Suc n"] by (simp add: take_bit_eq_mod)
      ultimately show ?thesis using False \<open>\<not> s < i\<close> by (simp split: if_splits)
    qed
  qed
  show "bit_block (Suc n) i = bit_block n i" if "s < i" using d [OF that] d [of "Suc i"] that by (simp add: bit_block_def)
  show "Suc n mod 2 ^ s = 0" by (rule low) simp
  have "Suc n div 2 ^ s * 2 ^ s = Suc n" using low [of s] by (simp add: minus_mod_eq_div_mult [symmetric])
  moreover have "Suc n div 2 ^ Suc s * 2 ^ Suc s = Suc n - 2 ^ s" using high by (simp add: minus_mod_eq_div_mult [symmetric])
  ultimately show "bit_block (Suc n) s = {Suc n - 2 ^ s..<Suc n}" by (simp add: bit_block_def)
qed

definition sublists_ok :: "(nat \<Rightarrow> nat) \<Rightarrow> (nat \<Rightarrow> nat list) \<Rightarrow> nat \<Rightarrow> bool" where
  "sublists_ok c aSub n \<longleftrightarrow> (\<forall>i. bit n i \<longrightarrow> sorts c (bit_block n i) (aSub i))"

lemma merge_sublists_ok:
  "sublists_ok c aSub n \<Longrightarrow> \<forall>i < s. bit n i \<Longrightarrow> sorts c {Suc n - 2 ^ s..<Suc n} m \<Longrightarrow> merge_sublists c aSub n s m = (m', s') \<Longrightarrow>
    (\<forall>i < s'. bit n i) \<and> \<not> bit n s' \<and> sorts c {Suc n - 2 ^ s'..<Suc n} m'"
proof (induction c aSub n s m rule: merge_sublists.induct)
  case (1 c aSub n s m)
  show ?case
  proof (cases "bit n s")
    case True
    have ones: "\<forall>i < Suc s. bit n i" using 1(3) True less_Suc_eq by auto
    have e: "n mod 2 ^ s = 2 ^ s - 1" "n mod 2 ^ Suc s = 2 ^ Suc s - 1" using low_ones [OF 1(3)] low_ones [OF ones] by blast+
    have le: "n mod 2 ^ s \<le> n" "n mod 2 ^ Suc s \<le> n" by simp_all
    have "bit_block n s = {Suc n - 2 ^ Suc s..<Suc n - 2 ^ s}"
      unfolding bit_block_def minus_mod_eq_div_mult [symmetric] e by (simp add: Suc_diff_le)
    moreover have "{Suc n - 2 ^ Suc s..<Suc n - 2 ^ s} \<union> {Suc n - 2 ^ s..<Suc n} = {Suc n - 2 ^ Suc s..<Suc n}"
      by (rule ivl_disj_un) (simp_all add: diff_le_mono2)
    ultimately have "sorts c {Suc n - 2 ^ Suc s..<Suc n} (walMerge c (aSub s) m)"
      using sorts_merge [of c "bit_block n s" "aSub s" "{Suc n - 2 ^ s..<Suc n}" m] 1(2,4) True by (auto simp: sublists_ok_def)
    moreover have "merge_sublists c aSub n (s + 1) (walMerge c (aSub s) m) = (m', s')"
      using 1(5) True by (subst (asm) merge_sublists.simps) simp
    ultimately show ?thesis using "1.IH" [OF True 1(2)] ones by simp
  next
    case False
    then have "(m, s) = (m', s')" using 1(5) unfolding merge_sublists.simps [of c aSub n s m] by simp
    then have "m' = m" "s' = s" by simp_all
    then show ?thesis using 1 False by simp
  qed
qed

text \<open>After each entry, the list that is left over covers the entries of the lowest bit.\<close>

definition merge_state :: "(nat \<Rightarrow> nat) \<Rightarrow> (nat \<Rightarrow> nat list) \<Rightarrow> nat \<Rightarrow> nat list \<Rightarrow> nat \<Rightarrow> bool" where
  "merge_state c aSub n m s \<longleftrightarrow> sublists_ok c aSub n \<and> (0 < n \<longrightarrow> bit n s \<and> n mod 2 ^ s = 0 \<and> sorts c {n - 2 ^ s..<n} m)"

lemma sort_entries_ok:
  "merge_state c aSub n m s \<Longrightarrow> sort_entries c [n..<N] aSub n m s = (aSub', m', s') \<Longrightarrow> n \<le> N \<Longrightarrow> merge_state c aSub' N m' s'"
proof (induction "N - n" arbitrary: n aSub m s)
  case 0
  then show ?case by simp
next
  case (Suc k)
  then have l: "[n..<N] = n # [Suc n..<N]" by (simp add: upt_rec)
  obtain m1 s1 where m1: "merge_sublists c aSub n 0 [n] = (m1, s1)" by (rule prod.exhaust)
  have "sorts c {Suc n - 2 ^ 0..<Suc n} [n]" by (auto simp: sorts_def best_def)
  with merge_sublists_ok [of c aSub n 0 "[n]" m1 s1] Suc.prems(1) m1
  have s1: "\<forall>i < s1. bit n i" "\<not> bit n s1" "sorts c {Suc n - 2 ^ s1..<Suc n} m1" by (auto simp: merge_state_def)
  note b = bit_block_carry [OF s1(1,2)]
  have "sublists_ok c (aSub(s1 := m1)) (Suc n)"
    unfolding sublists_ok_def
  proof (intro allI impI)
    fix i assume i: "bit (Suc n) i"
    show "sorts c (bit_block (Suc n) i) ((aSub(s1 := m1)) i)"
    proof (cases "i = s1")
      case True
      then show ?thesis using s1(3) b(3) by simp
    next
      case False
      then have "s1 < i" "bit n i" using i b(1) [of i] by blast+
      then show ?thesis using b(2) Suc.prems(1) by (simp add: merge_state_def sublists_ok_def)
    qed
  qed
  then have "merge_state c (aSub(s1 := m1)) (Suc n) m1 s1"
    unfolding merge_state_def using s1(3) b(1) [of s1] b(4) by simp
  from Suc.hyps(1) [OF _ this] Suc.hyps(2) Suc.prems(2,3) m1 l show ?case by simp
qed

lemma walMergesort_ok:
  assumes "N < 2 ^ 13"
  shows "sorts c {0..<N} (walMergesort c [0..<N])"
proof -
  obtain aSub m s where e: "sort_entries c [0..<N] (\<lambda>i. []) 0 [] 0 = (aSub, m, s)" by (rule prod_cases3)
  have st: "merge_state c aSub N m s"
    by (rule sort_entries_ok [OF _ e]) (simp_all add: merge_state_def sublists_ok_def)
  let ?f = "\<lambda>m i. if bit N i then walMerge c (aSub i) m else m"
  have r: "walMergesort c [0..<N] = foldl ?f m [s + 1..<13]" by (simp add: walMergesort_def e)
  show ?thesis
  proof (cases "N = 0")
    case True
    then have "aSub = (\<lambda>i. [])" "m = []" using e by simp_all
    then have "foldl ?f m xs = []" for xs using True by (induction xs) simp_all
    then show ?thesis using True r by (simp add: sorts_def best_def)
  next
    case False
    then have s: "bit N s" "N mod 2 ^ s = 0" "sorts c {N - 2 ^ s..<N} m" "sublists_ok c aSub N"
      using st by (simp_all add: merge_state_def)
    have "N div 2 ^ s \<noteq> 0" using s(1) by (cases "N div 2 ^ s = 0") (auto simp: bit_iff_odd)
    then have "2 ^ s \<le> N" by (simp add: div_eq_0_iff)
    then have "s < 13" using assms power_less_imp_less_exp [of "2 :: nat" s 13] by linarith
    have "sorts c {N div 2 ^ k * 2 ^ k..<N} (foldl ?f m [s + 1..<k])" if "s + 1 \<le> k" for k
      using that
    proof (induction k rule: dec_induct)
      case base
      have "N div 2 ^ s * 2 ^ s = N" using s(2) by (simp add: minus_mod_eq_div_mult [symmetric])
      then have "N div 2 ^ (s + 1) * 2 ^ (s + 1) = N - 2 ^ s" using div_pow_step [of N s] s(1) by simp
      then show ?case using s(3) by simp
    next
      case (step k)
      let ?m = "foldl ?f m [s + 1..<k]"
      have f: "foldl ?f m [s + 1..<Suc k] = ?f ?m k" using step.hyps by (simp add: upt_Suc_append)
      show ?case
      proof (cases "bit N k")
        case True
        have u: "bit_block N k \<union> {N div 2 ^ k * 2 ^ k..<N} = {N div 2 ^ Suc k * 2 ^ Suc k..<N}"
          unfolding bit_block_def
        proof (rule ivl_disj_un)
          show "N div 2 ^ Suc k * 2 ^ Suc k \<le> N div 2 ^ k * 2 ^ k" unfolding div_pow_step [of N k] by simp
          show "N div 2 ^ k * 2 ^ k \<le> N" by (rule div_times_less_eq_dividend)
        qed
        have "sorts c (bit_block N k \<union> {N div 2 ^ k * 2 ^ k..<N}) (walMerge c (aSub k) ?m)"
          by (rule sorts_merge) (use s(4) True step.IH in \<open>auto simp: sublists_ok_def bit_block_def\<close>)
        then show ?thesis unfolding f u using True by simp
      next
        case False
        have "N div 2 ^ k * 2 ^ k = N div 2 ^ Suc k * 2 ^ Suc k" unfolding div_pow_step [of N k] using False by simp
        with step.IH show ?thesis unfolding f using False by (simp only: if_False)
      qed
    qed
    from this [of 13] have "sorts c {N div 2 ^ 13 * 2 ^ 13..<N} (foldl ?f m [s + 1..<13])" using \<open>s < 13\<close> by simp
    moreover have "N div 2 ^ 13 = 0" using assms by simp
    ultimately show ?thesis unfolding r by simp
  qed
qed

section \<open>The iterator meets the pages in order\<close>

lemma seg_advance_ok:
  "\<forall>j < n. c (ix ! j) \<le> p \<Longrightarrow> n \<le> length ix \<Longrightarrow> seg_advance c p ix n = i \<Longrightarrow>
    n \<le> i \<and> i \<le> length ix \<and> (\<forall>j < i. c (ix ! j) \<le> p) \<and> (i < length ix \<longrightarrow> p < c (ix ! i))"
proof (induction c p ix n rule: seg_advance.induct)
  case (1 c p ix n)
  show ?case
  proof (cases "n < length ix \<and> c (ix ! n) \<le> p")
    case True
    then have "seg_advance c p ix (n + 1) = i" using 1(4) by (subst (asm) seg_advance.simps) simp
    from "1.IH" [OF True _ _ this] show ?thesis using 1(2) True less_Suc_eq by auto
  next
    case False
    then have "seg_advance c p ix n = n" unfolding seg_advance.simps [of c p ix n] by (rule if_not_P)
    then have "i = n" using 1(4) by simp
    then show ?thesis using 1(2,3) False by auto
  qed
qed

definition seg_entries :: "nat \<Rightarrow> nat \<Rightarrow> nat" where
  "seg_entries N h = min (block_size h) (N - first_frame h)"

text \<open>The segments from a block on, when all pages up to the given one have been met.\<close>

fun segs_ok :: "'k wal \<Rightarrow> nat \<Rightarrow> nat \<Rightarrow> nat \<Rightarrow> wal_segment list \<Rightarrow> bool" where
  "segs_ok w N p k [] \<longleftrightarrow> True"
| "segs_ok w N p k (s # ss) \<longleftrightarrow>
     seg_block s = k \<and> seg_iZero s = first_frame k + 1 \<and> sorts (seg_pgno w k) {0..<seg_entries N k} (aIndex s) \<and>
     iNext s \<le> length (aIndex s) \<and> (\<forall>j < iNext s. seg_pgno w k (aIndex s ! j) \<le> p) \<and> segs_ok w N p (k + 1) ss"

lemma seg_pgno_frame: "j < block_size k \<Longrightarrow> seg_pgno w k j = walFramePgno w (first_frame k + 1 + j)"
proof -
  assume j: "j < block_size k"
  then have h: "walFramePage (first_frame k + 1 + j) = k" by (intro walFramePage_eq) auto
  show ?thesis
  proof (cases "k = 0")
    case True
    then show ?thesis using h by (simp add: walFramePgno_def seg_pgno_def first_frame_def)
  next
    case False
    have "first_frame k + 1 + j - 1 - HASHTABLE_NPAGE_ONE = (k - 1) * HASHTABLE_NPAGE + j" using False by (simp add: first_frame_def)
    moreover have "j < HASHTABLE_NPAGE" using j False by (simp add: block_size_def)
    ultimately have "(first_frame k + 1 + j - 1 - HASHTABLE_NPAGE_ONE) mod HASHTABLE_NPAGE = j" by simp
    then show ?thesis using h False by (simp add: walFramePgno_def seg_pgno_def Let_def)
  qed
qed

text \<open>The least page after \<^verbatim>\<open>p\<close> among the frames of a set, and the last frame of it.\<close>

definition least_page :: "(nat \<Rightarrow> nat) \<Rightarrow> nat set \<Rightarrow> nat \<Rightarrow> nat \<Rightarrow> nat \<Rightarrow> bool" where
  "least_page P R p q f \<longleftrightarrow> q \<le> 0xFFFFFFFF \<and> (\<forall>g \<in> R. P g \<le> p \<or> q \<le> P g) \<and>
     (q < 0xFFFFFFFF \<longrightarrow> f \<in> R \<and> P f = q \<and> p < q \<and> (\<forall>g \<in> R. P g = q \<longrightarrow> g \<le> f))"

definition seg_frames :: "nat \<Rightarrow> nat \<Rightarrow> nat \<Rightarrow> nat set" where
  "seg_frames N k e = {g. first_frame k < g \<and> g \<le> N \<and> g \<le> first_frame e}"

lemma least_page_segment:
  assumes later: "least_page (walFramePgno w) (seg_frames N (k + 1) e) p q f" and e: "k < e"
    and srt: "sorts (seg_pgno w k) {0..<seg_entries N k} ix"
    and i: "i \<le> length ix" "\<forall>j < i. seg_pgno w k (ix ! j) \<le> p" "i < length ix \<longrightarrow> p < seg_pgno w k (ix ! i)"
  defines "better \<equiv> i < length ix \<and> seg_pgno w k (ix ! i) < q"
  shows "least_page (walFramePgno w) (seg_frames N k e) p
    (if better then seg_pgno w k (ix ! i) else q) (if better then first_frame k + 1 + ix ! i else f)"
proof -
  let ?P = "walFramePgno w" and ?c = "seg_pgno w k" and ?n = "seg_entries N k"
  let ?S = "{g. first_frame k < g \<and> g \<le> N \<and> g \<le> first_frame (k + 1)}"
  have c: "?c j = ?P (first_frame k + 1 + j)" if "j < ?n" for j
    using seg_pgno_frame [of j k w] that by (simp add: seg_entries_def)
  have fe: "first_frame (k + 1) \<le> first_frame e"
    using first_frame_mono [of "k + 1" e] e by (cases "k + 1 = e") auto
  have fk: "first_frame (k + 1) = first_frame k + block_size k" by (simp add: first_frame_Suc)
  have split: "g \<in> seg_frames N k e \<longleftrightarrow> g \<in> ?S \<or> g \<in> seg_frames N (k + 1) e" for g
    using fe fk by (auto simp: seg_frames_def)
  have entry: "\<exists>j < ?n. g = first_frame k + 1 + j" if "g \<in> ?S" for g
    using that fk by (intro exI [of _ "g - first_frame k - 1"]) (auto simp: seg_entries_def)
  have set: "set ix = best ?c {0..<?n}" and sorted: "sorted_wrt (\<lambda>i j. ?c i < ?c j) ix" using srt by (auto simp: sorts_def)
  have pages: "?P g \<le> p \<or> (i < length ix \<and> ?c (ix ! i) \<le> ?P g)" if g: "g \<in> ?S" for g
  proof -
    obtain j where j: "j < ?n" "g = first_frame k + 1 + j" using entry [OF g] by blast
    obtain b where b: "b \<in> set ix" "?c b = ?c j" using best_exists [of "{0..<?n}" j ?c] j(1) set by auto
    then obtain m where m: "m < length ix" "ix ! m = b" by (auto simp: in_set_conv_nth)
    show ?thesis
    proof (cases "m < i")
      case True
      then show ?thesis using i(2) m(2) b(2) c [OF j(1)] j(2) by auto
    next
      case False
      then have "?c (ix ! i) \<le> ?c (ix ! m)" using sorted_wrt_nth_less [OF sorted, of i m] m(1) by (cases "i = m") auto
      then show ?thesis using False m b(2) c [OF j(1)] j(2) by auto
    qed
  qed
  show ?thesis
  proof (cases better)
    case True
    then have il: "i < length ix" "?c (ix ! i) < q" by (simp_all add: better_def)
    then have bst: "ix ! i \<in> best ?c {0..<?n}" using set nth_mem by blast
    then have n: "ix ! i < ?n" by (simp add: best_def)
    let ?f = "first_frame k + 1 + ix ! i"
    have f: "?f \<in> ?S" using n fk by (auto simp: seg_entries_def)
    have last: "g \<le> ?f" if "g \<in> seg_frames N k e" "?P g = ?c (ix ! i)" for g
    proof (cases "g \<in> ?S")
      case True
      obtain j where j: "j < ?n" "g = first_frame k + 1 + j" using entry [OF True] by blast
      then have "j \<le> ix ! i" using bst that(2) c [OF j(1)] by (simp add: best_def)
      then show ?thesis using j(2) by simp
    next
      case False
      then have "g \<in> seg_frames N (k + 1) e" using that(1) split by blast
      then have "?P g \<le> p \<or> q \<le> ?P g" using later by (simp add: least_page_def)
      then show ?thesis using that(2) il i(3) by auto
    qed
    have "q \<le> 0xFFFFFFFF" using later by (simp add: least_page_def)
    moreover have "?P g \<le> p \<or> ?c (ix ! i) \<le> ?P g" if "g \<in> seg_frames N k e" for g
      using that split [of g] pages [of g] later il(2) by (auto simp: least_page_def) fastforce?
    ultimately show ?thesis
      using True il i(3) f last c [OF n] split [of ?f] unfolding least_page_def by auto
  next
    case False
    have "?P g \<le> p \<or> q \<le> ?P g" if "g \<in> seg_frames N k e" for g
      using that split [of g] pages [of g] later False by (auto simp: least_page_def better_def not_less) 
    moreover have "g \<le> f" if "g \<in> seg_frames N k e" "?P g = q" "q < 0xFFFFFFFF" for g
      using that split [of g] later fk by (auto simp: least_page_def seg_frames_def)
    ultimately show ?thesis using False later split [of f] unfolding least_page_def by auto
  qed
qed

lemma next_page_ok:
  "segs_ok w N p k segs \<Longrightarrow> next_page w p f0 segs = (q, f, segs') \<Longrightarrow>
    least_page (walFramePgno w) (seg_frames N k (k + length segs)) p q f \<and> (\<forall>r \<ge> p. segs_ok w N r k segs') \<and> length segs' = length segs"
proof (induction segs arbitrary: k q f segs')
  case Nil
  then show ?case by (auto simp: least_page_def seg_frames_def)
next
  case (Cons s ss)
  obtain q1 f1 ss' where n: "next_page w p f0 ss = (q1, f1, ss')" by (rule prod_cases3)
  have ok: "segs_ok w N p (k + 1) ss" "seg_block s = k" "seg_iZero s = first_frame k + 1"
    "sorts (seg_pgno w k) {0..<seg_entries N k} (aIndex s)" "iNext s \<le> length (aIndex s)"
    "\<forall>j < iNext s. seg_pgno w k (aIndex s ! j) \<le> p" using Cons.prems(1) by simp_all
  note ih = Cons.IH [OF ok(1) n]
  let ?i = "seg_advance (seg_pgno w k) p (aIndex s) (iNext s)"
  note i = seg_advance_ok [OF ok(6,5) refl]
  have i': "?i \<le> length (aIndex s)" "\<forall>j < ?i. seg_pgno w k (aIndex s ! j) \<le> p"
    "?i < length (aIndex s) \<longrightarrow> p < seg_pgno w k (aIndex s ! ?i)" using i by blast+
  let ?better = "?i < length (aIndex s) \<and> seg_pgno w k (aIndex s ! ?i) < q1"
  have e: "k + 1 + length ss = k + length (s # ss)" by simp
  have r: "(q, f, segs') = (if ?better then seg_pgno w k (aIndex s ! ?i) else q1, if ?better then first_frame k + 1 + aIndex s ! ?i else f1,
      s\<lparr>iNext := ?i\<rparr> # ss')"
    using Cons.prems(2) n ok(2,3) by (auto simp: Let_def split: if_splits)
  have "least_page (walFramePgno w) (seg_frames N (k + 1) (k + length (s # ss))) p q1 f1" using ih unfolding e by blast
  from least_page_segment [OF this _ ok(4) i'] have l: "least_page (walFramePgno w) (seg_frames N k (k + length (s # ss))) p q f"
    using r by simp
  have "segs_ok w N t k segs'" if "p \<le> t" for t
  proof -
    have "\<forall>j < ?i. seg_pgno w k (aIndex s ! j) \<le> t" using i'(2) that by (meson order_trans)
    moreover have "segs_ok w N t (k + 1) ss'" using ih that by blast
    moreover have "segs' = s\<lparr>iNext := ?i\<rparr> # ss'" using r by simp
    ultimately show ?thesis using ok(2-4) i'(1) by simp
  qed
  then show ?case using l ih r by simp
qed

text \<open>An iterator over all frames up to the \<^verbatim>\<open>N\<close>-th.\<close>

definition iter_ok :: "'k wal \<Rightarrow> nat \<Rightarrow> wal_iterator \<Rightarrow> bool" where
  "iter_ok w N it \<longleftrightarrow> segs_ok w N (iPrior it) 0 (aSegment it) \<and> length (aSegment it) = walFramePage N + 1"

lemma segs_ok_pages:
  "\<forall>g. 0 < g \<and> g \<le> N \<longrightarrow> walFramePgno w' g = walFramePgno w g \<Longrightarrow> segs_ok w N p k segs \<Longrightarrow> segs_ok w' N p k segs"
proof (induction segs arbitrary: k)
  case (Cons s ss)
  have c: "seg_pgno w' k j = seg_pgno w k j" if "j < seg_entries N k" for j
  proof -
    have "j < N - first_frame k" "j < block_size k" using that by (simp_all add: seg_entries_def)
    then have "first_frame k + 1 + j \<le> N" "j < block_size k" by linarith+
    then show ?thesis using Cons.prems(1) [rule_format, of "first_frame k + 1 + j"] seg_pgno_frame [of j k w] seg_pgno_frame [of j k w'] by simp
  qed
  have sub: "set (aIndex s) \<subseteq> {0..<seg_entries N k}" using Cons.prems(2) best_sub by (auto simp: sorts_def)
  have c': "seg_pgno w' k j = seg_pgno w k j" if "j \<in> set (aIndex s)" for j using c sub that by auto
  have "best (seg_pgno w' k) {0..<seg_entries N k} = best (seg_pgno w k) {0..<seg_entries N k}"
    using c by (auto simp: best_def)
  moreover have "sorted_wrt (\<lambda>i j. seg_pgno w' k i < seg_pgno w' k j) (aIndex s) = sorted_wrt (\<lambda>i j. seg_pgno w k i < seg_pgno w k j) (aIndex s)"
    by (intro iffI; erule sorted_wrt_mono_rel [rotated]) (simp_all add: c')
  moreover have "seg_pgno w' k (aIndex s ! j) = seg_pgno w k (aIndex s ! j)" if "j < length (aIndex s)" for j
    using c sub nth_mem [OF that] by auto
  ultimately show ?case using Cons by (auto simp: sorts_def)
qed simp

lemma iter_ok_pages:
  "\<forall>g. 0 < g \<and> g \<le> N \<longrightarrow> walFramePgno w' g = walFramePgno w g \<Longrightarrow> iter_ok w N it \<Longrightarrow> iter_ok w' N it"
  using segs_ok_pages [of N w' w] by (auto simp: iter_ok_def)

lemma walIteratorNext_ok:
  assumes "iter_ok w N it" "walIteratorNext w it f0 = (done, q, f, it')"
  shows "least_page (walFramePgno w) {1..N} (iPrior it) q f" "done \<longleftrightarrow> q = 0xFFFFFFFF" "iPrior it' = q" "iPrior it \<le> q \<Longrightarrow> iter_ok w N it'"
proof -
  obtain q1 f1 segs where n: "next_page w (iPrior it) f0 (aSegment it) = (q1, f1, segs)" by (rule prod_cases3)
  have r: "done \<longleftrightarrow> q = 0xFFFFFFFF" "q = q1" "f = f1" "it' = \<lparr>iPrior = q1, aSegment = segs\<rparr>"
    using assms(2) n by (auto simp: walIteratorNext_def)
  note k = next_page_ok [OF _ n, of N 0]
  have "N \<le> first_frame (walFramePage N + 1)"
    using walFramePage_range [of N] first_frame_Suc [of "walFramePage N"] by (cases "N = 0") auto
  then have e: "seg_frames N 0 (0 + length (aSegment it)) = {1..N}"
    using assms(1) by (auto simp: iter_ok_def seg_frames_def first_frame_def [of 0])
  show "least_page (walFramePgno w) {1..N} (iPrior it) q f" using k assms(1) r unfolding e [symmetric] by (simp add: iter_ok_def)
  show "done \<longleftrightarrow> q = 0xFFFFFFFF" by (rule r)
  show "iPrior it' = q" using r by simp
  show "iter_ok w N it'" if "iPrior it \<le> q" using k assms(1) r that by (simp add: iter_ok_def)
qed

lemma init_segments_ok:
  assumes "0 < N"
  shows "init_segments pg w (walFramePage N + 1) N [k..<walFramePage N + 1] = (rc, segs) \<Longrightarrow> k \<le> walFramePage N + 1 \<Longrightarrow> rc = 0 \<Longrightarrow>
    segs_ok w N 0 k segs \<and> length segs = walFramePage N + 1 - k"
proof (induction "walFramePage N + 1 - k" arbitrary: k rc segs)
  case 0
  then show ?case by simp
next
  case (Suc m)
  let ?K = "walFramePage N + 1"
  have k: "k < ?K" "[k..<?K] = k # [k + 1..<?K]" using Suc.hyps(2) by (simp_all add: upt_rec)
  obtain rc1 ss where n: "init_segments pg w ?K N [k + 1..<?K] = (rc1, ss)" by (rule prod.exhaust)
  have pg: "pg k = 0" using Suc.prems(1,3) unfolding k(2) by (auto simp: walHashGet_def split: if_splits prod.splits)
  define n where "n = (if k + 1 = ?K then N - first_frame k else block_size k)"
  have "n = seg_entries N k"
  proof (cases "k + 1 = ?K")
    case True
    then have "k = walFramePage N" by simp
    then show ?thesis using walFramePage_range [OF assms] by (auto simp: n_def seg_entries_def min_def)
  next
    case False
    then have "k < walFramePage N" using k(1) by simp
    then show ?thesis using first_frame_mono [of k "walFramePage N"] walFramePage_range [OF assms] False
      by (auto simp: n_def seg_entries_def min_def)
  qed
  moreover have "n < 2 ^ 13" unfolding \<open>n = seg_entries N k\<close> by (simp add: seg_entries_def block_size_def min_less_iff_disj)
  ultimately have s: "sorts (seg_pgno w k) {0..<seg_entries N k} (walMergesort (seg_pgno w k) [0..<n])"
    using walMergesort_ok [of n "seg_pgno w k"] by simp
  have r: "rc = rc1" "segs = \<lparr>iNext = 0, aIndex = walMergesort (seg_pgno w k) [0..<n], seg_block = k, seg_iZero = first_frame k + 1\<rparr> # ss"
    using Suc.prems(1) \<open>init_segments pg w ?K N [k + 1..<?K] = (rc1, ss)\<close> unfolding k(2) n_def
    by (auto simp: walHashGet_def pg Let_def)
  have "segs_ok w N 0 (k + 1) ss \<and> length ss = ?K - (k + 1)"
    by (rule Suc.hyps(1) [OF _ n _]) (use Suc r k in auto)
  then show ?case using r s k(1) by simp
qed

lemma walIteratorInit_ok:
  assumes "walIteratorInit pg m1 m2 w = (0, it)" "0 < mxFrame (hdr w)"
  shows "iter_ok w (mxFrame (hdr w)) it \<and> iPrior it = 0"
proof -
  let ?N = "mxFrame (hdr w)"
  obtain rc segs where i: "init_segments pg w (walFramePage ?N + 1) ?N [0..<walFramePage ?N + 1] = (rc, segs)" by (rule prod.exhaust)
  have "rc = 0" "it = \<lparr>iPrior = 0, aSegment = segs\<rparr>"
    using assms(1) i by (auto simp: walIteratorInit_def Let_def split: if_splits)
  then show ?thesis using init_segments_ok [OF assms(2) i] by (simp add: iter_ok_def)
qed

end
