(* ===== verification/WalCheckpoint.thy ===== *)
theory WalCheckpoint
  imports WalIter WalDurable
begin

text \<open>
  Checkpoints of the write-ahead log (\<^verbatim>\<open>src/sqlite/src/wal.c\<close>): the frames that no reader needs any
  more are copied into the database.

  The handler of a busy lock is the list of its next answers, whether to try again; the empty
  list is one that gives up, or no handler at all.
\<close>

abbreviation (input) SQLITE_CHECKPOINT_PASSIVE :: nat where "SQLITE_CHECKPOINT_PASSIVE \<equiv> 0"
abbreviation (input) SQLITE_CHECKPOINT_RESTART :: nat where "SQLITE_CHECKPOINT_RESTART \<equiv> 2"
abbreviation (input) SQLITE_CHECKPOINT_TRUNCATE :: nat where "SQLITE_CHECKPOINT_TRUNCATE \<equiv> 3"
abbreviation (input) WAL_CKPT_LOCK :: nat where "WAL_CKPT_LOCK \<equiv> 1"

section \<open>Checkpoints\<close>

fun walBusyLock :: "'k vfs \<Rightarrow> bool list \<Rightarrow> nat \<Rightarrow> nat \<Rightarrow> 'k wal \<Rightarrow> nat \<times> bool list \<times> 'k wal" where
  "walBusyLock io [] lockIdx n pWal = (case walLockExclusive io pWal lockIdx n of (rc, pWal) \<Rightarrow> (rc, [], pWal))"
| "walBusyLock io (again # xBusy) lockIdx n pWal =
     (case walLockExclusive io pWal lockIdx n of (rc, pWal) \<Rightarrow>
        if rc = SQLITE_BUSY then if again then walBusyLock io xBusy lockIdx n pWal else (rc, xBusy, pWal)
        else (rc, again # xBusy, pWal))"

definition walPagesize :: "'k wal \<Rightarrow> nat" where
  "walPagesize pWal = unat (hdr_szPage (hdr pWal) AND 0xfe00) + unat (hdr_szPage (hdr pWal) AND 1) * 2 ^ 16"

text \<open>The marks of readers, before which the checkpoint has to stop when it cannot take them; the first
  result is whether it is given up.\<close>

fun safe_marks :: "'k vfs \<Rightarrow> nat list \<Rightarrow> nat \<Rightarrow> bool list \<Rightarrow> nat \<Rightarrow> 'k wal \<Rightarrow> bool \<times> nat \<times> nat \<times> bool list \<times> 'k wal" where
  "safe_marks io [] mxSafeFrame xBusy rc pWal = (False, rc, mxSafeFrame, xBusy, pWal)"
| "safe_marks io (i # is) mxSafeFrame xBusy rc pWal =
     (let y = aReadMark (pInfo pWal) ! i
      in if mxSafeFrame > y then
           case walBusyLock io xBusy (WAL_READ_LOCK i) 1 pWal of (rc, xBusy, pWal) \<Rightarrow>
             if rc = 0 then
               safe_marks io is mxSafeFrame xBusy rc
                 (walUnlockExclusive io (pWal\<lparr>pInfo := (pInfo pWal)\<lparr>aReadMark :=
                    (aReadMark (pInfo pWal))[i := if i = 1 then mxSafeFrame else READMARK_NOT_USED]\<rparr>\<rparr>) (WAL_READ_LOCK i) 1)
             else if rc = SQLITE_BUSY then safe_marks io is y [] rc pWal
             else (True, rc, mxSafeFrame, xBusy, pWal)
         else safe_marks io is mxSafeFrame xBusy rc pWal)"

text \<open>The iterator goes on to a greater page, or is at its end.\<close>

lemma seg_advance_stop: "i = seg_advance c p ix n \<Longrightarrow> i < length ix \<Longrightarrow> p < c (ix ! i)"
proof (induction c p ix n rule: seg_advance.induct)
  case (1 c p ix n)
  show ?case
  proof (cases "n < length ix \<and> c (ix ! n) \<le> p")
    case True
    then have "i = seg_advance c p ix (n + 1)" using 1(2) by (subst (asm) seg_advance.simps) simp
    then show ?thesis by (rule "1.IH" [OF True _ 1(3)])
  next
    case False
    then have "i = n" using 1(2) unfolding seg_advance.simps [of c p ix n] if_not_P [OF False] by simp
    then show ?thesis using False 1(3) by simp
  qed
qed

lemma next_page_after: "next_page w p f0 segs = (q, f, segs') \<Longrightarrow> q \<le> 0xFFFFFFFF \<and> (q < 0xFFFFFFFF \<longrightarrow> p < q)"
proof (induction segs arbitrary: q f segs')
  case (Cons s ss)
  obtain q1 f1 ss' where n: "next_page w p f0 ss = (q1, f1, ss')" by (rule prod_cases3)
  show ?case using Cons n seg_advance_stop [OF refl, of "seg_pgno w (seg_block s)" p "aIndex s" "iNext s"]
    by (auto simp: Let_def split: if_splits)
qed simp

function copy_frames :: "'k vfs \<Rightarrow> nat \<Rightarrow> nat \<Rightarrow> nat \<Rightarrow> nat \<Rightarrow> wal_iterator \<Rightarrow> nat \<Rightarrow> 'k wal \<Rightarrow> nat \<times> 'k wal" where
  "copy_frames io szPage nBack mxSafeFrame mxPage pIter iFrame pWal =
     (case walIteratorNext pWal pIter iFrame of (done, iDbpage, iFrame, pIter) \<Rightarrow>
        if done then (0, pWal)
        else if iFrame \<le> nBack \<or> iFrame > mxSafeFrame \<or> iDbpage > mxPage then
          copy_frames io szPage nBack mxSafeFrame mxPage pIter iFrame pWal
        else
          case xRead io (pWalFd pWal) szPage (walFrameOffset iFrame szPage + WAL_FRAME_HDRSIZE) of (rc, zBuf, fd) \<Rightarrow>
            let pWal = pWal\<lparr>pWalFd := fd\<rparr>
            in if rc \<noteq> 0 then (rc, pWal)
               else
                 case xWrite io (pDbFd pWal) zBuf ((iDbpage - 1) * szPage) of (rc, fd) \<Rightarrow>
                   let pWal = pWal\<lparr>pDbFd := fd\<rparr>
                   in if rc \<noteq> 0 then (rc, pWal)
                      else copy_frames io szPage nBack mxSafeFrame mxPage pIter iFrame pWal)"
  by pat_completeness auto
termination
proof (relation "measure (\<lambda>(io, sz, nb, ms, mp, it, f, w). 0xFFFFFFFF - iPrior it)", goal_cases)
  case (2 io sz nb ms mp it f w d1 x1 q x2 f' it')
  then show ?case using next_page_after [of w "iPrior it" f "aSegment it"] by (auto simp: walIteratorNext_def split: prod.splits)
next
  case (3 io sz nb ms mp it f w d1 x1 q x2 f' it')
  then show ?case using next_page_after [of w "iPrior it" f "aSegment it"] by (auto simp: walIteratorNext_def split: prod.splits)
qed simp

declare copy_frames.simps [simp del]

definition backfill :: "'k vfs \<Rightarrow> nat \<Rightarrow> nat \<Rightarrow> nat \<Rightarrow> nat \<Rightarrow> wal_iterator \<Rightarrow> 'k wal \<Rightarrow> nat \<times> 'k wal" where
  "backfill io szPage mxSafeFrame mxPage sync_flags pIter pWal =
     (let nBack = nBackfill (pInfo pWal) in
      case (if sync_flags \<noteq> 0 then case xSync io (pWalFd pWal) sync_flags of (rc, fd) \<Rightarrow> (rc, pWal\<lparr>pWalFd := fd\<rparr>)
            else (0, pWal)) of (rc, pWal) \<Rightarrow>
      case (if rc = 0 then
              case xFileSize io (pDbFd pWal) of (rc, nSize, fd) \<Rightarrow>
                let nReq = mxPage * szPage
                in (rc, pWal\<lparr>pDbFd := (if rc = 0 \<and> nSize < nReq then xSizeHint io fd nReq else fd)\<rparr>)
            else (rc, pWal)) of (rc, pWal) \<Rightarrow>
      case (if rc = 0 then copy_frames io szPage nBack mxSafeFrame mxPage pIter 0 pWal else (rc, pWal)) of (rc, pWal) \<Rightarrow>
      if rc \<noteq> 0 then (rc, pWal)
      else
        case (if mxSafeFrame = mxFrame (fst (aHdr pWal)) then
                case xTruncate io (pDbFd pWal) (unat (nPage (hdr pWal)) * szPage) of (rc, fd) \<Rightarrow>
                case (if rc = 0 \<and> sync_flags \<noteq> 0 then xSync io fd sync_flags else (rc, fd)) of (rc, fd) \<Rightarrow> (rc, pWal\<lparr>pDbFd := fd\<rparr>)
              else (0, pWal)) of (rc, pWal) \<Rightarrow>
        (rc, if rc = 0 then pWal\<lparr>pInfo := (pInfo pWal)\<lparr>nBackfill := mxSafeFrame\<rparr>\<rparr> else pWal))"

text \<open>The frames that are not yet in the database. The results: whether the checkpoint is given up, and
  the result code.\<close>

definition checkpoint_frames :: "'k vfs \<Rightarrow> (nat \<Rightarrow> nat) \<Rightarrow> bool \<Rightarrow> bool \<Rightarrow> bool list \<Rightarrow> nat \<Rightarrow> 'k wal \<Rightarrow> bool \<times> nat \<times> bool list \<times> 'k wal" where
  "checkpoint_frames io walIndexPage mem_iter mem_tmp xBusy sync_flags pWal =
     (case walIteratorInit walIndexPage mem_iter mem_tmp pWal of (rc, pIter) \<Rightarrow>
      if rc \<noteq> 0 then (True, rc, xBusy, pWal)
      else
      case safe_marks io [1..<WAL_NREADER] (mxFrame (hdr pWal)) xBusy 0 pWal of (abort, rc, mxSafeFrame, xBusy, pWal) \<Rightarrow>
      if abort then (True, rc, xBusy, pWal)
      else
      case (if nBackfill (pInfo pWal) < mxSafeFrame then
              case walBusyLock io xBusy (WAL_READ_LOCK 0) 1 pWal of (rc, xBusy, pWal) \<Rightarrow>
                if rc = 0 then
                  case backfill io (walPagesize pWal) mxSafeFrame (unat (nPage (hdr pWal))) sync_flags pIter pWal of (rc, pWal) \<Rightarrow>
                    (rc, xBusy, walUnlockExclusive io pWal (WAL_READ_LOCK 0) 1)
                else (rc, xBusy, pWal)
            else (rc, xBusy, pWal)) of (rc, xBusy, pWal) \<Rightarrow>
      (False, if rc = SQLITE_BUSY then 0 else rc, xBusy, pWal))"

definition walCheckpoint :: "bool \<Rightarrow> 'k vfs \<Rightarrow> (nat \<Rightarrow> nat) \<Rightarrow> (nat \<Rightarrow> bytes) \<Rightarrow> bool \<Rightarrow> bool \<Rightarrow> nat \<Rightarrow> bool list \<Rightarrow> nat \<Rightarrow> 'k wal \<Rightarrow> nat \<times> 'k wal" where
  "walCheckpoint be io walIndexPage rnd mem_iter mem_tmp eMode xBusy sync_flags pWal =
     (case (if nBackfill (pInfo pWal) < mxFrame (hdr pWal)
            then checkpoint_frames io walIndexPage mem_iter mem_tmp xBusy sync_flags pWal else (False, 0, xBusy, pWal))
        of (abort, rc, xBusy, pWal) \<Rightarrow>
      if abort \<or> rc \<noteq> 0 \<or> eMode = SQLITE_CHECKPOINT_PASSIVE then (rc, pWal)
      else if nBackfill (pInfo pWal) < mxFrame (hdr pWal) then (SQLITE_BUSY, pWal)
      else if eMode \<ge> SQLITE_CHECKPOINT_RESTART then
        case walBusyLock io xBusy (WAL_READ_LOCK 1) (WAL_NREADER - 1) pWal of (rc, _, pWal) \<Rightarrow>
          if rc = 0 then
            case (if eMode = SQLITE_CHECKPOINT_TRUNCATE then
                    let pWal = walRestartHdr be (rnd 4) pWal
                    in case xTruncate io (pWalFd pWal) 0 of (rc, fd) \<Rightarrow> (rc, pWal\<lparr>pWalFd := fd\<rparr>)
                  else (0, pWal)) of (rc, pWal) \<Rightarrow>
              (rc, walUnlockExclusive io pWal (WAL_READ_LOCK 1) (WAL_NREADER - 1))
          else (rc, pWal)
      else (0, pWal))"

text \<open>The results: the result code, the numbers of frames in the log and in the database.\<close>

definition sqlite3WalCheckpoint :: "bool \<Rightarrow> 'k vfs \<Rightarrow> (nat \<Rightarrow> nat) \<Rightarrow> (nat \<Rightarrow> bytes) \<Rightarrow> bool \<Rightarrow> bool \<Rightarrow> bool \<Rightarrow> bool \<Rightarrow> nat \<Rightarrow> bool list \<Rightarrow>
    nat \<Rightarrow> nat \<Rightarrow> 'k wal \<Rightarrow> nat \<times> (nat \<times> nat) option \<times> 'k wal" where
  "sqlite3WalCheckpoint be io walIndexPage rnd mem_ok mem_iter mem_tmp readOnly eMode xBusy sync_flags nBuf pWal =
     (if readOnly then (SQLITE_READONLY, None, pWal)
      else
      case walLockExclusive io pWal WAL_CKPT_LOCK 1 of (rc, pWal) \<Rightarrow>
      if rc \<noteq> 0 then (rc, None, pWal)
      else
      let pWal = pWal\<lparr>ckptLock := True\<rparr> in
      case (if eMode \<noteq> SQLITE_CHECKPOINT_PASSIVE then
              case walBusyLock io xBusy WAL_WRITE_LOCK 1 pWal of (rc, xBusy, pWal) \<Rightarrow>
                if rc = 0 then (0, eMode, xBusy, pWal\<lparr>writeLock := True\<rparr>)
                else if rc = SQLITE_BUSY then (0, SQLITE_CHECKPOINT_PASSIVE, [], pWal)
                else (rc, eMode, xBusy, pWal)
            else (0, eMode, xBusy, pWal)) of (rc, eMode2, xBusy2, pWal) \<Rightarrow>
      case (if rc = 0 then
              case walIndexReadHdr be io walIndexPage mem_ok pWal of (rc, isChanged, pWal) \<Rightarrow>
                (rc, isChanged, if isChanged then pWal\<lparr>pDbFd := xUnfetch io (pDbFd pWal)\<rparr> else pWal)
            else (rc, False, pWal)) of (rc, isChanged, pWal) \<Rightarrow>
      case (if rc = 0 then
              case (if mxFrame (hdr pWal) \<noteq> 0 \<and> walPagesize pWal \<noteq> nBuf then (SQLITE_CORRUPT, pWal)
                    else walCheckpoint be io walIndexPage rnd mem_iter mem_tmp eMode2 xBusy2 sync_flags pWal) of (rc, pWal) \<Rightarrow>
                (rc, if rc = 0 \<or> rc = SQLITE_BUSY then Some (mxFrame (hdr pWal), nBackfill (pInfo pWal)) else None, pWal)
            else (rc, None, pWal)) of (rc, nums, pWal) \<Rightarrow>
      let pWal = (if isChanged then pWal\<lparr>hdr := zero_hdr\<rparr> else pWal);
          pWal = walUnlockExclusive io (sqlite3WalEndWriteTransaction io pWal) WAL_CKPT_LOCK 1
      in (if rc = 0 \<and> eMode \<noteq> eMode2 then SQLITE_BUSY else rc, nums, pWal\<lparr>ckptLock := False\<rparr>))"

section \<open>What a reader sees\<close>

text \<open>A page of the database, and of the log; the page that a reader finds whose snapshot ends with
  frame \<^verbatim>\<open>n\<close>.\<close>

definition db_page :: "nat \<Rightarrow> bytes \<Rightarrow> nat \<Rightarrow> bytes" where
  "db_page sz f p = map (file_byte f) [(p - 1) * sz..<p * sz]"

definition log_page :: "nat \<Rightarrow> bytes \<Rightarrow> nat \<Rightarrow> bytes" where
  "log_page sz f i = take sz (drop (walFrameOffset i sz + WAL_FRAME_HDRSIZE) f)"

definition frame_of :: "(nat \<Rightarrow> nat) \<Rightarrow> nat \<Rightarrow> nat \<Rightarrow> nat" where
  "frame_of P n p = last_frame (map P [1..<Suc n]) p"

definition snapshot :: "nat \<Rightarrow> (nat \<Rightarrow> nat) \<Rightarrow> bytes \<Rightarrow> bytes \<Rightarrow> nat \<Rightarrow> nat \<Rightarrow> bytes" where
  "snapshot sz P log db n p = (if frame_of P n p \<noteq> 0 then log_page sz log (frame_of P n p) else db_page sz db p)"

text \<open>The frames up to the \<^verbatim>\<open>k\<close>-th are in the database, unless there is a later one of the page.\<close>

definition backfilled :: "nat \<Rightarrow> (nat \<Rightarrow> nat) \<Rightarrow> bytes \<Rightarrow> bytes \<Rightarrow> nat \<Rightarrow> nat \<Rightarrow> nat \<Rightarrow> bool" where
  "backfilled sz P log db mxPage N k \<longleftrightarrow>
     (\<forall>p. 0 < p \<and> p \<le> mxPage \<and> 0 < frame_of P N p \<and> frame_of P N p \<le> k \<longrightarrow> db_page sz db p = log_page sz log (frame_of P N p))"

text \<open>What holds at the start: the connection has the lock of checkpoints, and the frames that count as
  copied are in the database.\<close>

definition done_before :: "('k \<Rightarrow> bytes) \<Rightarrow> ('k \<Rightarrow> bool) \<Rightarrow> 'k wal \<Rightarrow> bool" where
  "done_before content ok w \<longleftrightarrow> ckptLock w \<and> ok (pWalFd w) \<and> ok (pDbFd w) \<and> nBackfill (pInfo w) \<le> mxFrame (hdr w) \<and>
     mxFrame (hdr w) \<le> mxFrame (fst (aHdr w)) \<and> unat (nPage (hdr w)) < 0xFFFFFFFF \<and>
     backfilled (walPagesize w) (walFramePgno w) (content (pWalFd w)) (content (pDbFd w)) (unat (nPage (hdr w))) (mxFrame (hdr w)) (nBackfill (pInfo w))"

lemma frame_of_iff:
  "0 < f \<Longrightarrow> frame_of P n p = f \<longleftrightarrow> f \<le> n \<and> P f = p \<and> (\<forall>g. f < g \<and> g \<le> n \<longrightarrow> P g \<noteq> p)"
proof (induction n)
  case 0
  then show ?case by (simp add: frame_of_def)
next
  case (Suc n)
  have e: "frame_of P (Suc n) p = (if P (Suc n) = p then Suc n else frame_of P n p)"
    unfolding frame_of_def by (simp add: last_frame_append)
  show ?case
  proof (cases "P (Suc n) = p")
    case True
    have "Suc n = f" if "f \<le> Suc n" "\<forall>g. f < g \<and> g \<le> Suc n \<longrightarrow> P g \<noteq> p"
      using that(1) that(2) [rule_format, of "Suc n"] True by linarith
    then show ?thesis unfolding e using True by auto
  next
    case False
    then have "(\<forall>g. f < g \<and> g \<le> Suc n \<longrightarrow> P g \<noteq> p) = (\<forall>g. f < g \<and> g \<le> n \<longrightarrow> P g \<noteq> p)" by (auto simp: le_Suc_eq)
    moreover have "f \<le> Suc n \<and> P f = p \<longleftrightarrow> f \<le> n \<and> P f = p" using False by (auto simp: le_Suc_eq)
    ultimately show ?thesis unfolding e using False Suc by auto
  qed
qed

lemma frame_of_0: "frame_of P n p = 0 \<longleftrightarrow> (\<forall>g. 0 < g \<and> g \<le> n \<longrightarrow> P g \<noteq> p)"
proof -
  have "set (map P [1..<Suc n]) = P ` {g. 0 < g \<and> g \<le> n}" by (simp only: set_map set_upt) (rule arg_cong [of _ _ "image P"], auto)
  then show ?thesis unfolding frame_of_def last_frame_0 by auto
qed

lemma frame_of_le: "frame_of P n p \<le> n"
  using frame_of_iff [of "frame_of P n p" P n p] by (cases "frame_of P n p = 0") auto

lemma frame_of_cong: "\<forall>g. 0 < g \<and> g \<le> n \<longrightarrow> Q g = P g \<Longrightarrow> frame_of Q n p = frame_of P n p"
  unfolding frame_of_def by (rule arg_cong [of _ _ "\<lambda>l. last_frame l p"]) auto

lemma frame_of_mono: "frame_of P N p \<noteq> 0 \<Longrightarrow> frame_of P N p \<le> n \<Longrightarrow> n \<le> N \<Longrightarrow> frame_of P n p = frame_of P N p"
  using frame_of_iff [of "frame_of P N p" P N p] frame_of_iff [of "frame_of P N p" P n p] by auto

lemma least_page_frame:
  assumes "least_page P {1..N} r q f" "q < 0xFFFFFFFF"
  shows "frame_of P N q = f" "r < q" "0 < f" "r < p \<Longrightarrow> p < q \<Longrightarrow> frame_of P N p = 0"
proof -
  have f: "f \<in> {1..N}" "P f = q" "r < q" "\<forall>g \<in> {1..N}. P g = q \<longrightarrow> g \<le> f" "\<forall>g \<in> {1..N}. P g \<le> r \<or> q \<le> P g"
    using assms by (simp_all add: least_page_def)
  show "r < q" "0 < f" using f by auto
  show "frame_of P N q = f" using frame_of_iff [of f P N q] f by (auto simp: leD)
  show "frame_of P N p = 0" if "r < p" "p < q" unfolding frame_of_0
  proof (intro allI impI notI)
    fix g assume g: "0 < g \<and> g \<le> N" "P g = p"
    then have "P g \<le> r \<or> q \<le> P g" using f(5) by auto
    then show False using that g(2) by linarith
  qed
qed

lemma page_disjoint:
  assumes "(p :: nat) \<noteq> q" "0 < p" "0 < q" "(p - 1) * sz \<le> i" "i < p * sz"
  shows "\<not> ((q - 1) * sz \<le> i \<and> i < q * sz)"
proof
  assume q: "(q - 1) * sz \<le> i \<and> i < q * sz"
  have "p \<le> q - 1 \<or> q \<le> p - 1" 
  proof (cases "p < q")
    case True
    then show ?thesis by (cases q) auto
  next
    case False
    then show ?thesis using assms(1) by (cases p) auto
  qed
  then show False
  proof
    assume "p \<le> q - 1"
    then have "p * sz \<le> (q - 1) * sz" by (rule mult_le_mono1)
    then show False using assms(5) q by linarith
  next
    assume "q \<le> p - 1"
    then have "q * sz \<le> (p - 1) * sz" by (rule mult_le_mono1)
    then show False using assms(4) q by linarith
  qed
qed

lemma db_page_write:
  assumes "length d \<le> sz" "0 < q" "0 < p"
  shows "p \<noteq> q \<Longrightarrow> db_page sz (file_patch f ((q - 1) * sz) d) p = db_page sz f p"
    and "length d = sz \<Longrightarrow> db_page sz (file_patch f ((q - 1) * sz) d) q = d"
proof -
  have e: "(q - 1) * sz + sz = q * sz" using assms(2) by (cases q) auto
  assume pq: "p \<noteq> q"
  have "file_byte (file_patch f ((q - 1) * sz) d) i = file_byte f i" if "(p - 1) * sz \<le> i" "i < p * sz" for i
    using page_disjoint [OF pq assms(3,2) that] assms(1) e by (auto simp: file_byte_patch)
  then show "db_page sz (file_patch f ((q - 1) * sz) d) p = db_page sz f p" by (simp add: db_page_def)
next
  have e: "(q - 1) * sz + sz = q * sz" using assms(2) by (cases q) auto
  assume d: "length d = sz"
  show "db_page sz (file_patch f ((q - 1) * sz) d) q = d"
    by (rule nth_equalityI) (use d e in \<open>auto simp: db_page_def file_byte_patch\<close>)
qed

lemma db_page_cong: "\<forall>i < n. file_byte g i = file_byte f i \<Longrightarrow> p * sz \<le> n \<Longrightarrow> db_page sz g p = db_page sz f p"
  by (auto simp: db_page_def)

section \<open>Copying frames\<close>

text \<open>What has been copied: nothing but last frames between two numbers, and all of them up to a page.\<close>

definition copied :: "nat \<Rightarrow> (nat \<Rightarrow> nat) \<Rightarrow> nat \<Rightarrow> nat \<Rightarrow> nat \<Rightarrow> bytes \<Rightarrow> bytes \<Rightarrow> bytes \<Rightarrow> bool" where
  "copied sz P N nb m log db db' \<longleftrightarrow>
     (\<forall>p. 0 < p \<and> db_page sz db' p \<noteq> db_page sz db p \<longrightarrow> nb < frame_of P N p \<and> frame_of P N p \<le> m)"

definition copied_to :: "nat \<Rightarrow> (nat \<Rightarrow> nat) \<Rightarrow> nat \<Rightarrow> nat \<Rightarrow> nat \<Rightarrow> nat \<Rightarrow> bytes \<Rightarrow> nat \<Rightarrow> bytes \<Rightarrow> bool" where
  "copied_to sz P N nb m mxPage log r db \<longleftrightarrow>
     (\<forall>p. 0 < p \<and> p \<le> r \<and> p \<le> mxPage \<and> nb < frame_of P N p \<and> frame_of P N p \<le> m \<longrightarrow>
        db_page sz db p = log_page sz log (frame_of P N p))"

text \<open>Readers, whose marks cannot be locked and stay as they are as long as the readers hold them.\<close>

locale wal_readers = wal_vfs io content ok reliable
  for io :: "'k vfs" and content :: "'k \<Rightarrow> bytes" and ok :: "'k \<Rightarrow> bool" and reliable :: "'k \<Rightarrow> bool" +
  fixes held :: "'k \<Rightarrow> nat \<Rightarrow> bool"
  assumes reader_busy: "\<And>w i j n rc w'. held (pDbFd w) i \<Longrightarrow> j \<le> i \<Longrightarrow> i < j + n \<Longrightarrow> j + n \<le> WAL_NREADER \<Longrightarrow>
      xShmLock io w (WAL_READ_LOCK j) n SHM_LOCK_EXCLUSIVE = (rc, w') \<Longrightarrow> rc \<noteq> 0"
    and reader_kept: "\<And>w i a n f rc w'. held (pDbFd w) i \<Longrightarrow> xShmLock io w a n f = (rc, w') \<Longrightarrow>
      held (pDbFd w') i \<and> aReadMark (pInfo w') ! i = aReadMark (pInfo w) ! i"
    and reader_io: "\<And>k i d off n f. held k i \<Longrightarrow> held (snd (xWrite io k d off)) i \<and> held (snd (xSync io k f)) i \<and>
      held (snd (xTruncate io k n)) i \<and> held (xSizeHint io k n) i \<and> held (snd (snd (xFileSize io k))) i"

lemma walFramePgno_cong: "apWiData w' = apWiData w \<Longrightarrow> walFramePgno w' = walFramePgno w"
  by (simp add: walFramePgno_def fun_eq_iff Let_def)

context wal_vfs
begin

text \<open>Only the files have changed, and the log has not.\<close>

definition files_only :: "'k wal \<Rightarrow> 'k wal \<Rightarrow> bool" where
  "files_only w w' \<longleftrightarrow> (\<exists>k d. w' = w\<lparr>pWalFd := k, pDbFd := d\<rparr> \<and> ok k \<and> ok d \<and> content k = content (pWalFd w))"

lemma files_only_refl: "ok (pWalFd w) \<Longrightarrow> ok (pDbFd w) \<Longrightarrow> files_only w w"
  unfolding files_only_def by (intro exI [of _ "pWalFd w"] exI [of _ "pDbFd w"]) simp

lemma files_only_wal: "ok k \<Longrightarrow> content k = content (pWalFd w) \<Longrightarrow> ok (pDbFd w) \<Longrightarrow> files_only w (w\<lparr>pWalFd := k\<rparr>)"
  unfolding files_only_def by (intro exI [of _ k] exI [of _ "pDbFd w"]) simp

lemma files_only_db: "ok k \<Longrightarrow> ok (pWalFd w) \<Longrightarrow> files_only w (w\<lparr>pDbFd := k\<rparr>)"
  unfolding files_only_def by (intro exI [of _ "pWalFd w"] exI [of _ k]) simp

lemma files_only_trans: "files_only w w1 \<Longrightarrow> files_only w1 w2 \<Longrightarrow> files_only w w2"
proof -
  assume "files_only w w1" "files_only w1 w2"
  then obtain k d k' d' where "w1 = w\<lparr>pWalFd := k, pDbFd := d\<rparr>" "w2 = w1\<lparr>pWalFd := k', pDbFd := d'\<rparr>" "ok k'" "ok d'"
    "content k' = content (pWalFd w)" unfolding files_only_def by auto
  then show ?thesis unfolding files_only_def by (intro exI [of _ k'] exI [of _ d']) simp
qed

lemma files_onlyD:
  assumes "files_only w w'"
  shows "hdr w' = hdr w" "aHdr w' = aHdr w" "pInfo w' = pInfo w" "apWiData w' = apWiData w" "writeLock w' = writeLock w"
    "ckptLock w' = ckptLock w" "exclusiveMode w' = exclusiveMode w" "ok (pWalFd w')" "ok (pDbFd w')" "content (pWalFd w') = content (pWalFd w)"
    "walFramePgno w' = walFramePgno w"
  using assms by (auto simp: files_only_def walFramePgno_def Let_def fun_eq_iff)

lemma copy_frames_ok:
  fixes w :: "'k wal"
  shows "sz < 0x20000 \<Longrightarrow> mxPage < 0xFFFFFFFF \<Longrightarrow> iter_ok w N it \<Longrightarrow> ok (pWalFd w) \<Longrightarrow> ok (pDbFd w) \<Longrightarrow> copy_frames io sz nb m mxPage it f0 w = (rc, w') \<Longrightarrow>
    walFramePgno w = P \<Longrightarrow> content (pWalFd w) = log \<Longrightarrow>
    copied_to sz P N nb m mxPage log (iPrior it) (content (pDbFd w)) \<Longrightarrow>
    files_only w w' \<and> copied sz P N nb m log (content (pDbFd w)) (content (pDbFd w')) \<and>
    (rc = 0 \<longrightarrow> copied_to sz P N nb m mxPage log mxPage (content (pDbFd w')))"
proof (induction "0xFFFFFFFF - iPrior it" arbitrary: it f0 w rule: less_induct)
  case less
  note sz = less.prems(1) and mx = less.prems(2)
  obtain d q f it' where n: "walIteratorNext w it f0 = (d, q, f, it')" by (rule prod_cases4)
  note it = walIteratorNext_ok [OF less.prems(3) n, unfolded less.prems(7)]
  let ?r = "iPrior it" and ?db = "content (pDbFd w)"
  obtain rc1 zBuf fd where rd: "xRead io (pWalFd w) sz (walFrameOffset f sz + 24) = (rc1, zBuf, fd)" by (rule prod_cases3)
  obtain rc2 fd2 where wr: "xWrite io (pDbFd w) zBuf ((q - 1) * sz) = (rc2, fd2)" by (rule prod.exhaust)
  let ?w2 = "w\<lparr>pWalFd := fd, pDbFd := fd2\<rparr>"
  have step: "copy_frames io sz nb m mxPage it f0 w = (if d then (0, w)
      else if f \<le> nb \<or> f > m \<or> q > mxPage then copy_frames io sz nb m mxPage it' f w
      else if rc1 \<noteq> 0 then (rc1, w\<lparr>pWalFd := fd\<rparr>) else if rc2 \<noteq> 0 then (rc2, ?w2)
      else copy_frames io sz nb m mxPage it' f ?w2)"
    using n rd wr by (subst copy_frames.simps) (simp add: Let_def)
  have same: "files_only w w" "copied sz P N nb m log ?db ?db"
    using less.prems(4,5) by (simp_all add: files_only_refl copied_def)
  show ?case
  proof (cases d)
    case True
    then have q: "q = 0xFFFFFFFF" using it(2) by simp
    have "copied_to sz P N nb m mxPage log mxPage ?db"
      unfolding copied_to_def
    proof (intro allI impI)
      fix p assume p: "0 < p \<and> p \<le> mxPage \<and> p \<le> mxPage \<and> nb < frame_of P N p \<and> frame_of P N p \<le> m"
      have f: "0 < frame_of P N p" using p by simp
      then have g: "P (frame_of P N p) = p" "frame_of P N p \<in> {1..N}" using frame_of_iff [OF f, of P N p] by auto
      have "P (frame_of P N p) \<le> ?r \<or> 0xFFFFFFFF \<le> P (frame_of P N p)" using it(1) g(2) unfolding q least_page_def by blast
      then have "p \<le> ?r \<or> 0xFFFFFFFF \<le> p" unfolding g(1) .
      then show "db_page sz ?db p = log_page sz log (frame_of P N p)"
        using less.prems(9) p mx unfolding copied_to_def by (meson leD le_less_trans less_le_trans not_le)
    qed
    then show ?thesis using same less.prems(6) True unfolding step by simp
  next
    case False
    have q: "q < 0xFFFFFFFF" using False it(1,2) by (auto simp: least_page_def)
    note fr = least_page_frame [OF it(1) q]
    have "?r \<le> q" using fr(2) by simp
    note it' = it(4) [OF this]
    have dec: "0xFFFFFFFF - iPrior it' < 0xFFFFFFFF - ?r" using it(3) fr(2) q by linarith
    have between: "p \<le> ?r \<or> p = q" if "p \<le> q" "0 < frame_of P N p" for p
      using fr(4) [of p] that by (cases "p \<le> ?r"; cases "p = q") auto
    show ?thesis
    proof (cases "f \<le> nb \<or> f > m \<or> q > mxPage")
      case True
      have "copied_to sz P N nb m mxPage log (iPrior it') ?db"
        unfolding copied_to_def it(3)
      proof (intro allI impI)
        fix p assume p: "0 < p \<and> p \<le> q \<and> p \<le> mxPage \<and> nb < frame_of P N p \<and> frame_of P N p \<le> m"
        then have "p \<le> ?r" using between [of p] True fr(1) by auto
        then show "db_page sz ?db p = log_page sz log (frame_of P N p)" using less.prems(9) p by (simp add: copied_to_def)
      qed
      moreover have "copy_frames io sz nb m mxPage it' f w = (rc, w')" using less.prems(6) False True unfolding step by simp
      ultimately show ?thesis using less.hyps [OF dec sz mx it' less.prems(4,5)] less.prems(7,8) by blast
    next
      case copy: False
      have f: "nb < f" "f \<le> m" "q \<le> mxPage" "f \<in> {1..N}" "P f = q" using copy it(1) q by (auto simp: least_page_def)
      have R: "content fd = log" "ok fd" "rc1 = 0 \<Longrightarrow> zBuf = log_page sz log f \<and> length zBuf = sz"
        using vfs_read [OF less.prems(4) sz rd] less.prems(8) by (auto simp: log_page_def)
      show ?thesis
      proof (cases "rc1 = 0")
        case False
        then have "rc = rc1" "w' = w\<lparr>pWalFd := fd, pDbFd := pDbFd w\<rparr>" using less.prems(6) \<open>\<not> d\<close> copy unfolding step by auto
        moreover have "files_only w (w\<lparr>pWalFd := fd, pDbFd := pDbFd w\<rparr>)"
          unfolding files_only_def using R less.prems(5,8) by (intro exI [of _ fd] exI [of _ "pDbFd w"]) simp
        ultimately show ?thesis using same(2) False by simp
      next
        case True
        have z: "zBuf = log_page sz log f" "length zBuf = sz" using R(3) True by blast+
        have q0: "0 < q" using fr(2) by simp
        have W: "ok fd2" "\<exists>k \<le> length zBuf. content fd2 = file_patch ?db ((q - 1) * sz) (take k zBuf) \<and> (rc2 = 0 \<longrightarrow> k = length zBuf)"
          using vfs_write [OF less.prems(5) _ wr] sz z(2) by auto
        have other: "db_page sz (content fd2) p = db_page sz ?db p" if "p \<noteq> q" "0 < p" for p
          using W(2) db_page_write(1) [of _ sz q p, OF _ q0 that(2,1)] z(2) by (metis length_take min.bounded_iff order_refl)
        have page: "rc2 = 0 \<Longrightarrow> db_page sz (content fd2) q = log_page sz log f"
          using W(2) db_page_write(2) [of zBuf sz q q] z q0 by auto
        have fo: "files_only w ?w2"
          unfolding files_only_def using R W(1) less.prems(8) by (intro exI [of _ fd] exI [of _ fd2]) simp
        have cp: "copied sz P N nb m log ?db (content (pDbFd ?w2))"
          unfolding copied_def
        proof (intro allI impI)
          fix p assume p: "0 < p \<and> db_page sz (content (pDbFd ?w2)) p \<noteq> db_page sz ?db p"
          then have "p = q" using other [of p] by auto
          then show "nb < frame_of P N p \<and> frame_of P N p \<le> m" using fr(1) f by simp
        qed
        show ?thesis
        proof (cases "rc2 = 0")
          case False
          then have "rc = rc2" "w' = ?w2" using less.prems(6) \<open>\<not> d\<close> copy True unfolding step by auto
          then show ?thesis using fo cp False by simp
        next
          case rc2: True
          have x: "copy_frames io sz nb m mxPage it' f ?w2 = (rc, w')" using less.prems(6) \<open>\<not> d\<close> copy True rc2 unfolding step by simp
          have P2: "walFramePgno ?w2 = P" using files_onlyD(11) [OF fo] less.prems(7) by simp
          have it2: "iter_ok ?w2 N it'" by (rule iter_ok_pages [OF _ it']) (simp add: P2 less.prems(7))
          have ct: "copied_to sz P N nb m mxPage log (iPrior it') (content (pDbFd ?w2))"
            unfolding copied_to_def it(3)
          proof (intro allI impI)
            fix p assume p: "0 < p \<and> p \<le> q \<and> p \<le> mxPage \<and> nb < frame_of P N p \<and> frame_of P N p \<le> m"
            show "db_page sz (content (pDbFd ?w2)) p = log_page sz log (frame_of P N p)"
            proof (cases "p = q")
              case True
              then show ?thesis using page rc2 fr(1) by simp
            next
              case False
              then have "p \<le> ?r" using between [of p] p by auto
              then show ?thesis using less.prems(9) p other [OF False] by (simp add: copied_to_def)
            qed
          qed
          have "files_only ?w2 w' \<and> copied sz P N nb m log (content (pDbFd ?w2)) (content (pDbFd w')) \<and>
              (rc = 0 \<longrightarrow> copied_to sz P N nb m mxPage log mxPage (content (pDbFd w')))"
            by (rule less.hyps [OF dec sz mx it2 _ _ x P2 _ ct]) (use W R in simp_all)
          then show ?thesis using files_only_trans [OF fo] cp unfolding copied_def by metis
        qed
      qed
    qed
  qed
qed

lemma db_page_zeros: "db_page sz (f @ replicate k 0) p = db_page sz f p"
  by (simp add: db_page_def)

lemma backfill_files:
  fixes w :: "'k wal"
  assumes w: "iter_ok w N it" "iPrior it = 0" "ok (pWalFd w)" "ok (pDbFd w)"
    and x: "backfill io sz m (unat (nPage (hdr w))) fl it w = (rc, w')"
    and sz: "sz < 0x20000" and np: "unat (nPage (hdr w)) < 0xFFFFFFFF"
  defines "P \<equiv> walFramePgno w" and "nb \<equiv> nBackfill (pInfo w)" and "log \<equiv> content (pWalFd w)" and "np \<equiv> unat (nPage (hdr w))"
  shows "(\<exists>w2. files_only w w2 \<and> (rc = 0 \<longrightarrow> w' = w2\<lparr>pInfo := (pInfo w)\<lparr>nBackfill := m\<rparr>\<rparr>) \<and> (rc \<noteq> 0 \<longrightarrow> w' = w2)) \<and>
    (\<forall>p. 0 < p \<and> (p \<le> np \<or> m \<noteq> mxFrame (fst (aHdr w))) \<and> db_page sz (content (pDbFd w')) p \<noteq> db_page sz (content (pDbFd w)) p \<longrightarrow>
      nb < frame_of P N p \<and> frame_of P N p \<le> m) \<and>
    (rc = 0 \<longrightarrow> copied_to sz P N nb m np log np (content (pDbFd w')))"
proof -
  obtain rs w1 where s: "(if fl \<noteq> 0 then case xSync io (pWalFd w) fl of (rc, fd) \<Rightarrow> (rc, w\<lparr>pWalFd := fd\<rparr>) else (0, w)) = (rs, w1)"
    by (rule prod.exhaust)
  have w1: "files_only w w1" "content (pDbFd w1) = content (pDbFd w)"
  proof -
    obtain r fd where y: "xSync io (pWalFd w) fl = (r, fd)" by (rule prod.exhaust)
    have "w1 = (if fl \<noteq> 0 then w\<lparr>pWalFd := fd\<rparr> else w)" using s y by (auto split: if_splits)
    then show "files_only w w1" "content (pDbFd w1) = content (pDbFd w)"
      using vfs_sync [OF w(3) y] w(3,4) by (auto simp: files_only_wal files_only_refl)
  qed
  obtain rz w2 where z: "(if rs = 0 then case xFileSize io (pDbFd w1) of (rc, nSize, fd) \<Rightarrow>
      let nReq = np * sz in (rc, w1\<lparr>pDbFd := (if rc = 0 \<and> nSize < nReq then xSizeHint io fd nReq else fd)\<rparr>) else (rs, w1)) = (rz, w2)"
    by (rule prod.exhaust)
  have w2: "files_only w w2" "\<exists>k. content (pDbFd w2) = content (pDbFd w) @ replicate k 0"
  proof -
    note D = files_onlyD [OF w1(1)]
    obtain r n fd where y: "xFileSize io (pDbFd w1) = (r, n, fd)" by (rule prod_cases3)
    note v = vfs_size [OF D(9) y]
    let ?fd = "if r = 0 \<and> n < np * sz then xSizeHint io fd (np * sz) else fd"
    have w2: "w2 = (if rs = 0 then w1\<lparr>pDbFd := ?fd\<rparr> else w1)" using z y by (auto simp: Let_def)
    have "ok ?fd \<and> (\<exists>k. content ?fd = content (pDbFd w) @ replicate k 0)"
    proof (cases "r = 0 \<and> n < np * sz")
      case True
      have "length (content fd) \<le> np * sz" using v True by (auto split: if_splits)
      from vfs_hint [OF conjunct1 [OF conjunct2 [OF v]] this] show ?thesis using True v w1(2) by simp
    next
      case False
      then have e: "?fd = fd" by (rule if_not_P)
      have "ok fd" "content fd = content (pDbFd w) @ replicate 0 0" using v w1(2) by simp_all
      then show ?thesis unfolding e by (intro conjI exI [of _ 0])
    qed
    then have fd: "ok ?fd" "\<exists>k. content ?fd = content (pDbFd w) @ replicate k 0" by blast+
    define g where "g = ?fd"
    note fd = fd [folded g_def]
    have "w2 = (if rs = 0 then w1\<lparr>pDbFd := g\<rparr> else w1)" unfolding g_def by (rule w2)
    moreover have "files_only w (w1\<lparr>pDbFd := g\<rparr>)" by (rule files_only_trans [OF w1(1) files_only_db [OF fd(1) D(8)]])
    moreover have "\<exists>k. content (pDbFd w1) = content (pDbFd w) @ replicate k 0" using w1(2) by (intro exI [of _ 0]) simp
    ultimately have "files_only w w2 \<and> (\<exists>k. content (pDbFd w2) = content (pDbFd w) @ replicate k 0)"
      using fd(2) w1(1) by (simp split: if_splits)
    then show "files_only w w2" "\<exists>k. content (pDbFd w2) = content (pDbFd w) @ replicate k 0" by blast+
  qed
  have pg2: "db_page sz (content (pDbFd w2)) p = db_page sz (content (pDbFd w)) p" for p using w2(2) by (auto simp: db_page_zeros)
  note D2 = files_onlyD [OF w2(1)]
  obtain rf w3 where c: "(if rz = 0 then copy_frames io sz nb m np it 0 w2 else (rz, w2)) = (rf, w3)" by (rule prod.exhaust)
  have w3: "files_only w2 w3" "copied sz P N nb m log (content (pDbFd w2)) (content (pDbFd w3))"
    "rf = 0 \<Longrightarrow> copied_to sz P N nb m np log np (content (pDbFd w3))"
  proof (atomize (full), cases "rz = 0")
    case True
    have it: "iter_ok w2 N it" by (rule iter_ok_pages [OF _ w(1)]) (simp add: D2(11))
    have "copied_to sz P N nb m np log (iPrior it) (content (pDbFd w2))" unfolding w(2) copied_to_def by simp
    with copy_frames_ok [OF sz np [folded np_def] it D2(8,9), of nb m 0 rf w3 P log] c True D2(10,11)
    show "files_only w2 w3 \<and> copied sz P N nb m log (content (pDbFd w2)) (content (pDbFd w3)) \<and>
        (rf = 0 \<longrightarrow> copied_to sz P N nb m np log np (content (pDbFd w3)))"
      by (simp add: P_def log_def)
  next
    case False
    then show "files_only w2 w3 \<and> copied sz P N nb m log (content (pDbFd w2)) (content (pDbFd w3)) \<and>
        (rf = 0 \<longrightarrow> copied_to sz P N nb m np log np (content (pDbFd w3)))"
      using c D2(8,9) by (auto simp: files_only_refl copied_def)
  qed
  note D3 = files_onlyD [OF w3(1)]
  have fo3: "files_only w w3" by (rule files_only_trans [OF w2(1) w3(1)])
  have cp3: "db_page sz (content (pDbFd w3)) p \<noteq> db_page sz (content (pDbFd w)) p \<Longrightarrow> 0 < p \<Longrightarrow> nb < frame_of P N p \<and> frame_of P N p \<le> m" for p
    using w3(2) pg2 [of p] by (simp add: copied_def)
  obtain rt fd where t: "xTruncate io (pDbFd w3) (np * sz) = (rt, fd)" by (rule prod.exhaust)
  obtain ru fd2 where u: "(if rt = 0 \<and> fl \<noteq> 0 then xSync io fd fl else (rt, fd)) = (ru, fd2)" by (rule prod.exhaust)
  let ?trunc = "m = mxFrame (fst (aHdr w))"
  have h3: "hdr w3 = hdr w" "aHdr w3 = aHdr w" "pInfo w3 = pInfo w" using files_onlyD [OF fo3] by simp_all
  define rg w4 where "rg = (if ?trunc then ru else 0)" and "w4 = (if ?trunc then w3\<lparr>pDbFd := fd2\<rparr> else w3)"
  have r: "(rc, w') = (if rf \<noteq> 0 then (rf, w3) else (rg, if rg = 0 then w4\<lparr>pInfo := (pInfo w4)\<lparr>nBackfill := m\<rparr>\<rparr> else w4))"
  proof -
    have g: "(if ?trunc then case (ru, fd2) of (rc, fd) \<Rightarrow> (rc, w3\<lparr>pDbFd := fd\<rparr>) else (0, w3)) = (rg, w4)"
      by (simp add: rg_def w4_def)
    show ?thesis
      using x unfolding backfill_def Let_def s prod.case z [unfolded Let_def, folded np_def] nb_def [symmetric] np_def [symmetric] c h3 t u
        g [unfolded prod.case] by (simp split: if_splits)
  qed
  note T = vfs_truncate [OF D3(9) t]
  have U: "ok fd2" "content fd2 = content fd"
    using u T vfs_sync [of fd fl ru fd2] by (auto split: if_splits)
  have fo4: "files_only w w4"
    using files_only_trans [OF fo3 files_only_db [OF U(1) D3(8)]] fo3 by (simp add: w4_def)
  have pg4: "db_page sz (content (pDbFd w4)) p = db_page sz (content (pDbFd w3)) p" if "p \<le> np \<or> \<not> ?trunc" for p
  proof (cases ?trunc)
    case True
    then have "p * sz \<le> np * sz" using that by simp
    then have "db_page sz (content fd) p = db_page sz (content (pDbFd w3)) p"
      using db_page_cong [of "np * sz" "content fd" "content (pDbFd w3)" p sz] T by blast
    then show ?thesis using True U(2) by (simp add: w4_def)
  qed (simp add: w4_def)
  show ?thesis
  proof (cases "rf = 0")
    case False
    then have "rc \<noteq> 0" "w' = w3" using r by auto
    then show ?thesis using fo3 cp3 by (intro conjI exI [of _ w3]) auto
  next
    case True
    have w': "rc = rg" "w' = (if rg = 0 then w4\<lparr>pInfo := (pInfo w4)\<lparr>nBackfill := m\<rparr>\<rparr> else w4)" using r True by simp_all
    have i4: "pInfo w4 = pInfo w" using files_onlyD(3) [OF fo4] .
    have d': "content (pDbFd w') = content (pDbFd w4)" using w'(2) by simp
    have "copied_to sz P N nb m np log np (content (pDbFd w'))" unfolding d'
      using w3(3) [OF True] pg4 by (simp add: copied_to_def)
    moreover have "\<exists>w2. files_only w w2 \<and> (rc = 0 \<longrightarrow> w' = w2\<lparr>pInfo := (pInfo w)\<lparr>nBackfill := m\<rparr>\<rparr>) \<and> (rc \<noteq> 0 \<longrightarrow> w' = w2)"
      using fo4 w' i4 by (intro exI [of _ w4]) simp
    moreover have "\<forall>p. 0 < p \<and> (p \<le> np \<or> \<not> ?trunc) \<and> db_page sz (content (pDbFd w')) p \<noteq> db_page sz (content (pDbFd w)) p \<longrightarrow>
        nb < frame_of P N p \<and> frame_of P N p \<le> m"
    proof (intro allI impI)
      fix p assume p: "0 < p \<and> (p \<le> np \<or> \<not> ?trunc) \<and> db_page sz (content (pDbFd w')) p \<noteq> db_page sz (content (pDbFd w)) p"
      then have "db_page sz (content (pDbFd w3)) p \<noteq> db_page sz (content (pDbFd w)) p" using pg4 [of p] unfolding d' by metis
      then show "nb < frame_of P N p \<and> frame_of P N p \<le> m" using cp3 p by blast
    qed
    ultimately show ?thesis by blast
  qed
qed

section \<open>Locks during a checkpoint\<close>

definition ckpt_ready :: "'k wal \<Rightarrow> bool" where
  "ckpt_ready w \<longleftrightarrow> ckptLock w \<and> ok (pWalFd w) \<and> ok (pDbFd w) \<and> nBackfill (pInfo w) < mxFrame (hdr w) \<and>
     mxFrame (hdr w) \<le> mxFrame (fst (aHdr w))"

definition ckpt_same :: "'k wal \<Rightarrow> 'k wal \<Rightarrow> bool" where
  "ckpt_same w w' \<longleftrightarrow> hdr w' = hdr w \<and> ckptLock w' = ckptLock w \<and> exclusiveMode w' = exclusiveMode w \<and>
     ok (pWalFd w') \<and> ok (pDbFd w') \<and> content (pWalFd w') = content (pWalFd w) \<and> content (pDbFd w') = content (pDbFd w) \<and>
     (\<forall>i. 0 < i \<and> i \<le> mxFrame (hdr w) \<longrightarrow> walFramePgno w' i = walFramePgno w i) \<and>
     nBackfill (pInfo w') = nBackfill (pInfo w) \<and> mxFrame (hdr w) \<le> mxFrame (fst (aHdr w'))"

lemma ckpt_same_ready: "ckpt_ready w \<Longrightarrow> ckpt_same w w' \<Longrightarrow> ckpt_ready w'"
  by (simp add: ckpt_ready_def ckpt_same_def)

lemma ckpt_same_trans: "ckpt_same w w1 \<Longrightarrow> ckpt_same w1 w2 \<Longrightarrow> ckpt_same w w2"
  by (simp add: ckpt_same_def)

lemma ckpt_same_refl: "ckpt_ready w \<Longrightarrow> ckpt_same w w"
  by (simp add: ckpt_ready_def ckpt_same_def)

lemma ckpt_same_marks: "ckpt_same w w' \<Longrightarrow> ckpt_same w (w'\<lparr>pInfo := (pInfo w')\<lparr>aReadMark := l\<rparr>\<rparr>)"
  using walFramePgno_cong [of "w'\<lparr>pInfo := (pInfo w')\<lparr>aReadMark := l\<rparr>\<rparr>" w'] by (simp add: ckpt_same_def)

lemma after_lock_ckpt:
  assumes "ckpt_ready w" "after_lock w w'"
  shows "ckpt_same w w'"
proof -
  note D = after_lockD [OF assms(2)]
  show ?thesis using assms D by (simp add: ckpt_ready_def ckpt_same_def after_lock_def)
qed

end

context wal_readers
begin

text \<open>The marks of readers stay.\<close>

definition marks_same :: "'k wal \<Rightarrow> 'k wal \<Rightarrow> bool" where
  "marks_same w w' \<longleftrightarrow> (\<forall>i. held (pDbFd w) i \<longrightarrow> held (pDbFd w') i \<and> aReadMark (pInfo w') ! i = aReadMark (pInfo w) ! i)"

lemma marks_same_trans: "marks_same w w1 \<Longrightarrow> marks_same w1 w2 \<Longrightarrow> marks_same w w2"
  by (simp add: marks_same_def)

lemma marks_same_refl: "marks_same w w"
  by (simp add: marks_same_def)

lemma walLock_marks: "walLockExclusive io w i n = (rc, w') \<Longrightarrow> marks_same w w'" "marks_same w (walUnlockExclusive io w i n)"
  using reader_kept by (auto simp: walLockExclusive_def walUnlockExclusive_def marks_same_def split: if_splits) (metis prod.collapse)+

lemma walLock_busy:
  "walLockExclusive io w (WAL_READ_LOCK j) n = (rc, w') \<Longrightarrow> exclusiveMode w = 0 \<Longrightarrow> held (pDbFd w) i \<Longrightarrow> j \<le> i \<Longrightarrow> i < j + n \<Longrightarrow>
    j + n \<le> WAL_NREADER \<Longrightarrow> rc \<noteq> 0"
  using reader_busy [of w i j n rc w'] by (simp add: walLockExclusive_def)

lemma walBusyLock_rule:
  assumes "\<And>v rc v'. P v \<Longrightarrow> walLockExclusive io v i n = (rc, v') \<Longrightarrow> P v' \<and> Q rc"
  shows "P w \<Longrightarrow> walBusyLock io xBusy i n w = (rc, xBusy', w') \<Longrightarrow> P w' \<and> Q rc"
proof (induction xBusy arbitrary: w)
  case Nil
  then show ?case using assms by (auto split: prod.splits)
next
  case (Cons a xs)
  obtain rc1 w1 where l: "walLockExclusive io w i n = (rc1, w1)" by (rule prod.exhaust)
  show ?case using Cons assms [OF Cons.prems(1) l] l by (auto split: if_splits)
qed

lemma walBusyLock_ok:
  assumes "ckpt_ready w" "walBusyLock io xBusy i n w = (rc, xBusy', w')"
  shows "ckpt_same w w' \<and> marks_same w w'"
proof -
  have "(ckpt_same w w' \<and> marks_same w w') \<and> True"
  proof (rule walBusyLock_rule [OF _ _ assms(2)])
    show "ckpt_same w w \<and> marks_same w w" using ckpt_same_refl [OF assms(1)] marks_same_refl by blast
    fix v rc v' assume v: "ckpt_same w v \<and> marks_same w v" and l: "walLockExclusive io v i n = (rc, v')"
    have "ckpt_ready v" using ckpt_same_ready [OF assms(1)] v by blast
    moreover have "ok (pWalFd v)" using v by (simp add: ckpt_same_def)
    ultimately have "ckpt_same v v'" using after_lock_ckpt after_walLock(1) l by blast
    then show "(ckpt_same w v' \<and> marks_same w v') \<and> True"
      using v ckpt_same_trans marks_same_trans walLock_marks(1) [OF l] by blast
  qed
  then show ?thesis by blast
qed

lemma walBusyLock_busy:
  assumes "ok (pWalFd w)" "walBusyLock io xBusy (WAL_READ_LOCK j) n w = (rc, xBusy', w')" "exclusiveMode w = 0" "held (pDbFd w) i"
    "j \<le> i" "i < j + n" "j + n \<le> WAL_NREADER"
  shows "rc \<noteq> 0"
proof -
  have "(ok (pWalFd w') \<and> exclusiveMode w' = 0 \<and> held (pDbFd w') i) \<and> rc \<noteq> 0"
  proof (rule walBusyLock_rule [OF _ _ assms(2)])
    show "ok (pWalFd w) \<and> exclusiveMode w = 0 \<and> held (pDbFd w) i" using assms by blast
    fix v rc v' assume v: "ok (pWalFd v) \<and> exclusiveMode v = 0 \<and> held (pDbFd v) i" and l: "walLockExclusive io v (WAL_READ_LOCK j) n = (rc, v')"
    have "after_lock v v'" using after_walLock(1) v l by blast
    then show "(ok (pWalFd v') \<and> exclusiveMode v' = 0 \<and> held (pDbFd v') i) \<and> rc \<noteq> 0"
      using v after_lockD(1,8) walLock_marks(1) [OF l] walLock_busy [OF l _ _ assms(5-7)] unfolding marks_same_def by metis
  qed
  then show ?thesis by blast
qed

text \<open>Taking the locks of all readers: the files stay, whatever the index has.\<close>

definition files_kept :: "'k wal \<Rightarrow> 'k wal \<Rightarrow> bool" where
  "files_kept w w' \<longleftrightarrow> hdr w' = hdr w \<and> ckptLock w' = ckptLock w \<and> exclusiveMode w' = exclusiveMode w \<and> ok (pWalFd w') \<and> ok (pDbFd w') \<and>
     content (pWalFd w') = content (pWalFd w) \<and> content (pDbFd w') = content (pDbFd w) \<and>
     (\<forall>i. 0 < i \<and> i \<le> mxFrame (hdr w) \<longrightarrow> walFramePgno w' i = walFramePgno w i) \<and> marks_same w w'"

lemma files_kept_trans: "files_kept w w1 \<Longrightarrow> files_kept w1 w2 \<Longrightarrow> files_kept w w2"
  using marks_same_trans [of w w1 w2] by (simp add: files_kept_def)

lemma after_lock_kept:
  assumes "ckptLock w" "ok (pDbFd w)" "after_lock w w'" "marks_same w w'"
  shows "files_kept w w'"
proof -
  have "ok (pDbFd w')" "content (pDbFd w') = content (pDbFd w)"
    "\<forall>i. 0 < i \<and> i \<le> mxFrame (hdr w) \<longrightarrow> walFramePgno w' i = walFramePgno w i"
    using assms(3) [unfolded after_lock_def] assms(1,2) by blast+
  then show ?thesis using after_lockD [OF assms(3)] assms(4) by (simp add: files_kept_def)
qed

lemma walBusyLock_kept:
  assumes "ckptLock w" "ok (pWalFd w)" "ok (pDbFd w)" "walBusyLock io xBusy i n w = (rc, xBusy', w')"
  shows "files_kept w w'"
proof -
  have "files_kept w w' \<and> True"
  proof (rule walBusyLock_rule [OF _ _ assms(4)])
    show "files_kept w w" using assms by (simp add: files_kept_def marks_same_refl)
    fix v rc v' assume v: "files_kept w v" and l: "walLockExclusive io v i n = (rc, v')"
    then have "files_kept v v'" using after_lock_kept [OF _ _ after_walLock(1) [OF _ l] walLock_marks(1) [OF l]] assms(1) by (simp add: files_kept_def)
    then show "files_kept w v' \<and> True" using files_kept_trans [OF v] by blast
  qed
  then show ?thesis by blast
qed

lemma safe_marks_ok:
  "ckpt_ready w \<Longrightarrow> safe_marks io is mx xB rc w = (ab, rc', m, xB', w') \<Longrightarrow> set is \<subseteq> {..<WAL_NREADER} \<Longrightarrow>
    ckpt_same w w' \<and> m \<le> mx \<and> (exclusiveMode w = 0 \<longrightarrow> marks_same w w') \<and>
    (\<not> ab \<and> exclusiveMode w = 0 \<longrightarrow> (\<forall>i \<in> set is. held (pDbFd w) i \<longrightarrow> m \<le> aReadMark (pInfo w) ! i))"
proof (induction "is" arbitrary: mx xB rc w)
  case Nil
  then show ?case by (auto simp: ckpt_same_refl marks_same_refl)
next
  case (Cons i "is")
  let ?y = "aReadMark (pInfo w) ! i"
  obtain rc1 xB1 w1 where l: "walBusyLock io xB (WAL_READ_LOCK i) 1 w = (rc1, xB1, w1)" by (rule prod_cases3)
  note s = walBusyLock_ok [OF Cons.prems(1) l, THEN conjunct1] walBusyLock_ok [OF Cons.prems(1) l, THEN conjunct2]
  note r1 = ckpt_same_ready [OF Cons.prems(1) s(1)]
  let ?w2 = "w1\<lparr>pInfo := (pInfo w1)\<lparr>aReadMark := (aReadMark (pInfo w1))[i := if i = 1 then mx else READMARK_NOT_USED]\<rparr>\<rparr>"
  let ?w3 = "walUnlockExclusive io ?w2 (WAL_READ_LOCK i) 1"
  have step: "safe_marks io (i # is) mx xB rc w = (if mx > ?y then if rc1 = 0 then safe_marks io is mx xB1 rc1 ?w3
      else if rc1 = SQLITE_BUSY then safe_marks io is ?y [] rc1 w1 else (True, rc1, mx, xB1, w1) else safe_marks io is mx xB rc w)"
    unfolding safe_marks.simps Let_def l prod.case ..
  consider (free) "mx > ?y" "rc1 = 0" | (busy) "mx > ?y" "rc1 = SQLITE_BUSY" | (fail) "mx > ?y" "rc1 \<noteq> 0" "rc1 \<noteq> SQLITE_BUSY" | (low) "mx \<le> ?y"
    by linarith
  then show ?case
  proof cases
    case free
    have x: "safe_marks io is mx xB1 rc1 ?w3 = (ab, rc', m, xB', w')" using Cons.prems(2) free unfolding step by simp
    have s2: "ckpt_same w ?w2" by (rule ckpt_same_marks [OF s(1)])
    have ok2: "ok (pWalFd ?w2)" using r1 by (simp add: ckpt_ready_def)
    have s3: "ckpt_same w ?w3"
      using ckpt_same_trans [OF s2 after_lock_ckpt [OF ckpt_same_ready [OF Cons.prems(1) s2] after_walLock(3) [OF ok2]]] by blast
    have free: "\<not> held (pDbFd w) i" if "exclusiveMode w = 0"
      using walBusyLock_busy [OF _ l that, of i] free(2) Cons.prems(1,3) by (auto simp: ckpt_ready_def)
    have m3: "marks_same w ?w3" if "exclusiveMode w = 0"
    proof -
      have "l[i := x] ! j = l ! j" if "held (pDbFd w) j" for j and l :: "nat list" and x
        using free \<open>exclusiveMode w = 0\<close> that by (cases "j = i") auto
      then have "marks_same w ?w2" using s(2) by (auto simp: marks_same_def)
      then show ?thesis using marks_same_trans walLock_marks(2) by blast
    qed
    have e3: "exclusiveMode ?w3 = exclusiveMode w" using s3 unfolding ckpt_same_def by blast
    have iss: "set is \<subseteq> {..<WAL_NREADER}" using Cons.prems(3) by simp
    note ih = Cons.IH [OF ckpt_same_ready [OF Cons.prems(1) s3] x iss]
    show ?thesis
    proof (intro conjI impI ballI)
      show "ckpt_same w w'" "m \<le> mx" using ih ckpt_same_trans [OF s3] by blast+
      show "marks_same w w'" if "exclusiveMode w = 0" using ih marks_same_trans [OF m3 [OF that]] e3 that by simp
      fix j assume j: "\<not> ab \<and> exclusiveMode w = 0" "j \<in> set (i # is)" "held (pDbFd w) j"
      then have "j \<in> set is" using free by auto
      moreover have "held (pDbFd ?w3) j" "aReadMark (pInfo ?w3) ! j = aReadMark (pInfo w) ! j" using m3 j by (simp_all add: marks_same_def)
      ultimately have "m \<le> aReadMark (pInfo ?w3) ! j" "aReadMark (pInfo ?w3) ! j = aReadMark (pInfo w) ! j"
        using ih j(1) unfolding e3 by blast+
      then show "m \<le> aReadMark (pInfo w) ! j" by (rule ord_le_eq_trans)
    qed
  next
    case busy
    have "safe_marks io is ?y [] rc1 w1 = (ab, rc', m, xB', w')" using Cons.prems(2) busy unfolding step by simp
    note ih = Cons.IH [OF r1 this] Cons.prems(3)
    have e1: "exclusiveMode w1 = exclusiveMode w" using s(1) by (simp add: ckpt_same_def)
    show ?thesis
    proof (intro conjI impI ballI)
      show "ckpt_same w w'" "m \<le> mx" using ih ckpt_same_trans [OF s(1)] busy(1) by simp_all
      show "marks_same w w'" if "exclusiveMode w = 0" using ih marks_same_trans [OF s(2)] e1 that by simp
      fix j assume j: "\<not> ab \<and> exclusiveMode w = 0" "j \<in> set (i # is)" "held (pDbFd w) j"
      then have "held (pDbFd w1) j" "aReadMark (pInfo w1) ! j = aReadMark (pInfo w) ! j" using s(2) by (simp_all add: marks_same_def)
      then show "m \<le> aReadMark (pInfo w) ! j" using ih j e1 by auto
    qed
  next
    case fail
    then show ?thesis using Cons.prems(2) s unfolding step by auto
  next
    case low
    then have "safe_marks io is mx xB rc w = (ab, rc', m, xB', w')" using Cons.prems(2) unfolding step by simp
    from Cons.IH [OF Cons.prems(1) this] Cons.prems(3) low show ?thesis by auto
  qed
qed

text \<open>What a checkpoint does: frames up to \<^verbatim>\<open>m\<close> may be copied, those up to \<^verbatim>\<open>k\<close> have been.\<close>

definition checkpointed :: "'k wal \<Rightarrow> nat \<Rightarrow> nat \<Rightarrow> 'k \<Rightarrow> bool" where
  "checkpointed w m k d \<longleftrightarrow>
     (let N = mxFrame (hdr w); P = walFramePgno w; nb = nBackfill (pInfo w); sz = walPagesize w; np = unat (nPage (hdr w))
      in nb \<le> k \<and> k \<le> m \<and> m \<le> N \<and>
        (\<forall>p. 0 < p \<and> (p \<le> np \<or> m < N) \<and> db_page sz (content d) p \<noteq> db_page sz (content (pDbFd w)) p \<longrightarrow>
          nb < frame_of P N p \<and> frame_of P N p \<le> m) \<and>
        backfilled sz P (content (pWalFd w)) (content d) np N k \<and>
        (exclusiveMode w = 0 \<and> held (pDbFd w) 0 \<longrightarrow> content d = content (pDbFd w)) \<and>
        (\<forall>i \<in> {1..<WAL_NREADER}. exclusiveMode w = 0 \<and> held (pDbFd w) i \<longrightarrow> m \<le> max nb (aReadMark (pInfo w) ! i)))"

lemma checkpointed_none:
  assumes "done_before content ok w" "content d = content (pDbFd w)"
  shows "checkpointed w (nBackfill (pInfo w)) (nBackfill (pInfo w)) d"
  using assms by (auto simp: checkpointed_def done_before_def Let_def)

lemma walPagesize_less: "walPagesize w < 0x20000"
proof -
  have "unat (hdr_szPage (hdr w) AND 0xfe00) \<le> 0xfe00" "unat (hdr_szPage (hdr w) AND 1) \<le> 1"
    using word_and_le1 [of "hdr_szPage (hdr w)" "0xfe00"] word_and_le1 [of "hdr_szPage (hdr w)" 1]
    by (simp_all add: word_le_nat_alt)
  then show ?thesis by (simp add: walPagesize_def)
qed

lemma backfilled_copied:
  assumes "backfilled sz P log db np N nb" "copied_to sz P N nb m np log np db'"
    and "\<And>p. 0 < p \<Longrightarrow> p \<le> np \<Longrightarrow> db_page sz db' p \<noteq> db_page sz db p \<Longrightarrow> nb < frame_of P N p"
  shows "backfilled sz P log db' np N m"
  unfolding backfilled_def
proof (intro allI impI)
  fix p assume p: "0 < p \<and> p \<le> np \<and> 0 < frame_of P N p \<and> frame_of P N p \<le> m"
  show "db_page sz db' p = log_page sz log (frame_of P N p)"
  proof (cases "nb < frame_of P N p")
    case True
    then show ?thesis using assms(2) p by (simp add: copied_to_def)
  next
    case False
    then have "db_page sz db' p = db_page sz db p" using assms(3) p by blast
    then show ?thesis using assms(1) p False by (simp add: backfilled_def)
  qed
qed

lemma copy_frames_held:
  "held (pDbFd w) i \<Longrightarrow> copy_frames io sz nb m mxPage it f w = (rc, w') \<Longrightarrow> held (pDbFd w') i \<and> aReadMark (pInfo w') = aReadMark (pInfo w)"
proof (induction "0xFFFFFFFF - iPrior it" arbitrary: it f w rule: less_induct)
  case less
  obtain d q f' it' where n: "walIteratorNext w it f = (d, q, f', it')" by (rule prod_cases4)
  obtain rc1 zBuf fd where rd: "xRead io (pWalFd w) sz (walFrameOffset f' sz + 24) = (rc1, zBuf, fd)" by (rule prod_cases3)
  obtain rc2 fd2 where wr: "xWrite io (pDbFd w) zBuf ((q - 1) * sz) = (rc2, fd2)" by (rule prod.exhaust)
  have h2: "held fd2 i" using reader_io [OF less.prems(1), of zBuf "(q - 1) * sz"] wr by simp
  have dec: "0xFFFFFFFF - iPrior it' < 0xFFFFFFFF - iPrior it" if "\<not> d"
    using next_page_after [of w "iPrior it" f "aSegment it"] n that by (auto simp: walIteratorNext_def split: prod.splits)
  have "copy_frames io sz nb m mxPage it f w = (if d then (0, w)
      else if f' \<le> nb \<or> f' > m \<or> q > mxPage then copy_frames io sz nb m mxPage it' f' w
      else if rc1 \<noteq> 0 then (rc1, w\<lparr>pWalFd := fd\<rparr>) else if rc2 \<noteq> 0 then (rc2, w\<lparr>pWalFd := fd, pDbFd := fd2\<rparr>)
      else copy_frames io sz nb m mxPage it' f' (w\<lparr>pWalFd := fd, pDbFd := fd2\<rparr>))"
    using n rd wr by (subst copy_frames.simps) (simp add: Let_def)
  then show ?case
    using less.prems less.hyps [OF dec, of w f'] less.hyps [OF dec, of "w\<lparr>pWalFd := fd, pDbFd := fd2\<rparr>" f'] h2
    by (cases d) (auto split: if_splits)
qed

lemma backfill_held:
  assumes "held (pDbFd w) i" "backfill io sz m np fl it w = (rc, w')"
  shows "held (pDbFd w') i \<and> aReadMark (pInfo w') = aReadMark (pInfo w)"
proof -
  let ?I = "\<lambda>v. held (pDbFd v) i \<and> aReadMark (pInfo v) = aReadMark (pInfo w)"
  obtain rs w1 where s: "(if fl \<noteq> 0 then case xSync io (pWalFd w) fl of (rc, fd) \<Rightarrow> (rc, w\<lparr>pWalFd := fd\<rparr>) else (0, w)) = (rs, w1)"
    by (rule prod.exhaust)
  have w1: "?I w1" using assms(1) s by (auto split: if_splits prod.splits)
  obtain rz w2 where z: "(if rs = 0 then case xFileSize io (pDbFd w1) of (rc, nSize, fd) \<Rightarrow>
      let nReq = np * sz in (rc, w1\<lparr>pDbFd := (if rc = 0 \<and> nSize < nReq then xSizeHint io fd nReq else fd)\<rparr>) else (rs, w1)) = (rz, w2)"
    by (rule prod.exhaust)
  have w2: "?I w2"
  proof -
    obtain r n fd where y: "xFileSize io (pDbFd w1) = (r, n, fd)" by (rule prod_cases3)
    have fd: "held fd i" using reader_io [OF conjunct1 [OF w1]] y by (metis snd_conv)
    have "held (if r = 0 \<and> n < np * sz then xSizeHint io fd (np * sz) else fd) i" using reader_io [OF fd] fd by simp
    then show ?thesis using z y w1 by (auto simp: Let_def split: if_splits)
  qed
  obtain rf w3 where c: "(if rz = 0 then copy_frames io sz (nBackfill (pInfo w)) m np it 0 w2 else (rz, w2)) = (rf, w3)" by (rule prod.exhaust)
  have w3: "?I w3" using c copy_frames_held [OF conjunct1 [OF w2], of sz _ m np it 0 rf w3] w2 by (auto split: if_splits)
  obtain rt fd where t: "xTruncate io (pDbFd w3) (unat (nPage (hdr w3)) * sz) = (rt, fd)" by (rule prod.exhaust)
  obtain ru fd2 where u: "(if rt = 0 \<and> fl \<noteq> 0 then xSync io fd fl else (rt, fd)) = (ru, fd2)" by (rule prod.exhaust)
  have fd: "held fd i" using reader_io [OF conjunct1 [OF w3]] t by (metis snd_conv)
  have fd2: "held fd2 i" using reader_io [OF fd] fd u by (metis prod.inject snd_conv)
  show ?thesis
    using assms(2) w3 fd2 unfolding backfill_def Let_def s prod.case z [unfolded Let_def] c t u
    by (auto split: if_splits)
qed

lemma walFramePgno_info: "walFramePgno (w\<lparr>pInfo := x\<rparr>) = walFramePgno w"
  by (rule ext) (simp add: walFramePgno_def Let_def)

lemma checkpoint_frames_ok:
  assumes w: "done_before content ok w" "nBackfill (pInfo w) < mxFrame (hdr w)"
    and x: "checkpoint_frames io pg m1 m2 xB fl w = (ab, rc, xB', w')"
  shows "hdr w' = hdr w \<and> ckptLock w' \<and> ok (pWalFd w') \<and> ok (pDbFd w') \<and> content (pWalFd w') = content (pWalFd w) \<and>
    exclusiveMode w' = exclusiveMode w \<and> (\<forall>i. 0 < i \<and> i \<le> mxFrame (hdr w) \<longrightarrow> walFramePgno w' i = walFramePgno w i) \<and>
    (exclusiveMode w = 0 \<longrightarrow> marks_same w w') \<and>
    (\<exists>m k. checkpointed w m k (pDbFd w') \<and> (k = mxFrame (hdr w) \<or> nBackfill (pInfo w') = k))"
proof -
  let ?N = "mxFrame (hdr w)" and ?nb = "nBackfill (pInfo w)"
  have rdy: "ckpt_ready w" using w by (simp add: done_before_def ckpt_ready_def)
  have none: "?thesis" if "ckpt_same w w'" "exclusiveMode w = 0 \<longrightarrow> marks_same w w'"
    using that rdy checkpointed_none [OF w(1), of "pDbFd w'"] by (auto simp: ckpt_same_def ckpt_ready_def)
  obtain rci it where i: "walIteratorInit pg m1 m2 w = (rci, it)" by (rule prod.exhaust)
  obtain ab1 rc1 m xB1 w1 where s: "safe_marks io [1..<WAL_NREADER] ?N xB 0 w = (ab1, rc1, m, xB1, w1)" by (rule prod_cases5)
  have S: "ckpt_same w w1 \<and> m \<le> ?N \<and> (exclusiveMode w = 0 \<longrightarrow> marks_same w w1) \<and>
      (\<not> ab1 \<and> exclusiveMode w = 0 \<longrightarrow> (\<forall>i \<in> set [1..<WAL_NREADER]. held (pDbFd w) i \<longrightarrow> m \<le> aReadMark (pInfo w) ! i))"
    by (rule safe_marks_ok [OF rdy s]) auto
  obtain rc2 xB2 w2 where b: "walBusyLock io xB1 (WAL_READ_LOCK 0) 1 w1 = (rc2, xB2, w2)" by (rule prod_cases3)
  have r1: "ckpt_ready w1" using S ckpt_same_ready [OF rdy] by blast
  have s2: "ckpt_same w w2" using S ckpt_same_trans walBusyLock_ok [OF r1 b] by blast
  have r2: "ckpt_ready w2" by (rule ckpt_same_ready [OF rdy s2])
  obtain rc3 w3 where f: "backfill io (walPagesize w2) m (unat (nPage (hdr w2))) fl it w2 = (rc3, w3)" by (rule prod.exhaust)
  have w': "w' = (if rci \<noteq> 0 then w else if ab1 then w1 else if ?nb < m then
      (if rc2 = 0 then walUnlockExclusive io w3 (WAL_READ_LOCK 0) 1 else w2) else w1)"
    using x S unfolding checkpoint_frames_def i prod.case s b f by (simp add: ckpt_same_def split: if_splits)
  have s2m: "exclusiveMode w = 0 \<longrightarrow> marks_same w w2" using S marks_same_trans walBusyLock_ok [OF r1 b] by blast
  consider "ckpt_same w w'" "exclusiveMode w = 0 \<longrightarrow> marks_same w w'" | (copy) "rci = 0" "\<not> ab1" "?nb < m" "rc2 = 0" "w' = walUnlockExclusive io w3 (WAL_READ_LOCK 0) 1"
    using w' S s2 s2m ckpt_same_refl [OF rdy] marks_same_refl by (auto split: if_splits)
  then show ?thesis
  proof cases
    case 1
    show ?thesis by (rule none [OF 1])
  next
    case copy
    let ?P = "walFramePgno w" and ?sz = "walPagesize w" and ?np = "unat (nPage (hdr w))" and ?log = "content (pWalFd w)"
    have h2: "hdr w2 = hdr w" "nBackfill (pInfo w2) = ?nb" "content (pWalFd w2) = ?log" "content (pDbFd w2) = content (pDbFd w)"
      "?N \<le> mxFrame (fst (aHdr w2))" "ok (pWalFd w2)" "ok (pDbFd w2)" "ckptLock w2"
      "\<forall>g. 0 < g \<and> g \<le> ?N \<longrightarrow> walFramePgno w2 g = ?P g" using s2 r2 by (simp_all add: ckpt_same_def ckpt_ready_def)
    have sz2: "walPagesize w2 = ?sz" using h2(1) by (simp add: walPagesize_def)
    have fr: "frame_of (walFramePgno w2) ?N p = frame_of ?P ?N p" for p by (rule frame_of_cong [OF h2(9)])
    have "0 < ?N" using w(2) by linarith
    from walIteratorInit_ok [OF _ this] i copy(1) have it: "iter_ok w ?N it" "iPrior it = 0" by auto
    have it2: "iter_ok w2 ?N it" by (rule iter_ok_pages [OF h2(9) it(1)])
    have np: "?np < 0xFFFFFFFF" using w(1) by (simp add: done_before_def)
    note B = backfill_files [OF it2 it(2) h2(6,7) f walPagesize_less np [folded h2(1)], unfolded sz2 h2(1-4) fr copied_to_def]
    obtain v where v: "files_only w2 v" "rc3 = 0 \<Longrightarrow> w3 = v\<lparr>pInfo := (pInfo w2)\<lparr>nBackfill := m\<rparr>\<rparr>" "rc3 \<noteq> 0 \<Longrightarrow> w3 = v"
      using B by blast
    note V = files_onlyD [OF v(1)]
    have h3: "hdr w3 = hdr w" "ckptLock w3" "ok (pWalFd w3)" "ok (pDbFd w3)" "content (pWalFd w3) = ?log"
      "exclusiveMode w3 = exclusiveMode w" "walFramePgno w3 = walFramePgno w2" "nBackfill (pInfo w3) = (if rc3 = 0 then m else ?nb)"
    proof -
      have d: "hdr w3 = hdr v \<and> exclusiveMode w3 = exclusiveMode v \<and> walFramePgno w3 = walFramePgno v \<and> ckptLock w3 = ckptLock v \<and> pWalFd w3 = pWalFd v \<and> pDbFd w3 = pDbFd v \<and>
        nBackfill (pInfo w3) = (if rc3 = 0 then m else nBackfill (pInfo v))"
      proof (cases "rc3 = 0")
        case True
        show ?thesis unfolding v(2) [OF True] using True by (simp add: walFramePgno_info)
      next
        case False
        show ?thesis unfolding v(3) [OF False] using False by simp
      qed
      have e: "exclusiveMode w2 = exclusiveMode w" using s2 by (simp add: ckpt_same_def)
      show "hdr w3 = hdr w" "ckptLock w3" "ok (pWalFd w3)" "ok (pDbFd w3)" "content (pWalFd w3) = ?log"
        "exclusiveMode w3 = exclusiveMode w" "walFramePgno w3 = walFramePgno w2" "nBackfill (pInfo w3) = (if rc3 = 0 then m else ?nb)"
        using d V(1,3,6-11) h2(1-3,8) e by simp_all
    qed
    have al: "after_lock w3 w'" unfolding copy(5) by (rule after_walLock(3) [OF h3(3)])
    note A = after_lockD [OF al]
    have h': "ok (pDbFd w')" "content (pDbFd w') = content (pDbFd w3)" "nBackfill (pInfo w3) < ?N \<longrightarrow> nBackfill (pInfo w') = nBackfill (pInfo w3)"
      using al h3 by (simp_all add: after_lock_def)
    define k where "k = (if rc3 = 0 then m else ?nb)"
    have m: "m \<le> ?N" using S by blast
    have lt: "p \<le> ?np \<or> m \<noteq> mxFrame (fst (aHdr w2))" if "p \<le> ?np \<or> m < ?N" for p using that h2(5) by linarith
    have diff: "0 < p \<and> (p \<le> ?np \<or> m < ?N) \<and> db_page ?sz (content (pDbFd w')) p \<noteq> db_page ?sz (content (pDbFd w)) p \<Longrightarrow>
        ?nb < frame_of ?P ?N p \<and> frame_of ?P ?N p \<le> m" for p
      using conjunct1 [OF conjunct2 [OF B], rule_format, of p] lt [of p] unfolding h'(2) by blast
    have bf: "backfilled ?sz ?P ?log (content (pDbFd w)) ?np ?N ?nb" using w(1) by (simp add: done_before_def)
    have "copied_to ?sz ?P ?N ?nb k ?np ?log ?np (content (pDbFd w'))"
    proof (cases "rc3 = 0")
      case True
      have e: "k = m" unfolding k_def using True by simp
      show ?thesis unfolding e h'(2) copied_to_def by (rule mp [OF conjunct2 [OF conjunct2 [OF B]] True])
    next
      case False
      then show ?thesis by (auto simp: k_def copied_to_def)
    qed
    with backfilled_copied [OF bf this] diff have "backfilled ?sz ?P ?log (content (pDbFd w')) ?np ?N k" by blast
    moreover have "\<not> (exclusiveMode w = 0 \<and> held (pDbFd w) 0)"
      using walBusyLock_busy [OF _ b, of 0] S r1 copy(4) by (auto simp: ckpt_same_def ckpt_ready_def marks_same_def)
    ultimately have "checkpointed w m k (pDbFd w')"
      using S copy(2,3) m diff unfolding checkpointed_def Let_def by (auto simp: k_def le_max_iff_disj)
    moreover have "k = ?N \<or> nBackfill (pInfo w') = k" using h'(3) h3(8) m w(2) by (auto simp: k_def)
    moreover have "\<forall>i. 0 < i \<and> i \<le> ?N \<longrightarrow> walFramePgno w' i = ?P i"
      using al h3(1,2,7) h2(9) unfolding after_lock_def by metis
    moreover have "exclusiveMode w = 0 \<longrightarrow> marks_same w w'"
    proof
      assume e: "exclusiveMode w = 0"
      have "marks_same w2 w3" using backfill_held [OF _ f] by (simp add: marks_same_def)
      moreover have "marks_same w3 w'" unfolding copy(5) by (rule walLock_marks(2))
      ultimately show "marks_same w w'" using s2m e marks_same_trans by blast
    qed
    ultimately show ?thesis using A h3 h' by (intro conjI exI [of _ m] exI [of _ k]) simp_all
  qed
qed

lemma safe_marks_abort: "safe_marks io is mx xB rc w = (ab, rc', m, xB', w') \<Longrightarrow> ab \<Longrightarrow> rc' \<noteq> 0"
  by (induction "is" arbitrary: mx xB rc w) (auto simp: Let_def split: if_splits prod.splits)

lemma checkpoint_frames_abort: "checkpoint_frames io pg m1 m2 xB fl w = (ab, rc, xB', w') \<Longrightarrow> ab \<Longrightarrow> rc \<noteq> 0"
  using safe_marks_abort by (auto simp: checkpoint_frames_def split: if_splits prod.splits)

lemma walRestartHdr_files:
  "pWalFd (walRestartHdr be s w) = pWalFd w \<and> pDbFd (walRestartHdr be s w) = pDbFd w \<and> ckptLock (walRestartHdr be s w) = ckptLock w \<and>
    exclusiveMode (walRestartHdr be s w) = exclusiveMode w"
  by (simp add: walRestartHdr_def walIndexWriteHdr_def Let_def)

text \<open>The whole checkpoint. Where the log is cut off, all of it is in the database and no reader has a
  mark.\<close>

lemma walCheckpoint_ok:
  assumes w: "done_before content ok w"
    and x: "walCheckpoint be io pg rnd m1 m2 eMode xB fl w = (rc, w')"
  shows "\<exists>m k. checkpointed w m k (pDbFd w') \<and> (rc = 0 \<and> eMode \<noteq> SQLITE_CHECKPOINT_PASSIVE \<longrightarrow> k = mxFrame (hdr w)) \<and>
    (content (pWalFd w') = content (pWalFd w) \<or>
      eMode = SQLITE_CHECKPOINT_TRUNCATE \<and> k = mxFrame (hdr w) \<and> (exclusiveMode w = 0 \<longrightarrow> (\<forall>i \<in> {1..<WAL_NREADER}. \<not> held (pDbFd w) i)))"
proof -
  let ?N = "mxFrame (hdr w)"
  obtain ab rc1 xB1 w1 where f: "(if nBackfill (pInfo w) < ?N then checkpoint_frames io pg m1 m2 xB fl w else (False, 0, xB, w)) = (ab, rc1, xB1, w1)"
    by (rule prod_cases4)
  have W: "ok (pWalFd w)" "ok (pDbFd w)" "ckptLock w" "nBackfill (pInfo w) \<le> ?N" using w by (simp_all add: done_before_def)
  have F: "hdr w1 = hdr w \<and> ckptLock w1 \<and> ok (pWalFd w1) \<and> ok (pDbFd w1) \<and> content (pWalFd w1) = content (pWalFd w) \<and>
      exclusiveMode w1 = exclusiveMode w \<and> (exclusiveMode w = 0 \<longrightarrow> marks_same w w1) \<and>
      (\<exists>m k. checkpointed w m k (pDbFd w1) \<and> (k = ?N \<or> nBackfill (pInfo w1) = k))"
  proof (cases "nBackfill (pInfo w) < ?N")
    case True
    then have "checkpoint_frames io pg m1 m2 xB fl w = (ab, rc1, xB1, w1)" using f by simp
    from checkpoint_frames_ok [OF w True this] show ?thesis by blast
  next
    case False
    then have e: "w1 = w" "nBackfill (pInfo w) = ?N" using f W(4) by auto
    have "checkpointed w ?N ?N (pDbFd w)" using checkpointed_none [OF w, of "pDbFd w"] e(2) by simp
    then show ?thesis unfolding e(1) using W marks_same_refl by blast
  qed
  then obtain m k where mk: "checkpointed w m k (pDbFd w1)" "k = ?N \<or> nBackfill (pInfo w1) = k" by blast
  have kN: "k \<le> ?N" using mk(1) by (auto simp: checkpointed_def Let_def)
  define stop where "stop \<longleftrightarrow> ab \<or> rc1 \<noteq> 0 \<or> eMode = SQLITE_CHECKPOINT_PASSIVE"
  consider (stop) "w' = w1" "rc = rc1" "stop" | (busy) "w' = w1" "rc = SQLITE_BUSY" |
    (finish) "\<not> stop" "\<not> nBackfill (pInfo w1) < ?N"
    using x F unfolding walCheckpoint_def f prod.case stop_def by (auto split: if_splits)
  then show ?thesis
  proof cases
    case stop
    have "ab \<Longrightarrow> rc1 \<noteq> 0" using f checkpoint_frames_abort [of pg m1 m2 xB fl w ab rc1 xB1 w1] by (auto split: if_splits)
    then have "rc = 0 \<and> eMode \<noteq> SQLITE_CHECKPOINT_PASSIVE \<longrightarrow> k = ?N" using stop(2,3) unfolding stop_def by blast
    then show ?thesis using mk(1) F stop(1) by blast
  next
    case busy
    then show ?thesis using mk(1) F by (intro exI [of _ m] exI [of _ k]) simp
  next
    case finish
    have k: "k = ?N" using finish(2) mk(2) kN by linarith
    obtain rc2 xB2 w2 where b: "walBusyLock io xB1 (WAL_READ_LOCK 1) (WAL_NREADER - 1) w1 = (rc2, xB2, w2)" by (rule prod_cases3)
    have K: "files_kept w1 w2" by (rule walBusyLock_kept [OF _ _ _ b]) (use F in blast)+
    have free: "\<forall>i \<in> {1..<WAL_NREADER}. \<not> held (pDbFd w) i" if "rc2 = 0" "exclusiveMode w = 0"
    proof (intro ballI notI)
      fix i assume i: "i \<in> {1..<WAL_NREADER}" "held (pDbFd w) i"
      then have "held (pDbFd w1) i" using F that(2) by (simp add: marks_same_def)
      then have "rc2 \<noteq> 0" using walBusyLock_busy [OF _ b, of i] F i(1) that(2) by simp
      then show False using that(1) by blast
    qed
    let ?w3 = "walRestartHdr be (rnd 4) w2"
    obtain rt fd where t: "xTruncate io (pWalFd ?w3) 0 = (rt, fd)" by (rule prod.exhaust)
    define w4 where "w4 = (if eMode = SQLITE_CHECKPOINT_TRUNCATE then ?w3\<lparr>pWalFd := fd\<rparr> else w2)"
    have r: "w' = (if eMode \<ge> SQLITE_CHECKPOINT_RESTART then if rc2 = 0 then walUnlockExclusive io w4 (WAL_READ_LOCK 1) (WAL_NREADER - 1) else w2 else w1)"
      using x finish F t unfolding walCheckpoint_def f prod.case stop_def b Let_def w4_def by (auto split: if_splits)
    have k2: "ok (pWalFd w2)" "ok (pDbFd w2)" "content (pWalFd w2) = content (pWalFd w)" "content (pDbFd w2) = content (pDbFd w1)" "ckptLock w2"
      using K F by (simp_all add: files_kept_def)
    have k4: "ok (pWalFd w4)" "ok (pDbFd w4)" "content (pDbFd w4) = content (pDbFd w1)" "ckptLock w4"
      "eMode = SQLITE_CHECKPOINT_TRUNCATE \<or> content (pWalFd w4) = content (pWalFd w)"
      using k2 vfs_truncate [OF _ t] walRestartHdr_files [of be "rnd 4" w2] by (simp_all add: w4_def)
    have A: "after_lock w4 (walUnlockExclusive io w4 (WAL_READ_LOCK 1) (WAL_NREADER - 1))" by (rule after_walLock(3) [OF k4(1)])
    have "content (pDbFd w') = content (pDbFd w1)"
      using A k2 k4 unfolding r after_lock_def by (auto split: if_splits)
    then have "checkpointed w m k (pDbFd w')" using mk(1) unfolding checkpointed_def Let_def by simp
    moreover have "content (pWalFd w') = content (pWalFd w) \<or> eMode = SQLITE_CHECKPOINT_TRUNCATE \<and> rc2 = 0"
      using after_lockD(2) [OF A] k2 k4(5) F unfolding r by (auto split: if_splits)
    moreover have "exclusiveMode w = 0 \<longrightarrow> (\<forall>i \<in> {1..<WAL_NREADER}. \<not> held (pDbFd w) i)" if "rc2 = 0" using free that by blast
    ultimately show ?thesis using k by (intro exI [of _ m] exI [of _ k]) blast
  qed
qed

end

section \<open>Readers in other connections and processes\<close>

text \<open>A reader holds its mark as another connection of the process does, or another process. Before a lock is
  looked at the others act: they keep to the contract of the shared memory, and readers keep their marks.\<close>

definition reader_at :: "open_file \<Rightarrow> nat \<Rightarrow> bool" where
  "reader_at fd i \<longleftrightarrow> (\<exists>q. q \<noteq> fShm fd \<and> shm_holds (fShmNode fd) q (WAL_READ_LOCK i) False) \<or>
     (shmOpen (fShmNode fd) \<and> shmOthers (fShmNode fd) (WAL_READ_LOCK i + UNIX_SHM_BASE) \<noteq> Unlocked)"

definition unix_shm_lock :: "(open_file wal \<Rightarrow> open_file wal) \<Rightarrow> open_file wal \<Rightarrow> nat \<Rightarrow> nat \<Rightarrow> nat \<Rightarrow> nat \<times> open_file wal" where
  "unix_shm_lock peers pWal ofst n flags =
     (let pWal = peers pWal; fd = pDbFd pWal
      in case unixShmLock (fShmNode fd) (fShm fd) ofst n flags of (rc, nd) \<Rightarrow> (rc, pWal\<lparr>pDbFd := fd\<lparr>fShmNode := nd\<rparr>\<rparr>))"

definition peers_contract :: "(open_file wal \<Rightarrow> open_file wal) \<Rightarrow> bool" where
  "peers_contract peers \<longleftrightarrow>
     (\<forall>w. (file_ok (pWalFd w) \<longrightarrow> shm_law fContent file_ok quiet w (peers w)) \<and>
       (\<forall>i. reader_at (pDbFd w) i \<longrightarrow> reader_at (pDbFd (peers w)) i \<and> aReadMark (pInfo (peers w)) ! i = aReadMark (pInfo w) ! i))"

lemma shm_law_node:
  assumes "shm_law fContent file_ok quiet w v"
  shows "shm_law fContent file_ok quiet w (v\<lparr>pDbFd := (pDbFd v)\<lparr>fShmNode := nd\<rparr>\<rparr>)"
proof -
  let ?v = "v\<lparr>pDbFd := (pDbFd v)\<lparr>fShmNode := nd\<rparr>\<rparr>"
  have p: "walFramePgno ?v = walFramePgno v" by (rule walFramePgno_cong) simp
  have e: "v = w\<lparr>apWiData := apWiData v, pWalFd := pWalFd v, pDbFd := pDbFd v, aHdr := aHdr v, pInfo := pInfo v\<rparr>"
    using assms by (simp only: shm_law_def)
  have "?v = w\<lparr>apWiData := apWiData v, pWalFd := pWalFd v, pDbFd := (pDbFd v)\<lparr>fShmNode := nd\<rparr>, aHdr := aHdr v, pInfo := pInfo v\<rparr>"
    by (subst (1) e) simp
  moreover have "file_ok ((pDbFd v)\<lparr>fShmNode := nd\<rparr>) = file_ok (pDbFd v)" by (simp add: file_ok_def)
  ultimately show ?thesis using assms unfolding shm_law_def p by auto
qed

lemma peers_shm_contract: "peers_contract peers \<Longrightarrow> shm_contract (unix_shm_lock peers) peers"
  using shm_law_node by (auto simp: peers_contract_def shm_contract_def unix_shm_lock_def Let_def split: prod.splits)

text \<open>Input and output leave the shared memory alone.\<close>

definition shm_of :: "open_file \<Rightarrow> nat \<times> unixShmNode" where
  "shm_of p = (fShm p, fShmNode p)"

lemma shm_of_reader: "shm_of p' = shm_of p \<Longrightarrow> reader_at p' i = reader_at p i"
  by (simp add: shm_of_def reader_at_def)

lemma seekAndWriteFd_shm: "shm_of (snd (seekAndWriteFd k p off d)) = shm_of p"
  by (induction k p off d rule: seekAndWriteFd.induct) (auto simp: shm_of_def)

lemma unixWrite_loop_shm: "shm_of (snd (snd (unixWrite_loop p d off r))) = shm_of p"
proof (induction p d off r rule: unixWrite_loop.induct)
  case (1 p d off r)
  obtain n p1 where w: "seekAndWrite p off d = (n, p1)" by (rule prod.exhaust)
  have "shm_of p1 = shm_of p" using w seekAndWriteFd_shm [of "fAnswers p" p off] by (metis seekAndWrite_def snd_conv)
  then show ?case using 1 w by (subst unixWrite_loop.simps) auto
qed

lemma unixWrite_shm: "shm_of (snd (unixWrite p d off)) = shm_of p"
proof -
  define n where "n = (if off < fMmapSize p then fMmapSize p - off else 0)"
  define p0 where "p0 = p\<lparr>fContent := file_patch (fContent p) off (take n d)\<rparr>"
  obtain r rest p1 where l: "unixWrite_loop p0 (drop n d) (off + n) 0 = (r, rest, p1)" by (rule prod_cases3)
  have "shm_of p0 = shm_of p" by (simp add: p0_def shm_of_def)
  then have p1: "fShm p1 = fShm p \<and> fShmNode p1 = fShmNode p"
    using unixWrite_loop_shm [of p0 "drop n d" "off + n" 0] unfolding l by (simp add: shm_of_def)
  show ?thesis unfolding unixWrite_def Let_def n_def [symmetric] p0_def [symmetric] l prod.case
    using p1 by (simp add: shm_of_def)
qed

lemma unixSync_shm: "shm_of (snd (unixSync p)) = shm_of p"
  by (auto simp: unixSync_def shm_of_def split: list.splits syscall.splits)

lemma robust_ftruncate_shm: "shm_of (snd (robust_ftruncate k p n)) = shm_of p"
  by (induction k p n rule: robust_ftruncate.induct) (auto simp: shm_of_def)

lemma unixTruncate_shm: "shm_of (snd (unixTruncate p n)) = shm_of p"
proof -
  define m where "m = (if fChunk p > 0 then (n + fChunk p - 1) div fChunk p * fChunk p else n)"
  obtain e p1 where t: "robust_ftruncate (fAnswers p) p m = (e, p1)" by (rule prod.exhaust)
  have "fShm p1 = fShm p \<and> fShmNode p1 = fShmNode p"
    using robust_ftruncate_shm [of "fAnswers p" p m] unfolding t by (simp add: shm_of_def)
  then show ?thesis unfolding unixTruncate_def Let_def m_def [symmetric] t prod.case
    by (cases e) (simp_all add: shm_of_def)
qed

lemma unixFileSize_shm: "shm_of (snd (snd (unixFileSize p))) = shm_of p"
  by (auto simp: unixFileSize_def shm_of_def Let_def split: list.splits syscall.splits)

lemma unixMapfile_shm: "shm_of (snd (unixMapfile p (Some n))) = shm_of p"
  by (auto simp: unixMapfile_def unixRemapfile_def unixUnmapfile_def shm_of_def Let_def split: list.splits syscall.splits)

lemma write_blocks_shm: "shm_of (snd (snd (write_blocks p i n b r))) = shm_of p"
proof (induction p i n b r rule: write_blocks.induct)
  case (1 p i n b r)
  obtain m p1 where w: "seekAndWrite p i [0] = (m, p1)" by (rule prod.exhaust)
  have "shm_of p1 = shm_of p" using w seekAndWriteFd_shm [of "fAnswers p" p i] by (metis seekAndWrite_def snd_conv)
  then show ?case using 1 w by (subst write_blocks.simps) auto
qed

lemma extend_file_shm: "shm_of (snd (extend_file p n)) = shm_of p"
proof -
  let ?b = "fBlkSize p" and ?i = "(length (fContent p) + 2 * fBlkSize p - 1) div fBlkSize p * fBlkSize p - 1"
  obtain rc m p1 where w: "write_blocks p ?i n ?b 0 = (rc, m, p1)" by (rule prod_cases3)
  have p1: "shm_of p1 = shm_of p" using write_blocks_shm [of p ?i n ?b 0] w by simp
  have "shm_of (snd (seekAndWrite p1 (n - 1) [0])) = shm_of p" unfolding seekAndWrite_def seekAndWriteFd_shm p1 ..
  then show ?thesis using p1 w by (auto simp: extend_file_def Let_def split: prod.splits)
qed

lemma fcntlSizeHint_shm: "shm_of (snd (fcntlSizeHint p n)) = shm_of p"
proof -
  define p0 where "p0 = p\<lparr>fAnswers := tl (fAnswers p)\<rparr>"
  have p0: "shm_of p0 = shm_of p" by (simp add: p0_def shm_of_def)
  define known where "known = (case fAnswers p of Fail _ # k \<Rightarrow> False | _ \<Rightarrow> True)"
  have stat: "(case fAnswers p of Fail _ # k \<Rightarrow> (False, p\<lparr>fAnswers := k\<rparr>) | Done _ # k \<Rightarrow> (True, p\<lparr>fAnswers := k\<rparr>) | [] \<Rightarrow> (True, p)) =
      (known, p0)" by (cases p) (auto simp: known_def p0_def split: list.splits syscall.splits)
  obtain rc p1 where l: "(if fChunk p > 0 then
              case (case fAnswers p of Fail _ # k \<Rightarrow> (False, p\<lparr>fAnswers := k\<rparr>) | Done _ # k \<Rightarrow> (True, p\<lparr>fAnswers := k\<rparr>) | [] \<Rightarrow> (True, p)) of (known, pFile) \<Rightarrow>
                let nSize = (n + fChunk pFile - 1) div fChunk pFile * fChunk pFile
                in if \<not> known then (SQLITE_IOERR_FSTAT, pFile)
                   else if nSize > length (fContent pFile) then extend_file pFile nSize
                   else (0, pFile)
            else (0, p)) = (rc, p1)" by (rule prod.exhaust)
  have p1: "shm_of p1 = shm_of p"
    using l p0 extend_file_shm [of p0] unfolding stat prod.case Let_def by (auto split: if_splits) (metis snd_conv)+
  obtain e p2 where t: "(if fChunk p1 = 0 then robust_ftruncate (fAnswers p1) p1 n else (None, p1)) = (e, p2)" by (rule prod.exhaust)
  have p2: "shm_of p2 = shm_of p" using t p1 robust_ftruncate_shm [of "fAnswers p1" p1 n] by (auto split: if_splits)
  have p3: "shm_of (p2\<lparr>fErrno := x\<rparr>) = shm_of p" for x using p2 by (simp add: shm_of_def)
  show ?thesis unfolding fcntlSizeHint_def l prod.case t
    using p1 p2 p3 unixMapfile_shm [of p2 n] by (cases e) simp_all
qed

lemma unix_readers:
  assumes "peers_contract peers"
  shows "wal_readers (unix_io (unix_shm_lock peers) peers sector) fContent file_ok quiet reader_at"
proof (rule wal_readers.intro [OF unix_contract [OF peers_shm_contract [OF assms]]], unfold_locales, goal_cases)
  case (1 w i j n rc w')
  let ?v = "peers w"
  obtain rc1 nd where l: "unixShmLock (fShmNode (pDbFd ?v)) (fShm (pDbFd ?v)) (WAL_READ_LOCK j) n (2 + 8) = (rc1, nd)" by (rule prod.exhaust)
  have rc: "rc = rc1" using 1(5) l by (simp add: unix_io_def unix_shm_lock_def Let_def)
  have "reader_at (pDbFd ?v) i" using assms 1(1) by (simp add: peers_contract_def)
  then consider (own) q where "shm_holds (fShmNode (pDbFd ?v)) q (WAL_READ_LOCK i) False" |
    (others) "shmOpen (fShmNode (pDbFd ?v))" "shmOthers (fShmNode (pDbFd ?v)) (WAL_READ_LOCK i + UNIX_SHM_BASE) \<noteq> Unlocked"
    unfolding reader_at_def by blast
  then show ?case
  proof cases
    case own
    from unixShmLock_refused [OF own, of "WAL_READ_LOCK j" n] 1(2-4) l rc show ?thesis by simp
  next
    case others
    from unixShmLock_others [OF others _ _ l] 1(2,3) rc show ?thesis by simp
  qed
next
  case (2 w i a n f rc w')
  let ?v = "peers w"
  obtain rc1 nd where l: "unixShmLock (fShmNode (pDbFd ?v)) (fShm (pDbFd ?v)) a n f = (rc1, nd)" by (rule prod.exhaust)
  have w': "w' = ?v\<lparr>pDbFd := (pDbFd ?v)\<lparr>fShmNode := nd\<rparr>\<rparr>" using 2(2) l by (simp add: unix_io_def unix_shm_lock_def Let_def)
  have v: "reader_at (pDbFd ?v) i" "aReadMark (pInfo ?v) ! i = aReadMark (pInfo w) ! i"
    using assms 2(1) by (simp_all add: peers_contract_def)
  have "reader_at (pDbFd w') i" using v(1) unixShmLock_frame [OF l] unfolding w' reader_at_def shm_holds_def by auto
  then show ?case using v(2) by (simp add: w')
next
  case (3 k i d off n f)
  then show ?case
    using shm_of_reader [OF unixWrite_shm, of k d off] shm_of_reader [OF unixSync_shm, of k] shm_of_reader [OF unixTruncate_shm, of k n]
      shm_of_reader [OF fcntlSizeHint_shm, of k n] shm_of_reader [OF unixFileSize_shm, of k]
    by (simp add: unix_io_def)
qed

text \<open>The others may be at rest.\<close>

lemma rest_contract: "peers_contract alone_barrier"
  by (simp add: peers_contract_def alone_barrier_def shm_law_def)

interpretation shared: wal_readers "unix_io (unix_shm_lock alone_barrier) alone_barrier 4096" fContent file_ok quiet reader_at
  by (rule unix_readers [OF rest_contract])

text \<open>A checkpoint that is not passive has the lock of writers before it reads the header. Where the header is
  bad, reading it asks for the lock again, and a lock that the connection itself holds is refused: the
  log is not recovered, and the checkpoint reports that it is busy, although nobody else is there.\<close>

lemma header_not_recovered:
  assumes "shm_holds (fShmNode (pDbFd w)) (fShm (pDbFd w)) WAL_WRITE_LOCK True" "exclusiveMode w = 0" "\<not> shmReadOnly w"
    and "fst (aHdr w) \<noteq> snd (aHdr w)"
  shows "walIndexReadHdr be (unix_io (unix_shm_lock alone_barrier) alone_barrier sector) (\<lambda>h. 0) mem_ok w = (SQLITE_BUSY, False, w)"
proof -
  have "unixShmLock (fShmNode (pDbFd w)) (fShm (pDbFd w)) WAL_WRITE_LOCK 1 (2 + 8) = (SQLITE_BUSY, fShmNode (pDbFd w))"
    by (rule unixShmLock_refused [OF assms(1)]) simp_all
  then show ?thesis
    using assms(2-4) by (simp add: walIndexReadHdr_def walIndexTryHdr_def walShmBarrier_def alone_barrier_def Let_def walLockExclusive_def
        unix_io_def unix_shm_lock_def)
qed

lemma full_checkpoint_refused:
  fixes w :: "open_file wal"
  assumes "shm_inv (fShmNode (pDbFd w))" "fShm (pDbFd w) < length (pFirst (fShmNode (pDbFd w)))"
    and l: "unixShmLock (fShmNode (pDbFd w)) (fShm (pDbFd w)) WAL_CKPT_LOCK 1 SHM_LOCK_EXCLUSIVE = (0, n1)"
      "unixShmLock n1 (fShm (pDbFd w)) WAL_WRITE_LOCK 1 SHM_LOCK_EXCLUSIVE = (0, n2)"
    and w: "exclusiveMode w = 0" "\<not> shmReadOnly w" "fst (aHdr w) \<noteq> snd (aHdr w)" and "eMode \<noteq> SQLITE_CHECKPOINT_PASSIVE"
  shows "fst (sqlite3WalCheckpoint be (unix_io (unix_shm_lock alone_barrier) alone_barrier sector) (\<lambda>h. 0) rnd mem_ok m1 m2 False
      eMode [] fl nBuf w) = SQLITE_BUSY"
proof -
  let ?io = "unix_io (unix_shm_lock alone_barrier) alone_barrier sector"
  define w1 where "w1 = w\<lparr>pDbFd := (pDbFd w)\<lparr>fShmNode := n1\<rparr>, ckptLock := True\<rparr>"
  define w2 where "w2 = w\<lparr>pDbFd := (pDbFd w)\<lparr>fShmNode := n2\<rparr>, ckptLock := True, writeLock := True\<rparr>"
  have "shm_inv n1" using shm_excl_ok [OF assms(2) _ l(1) assms(1)] by simp
  moreover have "fShm (pDbFd w) < length (pFirst n1)" using assms(2) unixShmLock_frame(3) [OF l(1)] by simp
  ultimately have "shm_holds n2 (fShm (pDbFd w)) WAL_WRITE_LOCK True" using shm_excl_ok [OF _ _ l(2)] by simp
  then have r: "walIndexReadHdr be ?io (\<lambda>h. 0) mem_ok w2 = (SQLITE_BUSY, False, w2)"
    by (intro header_not_recovered) (use w in \<open>simp_all add: w2_def\<close>)
  have 1: "walLockExclusive ?io w WAL_CKPT_LOCK 1 = (0, w\<lparr>pDbFd := (pDbFd w)\<lparr>fShmNode := n1\<rparr>\<rparr>)"
    using l(1) w(1) by (simp add: walLockExclusive_def unix_io_def unix_shm_lock_def alone_barrier_def Let_def)
  have 2: "walBusyLock ?io [] WAL_WRITE_LOCK 1 w1 = (0, [], w1\<lparr>pDbFd := (pDbFd w)\<lparr>fShmNode := n2\<rparr>\<rparr>)"
    using l(2) w(1) by (simp add: walLockExclusive_def unix_io_def unix_shm_lock_def alone_barrier_def Let_def w1_def)
  have w12: "w\<lparr>pDbFd := (pDbFd w)\<lparr>fShmNode := n1\<rparr>\<rparr>\<lparr>ckptLock := True\<rparr> = w1" "w1\<lparr>pDbFd := (pDbFd w)\<lparr>fShmNode := n2\<rparr>\<rparr>\<lparr>writeLock := True\<rparr> = w2"
    by (simp_all add: w1_def w2_def)
  show ?thesis
    unfolding sqlite3WalCheckpoint_def Let_def 1 prod.case w12 2 using assms(8) by (simp add: w12 r)
qed

section \<open>Snapshots\<close>

text \<open>The page of a snapshot, by the frames that \<^verbatim>\<open>w\<close> has and the files as they are in \<^verbatim>\<open>w'\<close>; the last frame that
  a reader sees.\<close>

definition sees :: "open_file wal \<Rightarrow> open_file wal \<Rightarrow> nat \<Rightarrow> nat \<Rightarrow> bytes" where
  "sees w w' n p = snapshot (walPagesize w) (walFramePgno w) (fContent (pWalFd w')) (fContent (pDbFd w')) n p"

definition reader_frame :: "open_file wal \<Rightarrow> nat \<Rightarrow> nat" where
  "reader_frame w i = (if i = 0 then 0 else aReadMark (pInfo w) ! i)"

definition reader_sees :: "open_file wal \<Rightarrow> nat \<Rightarrow> nat \<Rightarrow> bool" where
  "reader_sees w i p \<longleftrightarrow> i < WAL_NREADER \<and> reader_at (pDbFd w) i \<and> 0 < p \<and>
     (i = 0 \<or> nBackfill (pInfo w) \<le> reader_frame w i \<and>
       (reader_frame w i < mxFrame (hdr w) \<or> reader_frame w i = mxFrame (hdr w) \<and> p \<le> unat (nPage (hdr w))))"

lemma walCheckpoint_snapshots:
  assumes "peers_contract peers" and start: "done_before fContent file_ok w" and e: "exclusiveMode w = 0"
    and x: "walCheckpoint be (unix_io (unix_shm_lock peers) peers sector) pg rnd m1 m2 eMode xB fl w = (rc, w')"
  shows "reader_sees w i p \<Longrightarrow> sees w w' (reader_frame w i) p = sees w w (reader_frame w i) p"
    and "0 < p \<Longrightarrow> p \<le> unat (nPage (hdr w)) \<Longrightarrow> db_page (walPagesize w) (fContent (pDbFd w')) p = sees w w (mxFrame (hdr w)) p \<or>
      (rc \<noteq> 0 \<or> eMode = SQLITE_CHECKPOINT_PASSIVE) \<and> sees w w' (mxFrame (hdr w)) p = sees w w (mxFrame (hdr w)) p"
proof -
  let ?N = "mxFrame (hdr w)" and ?P = "walFramePgno w" and ?sz = "walPagesize w" and ?nb = "nBackfill (pInfo w)" and ?np = "unat (nPage (hdr w))"
  obtain m k where mk: "wal_readers.checkpointed fContent reader_at w m k (pDbFd w')" "rc = 0 \<and> eMode \<noteq> SQLITE_CHECKPOINT_PASSIVE \<longrightarrow> k = ?N"
    "fContent (pWalFd w') = fContent (pWalFd w) \<or>
      k = ?N \<and> (\<forall>i \<in> {1..<WAL_NREADER}. \<not> reader_at (pDbFd w) i)"
    using wal_readers.walCheckpoint_ok [OF unix_readers [OF assms(1)] start x] e by blast
  note C = mk(1) [unfolded wal_readers.checkpointed_def [OF unix_readers [OF assms(1)]] Let_def]
  let ?f = "frame_of ?P ?N p" and ?db = "fContent (pDbFd w)" and ?db' = "fContent (pDbFd w')"
  have diff: "0 < p \<Longrightarrow> p \<le> ?np \<or> m < ?N \<Longrightarrow> db_page ?sz ?db' p \<noteq> db_page ?sz ?db p \<Longrightarrow> ?nb < ?f \<and> ?f \<le> m"
    using C by blast
  show "sees w w' (reader_frame w i) p = sees w w (reader_frame w i) p" if r: "reader_sees w i p"
  proof (cases "i = 0")
    case True
    then have "?db' = ?db" using C e r by (simp add: reader_sees_def)
    moreover have "frame_of ?P 0 p = 0" by (auto simp: frame_of_0)
    ultimately show ?thesis using True by (simp add: sees_def snapshot_def reader_frame_def)
  next
    case False
    let ?n = "reader_frame w i"
    have i: "i \<in> {1..<WAL_NREADER}" "reader_at (pDbFd w) i" "0 < p" "?nb \<le> ?n" "?n \<le> ?N" "?n < ?N \<or> p \<le> ?np"
      using r False by (auto simp: reader_sees_def)
    have log: "fContent (pWalFd w') = fContent (pWalFd w)" using mk(3) i(1,2) by blast
    have "m \<le> max ?nb (aReadMark (pInfo w) ! i)" using C e i(1,2) by blast
    then have m: "m \<le> ?n" using i(4) False by (simp add: reader_frame_def)
    have "db_page ?sz ?db' p = db_page ?sz ?db p" if "frame_of ?P ?n p = 0"
    proof (rule ccontr)
      assume "db_page ?sz ?db' p \<noteq> db_page ?sz ?db p"
      then have f: "?nb < ?f" "?f \<le> m" using diff i(3,6) m by auto
      then have "frame_of ?P ?n p = ?f" using frame_of_mono [of ?P ?N p ?n] i(5) m by simp
      then show False using that f(1) by simp
    qed
    then show ?thesis using log by (simp add: sees_def snapshot_def)
  qed
  show "db_page ?sz ?db' p = sees w w ?N p \<or> (rc \<noteq> 0 \<or> eMode = SQLITE_CHECKPOINT_PASSIVE) \<and> sees w w' ?N p = sees w w ?N p"
    if p: "0 < p" "p \<le> ?np"
  proof (cases "k = ?N")
    case True
    have "db_page ?sz ?db' p = sees w w ?N p"
    proof (cases "?f = 0")
      case True
      then show ?thesis using diff p by (auto simp: sees_def snapshot_def)
    next
      case False
      then have "db_page ?sz ?db' p = log_page ?sz (fContent (pWalFd w)) ?f"
        using C p \<open>k = ?N\<close> frame_of_le [of ?P ?N p] unfolding backfilled_def by blast
      then show ?thesis using False by (simp add: sees_def snapshot_def)
    qed
    then show ?thesis ..
  next
    case False
    then have log: "fContent (pWalFd w') = fContent (pWalFd w)" using mk(3) by blast
    have rc: "rc \<noteq> 0 \<or> eMode = SQLITE_CHECKPOINT_PASSIVE" using mk(2) False by auto
    have "db_page ?sz ?db' p = db_page ?sz ?db p" if "?f = 0" using diff p that by auto
    then show ?thesis using log rc by (simp add: sees_def snapshot_def)
  qed
qed

text \<open>C6. Snapshots survive a checkpoint. Let the frames that count as copied be in the database, and
  let the other connections and processes keep to the contract of the shared memory. Whatever the
  mode, the answers of the busy handler, the failures of the kernel and the result, every page that a
  reader sees who holds one of the read locks is the same after the checkpoint: its mark is not
  passed, the log is not cut off under it, and a reader of the bare database keeps that. A page of the
  latest snapshot is in the database then, or the checkpoint is passive or reports that it is not
  complete, and the page is still seen through the log.\<close>

theorem checkpoint_keeps_snapshots:
  assumes "peers_contract peers" "done_before fContent file_ok w" "exclusiveMode w = 0"
    and "walCheckpoint be (unix_io (unix_shm_lock peers) peers sector) pg rnd m1 m2 eMode xB fl w = (rc, w')"
  shows "(\<forall>i p. reader_sees w i p \<longrightarrow> sees w w' (reader_frame w i) p = sees w w (reader_frame w i) p) \<and>
    (\<forall>p. 0 < p \<and> p \<le> unat (nPage (hdr w)) \<longrightarrow> db_page (walPagesize w) (fContent (pDbFd w')) p = sees w w (mxFrame (hdr w)) p \<or>
      (rc \<noteq> 0 \<or> eMode = SQLITE_CHECKPOINT_PASSIVE) \<and> sees w w' (mxFrame (hdr w)) p = sees w w (mxFrame (hdr w)) p)"
  using walCheckpoint_snapshots [OF assms] by blast

text \<open>Two frames, of page 2 and of page 1; another connection reads the first one only.\<close>

definition example_checkpoint :: "open_file wal" where
  "example_checkpoint =
     (let h = zero_hdr\<lparr>mxFrame := 2, nPage := 2, hdr_szPage := 512\<rparr>;
          w = snd (walIndexAppend (\<lambda>h. 0) (example_wal []) 1 2);
          w = snd (walIndexAppend (\<lambda>h. 0) w 2 1)
      in (example_wal [])\<lparr>apWiData := apWiData w, hdr := h, aHdr := (h, h), ckptLock := True, writeLock := False,
           pInfo := \<lparr>nBackfill = 0, aReadMark = [0, 1, 2, 0, 0]\<rparr>,
           pWalFd := example_file (replicate (32 + 24) 0 @ replicate 512 7 @ replicate 24 0 @ replicate 512 9),
           pDbFd := (example_file (replicate 1024 1))\<lparr>fShmNode :=
             shm_alone\<lparr>pFirst := [\<lparr>sharedMask = 0, exclMask = 2\<rparr>, \<lparr>sharedMask = 16, exclMask = 0\<rparr>]\<rparr>\<rparr>\<rparr>)"

lemma checkpoint_keeps_snapshots_witness:
  "let w' = snd (walCheckpoint False (unix_io (unix_shm_lock alone_barrier) alone_barrier 4096) (\<lambda>h. 0) (\<lambda>n. replicate n 7) True True
        SQLITE_CHECKPOINT_TRUNCATE [True, False] 2 example_checkpoint)
   in sees example_checkpoint w' 1 1 = sees example_checkpoint example_checkpoint 1 1 \<and>
      sees example_checkpoint w' 1 2 = sees example_checkpoint example_checkpoint 1 2"
proof -
  let ?w = example_checkpoint
  let ?x = "walCheckpoint False (unix_io (unix_shm_lock alone_barrier) alone_barrier 4096) (\<lambda>h. 0) (\<lambda>n. replicate n 7) True True
      SQLITE_CHECKPOINT_TRUNCATE [True, False] 2 ?w"
  have w: "hdr ?w = zero_hdr\<lparr>mxFrame := 2, nPage := 2, hdr_szPage := 512\<rparr>" "nBackfill (pInfo ?w) = 0" "ckptLock ?w" "exclusiveMode ?w = 0"
    "mxFrame (fst (aHdr ?w)) = 2" "aReadMark (pInfo ?w) ! 1 = 1"
    by (simp_all add: example_checkpoint_def example_wal_def Let_def)
  have f: "file_ok (pWalFd ?w)" "file_ok (pDbFd ?w)"
    by (simp_all add: example_checkpoint_def example_file_def file_ok_def Let_def)
  have "shm_holds (fShmNode (pDbFd ?w)) 1 (WAL_READ_LOCK 1) False" "fShm (pDbFd ?w) = 0"
    by (simp_all add: example_checkpoint_def example_file_def Let_def shm_holds_def bit_numeral_rec)
  then have at: "reader_at (pDbFd ?w) 1" unfolding reader_at_def by (metis zero_neq_one)
  have start: "done_before fContent file_ok ?w"
    unfolding done_before_def using w f by (auto simp: backfilled_def)
  have r: "reader_frame ?w 1 = 1" "reader_sees ?w 1 1" "reader_sees ?w 1 2"
    using w at by (simp_all add: reader_sees_def reader_frame_def)
  from checkpoint_keeps_snapshots [OF rest_contract start w(4), of False 4096 "\<lambda>h. 0" "\<lambda>n. replicate n 7" True True
      SQLITE_CHECKPOINT_TRUNCATE "[True, False]" 2 "fst ?x" "snd ?x"]
  show ?thesis using r unfolding Let_def by (metis prod.collapse)
qed

end
