(* ===== verification/Spec2Isabelle.thy ===== *)
theory Spec2Isabelle
  imports Varint Ctype HashTable IntUtil Mem Serial RecordFormat Column RecordCompare Vdbe VdbeCompare VdbeControl VdbeRun Bitvec PageSets
    UnixLock UnixLockInv UnixLockRun RowSet WalIndex UnixFile WalFrame WalRecover WalRead WalWrite WalDurable WalRun
    UnixShm WalIter WalCheckpoint
begin

text \<open>
  A verification library for the C code of SQPyte, a fork of SQLite 3.8.8.2
  (\<^verbatim>\<open>src/sqlite/src\<close>) whose virtual machine opcodes are separate functions,
  \<^verbatim>\<open>impl_OP_*\<close> of \<^verbatim>\<open>sqpyte.c\<close>, called by an interpreter in RPython.

  \<^bold>\<open>The program.\<close> SQL text is compiled to a program for a register machine, the VDBE. Its
  registers are memory cells holding SQL values; rows are stored as records, byte strings in a
  self-describing format built from variable-length integers and typed fields, and are compared
  with search keys field by field. Names are kept in hash tables keyed without regard to case,
  and integer arithmetic, text conversion and logarithmic cost estimates are utility routines
  used throughout. Below the machine, a database file is shared by connections and processes
  under file locks, and a transaction is appended to a write-ahead log that all of them index in
  shared memory; the pager and the B-tree keep sets of page numbers, and the machine keeps
  sets of row numbers, in structures of their own.

  \<^bold>\<open>The theories\<close>, in the order in which they build on each other:
  \<^item> \<^theory_text>\<open>Prelude\<close>: machine words, buffers with checked reads, bit lemmas.
  \<^item> \<^theory_text>\<open>Varint\<close> (\<^verbatim>\<open>util.c\<close>): the variable-length integers, \<^verbatim>\<open>sqlite3GetVarint\<close>,
    \<^verbatim>\<open>sqlite3PutVarint\<close> and their 32-bit forms, against a reference decoder.
  \<^item> \<^theory_text>\<open>Ctype\<close> (\<^verbatim>\<open>global.c\<close>, \<^verbatim>\<open>util.c\<close>): character classes, case-insensitive comparison,
    removal of quotes, from the tables of the source.
  \<^item> \<^theory_text>\<open>HashTable\<close> (\<^verbatim>\<open>hash.c\<close>): the table with its list of elements and buckets; it
    refines a finite map on case-folded names. The locale \<^verbatim>\<open>name_map\<close> is the interface its
    clients use, interpreted on the table.
  \<^item> \<^theory_text>\<open>IntUtil\<close> (\<^verbatim>\<open>util.c\<close>): overflow-checked arithmetic, decimal and hexadecimal text,
    logarithmic estimates.
  \<^item> \<^theory_text>\<open>Mem\<close> (\<^verbatim>\<open>vdbeInt.h\<close>, \<^verbatim>\<open>vdbemem.c\<close>, \<^verbatim>\<open>vdbeaux.c\<close>): the memory cell, doubles as bit
    patterns, the order on cells. \<^const>\<open>mem_value\<close> is the SQL value a cell stands for.
  \<^item> \<^theory_text>\<open>Serial\<close>, \<^theory_text>\<open>RecordFormat\<close>, \<^theory_text>\<open>Column\<close>, \<^theory_text>\<open>RecordCompare\<close> (\<^verbatim>\<open>vdbeaux.c\<close>, \<^verbatim>\<open>sqpyte.c\<close>):
    the typed fields of a record, \<^verbatim>\<open>OP_MakeRecord\<close> and the unpacking of records, \<^verbatim>\<open>OP_Column\<close>
    with its cached header, and the comparison of a record with a key. \<^const>\<open>record_of\<close> is the
    documented format; each routine is related to it, so that they compose: what one writes
    another reads and a third orders.
  \<^item> \<^theory_text>\<open>Vdbe\<close>, \<^theory_text>\<open>VdbeCompare\<close>, \<^theory_text>\<open>VdbeControl\<close>, \<^theory_text>\<open>VdbeRun\<close> (\<^verbatim>\<open>sqpyte.c\<close>, \<^verbatim>\<open>vdbe.c\<close>):
    the register machine. An opcode is a function from the machine to a machine and an address,
    an error, or nothing when it would leave the register file. \<^const>\<open>vdbe_step\<close> is one turn of
    the interpreter loop, and \<^const>\<open>vdbe_reach\<close> its closure.
  \<^item> \<^theory_text>\<open>Bitvec\<close>, \<^theory_text>\<open>PageSets\<close> (\<^verbatim>\<open>bitvec.c\<close>, \<^verbatim>\<open>pager.c\<close>, \<^verbatim>\<open>btree.c\<close>): sets of page numbers as a tree
    of bitmaps and hash tables, and their clients: the savepoints of the pager, and the pages the
    B-tree has freed. The locale \<^verbatim>\<open>page_set\<close> is the interface between them.
  \<^item> \<^theory_text>\<open>UnixLock\<close>, \<^theory_text>\<open>UnixLockInv\<close>, \<^theory_text>\<open>UnixLockRun\<close> (\<^verbatim>\<open>os_unix.c\<close>): the locks of a database file,
    from the record locks of the kernel, for any number of processes and of connections in each;
    the locale \<^verbatim>\<open>posix_locks\<close> states what the system calls promise.
    \<^const>\<open>lock_run\<close> is the set of states that the calls can reach, failures included.
  \<^item> \<^theory_text>\<open>RowSet\<close> (\<^verbatim>\<open>rowset.c\<close>): sets of row numbers, sorted by merging, with a forest of trees for
    the membership tests between batches of insertions.
  \<^item> \<^theory_text>\<open>WalIndex\<close> (\<^verbatim>\<open>wal.c\<close>): the index of the write-ahead log in shared memory, a sequence of
    hash tables; \<^const>\<open>idx_ok\<close> relates it to the list of the pages of the frames.
  \<^item> \<^theory_text>\<open>UnixShm\<close> (\<^verbatim>\<open>os_unix.c\<close>): the locks of a segment of shared memory, from the masks of the
    connections of a process and the locks of the processes. \<^const>\<open>shm_step\<close> is a call of any
    connection, or another process changing its locks.
  \<^item> \<^theory_text>\<open>UnixFile\<close> (\<^verbatim>\<open>os_unix.c\<close>): reading, writing, synchronizing, truncating and mapping an open
    file over a kernel that answers a call in part, fails, or is interrupted.
  \<^item> \<^theory_text>\<open>WalFrame\<close>, \<^theory_text>\<open>WalRecover\<close>, \<^theory_text>\<open>WalRead\<close>, \<^theory_text>\<open>WalWrite\<close> (\<^verbatim>\<open>wal.c\<close>): checksums and frames, the
    recovery of the index from a log, read transactions with their marks, and write transactions
    with padding, rollback and savepoints. \<^const>\<open>log_frames\<close> is the documented format of a log.
    The locale \<^verbatim>\<open>wal_vfs\<close> states what the log relies on of the methods of a file and of the locks.
  \<^item> \<^theory_text>\<open>WalDurable\<close>, \<^theory_text>\<open>WalRun\<close>: the methods of \<^theory_text>\<open>UnixFile\<close> keep that contract; crashes and
    recovery; the runs of writers beside a reader.
  \<^item> \<^theory_text>\<open>WalIter\<close>, \<^theory_text>\<open>WalCheckpoint\<close> (\<^verbatim>\<open>wal.c\<close>): the iterator that yields the last frame of every page
    in the order of pages, and checkpoints. The locale \<^verbatim>\<open>wal_readers\<close> extends \<^verbatim>\<open>wal_vfs\<close> by readers
    whose marks cannot be locked; it is interpreted on the locks of \<^theory_text>\<open>UnixShm\<close> and the files of
    \<^theory_text>\<open>UnixFile\<close>. \<^const>\<open>snapshot\<close> is the page that a reader finds.

  \<^bold>\<open>What is shown.\<close> Codecs round-trip (varints, serial types, records, quoting, hexadecimal
  text); optimised routines equal their reference (the varint readers, the record comparison
  with its fast paths); the hash table refines a map; arithmetic is exact or diverted to
  floating point, with one family of exceptions; the comparison opcodes implement three-valued
  logic over the order in which records are compared, and \<^verbatim>\<open>OP_Compare\<close> follows that order but on
  zero-filled blobs, whose tail it does not see; logarithmic estimates keep their order at 16 bits; the machine's control transfers keep
  their contracts over arbitrary runs. The sets of pages and of rows refine sets, also when an
  allocation fails; no run of lock and unlock calls lets two connections write, or one
  write while another reads, as long as the handles of a process do not mix read-only ones with
  the exclusive mode and no downgrade to the shared level has failed. What has been committed to the log is found again by recovery
  after a crash, on a host of either byte order, and a reader keeps its snapshot whatever later
  writers and checkpoints do.

  \<^bold>\<open>Conventions.\<close> A read past the end of a buffer, undefined in C, is \<^const>\<open>None\<close>. Integers
  that can wrap are words or carry the wrap-around in the definition. Loops are structural or
  carry a termination proof. Fuel is only in the step counts of runs, which are existential; in
  the depth of a bit vector, at most 9 levels since every level divides the 32-bit size by 62;
  and in the loops over a row set, bounded by its number of entries. Floating point arithmetic, the conversion of text to a double
  (\<^verbatim>\<open>sqlite3AtoF\<close>) and of a number to text come as the parameter \<^typ>\<open>env\<close>, collating
  sequences as \<^typ>\<open>collseq\<close>, and the theorems hold for all of them. Allocation succeeds
  except where an argument says otherwise; an \<^typ>\<open>allocator\<close> answers each request, and the
  theorems on bit vectors hold for every one. The system calls on locks are parameters, which
  may fail; those on files are answered by a list that the theorems leave open. In the log, the
  result of mapping a block of the index (\<^verbatim>\<open>walIndexPage\<close>), random bytes (\<^verbatim>\<open>rnd\<close>), the byte order of
  the host (\<^verbatim>\<open>be\<close>) and the methods of the operating system (\<^verbatim>\<open>io\<close>) are parameters; frame numbers
  are unbounded. A busy handler is the list of its answers. During a checkpoint the other
  connections act whenever a lock is taken or dropped, as a parameter (\<^verbatim>\<open>peers\<close>) that keeps to
  the contract of the shared memory. A crash loses all memory and keeps what has been written to the file: the
  reordering of writes in caches below the kernel is not in the model.

  \<^bold>\<open>Not modelled.\<close> The B-tree, pager, rollback journal, page cache and operating system layers
  beside the above; opening and closing of the log; the opcodes that need them; the SQL front end, whose code generation works on large mutable
  parse trees; user functions, dates and formatted output; extensions, the shell and the tests.
\<close>

end
